(* ===== verification/Prelude.thy ===== *)
theory Prelude
  imports Main "HOL-Library.Word"
begin

text \<open>
  Shared vocabulary of the development: machine words, unsigned arithmetic of the widths the
  C code uses (with the wrap-around written out), byte memories with block reads and writes
  (\<open>memcpy\<close>), the faults a C call can end in, and the lemma collections the component
  theories draw on.
\<close>

unbundle bit_operations_syntax

named_theorems wrap \<open>removal of unsigned wrap-around under a bound\<close>
named_theorems mem \<open>block reads and writes of byte memories\<close>
named_theorems const \<open>the numeric constants of the headers\<close>

section \<open>Machine types\<close>

type_synonym byte = "8 word"
type_synonym mem = "nat \<Rightarrow> byte"
type_synonym ptr = nat

text \<open>
  A C call that does not return normally: it leaves the language (undefined behaviour) or
  waits for ever. Functions that can do so return \<open>fault + 'a\<close>.
\<close>

datatype fault = BufferOverflow | OutOfBounds | NullDeref | Deadlock | DivByZero

section \<open>Unsigned arithmetic\<close>

definition u32 :: "nat \<Rightarrow> nat" where "u32 n = n mod 2 ^ 32"
definition u64 :: "nat \<Rightarrow> nat" where "u64 n = n mod 2 ^ 64"
definition sub64 :: "nat \<Rightarrow> nat \<Rightarrow> nat" where "sub64 a b = (a + (2 ^ 64 - b mod 2 ^ 64)) mod 2 ^ 64"
definition sub32 :: "nat \<Rightarrow> nat \<Rightarrow> nat" where "sub32 a b = (a + (2 ^ 32 - b mod 2 ^ 32)) mod 2 ^ 32"

lemma u32_id [wrap]: "n < 2 ^ 32 \<Longrightarrow> u32 n = n"
  by (simp add: u32_def)

lemma u64_id [wrap]: "n < 2 ^ 64 \<Longrightarrow> u64 n = n"
  by (simp add: u64_def)

lemma u32_less [simp]: "u32 n < 2 ^ 32"
  by (simp add: u32_def)

lemma u64_less [simp]: "u64 n < 2 ^ 64"
  by (simp add: u64_def)

lemma u64_le: "u64 n \<le> n"
  by (simp add: u64_def)

lemma u32_le: "u32 n \<le> n"
  by (simp add: u32_def)

lemma sub64_id [wrap]: "b \<le> a \<Longrightarrow> a < 2 ^ 64 \<Longrightarrow> sub64 a b = a - b"
proof -
  assume ba: "b \<le> a" and a: "a < 2 ^ 64"
  then have "b mod 2 ^ 64 = b" by simp
  with ba a have "a + (2 ^ 64 - b mod 2 ^ 64) = (a - b) + 2 ^ 64" by simp
  moreover have "(a - b + 2 ^ 64) mod 2 ^ 64 = a - b" using a by simp
  ultimately show ?thesis by (simp only: sub64_def)
qed

lemma sub32_id [wrap]: "b \<le> a \<Longrightarrow> a < 2 ^ 32 \<Longrightarrow> sub32 a b = a - b"
proof -
  assume ba: "b \<le> a" and a: "a < 2 ^ 32"
  then have "b mod 2 ^ 32 = b" by simp
  with ba a have "a + (2 ^ 32 - b mod 2 ^ 32) = (a - b) + 2 ^ 32" by simp
  moreover have "(a - b + 2 ^ 32) mod 2 ^ 32 = a - b" using a by simp
  ultimately show ?thesis by (simp only: sub32_def)
qed

section \<open>Byte memories\<close>

text \<open>\<open>memcpy\<close> into and out of a memory region.\<close>

definition write_bytes :: "mem \<Rightarrow> nat \<Rightarrow> byte list \<Rightarrow> mem" where
  "write_bytes m off bs =
     (\<lambda>i. if off \<le> i \<and> i < off + length bs then bs ! (i - off) else m i)"

definition read_bytes :: "mem \<Rightarrow> nat \<Rightarrow> nat \<Rightarrow> byte list" where
  "read_bytes m off n = map m [off ..< off + n]"

lemma length_read_bytes [simp]: "length (read_bytes m off n) = n"
  by (simp add: read_bytes_def)

lemma read_bytes_nth [simp]: "i < n \<Longrightarrow> read_bytes m off n ! i = m (off + i)"
  by (simp add: read_bytes_def)

lemma read_bytes_0 [simp]: "read_bytes m off 0 = []"
  by (simp add: read_bytes_def)

lemma write_bytes_Nil [simp]: "write_bytes m off [] = m"
  by (rule ext) (use linorder_not_le in \<open>auto simp add: write_bytes_def\<close>)

lemma write_bytes_in [mem]:
  "off \<le> i \<Longrightarrow> i < off + length bs \<Longrightarrow> write_bytes m off bs i = bs ! (i - off)"
  by (simp add: write_bytes_def)

lemma write_bytes_out [mem]:
  "i < off \<or> off + length bs \<le> i \<Longrightarrow> write_bytes m off bs i = m i"
  by (auto simp add: write_bytes_def)

lemma read_write_same [mem]: "n = length bs \<Longrightarrow> read_bytes (write_bytes m off bs) off n = bs"
  by (rule nth_equalityI) (simp_all add: write_bytes_def)

lemma read_write_disjoint [mem]:
  "o2 + n \<le> off \<or> off + length bs \<le> o2 \<Longrightarrow>
   read_bytes (write_bytes m off bs) o2 n = read_bytes m o2 n"
  by (rule nth_equalityI) (auto simp add: write_bytes_def)

lemma read_bytes_cong:
  "(\<And>i. off \<le> i \<Longrightarrow> i < off + n \<Longrightarrow> m i = m' i) \<Longrightarrow> read_bytes m off n = read_bytes m' off n"
  by (simp add: read_bytes_def)

lemma read_bytes_append:
  "read_bytes m off (a + b) = read_bytes m off a @ read_bytes m (off + a) b"
proof -
  have "[off ..< off + (a + b)] = [off ..< off + a] @ [off + a ..< off + a + b]"
    by (metis add.assoc le_add1 upt_add_eq_append)
  then show ?thesis by (simp add: read_bytes_def)
qed

lemma write_bytes_append:
  "write_bytes m off (xs @ ys) = write_bytes (write_bytes m off xs) (off + length xs) ys"
  by (auto simp: fun_eq_iff write_bytes_def nth_append)

lemma take_read_bytes: "k \<le> n \<Longrightarrow> take k (read_bytes m off n) = read_bytes m off k"
  by (rule nth_equalityI) simp_all

section \<open>Lists\<close>

lemma sum_list_take_le: "sum_list (take k xs) \<le> sum_list (xs :: nat list)"
  by (metis append_take_drop_id le_add1 sum_list_append)

lemma sum_list_take_mono: "a \<le> b \<Longrightarrow> sum_list (take a xs) \<le> sum_list (take b (xs :: nat list))"
proof -
  assume "a \<le> b"
  then have "take a xs = take a (take b xs)" by simp
  then show ?thesis by (metis sum_list_take_le)
qed

lemma sum_list_nth_le: "i < length xs \<Longrightarrow> xs ! i \<le> sum_list (xs :: nat list)"
  by (simp add: member_le_sum_list)

section \<open>Arithmetic and bounded quantifiers\<close>

lemma cell_div_mod:
  "r < w \<Longrightarrow> (c * w + r) div w = (c :: nat)" "r < w \<Longrightarrow> (c * w + r) mod w = (r :: nat)"
  by simp_all

lemma distinct_take_inj:
  "distinct (take n xs) \<Longrightarrow> n \<le> length xs \<Longrightarrow> i < n \<Longrightarrow> j < n \<Longrightarrow> xs ! i = xs ! j \<Longrightarrow> i = j"
  by (metis length_take min.absorb2 nth_eq_iff_index_eq nth_take)

lemma sum_list_bound: "\<forall>r \<in> set rs. r \<le> m \<Longrightarrow> sum_list rs \<le> length rs * (m :: nat)"
  by (induction rs) auto

lemma sum_list_le_pointwise:
  "length xs = length ys \<Longrightarrow> (\<And>i. i < length ys \<Longrightarrow> xs ! i \<le> ys ! i) \<Longrightarrow> sum_list xs \<le> sum_list (ys :: nat list)"
  by (simp add: sum_list_sum_nth) (rule sum_mono, simp)

lemma all_less_2: "(\<forall>i < (2 :: nat). P i) \<longleftrightarrow> P 0 \<and> P 1"
  by (auto simp: less_2_cases_iff)

end
