(* ===== verification/Common.thy ===== *)
theory Common
  imports Prelude "HOL-Library.Product_Lexorder"
begin

text \<open>
  \<^verbatim>\<open>src/src/common.h\<close>: the constants, the enumerations with their printed names, the
  number parsers and the small arithmetic helpers every other file uses.
\<close>

section \<open>Constants\<close>

definition SECTOR_SIZE :: nat where [const]: "SECTOR_SIZE = 512"
definition DEFAULT_STRIPE_UNIT :: nat where [const]: "DEFAULT_STRIPE_UNIT = 1024 * 1024"
definition MAX_DISKS :: nat where [const]: "MAX_DISKS = 4"
definition MAX_IO_ENTRIES :: nat where [const]: "MAX_IO_ENTRIES = MAX_DISKS * 64"
definition MIN_DISKS :: nat where [const]: "MIN_DISKS = 2"
definition MIN_MIRROR_DISKS :: nat where [const]: "MIN_MIRROR_DISKS = 2"
definition RAID_LEVEL_STRIPE :: nat where [const]: "RAID_LEVEL_STRIPE = 0"
definition RAID_LEVEL_MIRROR :: nat where [const]: "RAID_LEVEL_MIRROR = 1"
definition CACHE_DEFAULT_MB :: nat where [const]: "CACHE_DEFAULT_MB = 4096"
definition CACHE_BLOCK_SIZE :: nat where [const]: "CACHE_BLOCK_SIZE = 64 * 1024"
definition POOL_SIZE_DEFAULT_MB :: nat where [const]: "POOL_SIZE_DEFAULT_MB = 51200"
definition BENCH_SIZE_MB :: nat where [const]: "BENCH_SIZE_MB = 512"
definition MAX_FLUSH_BATCH :: nat where [const]: "MAX_FLUSH_BATCH = 256"
definition MAX_FLUSH_SIZE :: nat where [const]: "MAX_FLUSH_SIZE = MAX_FLUSH_BATCH * CACHE_BLOCK_SIZE"

section \<open>Enumerations\<close>

datatype RAID_STATE =
    STATE_DISCONNECTED
  | STATE_DISCOVERED
  | STATE_INITIALIZED
  | STATE_MOUNTED
  | STATE_DEGRADED
  | STATE_RECOVERING
  | STATE_UNMOUNTED

fun raid_state_str :: "RAID_STATE \<Rightarrow> string" where
  "raid_state_str STATE_DISCONNECTED = ''DISCONNECTED''"
| "raid_state_str STATE_DISCOVERED = ''DISCOVERED''"
| "raid_state_str STATE_INITIALIZED = ''INITIALIZED''"
| "raid_state_str STATE_MOUNTED = ''MOUNTED''"
| "raid_state_str STATE_DEGRADED = ''DEGRADED''"
| "raid_state_str STATE_RECOVERING = ''RECOVERING''"
| "raid_state_str STATE_UNMOUNTED = ''UNMOUNTED''"

datatype RC =
    RC_OK
  | RC_ERR_GENERIC
  | RC_ERR_INVALID_STATE
  | RC_ERR_INVALID_ARG
  | RC_ERR_INVALID_DISK
  | RC_ERR_IO
  | RC_ERR_METADATA
  | RC_ERR_CACHE
  | RC_ERR_MOUNT
  | RC_ERR_NOT_FOUND
  | RC_ERR_ALREADY
  | RC_ERR_NO_SPACE
  | RC_ERR_ROLLBACK

datatype DISK_TYPE =
    DISK_TYPE_UNKNOWN
  | DISK_TYPE_SATA_SSD
  | DISK_TYPE_NVME_SSD
  | DISK_TYPE_HDD
  | DISK_TYPE_RAMDISK
  | DISK_TYPE_FILEBACKED

fun disk_type_str :: "DISK_TYPE \<Rightarrow> string" where
  "disk_type_str DISK_TYPE_SATA_SSD = ''SATA SSD''"
| "disk_type_str DISK_TYPE_NVME_SSD = ''NVMe SSD''"
| "disk_type_str DISK_TYPE_HDD = ''HDD''"
| "disk_type_str DISK_TYPE_RAMDISK = ''RAM Disk''"
| "disk_type_str DISK_TYPE_FILEBACKED = ''File-backed''"
| "disk_type_str DISK_TYPE_UNKNOWN = ''Unknown''"

text \<open>The C values of the state enumeration order it; the library's order facts then apply.\<close>

fun raid_state_code :: "RAID_STATE \<Rightarrow> nat" where
  "raid_state_code STATE_DISCONNECTED = 0"
| "raid_state_code STATE_DISCOVERED = 1"
| "raid_state_code STATE_INITIALIZED = 2"
| "raid_state_code STATE_MOUNTED = 3"
| "raid_state_code STATE_DEGRADED = 4"
| "raid_state_code STATE_RECOVERING = 5"
| "raid_state_code STATE_UNMOUNTED = 6"

lemma raid_state_code_inject: "raid_state_code a = raid_state_code b \<longleftrightarrow> a = b"
  by (cases a; cases b) simp_all

instantiation RAID_STATE :: linorder
begin

definition less_eq_RAID_STATE :: "RAID_STATE \<Rightarrow> RAID_STATE \<Rightarrow> bool" where
  "a \<le> b \<longleftrightarrow> raid_state_code a \<le> raid_state_code b"

definition less_RAID_STATE :: "RAID_STATE \<Rightarrow> RAID_STATE \<Rightarrow> bool" where
  "a < b \<longleftrightarrow> raid_state_code a < raid_state_code b"

instance
  by standard
    (auto simp: less_eq_RAID_STATE_def less_RAID_STATE_def raid_state_code_inject)

end

lemma raid_state_str_inject: "raid_state_str a = raid_state_str b \<longleftrightarrow> a = b"
  by (cases a; cases b) simp_all

section \<open>Arithmetic helpers\<close>

definition min_u64 :: "nat \<Rightarrow> nat \<Rightarrow> nat" where
  "min_u64 a b = (if a < b then a else b)"

lemma min_u64_min [simp]: "min_u64 a b = min a b"
  by (simp add: min_u64_def min_def)

function gcd_u32 :: "nat \<Rightarrow> nat \<Rightarrow> nat" where
  "gcd_u32 a b = (if b \<noteq> 0 then gcd_u32 b (a mod b) else a)"
  by pat_completeness auto
termination
  by (relation "measure snd") auto

declare gcd_u32.simps [simp del]

lemma gcd_u32_gcd: "gcd_u32 a b = gcd a b"
proof (induction a b rule: gcd_u32.induct)
  case (1 a b)
  show ?case
  proof (cases "b = 0")
    case True
    then show ?thesis by (simp add: gcd_u32.simps [of a 0])
  next
    case False
    with "1.IH" have "gcd_u32 b (a mod b) = gcd b (a mod b)" by simp
    with False show ?thesis
      by (simp add: gcd_u32.simps [of a b] gcd_red_nat [of a b])
  qed
qed

definition validate_pool_size :: "nat \<Rightarrow> RC" where
  "validate_pool_size size_bytes =
     (if size_bytes = 0 then RC_ERR_INVALID_ARG
      else if size_bytes < SECTOR_SIZE then RC_ERR_INVALID_ARG
      else let sector_count = size_bytes div SECTOR_SIZE in
        if sector_count = 0 then RC_ERR_INVALID_ARG else RC_OK)"

lemma validate_pool_size_ok: "validate_pool_size n = RC_OK \<longleftrightarrow> SECTOR_SIZE \<le> n"
  by (auto simp: validate_pool_size_def Let_def const)

section \<open>Number parsing\<close>

text \<open>
  \<open>strtoul\<close>/\<open>strtoull\<close> in base 10 as the C standard describes them: leading white space,
  an optional sign, the longest run of digits. A value that does not fit the width sets
  \<open>errno\<close>; a minus sign negates modulo the width. \<open>unsigned long\<close> has 32 bits on Windows.
  The result is the pair of the value and the unparsed rest; \<open>None\<close> when there are no digits
  (\<open>end == s\<close>) or when \<open>errno\<close> is set.
\<close>

definition is_space :: "char \<Rightarrow> bool" where
  "is_space c \<longleftrightarrow> c \<in> {CHR '' '', CHR 0x09, CHR 0x0A, CHR 0x0B, CHR 0x0C, CHR 0x0D}"

definition is_digit :: "char \<Rightarrow> bool" where
  "is_digit c \<longleftrightarrow> 48 \<le> (of_char c :: nat) \<and> (of_char c :: nat) \<le> 57"

definition digit_val :: "char \<Rightarrow> nat" where
  "digit_val c = (of_char c :: nat) - 48"

definition dec_value :: "string \<Rightarrow> nat" where
  "dec_value ds = foldl (\<lambda>a c. a * 10 + digit_val c) 0 ds"

definition strtoul10 :: "nat \<Rightarrow> string \<Rightarrow> (nat \<times> string) option" where
  "strtoul10 w s =
     (let s1 = dropWhile is_space s;
          neg = (case s1 of c # _ \<Rightarrow> c = CHR ''-'' | [] \<Rightarrow> False);
          s2 = (case s1 of c # r \<Rightarrow> if c = CHR ''-'' \<or> c = CHR ''+'' then r else s1 | [] \<Rightarrow> []);
          ds = takeWhile is_digit s2;
          n = dec_value ds
      in if ds = [] then None
         else if 2 ^ w \<le> n then None
         else Some (if neg then (2 ^ w - n) mod 2 ^ w else n, dropWhile is_digit s2))"

definition safe_atou32 :: "string \<Rightarrow> nat option" where
  "safe_atou32 s = (case strtoul10 32 s of
     None \<Rightarrow> None
   | Some (val, end) \<Rightarrow> if end \<noteq> [] \<or> 2 ^ 32 - 1 < val then None else Some (u32 val))"

definition safe_atou64 :: "string \<Rightarrow> nat option" where
  "safe_atou64 s = (case strtoul10 64 s of
     None \<Rightarrow> None
   | Some (val, end) \<Rightarrow> if end \<noteq> [] then None else Some val)"

text \<open>The \<open>%u\<close> and \<open>%llu\<close> conversions of the \<open>printf\<close> family.\<close>

fun dec_str :: "nat \<Rightarrow> string" where
  "dec_str n = (if n < 10 then [char_of (48 + n)] else dec_str (n div 10) @ [char_of (48 + n mod 10)])"

declare dec_str.simps [simp del]

lemma of_char_digit: "n < 10 \<Longrightarrow> (of_char (char_of (48 + n) :: char) :: nat) = 48 + n"
  by (simp add: of_char_of)

lemma digit_char [simp]:
  "n < 10 \<Longrightarrow> is_digit (char_of (48 + n))"
  "n < 10 \<Longrightarrow> digit_val (char_of (48 + n)) = n"
  by (simp_all only: is_digit_def digit_val_def of_char_digit) simp_all

lemma dec_str_not_Nil [simp]: "dec_str n \<noteq> []"
  by (subst dec_str.simps) simp

lemma dec_str_digits: "\<forall>c \<in> set (dec_str n). is_digit c"
proof (induction n rule: dec_str.induct)
  case (1 n)
  then show ?case by (subst dec_str.simps) auto
qed

lemma dec_value_snoc: "dec_value (ds @ [c]) = dec_value ds * 10 + digit_val c"
  by (simp add: dec_value_def)

lemma dec_value_dec_str [simp]: "dec_value (dec_str n) = n"
proof (induction n rule: dec_str.induct)
  case (1 n)
  show ?case
  proof (cases "n < 10")
    case True
    then show ?thesis by (subst dec_str.simps) (simp add: dec_value_def)
  next
    case False
    with "1.IH" have "dec_value (dec_str (n div 10)) = n div 10" by simp
    with False show ?thesis by (subst dec_str.simps) (simp add: dec_value_snoc)
  qed
qed

lemma is_digit_not_space: "is_digit c \<Longrightarrow> \<not> is_space c"
  by (auto simp: is_digit_def is_space_def)

lemma is_digit_not_sign: "is_digit c \<Longrightarrow> c \<noteq> CHR ''-'' \<and> c \<noteq> CHR ''+''"
  by (auto simp: is_digit_def)

lemma strtoul10_digits:
  assumes ds: "\<forall>c \<in> set ds. is_digit c" and ne: "ds \<noteq> []" and fit: "dec_value ds < 2 ^ w"
    and rest: "rest = [] \<or> \<not> is_digit (hd rest)"
  shows "strtoul10 w (ds @ rest) = Some (dec_value ds, rest)"
proof -
  obtain c r where cr: "ds = c # r" using ne by (cases ds) auto
  with ds have c: "is_digit c" by simp
  have 1: "dropWhile is_space (ds @ rest) = ds @ rest"
    using is_digit_not_space [OF c] cr by simp
  have 2: "takeWhile is_digit (ds @ rest) = ds" "dropWhile is_digit (ds @ rest) = rest"
    using ds rest by (cases rest; simp)+
  show ?thesis
    using is_digit_not_sign [OF c] ne fit cr 1 2 by (simp add: strtoul10_def Let_def)
qed

end
