(* ===== verification/StorageTypes.thy ===== *)
theory StorageTypes
  imports Common
begin

text \<open>
  The data types the storage engine shares: \<^verbatim>\<open>DISK_INFO\<close>, \<^verbatim>\<open>MAPPING_PHASE\<close>,
  \<^verbatim>\<open>RAM_CACHE\<close> and \<^verbatim>\<open>STRIPE_VOLUME\<close> of \<^verbatim>\<open>src/src/common.h\<close>, the worker types of
  \<^verbatim>\<open>src/src/stripe_engine.c\<close>, and the state the engine runs in. Field names carry a short
  tag of their struct (\<open>d_\<close>, \<open>ph_\<close>, \<open>c_\<close>, \<open>v_\<close>), because HOL record fields are global.

  A fixed-size array is a list of that length, a pointer to a \<^verbatim>\<open>DISK_INFO\<close> an address in
  \<open>s_heap\<close> (several arrays hold the same disk), an unsigned field a \<open>nat\<close> whose arithmetic is
  wrapped at its width where it is computed, a \<^verbatim>\<open>LONG\<close> an \<open>int\<close>.

  Win32 enters as an outcome oracle: \<open>os n\<close> says what the \<open>n\<close>-th system call of a run does,
  \<open>Done k\<close> that it succeeds and moves \<open>k\<close> bytes, \<open>Fail k\<close> that it reports an error after \<open>k\<close>
  bytes reached the medium. Nothing is assumed of the oracle; the definitions take it as an
  argument, and the theorems that need a call to succeed say so.
\<close>

section \<open>Disks\<close>

datatype HANDLE = INVALID_HANDLE_VALUE | NULL_HANDLE | FILE_HANDLE string

record DISK_INFO =
  d_device_path :: string
  d_drive_letter :: string
  d_model :: string
  d_type :: DISK_TYPE
  d_total_bytes :: nat
  d_pool_bytes :: nat
  d_sector_size :: nat
  d_read_speed_mbs :: nat
  d_write_speed_mbs :: nat
  d_bench_read_mbs :: nat
  d_bench_write_mbs :: nat
  d_selected :: bool
  d_benchmarked :: bool
  d_handle :: HANDLE
  d_ram_buffer :: "mem option"
  d_file_path :: string
  d_faulty :: int
  d_error_count :: int
  d_healthy :: int
  d_serial_number :: string

text \<open>\<^verbatim>\<open>memset(d, 0, sizeof(DISK_INFO))\<close>.\<close>

definition zero_disk :: DISK_INFO where
  "zero_disk = \<lparr>d_device_path = [], d_drive_letter = [], d_model = [], d_type = DISK_TYPE_UNKNOWN,
     d_total_bytes = 0, d_pool_bytes = 0, d_sector_size = 0, d_read_speed_mbs = 0,
     d_write_speed_mbs = 0, d_bench_read_mbs = 0, d_bench_write_mbs = 0, d_selected = False,
     d_benchmarked = False, d_handle = NULL_HANDLE, d_ram_buffer = None, d_file_path = [],
     d_faulty = 0, d_error_count = 0, d_healthy = 0, d_serial_number = []\<rparr>"

section \<open>Address mapping\<close>

record IO_MAPPING_ENTRY =
  e_disk_index :: nat
  e_physical_offset :: nat
  e_length_bytes :: nat

record MAPPING_PHASE =
  ph_active_count :: nat
  ph_active_disk_indices :: "nat list"
  ph_ratios :: "nat list"
  ph_total_ratio :: nat
  ph_virtual_start_bytes :: nat
  ph_virtual_size_bytes :: nat
  ph_physical_starts_bytes :: "nat list"
  ph_cycle_size_bytes :: nat

definition zero_phase :: MAPPING_PHASE where
  "zero_phase = \<lparr>ph_active_count = 0, ph_active_disk_indices = replicate MAX_DISKS 0,
     ph_ratios = replicate MAX_DISKS 0, ph_total_ratio = 0, ph_virtual_start_bytes = 0,
     ph_virtual_size_bytes = 0, ph_physical_starts_bytes = replicate MAX_DISKS 0,
     ph_cycle_size_bytes = 0\<rparr>"

section \<open>RAM cache\<close>

record RAM_CACHE =
  c_buffer :: "mem option"
  c_cache_size_bytes :: nat
  c_block_size :: nat
  c_block_count :: nat
  c_dirty_map :: "byte list"
  c_valid_map :: "byte list"
  c_hit_count :: nat
  c_miss_count :: nat
  c_flush_thread :: bool
  c_running :: int
  c_thread_stop :: int
  c_flush_buffer :: "mem option"
  c_flush_buffer_size :: nat
  c_write_through :: int

definition zero_cache :: RAM_CACHE where
  "zero_cache = \<lparr>c_buffer = None, c_cache_size_bytes = 0, c_block_size = 0, c_block_count = 0,
     c_dirty_map = [], c_valid_map = [], c_hit_count = 0, c_miss_count = 0,
     c_flush_thread = False, c_running = 0, c_thread_stop = 0, c_flush_buffer = None,
     c_flush_buffer_size = 0, c_write_through = 0\<rparr>"

section \<open>Worker threads\<close>

text \<open>
  A request names its buffer by an offset into the caller's buffer and its completion record
  by a number. A ring holds requests of any type.
\<close>

datatype IO_OP_TYPE = IO_OP_READ | IO_OP_WRITE

record IO_COMPLETION =
  cp_pending :: int
  cp_error :: bool
  cp_event :: bool

record IO_REQUEST =
  rq_op :: IO_OP_TYPE
  rq_buffer :: nat
  rq_physical_offset :: nat
  rq_length :: nat
  rq_completion :: nat

record 'r IO_RING =
  rg_entries :: "'r list"
  rg_write_seq :: "32 word"
  rg_read_seq :: "32 word"

definition zero_request :: IO_REQUEST where
  "zero_request = \<lparr>rq_op = IO_OP_READ, rq_buffer = 0, rq_physical_offset = 0, rq_length = 0,
     rq_completion = 0\<rparr>"

record DISK_WORKER =
  wk_disk :: "ptr option"
  wk_ring :: "IO_REQUEST IO_RING"
  wk_stop :: bool
  wk_disk_index :: nat

section \<open>Volumes\<close>

record VOLUME_UUID =
  uu_high :: nat
  uu_low :: nat

record STRIPE_VOLUME =
  v_label :: string
  v_disks :: "ptr option list"
  v_disk_count :: nat
  v_stripe_unit :: nat
  v_phase_count :: nat
  v_phases :: "MAPPING_PHASE list"
  v_virtual_total_bytes :: nat
  v_generation :: nat
  v_volume_uuid :: VOLUME_UUID
  v_created_time :: nat
  v_last_mount_time :: nat
  v_cache :: RAM_CACHE
  v_cache_enabled :: bool
  v_mount_point :: string
  v_bytes_written :: nat
  v_bytes_read :: nat
  v_start_time :: nat
  v_cache_flush_in_progress :: int
  v_raid_level :: nat
  v_healthy_count :: int
  v_worker_state :: "DISK_WORKER list option"

definition zero_volume :: STRIPE_VOLUME where
  "zero_volume = \<lparr>v_label = [], v_disks = replicate MAX_DISKS None, v_disk_count = 0,
     v_stripe_unit = 0, v_phase_count = 0, v_phases = replicate MAX_DISKS zero_phase,
     v_virtual_total_bytes = 0, v_generation = 0, v_volume_uuid = \<lparr>uu_high = 0, uu_low = 0\<rparr>,
     v_created_time = 0, v_last_mount_time = 0, v_cache = zero_cache, v_cache_enabled = False,
     v_mount_point = [], v_bytes_written = 0, v_bytes_read = 0, v_start_time = 0,
     v_cache_flush_in_progress = 0, v_raid_level = 0, v_healthy_count = 0,
     v_worker_state = None\<rparr>"

section \<open>The system the engine runs in\<close>

datatype outcome = Fail nat | Done nat

type_synonym os = "nat \<Rightarrow> outcome"

text \<open>
  \<open>w_media\<close> holds the bytes of the pool files by path, \<open>w_files\<close> the small metadata files
  (superblock, journal), \<open>w_clock\<close> counts the system calls made; \<open>s_heap\<close> holds the
  \<^verbatim>\<open>DISK_INFO\<close> objects.
\<close>

record world =
  w_clock :: nat
  w_media :: "string \<Rightarrow> mem"
  w_files :: "string \<rightharpoonup> byte list"

record sys = world +
  s_heap :: "ptr \<Rightarrow> DISK_INFO"

text \<open>
  One system call: take the next outcome. A device read or write at an offset is
  \<open>ReadFile\<close>/\<open>WriteFile\<close> on an overlapped handle followed, when it is pending, by
  \<open>GetOverlappedResult\<close>; on a handle that is no open file it fails.
\<close>

definition tick :: "'a world_scheme \<Rightarrow> 'a world_scheme" where
  "tick w = w\<lparr>w_clock := Suc (w_clock w)\<rparr>"

definition sys_ok :: "os \<Rightarrow> 'a world_scheme \<Rightarrow> bool" where
  "sys_ok os w = (case os (w_clock w) of Done _ \<Rightarrow> True | Fail _ \<Rightarrow> False)"

definition moved :: "os \<Rightarrow> 'a world_scheme \<Rightarrow> nat \<Rightarrow> nat" where
  "moved os w n = min n (case os (w_clock w) of Done k \<Rightarrow> k | Fail k \<Rightarrow> k)"

definition dev_read :: "os \<Rightarrow> HANDLE \<Rightarrow> nat \<Rightarrow> nat \<Rightarrow> 'a world_scheme
    \<Rightarrow> bool \<times> byte list \<times> 'a world_scheme" where
  "dev_read os h off n w = (case h of
     FILE_HANDLE p \<Rightarrow> (sys_ok os w, read_bytes (w_media w p) off (moved os w n), tick w)
   | _ \<Rightarrow> (False, [], w))"

definition dev_write :: "os \<Rightarrow> HANDLE \<Rightarrow> nat \<Rightarrow> byte list \<Rightarrow> 'a world_scheme
    \<Rightarrow> bool \<times> nat \<times> 'a world_scheme" where
  "dev_write os h off bs w = (case h of
     FILE_HANDLE p \<Rightarrow> let k = moved os w (length bs) in
       (sys_ok os w, k,
        (tick w)\<lparr>w_media := (w_media w)(p := write_bytes (w_media w p) off (take k bs))\<rparr>)
   | _ \<Rightarrow> (False, 0, w))"

text \<open>The oracle of a machine whose calls all succeed in full.\<close>

definition os_good :: os where
  "os_good = (\<lambda>_. Done (2 ^ 64))"

definition all_good :: "os \<Rightarrow> bool" where
  "all_good os \<longleftrightarrow> (\<forall>n. \<exists>k. os n = Done k \<and> 2 ^ 64 \<le> k)"

lemma all_good_os_good: "all_good os_good"
  by (simp add: all_good_def os_good_def)

lemma all_good_sys_ok [simp]: "all_good os \<Longrightarrow> sys_ok os w"
  by (metis all_good_def outcome.simps(6) sys_ok_def)

lemma all_good_moved [simp]: "all_good os \<Longrightarrow> n \<le> 2 ^ 64 \<Longrightarrow> moved os w n = n"
proof -
  assume g: "all_good os" and n: "n \<le> 2 ^ 64"
  obtain k where "os (w_clock w) = Done k" "2 ^ 64 \<le> k"
    using g by (auto simp: all_good_def)
  with n show ?thesis by (simp add: moved_def)
qed

text \<open>\<^verbatim>\<open>CHECK_DISKS\<close>: every disk slot in use is non-null.\<close>

definition CHECK_DISKS :: "STRIPE_VOLUME \<Rightarrow> bool" where
  "CHECK_DISKS vol = list_all (\<lambda>i. i < length (v_disks vol) \<and> v_disks vol ! i \<noteq> None)
     [0 ..< v_disk_count vol]"

text \<open>The pointer in slot \<open>i\<close>, and the disk it points to.\<close>

definition vdisk :: "STRIPE_VOLUME \<Rightarrow> nat \<Rightarrow> ptr" where
  "vdisk vol i = the (v_disks vol ! i)"

lemma CHECK_DISKS_vdisk:
  "CHECK_DISKS vol \<Longrightarrow> i < v_disk_count vol \<Longrightarrow> v_disks vol ! i = Some (vdisk vol i)"
  by (auto simp: CHECK_DISKS_def vdisk_def list_all_iff)

end
