(* ===== verification/StripeMap.thy ===== *)
theory StripeMap
  imports StorageTypes
begin

text \<open>
  The address map of a striped volume, \<^verbatim>\<open>src/src/stripe_engine.c\<close>: the speed ratios
  (\<open>stripe_volume_normalize_ratios\<close>), the phases laid out over the disks' pools
  (\<open>stripe_volume_create\<close>, \<open>stripe_volume_expand\<close>), the map of one byte
  (\<open>map_single_byte\<close>) and of a request (\<open>stripe_volume_map_lba\<close>). The theory holds the
  definitions; \<open>LayoutLoop\<close> and \<open>AddressMap\<close> hold their correctness.
\<close>

section \<open>Mapping one byte\<close>

text \<open>
  The scan of the segments of a cycle. \<open>cum\<close> is the sum of the ratios passed. The result is
  the segment's index and its start in the cycle; reading past the arrays is a fault.
\<close>

function seg_scan :: "nat \<Rightarrow> MAPPING_PHASE \<Rightarrow> nat \<Rightarrow> nat \<Rightarrow> nat \<Rightarrow> fault + (nat \<times> nat) option" where
  "seg_scan su ph oic j cum =
     (if j < ph_active_count ph then
        if length (ph_ratios ph) \<le> j then Inl OutOfBounds
        else
          let seg_start = u64 (cum * su);
              seg_end = u64 ((cum + ph_ratios ph ! j) * su)
          in if seg_start \<le> oic \<and> oic < seg_end then Inr (Some (j, seg_start))
             else seg_scan su ph oic (Suc j) (u32 (cum + ph_ratios ph ! j))
      else Inr None)"
  by pat_completeness auto
termination
  by (relation "measure (\<lambda>(su, ph, oic, j, cum). ph_active_count ph - j)") auto

declare seg_scan.simps [simp del]

text \<open>The loop over the phases, from phase \<open>p\<close>.\<close>

function map_phases :: "STRIPE_VOLUME \<Rightarrow> nat \<Rightarrow> nat \<Rightarrow> fault + (nat \<times> nat) option" where
  "map_phases vol vo p =
     (if p < v_phase_count vol then
        if length (v_phases vol) \<le> p then Inl OutOfBounds
        else
          let ph = v_phases vol ! p;
              end = u64 (ph_virtual_start_bytes ph + ph_virtual_size_bytes ph)
          in if vo < ph_virtual_start_bytes ph \<or> end \<le> vo then map_phases vol vo (Suc p)
             else
               let offset_in_phase = vo - ph_virtual_start_bytes ph
               in if ph_active_count ph = 1 then
                    Inr (Some (ph_active_disk_indices ph ! 0,
                               u64 (ph_physical_starts_bytes ph ! 0 + offset_in_phase)))
                  else if ph_cycle_size_bytes ph = 0 then Inl DivByZero
                  else
                    let cycle_index = offset_in_phase div ph_cycle_size_bytes ph;
                        offset_in_cycle = offset_in_phase mod ph_cycle_size_bytes ph
                    in (case seg_scan (v_stripe_unit vol) ph offset_in_cycle 0 0 of
                          Inl f \<Rightarrow> Inl f
                        | Inr None \<Rightarrow> map_phases vol vo (Suc p)
                        | Inr (Some (j, seg_start)) \<Rightarrow>
                            Inr (Some (ph_active_disk_indices ph ! j,
                              u64 (ph_physical_starts_bytes ph ! j +
                                   u64 (u64 (cycle_index * ph_ratios ph ! j) * v_stripe_unit vol) +
                                   (offset_in_cycle - seg_start)))))
      else Inr None)"
  by pat_completeness auto
termination
  by (relation "measure (\<lambda>(vol, vo, p). v_phase_count vol - p)") auto

declare map_phases.simps [simp del]

definition map_single_byte :: "STRIPE_VOLUME \<Rightarrow> nat \<Rightarrow> fault + (nat \<times> nat) option" where
  "map_single_byte vol virtual_offset =
     (if v_virtual_total_bytes vol \<le> virtual_offset then Inr None
      else map_phases vol virtual_offset 0)"

section \<open>Speed ratios\<close>

definition MAX_RATIO :: nat where [const]: "MAX_RATIO = 32"

text \<open>
  The raw ratios are at most \<open>MAX_RATIO\<close>; dividing by their greatest common divisor keeps the
  proportions. Both callers pass at most \<open>MAX_DISKS\<close> speeds, the size of the local array.
\<close>

definition raw_ratio :: "nat \<Rightarrow> nat \<Rightarrow> nat" where
  "raw_ratio max_speed speed =
     (let half = max_speed div 2;
          num = u64 (speed * MAX_RATIO + half);
          raw = u32 (num div max_speed)
      in if raw = 0 then 1 else raw)"

definition stripe_volume_normalize_ratios :: "nat list \<Rightarrow> (nat list \<times> nat) option" where
  "stripe_volume_normalize_ratios speeds =
     (if speeds = [] then None
      else
        let max_speed = foldl (\<lambda>m s. if m < s then s else m) (hd speeds) (tl speeds)
        in if max_speed = 0 then Some (map (\<lambda>_. 1) speeds, length speeds)
           else
             let raw = map (raw_ratio max_speed) speeds;
                 g0 = foldl gcd_u32 (hd raw) (tl raw);
                 g = (if g0 = 0 then 1 else g0);
                 ratios = map (\<lambda>r. r div g) raw
             in Some (ratios, foldl (\<lambda>t r. u32 (t + r)) 0 ratios))"

section \<open>Laying out the phases\<close>

text \<open>
  The locals of the layout loop: the phase array being filled, its count, the virtual offset
  reached, the live prefix of the arrays \<open>remaining_indices\<close>/\<open>remaining_ratios\<close> as a list of
  pairs, and the two arrays of physical bytes left and used.
\<close>

record layout =
  l_phases :: "MAPPING_PHASE list"
  l_phase_count :: nat
  l_virt_offset :: nat
  l_remaining :: "(nat \<times> nat) list"
  l_remaining_phys :: "nat list"
  l_used_phys :: "nat list"

text \<open>Writing a list over the first places of an array.\<close>

definition fill :: "'a list \<Rightarrow> 'a list \<Rightarrow> 'a list" where
  "fill xs arr = xs @ drop (length xs) arr"

definition fill_phase :: "nat \<Rightarrow> nat \<Rightarrow> layout \<Rightarrow> MAPPING_PHASE \<Rightarrow> MAPPING_PHASE" where
  "fill_phase base su st ph =
     (let rem = l_remaining st;
          tot = foldl (\<lambda>t r. u32 (t + r)) 0 (map snd rem)
      in ph\<lparr>ph_active_count := length rem,
            ph_active_disk_indices := fill (map (\<lambda>(d, r). base + d) rem) (ph_active_disk_indices ph),
            ph_ratios := fill (map snd rem) (ph_ratios ph),
            ph_total_ratio := tot,
            ph_physical_starts_bytes :=
              fill (map (\<lambda>(d, r). l_used_phys st ! d) rem) (ph_physical_starts_bytes ph),
            ph_cycle_size_bytes := u64 (tot * su),
            ph_virtual_start_bytes := l_virt_offset st\<rparr>)"

text \<open>The disk that limits the phase: the least virtual size its remaining bytes allow.\<close>

fun min_virtual :: "nat \<Rightarrow> nat list \<Rightarrow> nat \<Rightarrow> (nat \<times> nat) list \<Rightarrow> nat \<times> nat \<Rightarrow> nat \<times> nat" where
  "min_virtual tot rp i [] best = best"
| "min_virtual tot rp i ((d, r) # xs) (least, idx) =
     (let max_virtual = u64 (rp ! d * tot) div r
      in min_virtual tot rp (Suc i) xs (if max_virtual < least then (max_virtual, i) else (least, idx)))"

text \<open>Charge \<open>cycles\<close> cycles to each disk and keep those that can take part in another phase.\<close>

fun charge :: "nat \<Rightarrow> nat \<Rightarrow> (nat \<times> nat) list \<Rightarrow> nat list \<Rightarrow> nat list
    \<Rightarrow> (nat \<times> nat) list \<times> nat list \<times> nat list" where
  "charge su cycles [] rp up = ([], rp, up)"
| "charge su cycles ((d, r) # xs) rp up =
     (let used = u64 (u64 (cycles * r) * su);
          up' = up[d := u64 (up ! d + used)];
          rp' = rp[d := sub64 (rp ! d) used];
          (ks, rp'', up'') = charge su cycles xs rp' up'
      in (if u64 (r * su) \<le> rp' ! d then (d, r) # ks else ks, rp'', up''))"

lemma charge_length: "length (fst (charge su c xs rp up)) \<le> length xs"
  by (induction su c xs rp up rule: charge.induct)
    (auto simp: Let_def intro: le_SucI split: prod.splits)

text \<open>Removing the element at an index (the last one when the index is too large).\<close>

definition remove_at :: "nat \<Rightarrow> 'a list \<Rightarrow> 'a list" where
  "remove_at i xs = take (min i (length xs - 1)) xs @ drop (Suc i) xs"

lemma remove_at_shorter: "xs \<noteq> [] \<Longrightarrow> length (remove_at i xs) < length xs"
  by (cases xs) (auto simp: remove_at_def min_def)

text \<open>
  The layout loop, the same text in \<open>stripe_volume_create\<close> (with \<open>base = 0\<close>) and in
  \<open>stripe_volume_expand\<close> (with \<open>base\<close> the old disk count). The slot being filled is written
  before the breaks. Both callers guarantee \<open>su \<noteq> 0\<close>.
\<close>

function (sequential) phase_loop :: "nat \<Rightarrow> nat \<Rightarrow> layout \<Rightarrow> layout" where
  "phase_loop base su st =
     (if l_remaining st \<noteq> [] \<and> l_phase_count st < MAX_DISKS then
        let p = l_phase_count st;
            rem = l_remaining st;
            ph = fill_phase base su st (l_phases st ! p);
            st1 = st\<lparr>l_phases := (l_phases st)[p := ph]\<rparr>
        in if length rem = 1 then
             let d = fst (hd rem);
                 avail = l_remaining_phys st ! d
             in if avail < su then st1
                else
                  let size = avail - avail mod su;
                      ph' = ph\<lparr>ph_virtual_size_bytes := size\<rparr>;
                      st2 = st\<lparr>l_phases := (l_phases st)[p := ph']\<rparr>
                  in if size = 0 then st2
                     else phase_loop base su
                       (st2\<lparr>l_virt_offset := u64 (l_virt_offset st + size),
                            l_used_phys := (l_used_phys st)[d := u64 (l_used_phys st ! d + size)],
                            l_remaining_phys := (l_remaining_phys st)[d := 0],
                            l_remaining := [],
                            l_phase_count := Suc p\<rparr>)
           else
             let (least, min_idx) =
                   min_virtual (ph_total_ratio ph) (l_remaining_phys st) 0 rem (2 ^ 64 - 1, 2 ^ 32 - 1);
                 cycles = least div ph_cycle_size_bytes ph
             in if cycles = 0 then
                  phase_loop base su (st1\<lparr>l_remaining := remove_at min_idx rem\<rparr>)
                else
                  let size = u64 (cycles * ph_cycle_size_bytes ph);
                      ph' = ph\<lparr>ph_virtual_size_bytes := size\<rparr>;
                      (kept, rp, up) = charge su cycles rem (l_remaining_phys st) (l_used_phys st)
                  in phase_loop base su
                       (st\<lparr>l_phases := (l_phases st)[p := ph'],
                           l_virt_offset := u64 (l_virt_offset st + size),
                           l_used_phys := up,
                           l_remaining_phys := rp,
                           l_remaining := kept,
                           l_phase_count := Suc p\<rparr>)
      else st)"
  by pat_completeness auto
termination
proof (relation "measures [\<lambda>(base, su, st). MAX_DISKS - l_phase_count st,
                           \<lambda>(base, su, st). length (l_remaining st)]", goal_cases)
  case 1
  then show ?case by simp
next
  case 2
  then show ?case by (auto simp: Let_def)
next
  case 3
  then show ?case by (simp add: remove_at_shorter)
next
  case 4
  then show ?case by (auto simp: Let_def)
qed

declare phase_loop.simps [simp del]

section \<open>Creating and expanding a volume\<close>

definition disk_speed :: "DISK_INFO \<Rightarrow> nat" where
  "disk_speed d =
     (let s = (if d_benchmarked d then d_bench_write_mbs d else d_write_speed_mbs d)
      in if s = 0 then 100 else s)"

text \<open>
  \<open>now\<close> is the performance counter. The result is the return value and the volume written
  through the pointer; a zero stripe unit divides by zero in the loop.
\<close>

definition stripe_volume_create ::
    "(ptr \<Rightarrow> DISK_INFO) \<Rightarrow> nat \<Rightarrow> STRIPE_VOLUME \<Rightarrow> ptr list \<Rightarrow> nat \<Rightarrow> fault + bool \<times> STRIPE_VOLUME" where
  "stripe_volume_create heap now vol disks stripe_unit =
     (let disk_count = length disks in
      if disk_count < MIN_DISKS \<or> MAX_DISKS < disk_count then Inr (False, vol)
      else if stripe_unit = 0 then Inl DivByZero
      else
        let speeds = map (\<lambda>d. disk_speed (heap d)) disks;
            ratios = (case stripe_volume_normalize_ratios speeds of
                        Some (rs, tot) \<Rightarrow> rs | None \<Rightarrow> []);
            st0 = \<lparr>l_phases = v_phases zero_volume, l_phase_count = 0, l_virt_offset = 0,
                   l_remaining = zip [0 ..< disk_count] ratios,
                   l_remaining_phys = map (\<lambda>d. d_pool_bytes (heap d)) disks,
                   l_used_phys = map (\<lambda>_. 0) disks\<rparr>;
            st = phase_loop 0 stripe_unit st0
        in Inr (True, zero_volume\<lparr>
             v_raid_level := RAID_LEVEL_STRIPE,
             v_disk_count := disk_count,
             v_stripe_unit := stripe_unit,
             v_disks := fill (map Some disks) (v_disks zero_volume),
             v_phases := l_phases st,
             v_phase_count := l_phase_count st,
             v_virtual_total_bytes := l_virt_offset st,
             v_start_time := now\<rparr>))"

definition stripe_volume_expand ::
    "(ptr \<Rightarrow> DISK_INFO) \<Rightarrow> STRIPE_VOLUME \<Rightarrow> ptr list \<Rightarrow> fault + bool \<times> STRIPE_VOLUME" where
  "stripe_volume_expand heap vol new_disks =
     (let new_count = length new_disks; old_count = v_disk_count vol; n = old_count + new_count in
      if new_count = 0 then Inr (False, vol)
      else if MAX_DISKS < n \<or> MAX_DISKS < v_phase_count vol + new_count then Inr (False, vol)
      else if v_stripe_unit vol = 0 then Inl DivByZero
      else
        let speeds = map (\<lambda>d. disk_speed (heap d)) new_disks;
            ratios = (case stripe_volume_normalize_ratios speeds of
                        Some (rs, tot) \<Rightarrow> rs | None \<Rightarrow> []);
            st0 = \<lparr>l_phases = v_phases vol, l_phase_count = v_phase_count vol,
                   l_virt_offset = v_virtual_total_bytes vol,
                   l_remaining = zip [0 ..< new_count] ratios,
                   l_remaining_phys = map (\<lambda>d. d_pool_bytes (heap d)) new_disks,
                   l_used_phys = map (\<lambda>_. 0) new_disks\<rparr>;
            st = phase_loop old_count (v_stripe_unit vol) st0
        in Inr (True, vol\<lparr>
             v_disks := take old_count (v_disks vol) @ map Some new_disks @ drop n (v_disks vol),
             v_phases := l_phases st,
             v_phase_count := l_phase_count st,
             v_disk_count := n,
             v_virtual_total_bytes := l_virt_offset st\<rparr>))"

section \<open>Mapping a request\<close>

text \<open>The phase a position is in: the last one, from phase 1, that starts at or before it.\<close>

definition current_phase :: "STRIPE_VOLUME \<Rightarrow> nat \<Rightarrow> nat" where
  "current_phase vol vo =
     foldl (\<lambda>c p. if ph_virtual_start_bytes (v_phases vol ! p) \<le> vo then p else c)
       0 [1 ..< v_phase_count vol]"

text \<open>The second scan of the segments, for the segment of disk \<open>disk_idx\<close>; \<open>cum\<close> stays at the
  sum of all ratios when none matches.\<close>

function find_seg :: "nat \<Rightarrow> MAPPING_PHASE \<Rightarrow> nat \<Rightarrow> nat \<Rightarrow> nat \<Rightarrow> nat \<Rightarrow> nat \<times> nat" where
  "find_seg su ph disk_idx oic j cum =
     (if j < ph_active_count ph then
        if ph_active_disk_indices ph ! j = disk_idx \<and> u64 (cum * su) \<le> oic \<and>
           oic < u64 ((cum + ph_ratios ph ! j) * su)
        then (j, cum)
        else find_seg su ph disk_idx oic (Suc j) (u32 (cum + ph_ratios ph ! j))
      else (0, cum))"
  by pat_completeness auto
termination
  by (relation "measure (\<lambda>(su, ph, d, oic, j, cum). ph_active_count ph - j)") auto

declare find_seg.simps [simp del]

text \<open>How many bytes from \<open>vo\<close> the entry for \<open>disk_idx\<close> covers.\<close>

definition chunk_size :: "STRIPE_VOLUME \<Rightarrow> nat \<Rightarrow> nat \<Rightarrow> nat \<Rightarrow> nat" where
  "chunk_size vol vo disk_idx remaining =
     (let ph = v_phases vol ! current_phase vol vo;
          oip = sub64 vo (ph_virtual_start_bytes ph);
          phase_remain = sub64 (ph_virtual_size_bytes ph) oip
      in if ph_active_count ph = 1 then (if remaining < phase_remain then remaining else phase_remain)
         else
           let oic = oip mod ph_cycle_size_bytes ph;
               (seg_idx, cum) = find_seg (v_stripe_unit vol) ph disk_idx oic 0 0;
               seg_end = u64 ((cum + ph_ratios ph ! seg_idx) * v_stripe_unit vol);
               seg_remain = sub64 seg_end oic;
               c1 = (if phase_remain < seg_remain then phase_remain else seg_remain)
           in (if remaining < c1 then remaining else c1))"

text \<open>
  Appending to the entry array, merging with the last entry when it continues it. The array is
  held as the list of the entries written so far.
\<close>

definition add_entry :: "IO_MAPPING_ENTRY list \<Rightarrow> nat \<Rightarrow> nat \<Rightarrow> nat \<Rightarrow> IO_MAPPING_ENTRY list" where
  "add_entry entries disk_idx phys_offset chunk =
     (if entries \<noteq> [] \<and> e_disk_index (last entries) = disk_idx \<and>
         u64 (e_physical_offset (last entries) + e_length_bytes (last entries)) = phys_offset
      then butlast entries @
             [(last entries)\<lparr>e_length_bytes := u32 (e_length_bytes (last entries) + u32 chunk)\<rparr>]
      else entries @ [\<lparr>e_disk_index = disk_idx, e_physical_offset = phys_offset,
                       e_length_bytes = u32 chunk\<rparr>])"

text \<open>
  The loop of \<open>stripe_volume_map_lba\<close>. \<open>None\<close> is a loop that does not end (a chunk of zero
  bytes on a malformed volume); the result of a run that ends is a fault or the return value
  with the entries written.
\<close>

partial_function (option) map_lba_loop ::
    "STRIPE_VOLUME \<Rightarrow> nat \<Rightarrow> nat \<Rightarrow> IO_MAPPING_ENTRY list
     \<Rightarrow> (fault + bool \<times> IO_MAPPING_ENTRY list) option" where
  "map_lba_loop vol vo remaining entries =
     (if 0 < remaining \<and> length entries < MAX_IO_ENTRIES then
        case map_single_byte vol vo of
          Inl f \<Rightarrow> Some (Inl f)
        | Inr m \<Rightarrow>
            (case m of
               None \<Rightarrow> Some (Inr (False, []))
             | Some a \<Rightarrow>
                 map_lba_loop vol (u64 (vo + chunk_size vol vo (fst a) remaining))
                   (sub64 remaining (u32 (chunk_size vol vo (fst a) remaining)))
                   (add_entry entries (fst a) (snd a) (chunk_size vol vo (fst a) remaining)))
      else Some (Inr (remaining = 0, entries)))"

declare map_lba_loop.simps [code]

definition stripe_volume_map_lba ::
    "STRIPE_VOLUME \<Rightarrow> nat \<Rightarrow> nat \<Rightarrow> (fault + bool \<times> IO_MAPPING_ENTRY list) option" where
  "stripe_volume_map_lba vol virtual_offset request_length =
     (if request_length = 0 then Some (Inr (False, []))
      else if v_virtual_total_bytes vol \<le> virtual_offset then Some (Inr (False, []))
      else
        let remaining = (if v_virtual_total_bytes vol < u64 (virtual_offset + request_length)
                         then v_virtual_total_bytes vol - virtual_offset else request_length)
        in map_lba_loop vol virtual_offset remaining [])"

end
