(* ===== verification/AddressMap.thy ===== *)
theory AddressMap
  imports StripeMap
begin

text \<open>
  The address map of a striped volume is right: \<open>wf_layout\<close> is the invariant of the phase table,
  \<open>cells\<close> the bytes of the disks it covers, \<open>placed\<close>/\<open>unplace\<close> the map of one phase and its
  inverse. \<^verbatim>\<open>map_single_byte\<close> of \<^verbatim>\<open>src/src/stripe_engine.c\<close> is a bijection from the volume's
  bytes onto the cells, and the entries of \<^verbatim>\<open>stripe_volume_map_lba\<close> are this map, run by run.
\<close>

section \<open>Well-formed layouts\<close>

definition cum :: "MAPPING_PHASE \<Rightarrow> nat \<Rightarrow> nat" where
  "cum ph j = sum_list (take j (ph_ratios ph))"

definition phase_extent :: "nat \<Rightarrow> MAPPING_PHASE \<Rightarrow> nat \<Rightarrow> nat" where
  "phase_extent su ph j =
     (if ph_active_count ph = 1 then ph_virtual_size_bytes ph
      else ph_virtual_size_bytes ph div ph_cycle_size_bytes ph * ph_ratios ph ! j * su)"

definition wf_phase :: "nat \<Rightarrow> nat \<Rightarrow> MAPPING_PHASE \<Rightarrow> bool" where
  "wf_phase su n ph \<longleftrightarrow>
     1 \<le> ph_active_count ph \<and> ph_active_count ph \<le> MAX_DISKS \<and>
     length (ph_active_disk_indices ph) = MAX_DISKS \<and>
     length (ph_ratios ph) = MAX_DISKS \<and>
     length (ph_physical_starts_bytes ph) = MAX_DISKS \<and>
     distinct (take (ph_active_count ph) (ph_active_disk_indices ph)) \<and>
     (\<forall>j < ph_active_count ph. ph_active_disk_indices ph ! j < n \<and>
        1 \<le> ph_ratios ph ! j \<and> ph_ratios ph ! j \<le> MAX_RATIO \<and>
        ph_physical_starts_bytes ph ! j + phase_extent su ph j < 2 ^ 64) \<and>
     ph_total_ratio ph = cum ph (ph_active_count ph) \<and>
     ph_cycle_size_bytes ph = ph_total_ratio ph * su \<and>
     0 < ph_virtual_size_bytes ph \<and> su dvd ph_virtual_size_bytes ph \<and>
     (ph_active_count ph \<noteq> 1 \<longrightarrow> ph_cycle_size_bytes ph dvd ph_virtual_size_bytes ph)"

definition vstart :: "STRIPE_VOLUME \<Rightarrow> nat \<Rightarrow> nat" where
  "vstart vol p = sum_list (map ph_virtual_size_bytes (take p (v_phases vol)))"

definition wf_layout :: "STRIPE_VOLUME \<Rightarrow> bool" where
  "wf_layout vol \<longleftrightarrow>
     0 < v_stripe_unit vol \<and> v_stripe_unit vol < 2 ^ 32 \<and>
     v_phase_count vol \<le> MAX_DISKS \<and> length (v_phases vol) = MAX_DISKS \<and>
     (\<forall>p < v_phase_count vol. wf_phase (v_stripe_unit vol) (v_disk_count vol) (v_phases vol ! p) \<and>
        ph_virtual_start_bytes (v_phases vol ! p) = vstart vol p) \<and>
     v_virtual_total_bytes vol = vstart vol (v_phase_count vol) \<and>
     v_virtual_total_bytes vol < 2 ^ 64 \<and>
     (\<forall>q < v_phase_count vol. \<forall>p < q.
        \<forall>i < ph_active_count (v_phases vol ! p). \<forall>j < ph_active_count (v_phases vol ! q).
          ph_active_disk_indices (v_phases vol ! p) ! i = ph_active_disk_indices (v_phases vol ! q) ! j \<longrightarrow>
          ph_physical_starts_bytes (v_phases vol ! p) ! i
            + phase_extent (v_stripe_unit vol) (v_phases vol ! p) i
          \<le> ph_physical_starts_bytes (v_phases vol ! q) ! j)"

text \<open>The cells of the disks that the layout uses.\<close>

definition cells :: "STRIPE_VOLUME \<Rightarrow> (nat \<times> nat) set" where
  "cells vol = {(d, x). \<exists>p < v_phase_count vol. \<exists>j < ph_active_count (v_phases vol ! p).
     d = ph_active_disk_indices (v_phases vol ! p) ! j \<and>
     ph_physical_starts_bytes (v_phases vol ! p) ! j \<le> x \<and>
     x < ph_physical_starts_bytes (v_phases vol ! p) ! j
           + phase_extent (v_stripe_unit vol) (v_phases vol ! p) j}"

section \<open>One phase\<close>

lemma cum_Suc: "j < length (ph_ratios ph) \<Longrightarrow> cum ph (Suc j) = cum ph j + ph_ratios ph ! j"
  by (simp add: cum_def take_Suc_conv_app_nth)

lemma cum_0 [simp]: "cum ph 0 = 0"
  by (simp add: cum_def)

lemma cum_mono: "i \<le> j \<Longrightarrow> cum ph i \<le> cum ph j"
  unfolding cum_def by (rule sum_list_take_mono)

text \<open>The place of an offset of a phase: segment \<open>j\<close>, at \<open>y\<close> in its disk's extent.\<close>

definition placed :: "nat \<Rightarrow> MAPPING_PHASE \<Rightarrow> nat \<Rightarrow> nat \<Rightarrow> nat \<Rightarrow> bool" where
  "placed su ph x j y \<longleftrightarrow> j < ph_active_count ph \<and>
     (if ph_active_count ph = 1 then y = x
      else cum ph j * su \<le> x mod ph_cycle_size_bytes ph \<and>
           x mod ph_cycle_size_bytes ph < cum ph (Suc j) * su \<and>
           y = x div ph_cycle_size_bytes ph * ph_ratios ph ! j * su
               + (x mod ph_cycle_size_bytes ph - cum ph j * su))"

text \<open>The offset that a place holds.\<close>

definition unplace :: "nat \<Rightarrow> MAPPING_PHASE \<Rightarrow> nat \<Rightarrow> nat \<Rightarrow> nat" where
  "unplace su ph j y =
     (if ph_active_count ph = 1 then y
      else y div (ph_ratios ph ! j * su) * ph_cycle_size_bytes ph + cum ph j * su
           + y mod (ph_ratios ph ! j * su))"

lemma wf_phase_cum_le: 
  assumes "wf_phase su n ph" "j \<le> ph_active_count ph"
  shows "cum ph j \<le> j * MAX_RATIO"
  using assms(2)
proof (induction j)
  case (Suc j)
  then have "ph_ratios ph ! j \<le> MAX_RATIO" "j < length (ph_ratios ph)"
    using assms(1) by (auto simp: wf_phase_def)
  with Suc show ?case by (simp add: cum_Suc)
qed simp

lemma wf_phase_cum_128: "wf_phase su n ph \<Longrightarrow> j \<le> ph_active_count ph \<Longrightarrow> cum ph j \<le> 128"
  using wf_phase_cum_le [of su n ph j] by (auto simp: wf_phase_def const)

lemma wf_phase_dvd:
  "wf_phase su n ph \<Longrightarrow> ph_active_count ph \<noteq> 1 \<Longrightarrow>
   ph_cycle_size_bytes ph dvd ph_virtual_size_bytes ph"
  unfolding wf_phase_def by blast

lemma segment_exists:
  "x < cum ph n * su \<Longrightarrow> \<exists>j<n. cum ph j * su \<le> x \<and> x < cum ph (Suc j) * su"
proof (induction n)
  case (Suc n)
  show ?case
  proof (cases "x < cum ph n * su")
    case True
    with Suc.IH show ?thesis using less_SucI by blast
  next
    case False
    with Suc.prems show ?thesis by (intro exI [of _ n]) simp
  qed
qed simp

lemma segment_unique:
  assumes "cum ph i * su \<le> x" "x < cum ph (Suc i) * su"
    and "cum ph j * su \<le> x" "x < cum ph (Suc j) * su"
  shows "i = j"
proof (rule ccontr)
  assume "i \<noteq> j"
  then consider "Suc i \<le> j" | "Suc j \<le> i" by linarith
  then show False
  proof cases
    case 1
    then have "cum ph (Suc i) * su \<le> cum ph j * su" by (simp add: cum_mono)
    with assms show False by linarith
  next
    case 2
    then have "cum ph (Suc j) * su \<le> cum ph i * su" by (simp add: cum_mono)
    with assms show False by linarith
  qed
qed

lemma wf_cycle_pos: "wf_phase su n ph \<Longrightarrow> 0 < su \<Longrightarrow> 0 < ph_cycle_size_bytes ph"
proof -
  assume wf: "wf_phase su n ph" and su: "0 < su"
  have "cum ph (Suc 0) \<le> cum ph (ph_active_count ph)"
    using wf by (intro cum_mono) (simp add: wf_phase_def)
  moreover have "1 \<le> cum ph (Suc 0)"
    using wf by (subst cum_Suc) (auto simp: wf_phase_def const)
  ultimately show ?thesis using wf su by (simp add: wf_phase_def)
qed

lemma placed_exists:
  assumes wf: "wf_phase su n ph" and su: "0 < su"
  shows "\<exists>j y. placed su ph x j y"
proof (cases "ph_active_count ph = 1")
  case False
  have "x mod ph_cycle_size_bytes ph < cum ph (ph_active_count ph) * su"
    using wf_cycle_pos [OF wf su] wf by (simp add: wf_phase_def)
  from segment_exists [OF this] show ?thesis using False by (auto simp: placed_def)
qed (auto simp: placed_def)

lemma placed_unique:
  assumes "placed su ph x i y" "placed su ph x j z"
  shows "i = j \<and> y = z"
proof (cases "ph_active_count ph = 1")
  case False
  then have "i = j" using assms segment_unique [of ph i su "x mod ph_cycle_size_bytes ph" j]
    by (auto simp: placed_def)
  with assms False show ?thesis by (simp add: placed_def)
qed (use assms in \<open>auto simp: placed_def\<close>)

lemma placed_extent:
  assumes wf: "wf_phase su n ph" and su: "0 < su"
    and x: "x < ph_virtual_size_bytes ph" and pl: "placed su ph x j y"
  shows "y < phase_extent su ph j"
proof (cases "ph_active_count ph = 1")
  case True
  with x pl show ?thesis by (simp add: placed_def phase_extent_def)
next
  case False
  let ?C = "ph_cycle_size_bytes ph" let ?r = "ph_ratios ph ! j"
  have j: "j < length (ph_ratios ph)" using wf pl by (auto simp: placed_def wf_phase_def)
  have cyc: "x div ?C < ph_virtual_size_bytes ph div ?C"
    using x False wf by (metis dvd_div_mult_self less_mult_imp_div_less wf_phase_def)
  have "x mod ?C - cum ph j * su < ?r * su"
    using pl False j by (auto simp: placed_def cum_Suc algebra_simps)
  then have "y < x div ?C * ?r * su + ?r * su"
    using pl False by (simp add: placed_def)
  also have "\<dots> = Suc (x div ?C) * ?r * su" by (simp add: algebra_simps)
  also have "\<dots> \<le> ph_virtual_size_bytes ph div ?C * ?r * su"
    using cyc by (intro mult_le_mono) simp_all
  finally show ?thesis using False by (simp add: phase_extent_def)
qed

lemma unplace_placed:
  assumes wf: "wf_phase su n ph" and su: "0 < su" and pl: "placed su ph x j y"
  shows "unplace su ph j y = x"
proof (cases "ph_active_count ph = 1")
  case True
  with pl show ?thesis by (simp add: placed_def unplace_def)
next
  case False
  let ?C = "ph_cycle_size_bytes ph" let ?w = "ph_ratios ph ! j * su"
  let ?o = "x mod ?C - cum ph j * su"
  have j: "j < length (ph_ratios ph)" using wf pl by (auto simp: placed_def wf_phase_def)
  have o: "?o < ?w" using pl False j by (auto simp: placed_def cum_Suc algebra_simps)
  have y: "y = x div ?C * ?w + ?o" using pl False by (simp add: placed_def)
  have "y div ?w = x div ?C" "y mod ?w = ?o" unfolding y using cell_div_mod [OF o] by blast+
  then have "unplace su ph j y = x div ?C * ?C + cum ph j * su + ?o"
    using False by (simp add: unplace_def)
  also have "\<dots> = x div ?C * ?C + x mod ?C" using pl False by (simp add: placed_def)
  finally show ?thesis by simp
qed

lemma placed_unplace:
  assumes wf: "wf_phase su n ph" and su: "0 < su"
    and j: "j < ph_active_count ph" and y: "y < phase_extent su ph j"
  shows "placed su ph (unplace su ph j y) j y" "unplace su ph j y < ph_virtual_size_bytes ph"
proof -
  let ?C = "ph_cycle_size_bytes ph" let ?w = "ph_ratios ph ! j * su"
  let ?o = "cum ph j * su + y mod ?w"
  have w: "0 < ?w" using wf j su by (fastforce simp: wf_phase_def)
  have jl: "j < length (ph_ratios ph)" using wf j by (auto simp: wf_phase_def)
  have o1: "?o < cum ph (Suc j) * su"
    using w jl by (simp add: cum_Suc algebra_simps)
  also have "\<dots> \<le> ?C"
    using wf j cum_mono [of "Suc j" "ph_active_count ph" ph] by (simp add: wf_phase_def)
  finally have o2: "?o < ?C" .
  have dm: "(y div ?w * ?C + ?o) div ?C = y div ?w" "(y div ?w * ?C + ?o) mod ?C = ?o"
    using o2 by simp_all
  show "placed su ph (unplace su ph j y) j y"
  proof (cases "ph_active_count ph = 1")
    case False
    then have u: "unplace su ph j y = y div ?w * ?C + ?o" by (simp add: unplace_def)
    have "y = y div ?w * ?w + y mod ?w" by (rule div_mult_mod_eq [symmetric])
    then have y': "y = y div ?w * ph_ratios ph ! j * su + (?o - cum ph j * su)"
      by (simp only: mult.assoc diff_add_inverse)
    show ?thesis
      unfolding placed_def u dm using False j o1 y' by simp
  qed (use j in \<open>simp add: placed_def unplace_def\<close>)
  show "unplace su ph j y < ph_virtual_size_bytes ph"
  proof (cases "ph_active_count ph = 1")
    case True
    with y show ?thesis by (simp add: unplace_def phase_extent_def)
  next
    case False
    let ?k = "ph_virtual_size_bytes ph div ?C"
    have "y < ?k * ?w" using y False by (simp add: phase_extent_def algebra_simps)
    then have "y div ?w < ?k" by (simp add: less_mult_imp_div_less)
    then have "Suc (y div ?w) * ?C \<le> ?k * ?C" by (intro mult_le_mono) simp_all
    moreover have "?k * ?C = ph_virtual_size_bytes ph"
      using wf_phase_dvd [OF wf False] by (rule dvd_div_mult_self)
    ultimately show ?thesis using o2 False by (simp add: unplace_def)
  qed
qed


section \<open>The code's scan of a phase\<close>

lemma segment_bound:
  assumes "wf_phase su n ph" "su < 2 ^ 32" "j \<le> ph_active_count ph"
  shows "cum ph j * su < 2 ^ 64"
proof -
  have "cum ph j * su \<le> 128 * su" using wf_phase_cum_128 [OF assms(1,3)] by (rule mult_le_mono1)
  also have "\<dots> < 2 ^ 64" using assms(2) by simp
  finally show ?thesis .
qed

lemma wf_phase_lengths:
  assumes "wf_phase su n ph" "j < ph_active_count ph"
  shows "j < length (ph_ratios ph)" "j < length (ph_active_disk_indices ph)"
    "j < length (ph_physical_starts_bytes ph)"
  using assms by (auto simp: wf_phase_def)

lemma u32_cum_Suc:
  "wf_phase su n ph \<Longrightarrow> j < ph_active_count ph \<Longrightarrow>
   u32 (cum ph j + ph_ratios ph ! j) = cum ph (Suc j)"
  using wf_phase_cum_128 [of su n ph "Suc j"]
  by (simp add: cum_Suc wf_phase_lengths wrap)

lemma seg_scan_found:
  assumes wf: "wf_phase su n ph" and su: "su < 2 ^ 32"
    and k: "k < ph_active_count ph" "cum ph k * su \<le> x" "x < cum ph (Suc k) * su"
  shows "j \<le> k \<Longrightarrow> seg_scan su ph x j (cum ph j) = Inr (Some (k, cum ph k * su))"
proof (induction "k - j" arbitrary: j)
  case 0
  then have "j = k" by simp
  then show ?case
    using k segment_bound [OF wf su, of k] segment_bound [OF wf su, of "Suc k"]
      wf_phase_lengths [OF wf k(1)]
    by (subst seg_scan.simps) (simp add: Let_def wrap cum_Suc)
next
  case (Suc m)
  then have jk: "j < k" by simp
  then have j: "j < ph_active_count ph" using k by simp
  have "cum ph (Suc j) * su \<le> cum ph k * su" using jk by (intro mult_le_mono1 cum_mono) simp
  then have "\<not> x < cum ph (Suc j) * su" using k by linarith
  moreover have "seg_scan su ph x (Suc j) (cum ph (Suc j)) = Inr (Some (k, cum ph k * su))"
    using Suc jk by (intro Suc.hyps(1)) auto
  ultimately show ?case
    using j segment_bound [OF wf su, of j] segment_bound [OF wf su, of "Suc j"]
      wf_phase_lengths [OF wf j] u32_cum_Suc [OF wf j]
    by (subst seg_scan.simps) (simp add: Let_def wrap cum_Suc)
qed

section \<open>The phases of a volume\<close>

lemma vstart_0 [simp]: "vstart vol 0 = 0"
  by (simp add: vstart_def)

lemma vstart_Suc:
  "p < length (v_phases vol) \<Longrightarrow>
   vstart vol (Suc p) = vstart vol p + ph_virtual_size_bytes (v_phases vol ! p)"
  by (simp add: vstart_def take_Suc_conv_app_nth)

lemma vstart_mono: "p \<le> q \<Longrightarrow> vstart vol p \<le> vstart vol q"
  unfolding vstart_def take_map [symmetric] by (rule sum_list_take_mono)

lemma wf_layout_phase:
  assumes "wf_layout vol" "p < v_phase_count vol"
  shows "wf_phase (v_stripe_unit vol) (v_disk_count vol) (v_phases vol ! p)"
    "ph_virtual_start_bytes (v_phases vol ! p) = vstart vol p"
    "p < length (v_phases vol)"
    "vstart vol (Suc p) = vstart vol p + ph_virtual_size_bytes (v_phases vol ! p)"
    "vstart vol (Suc p) \<le> v_virtual_total_bytes vol"
proof -
  show p: "p < length (v_phases vol)" using assms by (simp add: wf_layout_def)
  then show "vstart vol (Suc p) = vstart vol p + ph_virtual_size_bytes (v_phases vol ! p)"
    by (rule vstart_Suc)
  show "vstart vol (Suc p) \<le> v_virtual_total_bytes vol"
    using assms vstart_mono [of "Suc p" "v_phase_count vol" vol] by (simp add: wf_layout_def)
qed (use assms in \<open>auto simp: wf_layout_def\<close>)

lemma wf_layout_su:
  "wf_layout vol \<Longrightarrow> 0 < v_stripe_unit vol" "wf_layout vol \<Longrightarrow> v_stripe_unit vol < 2 ^ 32"
  "wf_layout vol \<Longrightarrow> v_virtual_total_bytes vol < 2 ^ 64"
  "wf_layout vol \<Longrightarrow> v_virtual_total_bytes vol = vstart vol (v_phase_count vol)"
  by (auto simp: wf_layout_def)

lemma phase_exists:
  "vo < vstart vol n \<Longrightarrow> \<exists>p<n. vstart vol p \<le> vo \<and> vo < vstart vol (Suc p)"
proof (induction n)
  case (Suc n)
  then show ?case by (cases "vo < vstart vol n") (auto intro: less_SucI)
qed simp

lemma phase_unique:
  assumes "vstart vol p \<le> vo" "vo < vstart vol (Suc p)" "vstart vol q \<le> vo" "vo < vstart vol (Suc q)"
  shows "p = q"
proof (rule ccontr)
  assume "p \<noteq> q"
  then consider "Suc p \<le> q" | "Suc q \<le> p" by linarith
  then show False using assms vstart_mono by cases (meson leD le_trans)+
qed

text \<open>Where a volume's byte is: phase, segment and place in the segment's extent.\<close>

definition maps_to :: "STRIPE_VOLUME \<Rightarrow> nat \<Rightarrow> nat \<Rightarrow> nat \<Rightarrow> nat \<Rightarrow> bool" where
  "maps_to vol vo p j y \<longleftrightarrow> p < v_phase_count vol \<and> vstart vol p \<le> vo \<and>
     vo < vstart vol (Suc p) \<and>
     placed (v_stripe_unit vol) (v_phases vol ! p) (vo - vstart vol p) j y"

lemma maps_to_exists:
  assumes "wf_layout vol" "vo < v_virtual_total_bytes vol"
  shows "\<exists>p j y. maps_to vol vo p j y"
proof -
  obtain p where "p < v_phase_count vol" "vstart vol p \<le> vo" "vo < vstart vol (Suc p)"
    using phase_exists [of vo vol "v_phase_count vol"] assms by (auto simp: wf_layout_def)
  then show ?thesis
    using placed_exists [of "v_stripe_unit vol" "v_disk_count vol" "v_phases vol ! p"] assms
    by (metis maps_to_def wf_layout_phase(1) wf_layout_su(1))
qed

text \<open>The address of a place.\<close>

definition place_addr :: "STRIPE_VOLUME \<Rightarrow> nat \<Rightarrow> nat \<Rightarrow> nat \<Rightarrow> nat \<times> nat" where
  "place_addr vol p j y =
     (ph_active_disk_indices (v_phases vol ! p) ! j, ph_physical_starts_bytes (v_phases vol ! p) ! j + y)"


lemma extent_bound:
  assumes "wf_layout vol" "p < v_phase_count vol" "j < ph_active_count (v_phases vol ! p)"
    "y < phase_extent (v_stripe_unit vol) (v_phases vol ! p) j"
  shows "ph_physical_starts_bytes (v_phases vol ! p) ! j + y < 2 ^ 64"
  using wf_layout_phase(1) [OF assms(1,2)] assms(3,4) by (fastforce simp: wf_phase_def)

lemma maps_to_extent:
  assumes "wf_layout vol" "maps_to vol vo p j y"
  shows "p < v_phase_count vol" "j < ph_active_count (v_phases vol ! p)"
    "y < phase_extent (v_stripe_unit vol) (v_phases vol ! p) j"
proof -
  show p: "p < v_phase_count vol" using assms by (simp add: maps_to_def)
  show "j < ph_active_count (v_phases vol ! p)" using assms by (auto simp: maps_to_def placed_def)
  show "y < phase_extent (v_stripe_unit vol) (v_phases vol ! p) j"
    using assms p wf_layout_phase [OF assms(1) p] wf_layout_su [OF assms(1)]
    by (intro placed_extent [of _ "v_disk_count vol" _ "vo - vstart vol p"]) (auto simp: maps_to_def)
qed

lemma map_phases_here:
  assumes wf: "wf_layout vol" and m: "maps_to vol vo p j y"
  shows "map_phases vol vo p = Inr (Some (place_addr vol p j y))"
proof -
  let ?su = "v_stripe_unit vol" and ?ph = "v_phases vol ! p" and ?x = "vo - vstart vol p"
  let ?C = "ph_cycle_size_bytes ?ph" and ?r = "ph_ratios ?ph ! j"
  have p: "p < v_phase_count vol" and lo: "vstart vol p \<le> vo" and hi: "vo < vstart vol (Suc p)"
    and pl: "placed ?su ?ph ?x j y" using m by (auto simp: maps_to_def)
  note W = wf_layout_phase [OF wf p] and S = wf_layout_su [OF wf]
  have end64: "vstart vol p + ph_virtual_size_bytes ?ph < 2 ^ 64" using W(4,5) S(3) by linarith
  have y64: "ph_physical_starts_bytes ?ph ! j + y < 2 ^ 64"
    using maps_to_extent [OF wf m] by (intro extent_bound [OF wf])
  have j: "j < ph_active_count ?ph" using pl by (simp add: placed_def)
  show ?thesis
  proof (cases "ph_active_count ?ph = 1")
    case True
    then have "j = 0" "y = ?x" using pl by (auto simp: placed_def)
    then show ?thesis using True p lo hi W end64 y64
      by (subst map_phases.simps) (simp add: Let_def wrap place_addr_def)
  next
    case False
    let ?o = "?x mod ?C"
    have seg: "cum ?ph j * ?su \<le> ?o" "?o < cum ?ph (Suc j) * ?su"
      and y: "y = ?x div ?C * ?r * ?su + (?o - cum ?ph j * ?su)"
      using pl False by (auto simp: placed_def)
    have scan: "seg_scan ?su ?ph ?o 0 0 = Inr (Some (j, cum ?ph j * ?su))"
      using seg_scan_found [OF W(1) S(2) j seg, of 0] by simp
    have b1: "?x div ?C * ?r * ?su < 2 ^ 64" using y y64 by linarith
    have "?x div ?C * ?r \<le> ?x div ?C * ?r * ?su" using S(1) by simp
    then have b0: "?x div ?C * ?r < 2 ^ 64" using b1 by linarith
    have "place_addr vol p j y = (ph_active_disk_indices ?ph ! j,
        u64 (ph_physical_starts_bytes ?ph ! j + u64 (u64 (?x div ?C * ?r) * ?su) + (?o - cum ?ph j * ?su)))"
      using y64 b0 b1 by (simp only: place_addr_def u64_id y add.assoc)
    moreover have "?C \<noteq> 0" using wf_cycle_pos [OF W(1) S(1)] by simp
    moreover have "\<not> length (v_phases vol) \<le> p"
      "\<not> (vo < vstart vol p \<or> vstart vol p + ph_virtual_size_bytes ?ph \<le> vo)"
      using W lo hi by auto
    ultimately show ?thesis using False p W(2) end64
      by (subst map_phases.simps) (simp only: Let_def u64_id scan if_True if_False
          sum.case option.case prod.case)
  qed
qed

lemma map_phases_from:
  assumes wf: "wf_layout vol" and m: "maps_to vol vo p j y"
  shows "q \<le> p \<Longrightarrow> map_phases vol vo q = Inr (Some (place_addr vol p j y))"
proof (induction "p - q" arbitrary: q)
  case 0
  then show ?case using map_phases_here [OF wf m] by simp
next
  case (Suc k)
  then have qp: "q < p" by simp
  then have q: "q < v_phase_count vol" using m by (simp add: maps_to_def)
  note W = wf_layout_phase [OF wf q] and S = wf_layout_su [OF wf]
  have "vstart vol (Suc q) \<le> vstart vol p" using qp by (intro vstart_mono) simp
  then have "vstart vol (Suc q) \<le> vo" using m by (simp add: maps_to_def)
  moreover have "map_phases vol vo (Suc q) = Inr (Some (place_addr vol p j y))"
    using Suc qp by (intro Suc.hyps(1)) auto
  ultimately show ?case using q W S
    by (subst map_phases.simps) (simp add: Let_def wrap)
qed

lemma map_single_byte_maps_to:
  assumes wf: "wf_layout vol" and m: "maps_to vol vo p j y"
  shows "map_single_byte vol vo = Inr (Some (place_addr vol p j y))"
proof -
  have p: "p < v_phase_count vol" "vo < vstart vol (Suc p)" using m by (auto simp: maps_to_def)
  then have "vo < v_virtual_total_bytes vol" using wf_layout_phase(5) [OF wf p(1)] by linarith
  then show ?thesis using map_phases_from [OF wf m, of 0] by (simp add: map_single_byte_def)
qed

section \<open>The map is a bijection onto the cells\<close>

definition byte_addr :: "STRIPE_VOLUME \<Rightarrow> nat \<Rightarrow> nat \<times> nat" where
  "byte_addr vol vo = (case map_single_byte vol vo of Inr (Some a) \<Rightarrow> a | _ \<Rightarrow> (0, 0))"

lemma byte_addr_maps_to: "wf_layout vol \<Longrightarrow> maps_to vol vo p j y \<Longrightarrow> byte_addr vol vo = place_addr vol p j y"
  by (simp add: byte_addr_def map_single_byte_maps_to)

lemma map_single_byte_addr:
  "wf_layout vol \<Longrightarrow> vo < v_virtual_total_bytes vol \<Longrightarrow>
   map_single_byte vol vo = Inr (Some (byte_addr vol vo))"
  using maps_to_exists byte_addr_maps_to map_single_byte_maps_to by metis

lemma place_addr_inject_phase:
  assumes wf: "wf_layout vol" and pq: "p < q" and q: "q < v_phase_count vol"
    and i: "i < ph_active_count (v_phases vol ! p)" and j: "j < ph_active_count (v_phases vol ! q)"
    and y: "y < phase_extent (v_stripe_unit vol) (v_phases vol ! p) i"
  shows "place_addr vol p i y \<noteq> place_addr vol q j z"
proof
  assume eq: "place_addr vol p i y = place_addr vol q j z"
  then have "ph_active_disk_indices (v_phases vol ! p) ! i = ph_active_disk_indices (v_phases vol ! q) ! j"
    by (simp add: place_addr_def)
  then have "ph_physical_starts_bytes (v_phases vol ! p) ! i
      + phase_extent (v_stripe_unit vol) (v_phases vol ! p) i \<le> ph_physical_starts_bytes (v_phases vol ! q) ! j"
    using wf pq q i j unfolding wf_layout_def by blast
  with y eq show False by (simp add: place_addr_def)
qed

lemma place_addr_inject:
  assumes wf: "wf_layout vol"
    and a: "p < v_phase_count vol" "i < ph_active_count (v_phases vol ! p)"
      "y < phase_extent (v_stripe_unit vol) (v_phases vol ! p) i"
    and b: "q < v_phase_count vol" "j < ph_active_count (v_phases vol ! q)"
      "z < phase_extent (v_stripe_unit vol) (v_phases vol ! q) j"
    and eq: "place_addr vol p i y = place_addr vol q j z"
  shows "p = q \<and> i = j \<and> y = z"
proof -
  have pq: "p = q"
    using place_addr_inject_phase [OF wf _ b(1) a(2) b(2) a(3)]
      place_addr_inject_phase [OF wf _ a(1) b(2) a(2) b(3)] eq
    by (metis linorder_neqE_nat)
  let ?ids = "ph_active_disk_indices (v_phases vol ! p)" and ?n = "ph_active_count (v_phases vol ! p)"
  have "distinct (take ?n ?ids)" "?n \<le> length ?ids"
    using wf_layout_phase(1) [OF wf a(1)] by (auto simp: wf_phase_def)
  moreover have "?ids ! i = ?ids ! j" using eq pq by (simp add: place_addr_def)
  ultimately have "i = j" using a(2) b(2) pq by (metis distinct_take_inj)
  with pq eq show ?thesis by (simp add: place_addr_def)
qed

lemma maps_to_inject:
  assumes wf: "wf_layout vol" and a: "maps_to vol vo p j y" and b: "maps_to vol vo' p j y"
  shows "vo = vo'"
proof -
  have p: "p < v_phase_count vol" using a by (simp add: maps_to_def)
  have "vo - vstart vol p = vo' - vstart vol p"
    using unplace_placed [OF wf_layout_phase(1) [OF wf p] wf_layout_su(1) [OF wf]] a b
    by (metis maps_to_def)
  with a b show ?thesis by (auto simp: maps_to_def)
qed

lemma maps_to_onto:
  assumes wf: "wf_layout vol" and p: "p < v_phase_count vol"
    and j: "j < ph_active_count (v_phases vol ! p)"
    and y: "y < phase_extent (v_stripe_unit vol) (v_phases vol ! p) j"
  shows "maps_to vol (vstart vol p + unplace (v_stripe_unit vol) (v_phases vol ! p) j y) p j y"
  using placed_unplace [OF wf_layout_phase(1) [OF wf p] wf_layout_su(1) [OF wf] j y] p
    wf_layout_phase(4) [OF wf p] by (simp add: maps_to_def)

lemma byte_addr_inj: "wf_layout vol \<Longrightarrow> inj_on (byte_addr vol) {..< v_virtual_total_bytes vol}"
proof (rule inj_onI, unfold lessThan_iff)
  fix a b assume wf: "wf_layout vol" and a: "a < v_virtual_total_bytes vol"
    and b: "b < v_virtual_total_bytes vol" and eq: "byte_addr vol a = byte_addr vol b"
  obtain p i y where A: "maps_to vol a p i y" using maps_to_exists [OF wf a] by blast
  obtain q j z where B: "maps_to vol b q j z" using maps_to_exists [OF wf b] by blast
  have "p = q \<and> i = j \<and> y = z"
    using eq byte_addr_maps_to [OF wf A] byte_addr_maps_to [OF wf B]
    by (intro place_addr_inject [OF wf maps_to_extent [OF wf A] maps_to_extent [OF wf B]]) simp
  then show "a = b" using maps_to_inject [OF wf A] B by blast
qed

lemma cells_place: 
  "c \<in> cells vol \<longleftrightarrow> (\<exists>p < v_phase_count vol. \<exists>j < ph_active_count (v_phases vol ! p).
     \<exists>y < phase_extent (v_stripe_unit vol) (v_phases vol ! p) j. c = place_addr vol p j y)"
proof
  assume "c \<in> cells vol"
  then obtain p j where "p < v_phase_count vol" "j < ph_active_count (v_phases vol ! p)"
    "fst c = ph_active_disk_indices (v_phases vol ! p) ! j"
    "ph_physical_starts_bytes (v_phases vol ! p) ! j \<le> snd c"
    "snd c < ph_physical_starts_bytes (v_phases vol ! p) ! j
       + phase_extent (v_stripe_unit vol) (v_phases vol ! p) j"
    by (auto simp: cells_def)
  moreover from this
  have "c = place_addr vol p j (snd c - ph_physical_starts_bytes (v_phases vol ! p) ! j)"
    "snd c - ph_physical_starts_bytes (v_phases vol ! p) ! j < phase_extent (v_stripe_unit vol) (v_phases vol ! p) j"
    by (auto simp: place_addr_def prod_eq_iff)
  ultimately show "\<exists>p < v_phase_count vol. \<exists>j < ph_active_count (v_phases vol ! p).
     \<exists>y < phase_extent (v_stripe_unit vol) (v_phases vol ! p) j. c = place_addr vol p j y"
    by blast
next
  assume "\<exists>p < v_phase_count vol. \<exists>j < ph_active_count (v_phases vol ! p).
     \<exists>y < phase_extent (v_stripe_unit vol) (v_phases vol ! p) j. c = place_addr vol p j y"
  then obtain p j y where "p < v_phase_count vol" "j < ph_active_count (v_phases vol ! p)"
    "y < phase_extent (v_stripe_unit vol) (v_phases vol ! p) j" "c = place_addr vol p j y" by blast
  then show "c \<in> cells vol"
    unfolding cells_def place_addr_def
    by (intro CollectI) (simp, intro exI [of _ p] exI [of _ j] conjI, simp_all)
qed

lemma byte_addr_image:
  assumes wf: "wf_layout vol"
  shows "byte_addr vol ` {..< v_virtual_total_bytes vol} = cells vol"
proof (intro set_eqI iffI)
  fix c assume "c \<in> byte_addr vol ` {..< v_virtual_total_bytes vol}"
  then obtain vo where vo: "vo < v_virtual_total_bytes vol" and c: "c = byte_addr vol vo" by auto
  obtain p j y where M: "maps_to vol vo p j y" using maps_to_exists [OF wf vo] by blast
  then show "c \<in> cells vol" unfolding cells_place c byte_addr_maps_to [OF wf M]
    using maps_to_extent [OF wf M] by blast
next
  fix c assume "c \<in> cells vol"
  then obtain p j y where p: "p < v_phase_count vol" and j: "j < ph_active_count (v_phases vol ! p)"
    and y: "y < phase_extent (v_stripe_unit vol) (v_phases vol ! p) j" and c: "c = place_addr vol p j y"
    unfolding cells_place by blast
  note M = maps_to_onto [OF wf p j y]
  then have "vstart vol p + unplace (v_stripe_unit vol) (v_phases vol ! p) j y < vstart vol (Suc p)"
    by (simp add: maps_to_def)
  then have "vstart vol p + unplace (v_stripe_unit vol) (v_phases vol ! p) j y < v_virtual_total_bytes vol"
    using wf_layout_phase(5) [OF wf p] by linarith
  then show "c \<in> byte_addr vol ` {..< v_virtual_total_bytes vol}"
    using byte_addr_maps_to [OF wf M] c by (metis image_eqI lessThan_iff)
qed

lemma byte_addr_bij: "wf_layout vol \<Longrightarrow> bij_betw (byte_addr vol) {..< v_virtual_total_bytes vol} (cells vol)"
  by (simp add: bij_betw_def byte_addr_inj byte_addr_image)

section \<open>The chunks of a request\<close>

lemma current_phase_maps_to:
  assumes wf: "wf_layout vol" and m: "maps_to vol vo p j y"
  shows "current_phase vol vo = p"
proof -
  have *: "n \<le> v_phase_count vol \<Longrightarrow> p < n \<Longrightarrow>
      foldl (\<lambda>c p. if ph_virtual_start_bytes (v_phases vol ! p) \<le> vo then p else c) 0 [1 ..< n] = p" for n
  proof (induction n)
    case (Suc n)
    show ?case
    proof (cases "p = n")
      case True
      then show ?thesis using Suc.prems wf_layout_phase(2) [OF wf, of n] m
        by (cases n) (auto simp: maps_to_def)
    next
      case False
      then have "vstart vol (Suc p) \<le> vstart vol n" using Suc.prems by (intro vstart_mono) simp
      then have "\<not> vstart vol n \<le> vo" using m by (simp add: maps_to_def)
      then show ?thesis using Suc False wf_layout_phase(2) [OF wf, of n] by simp
    qed
  qed simp
  show ?thesis unfolding current_phase_def using m by (intro *) (auto simp: maps_to_def)
qed

lemma find_seg_found:
  assumes wf: "wf_phase su n ph" and su: "su < 2 ^ 32"
    and k: "k < ph_active_count ph" "cum ph k * su \<le> x" "x < cum ph (Suc k) * su"
  shows "j \<le> k \<Longrightarrow> find_seg su ph (ph_active_disk_indices ph ! k) x j (cum ph j) = (k, cum ph k)"
proof (induction "k - j" arbitrary: j)
  case 0
  then have "j = k" by simp
  then show ?case
    using k segment_bound [OF wf su, of k] segment_bound [OF wf su, of "Suc k"]
      wf_phase_lengths [OF wf k(1)]
    by (subst find_seg.simps) (simp add: wrap cum_Suc)
next
  case (Suc m)
  then have jk: "j < k" by simp
  then have j: "j < ph_active_count ph" using k by simp
  have "cum ph (Suc j) * su \<le> cum ph k * su" using jk by (intro mult_le_mono1 cum_mono) simp
  then have "\<not> x < cum ph (Suc j) * su" using k by linarith
  moreover have "find_seg su ph (ph_active_disk_indices ph ! k) x (Suc j) (cum ph (Suc j)) = (k, cum ph k)"
    using Suc jk by (intro Suc.hyps(1)) auto
  ultimately show ?case
    using j segment_bound [OF wf su, of j] segment_bound [OF wf su, of "Suc j"]
      wf_phase_lengths [OF wf j] u32_cum_Suc [OF wf j]
    by (subst find_seg.simps) (simp add: wrap cum_Suc)
qed

text \<open>The bytes from \<open>vo\<close> that lie next to each other in one segment.\<close>

definition run_length :: "STRIPE_VOLUME \<Rightarrow> nat \<Rightarrow> nat \<Rightarrow> nat \<Rightarrow> nat" where
  "run_length vol vo p j =
     (let ph = v_phases vol ! p; x = vo - vstart vol p; rest = ph_virtual_size_bytes ph - x
      in if ph_active_count ph = 1 then rest
         else min rest (cum ph (Suc j) * v_stripe_unit vol - x mod ph_cycle_size_bytes ph))"

lemma chunk_size_run:
  assumes wf: "wf_layout vol" and m: "maps_to vol vo p j y"
  shows "chunk_size vol vo (fst (place_addr vol p j y)) n = min n (run_length vol vo p j)"
proof -
  let ?su = "v_stripe_unit vol" and ?ph = "v_phases vol ! p" and ?x = "vo - vstart vol p"
  have p: "p < v_phase_count vol" and lo: "vstart vol p \<le> vo" and hi: "vo < vstart vol (Suc p)"
    and pl: "placed ?su ?ph ?x j y" using m by (auto simp: maps_to_def)
  note W = wf_layout_phase [OF wf p] and S = wf_layout_su [OF wf]
  have size: "?x < ph_virtual_size_bytes ?ph" "ph_virtual_size_bytes ?ph < 2 ^ 64" "vo < 2 ^ 64"
    using W(4,5) S(3) lo hi by linarith+
  have j: "j < ph_active_count ?ph" using pl by (simp add: placed_def)
  have oip: "sub64 vo (vstart vol p) = ?x" using lo size by (simp add: wrap)
  have rest: "sub64 (ph_virtual_size_bytes ?ph) ?x = ph_virtual_size_bytes ?ph - ?x"
    using size by (simp add: wrap)
  show ?thesis
  proof (cases "ph_active_count ?ph = 1")
    case True
    then show ?thesis
      by (simp add: chunk_size_def current_phase_maps_to [OF wf m] W(2) oip rest run_length_def Let_def min_def)
  next
    case False
    let ?o = "?x mod ph_cycle_size_bytes ?ph"
    have seg: "cum ?ph j * ?su \<le> ?o" "?o < cum ?ph (Suc j) * ?su"
      using pl False by (auto simp: placed_def)
    have e: "cum ?ph j + ph_ratios ?ph ! j = cum ?ph (Suc j)"
      using wf_phase_lengths(1) [OF W(1) j] by (simp add: cum_Suc)
    have b: "cum ?ph (Suc j) * ?su < 2 ^ 64"
      using segment_bound [OF W(1) S(2)] j by simp
    then have s: "sub64 (cum ?ph (Suc j) * ?su) ?o = cum ?ph (Suc j) * ?su - ?o"
      using seg by (intro sub64_id) auto
    have f: "find_seg ?su ?ph (ph_active_disk_indices ?ph ! j) ?o 0 0 = (j, cum ?ph j)"
      using find_seg_found [OF W(1) S(2) j seg, of 0] by simp
    show ?thesis using False
      by (simp add: chunk_size_def current_phase_maps_to [OF wf m] W(2) oip rest run_length_def
          Let_def place_addr_def f e u64_id [OF b] s min_def)
  qed
qed

lemma run_length_pos:
  assumes wf: "wf_layout vol" and m: "maps_to vol vo p j y"
  shows "0 < run_length vol vo p j" "vo + run_length vol vo p j \<le> vstart vol (Suc p)"
proof -
  have p: "p < v_phase_count vol" using m by (simp add: maps_to_def)
  show "0 < run_length vol vo p j" "vo + run_length vol vo p j \<le> vstart vol (Suc p)"
    using m wf_layout_phase(4) [OF wf p] by (auto simp: run_length_def Let_def maps_to_def placed_def)
qed

lemma maps_to_run:
  assumes wf: "wf_layout vol" and m: "maps_to vol vo p j y" and k: "k < run_length vol vo p j"
  shows "maps_to vol (vo + k) p j (y + k)"
proof -
  let ?su = "v_stripe_unit vol" and ?ph = "v_phases vol ! p" and ?x = "vo - vstart vol p"
  let ?C = "ph_cycle_size_bytes ?ph" and ?o = "?x mod ph_cycle_size_bytes ?ph"
  have p: "p < v_phase_count vol" and lo: "vstart vol p \<le> vo"
    and pl: "placed ?su ?ph ?x j y" using m by (auto simp: maps_to_def)
  note W = wf_layout_phase [OF wf p]
  have hi: "vo + k < vstart vol (Suc p)" using run_length_pos(2) [OF wf m] k by linarith
  have sub: "vo + k - vstart vol p = ?x + k" using lo by simp
  have "placed ?su ?ph (?x + k) j (y + k)"
  proof (cases "ph_active_count ?ph = 1")
    case True
    then show ?thesis using pl by (simp add: placed_def)
  next
    case False
    have j: "j < ph_active_count ?ph" using pl by (simp add: placed_def)
    have ok: "?o + k < cum ?ph (Suc j) * ?su"
    proof -
      have "k < cum ?ph (Suc j) * ?su - ?o" using k False by (simp add: run_length_def Let_def)
      then show ?thesis by linarith
    qed
    also have "\<dots> \<le> cum ?ph (ph_active_count ?ph) * ?su"
      using j by (intro mult_le_mono1 cum_mono) simp
    also have "\<dots> = ?C" using W(1) by (simp add: wf_phase_def)
    finally have lt: "?o + k < ?C" .
    have "?x + k = ?x div ?C * ?C + (?o + k)" by simp
    then have dm: "(?x + k) div ?C = ?x div ?C" "(?x + k) mod ?C = ?o + k"
      using cell_div_mod [OF lt, of "?x div ?C"] by simp_all
    have "cum ?ph j * ?su \<le> ?o" "y = ?x div ?C * ph_ratios ?ph ! j * ?su + (?o - cum ?ph j * ?su)"
      using pl False by (simp_all only: placed_def if_False)
    then have "cum ?ph j * ?su \<le> ?o + k"
      "y + k = ?x div ?C * ph_ratios ?ph ! j * ?su + (?o + k - cum ?ph j * ?su)"
      by linarith+
    then show ?thesis unfolding placed_def dm using False j ok by simp
  qed
  then show ?thesis unfolding maps_to_def sub using p trans_le_add1 [OF lo] hi by blast
qed

lemma unit_dvd_vstart: "wf_layout vol \<Longrightarrow> p \<le> v_phase_count vol \<Longrightarrow> v_stripe_unit vol dvd vstart vol p"
proof (induction p)
  case (Suc p)
  then show ?case
    using wf_layout_phase(1,4) [of vol p] by (auto simp: wf_phase_def)
qed simp

text \<open>A run ends on a boundary of the stripe unit.\<close>

lemma run_ends_aligned:
  assumes wf: "wf_layout vol" and m: "maps_to vol vo p j y"
  shows "v_stripe_unit vol dvd vo + run_length vol vo p j"
proof -
  let ?su = "v_stripe_unit vol" and ?ph = "v_phases vol ! p" and ?x = "vo - vstart vol p"
  let ?C = "ph_cycle_size_bytes ?ph"
  have p: "p < v_phase_count vol" and lo: "vstart vol p \<le> vo" and hi: "vo < vstart vol (Suc p)"
    and pl: "placed ?su ?ph ?x j y" using m by (auto simp: maps_to_def)
  note W = wf_layout_phase [OF wf p]
  have d: "?su dvd vstart vol p" "?su dvd vstart vol (Suc p)"
    using unit_dvd_vstart [OF wf] p by simp_all
  have fin: "vo + (ph_virtual_size_bytes ?ph - ?x) = vstart vol (Suc p)" using W(4) lo hi by simp
  show ?thesis
  proof (cases "ph_active_count ?ph \<noteq> 1 \<and>
      cum ?ph (Suc j) * ?su - ?x mod ?C < ph_virtual_size_bytes ?ph - ?x")
    case True
    have "vo = vstart vol p + (?x div ?C * ?C + ?x mod ?C)"
      using lo by (simp only: div_mult_mod_eq le_add_diff_inverse)
    moreover have "?x mod ?C < cum ?ph (Suc j) * ?su" using pl True by (simp add: placed_def)
    moreover have "run_length vol vo p j = cum ?ph (Suc j) * ?su - ?x mod ?C"
      using True by (simp add: run_length_def Let_def)
    ultimately have "vo + run_length vol vo p j = vstart vol p + ?x div ?C * ?C + cum ?ph (Suc j) * ?su"
      by linarith
    moreover have "?su dvd ?C" using W(1) by (simp add: wf_phase_def)
    ultimately show ?thesis using d(1) by simp
  next
    case False
    then show ?thesis using d(2) fin by (auto simp: run_length_def Let_def min_def)
  qed
qed

section \<open>The loop over a request\<close>

definition expand_entry :: "IO_MAPPING_ENTRY \<Rightarrow> (nat \<times> nat) list" where
  "expand_entry e = map (\<lambda>k. (e_disk_index e, e_physical_offset e + k)) [0 ..< e_length_bytes e]"

definition expand :: "IO_MAPPING_ENTRY list \<Rightarrow> (nat \<times> nat) list" where
  "expand es = concat (map expand_entry es)"

definition units_touched :: "nat \<Rightarrow> nat \<Rightarrow> nat \<Rightarrow> nat" where
  "units_touched su vo n = (vo + n + su - 1) div su - vo div su"

definition last_fits :: "IO_MAPPING_ENTRY list \<Rightarrow> bool" where
  "last_fits es \<longleftrightarrow> es = [] \<or> e_physical_offset (last es) + e_length_bytes (last es) < 2 ^ 64"

lemma length_expand_last: "es \<noteq> [] \<Longrightarrow> e_length_bytes (last es) \<le> length (expand es)"
  by (cases es rule: rev_cases) (simp_all add: expand_def expand_entry_def)

lemma expand_entry_run: "e_disk_index e = d \<Longrightarrow> e_physical_offset e = x \<Longrightarrow> e_length_bytes e = n \<Longrightarrow>
   expand_entry e = map (\<lambda>k. (d, x + k)) [0 ..< n]"
  by (simp add: expand_entry_def)

lemma upt_run_append:
  "map (\<lambda>k. (d, x + k)) [0 ..< m] @ map (\<lambda>k. (d, x + m + k)) [0 ..< n] =
   map (\<lambda>k. (d, x + k)) [0 ..< m + (n :: nat)]"
  by (rule nth_equalityI) (auto simp: nth_append)

lemma expand_add_entry:
  assumes "length (expand es) + n < 2 ^ 32" "last_fits es" "x + n < 2 ^ 64"
  shows "expand (add_entry es d x n) = expand es @ map (\<lambda>k. (d, x + k)) [0 ..< n]"
    "last_fits (add_entry es d x n)" "add_entry es d x n \<noteq> []"
    "length (add_entry es d x n) \<le> Suc (length es)" "length es \<le> length (add_entry es d x n)"
proof -
  let ?e = "last es"
  have n: "u32 n = n" using assms(1) by (intro u32_id) linarith
  show "length (add_entry es d x n) \<le> Suc (length es)" "add_entry es d x n \<noteq> []"
    "length es \<le> length (add_entry es d x n)"
    by (auto simp: add_entry_def)
  show "expand (add_entry es d x n) = expand es @ map (\<lambda>k. (d, x + k)) [0 ..< n]"
  proof (cases "es \<noteq> [] \<and> e_disk_index ?e = d \<and>
      u64 (e_physical_offset ?e + e_length_bytes ?e) = x")
    case True
    then have x: "x = e_physical_offset ?e + e_length_bytes ?e"
      using assms(2) by (simp add: last_fits_def wrap)
    have len: "u32 (e_length_bytes ?e + n) = e_length_bytes ?e + n"
      using length_expand_last [of es] assms(1) True by (intro u32_id) linarith
    have split: "expand es = expand (butlast es) @ expand_entry ?e"
      using True by (cases es rule: rev_cases) (simp_all add: expand_def)
    have "expand (add_entry es d x n) = expand (butlast es) @
        expand_entry (?e\<lparr>e_length_bytes := e_length_bytes ?e + n\<rparr>)"
      using True by (simp add: add_entry_def n len expand_def)
    also have "expand_entry (?e\<lparr>e_length_bytes := e_length_bytes ?e + n\<rparr>) =
        expand_entry ?e @ map (\<lambda>k. (d, x + k)) [0 ..< n]"
      using True upt_run_append [of d "e_physical_offset ?e" "e_length_bytes ?e" n]
      by (simp add: expand_entry_def x)
    finally show ?thesis by (simp add: split)
  next
    case False
    have "add_entry es d x n = es @ [\<lparr>e_disk_index = d, e_physical_offset = x, e_length_bytes = n\<rparr>]"
      using False by (simp only: add_entry_def n if_False)
    then show ?thesis by (simp add: expand_def expand_entry_def)
  qed
  show "last_fits (add_entry es d x n)"
  proof (cases "es \<noteq> [] \<and> e_disk_index ?e = d \<and>
      u64 (e_physical_offset ?e + e_length_bytes ?e) = x")
    case True
    then have x: "x = e_physical_offset ?e + e_length_bytes ?e"
      using assms(2) by (simp add: last_fits_def wrap)
    have len: "u32 (e_length_bytes ?e + n) = e_length_bytes ?e + n"
      using length_expand_last [of es] assms(1) True by (intro u32_id) linarith
    have "add_entry es d x n = butlast es @ [?e\<lparr>e_length_bytes := e_length_bytes ?e + n\<rparr>]"
      using True by (simp only: add_entry_def n len if_True simp_thms)
    then show ?thesis using assms(3) x by (simp add: last_fits_def)
  next
    case False
    have "add_entry es d x n = es @ [\<lparr>e_disk_index = d, e_physical_offset = x, e_length_bytes = n\<rparr>]"
      using False by (simp only: add_entry_def n if_False)
    then show ?thesis using assms(3) by (simp add: last_fits_def)
  qed
qed

lemma units_touched_pos: "0 < su \<Longrightarrow> 0 < n \<Longrightarrow> 0 < units_touched su vo n"
proof -
  assume su: "0 < su" and n: "0 < n"
  have "Suc (vo div su) * su \<le> vo div su * su + vo mod su + su" by simp
  also have "\<dots> \<le> vo + n + su - 1 + 1 - 1" using n by (simp add: div_mult_mod_eq)
  finally have "Suc (vo div su) * su \<le> vo + n + su - 1" by simp
  then have "Suc (vo div su) \<le> (vo + n + su - 1) div su" using su by (simp add: less_eq_div_iff_mult_less_eq)
  then show ?thesis by (simp add: units_touched_def)
qed

lemma units_touched_step:
  assumes su: "0 < su" and c: "0 < c" "c \<le> n" and al: "su dvd vo + c"
  shows "Suc (units_touched su (vo + c) (n - c)) \<le> units_touched su vo n \<or> c = n"
proof -
  obtain m where m: "vo + c = m * su" using al by (metis dvd_def mult.commute)
  have "vo < m * su" using m c by linarith
  then have "vo div su < m" by (simp add: less_mult_imp_div_less)
  moreover have "(vo + c) div su = m" using m su by simp
  moreover have "vo + c + (n - c) = vo + n" using c by simp
  moreover have "c < n \<Longrightarrow> m \<le> (vo + n + su - 1) div su"
    using m su by (simp add: less_eq_div_iff_mult_less_eq)
  ultimately show ?thesis using c by (cases "c = n") (auto simp: units_touched_def)
qed


lemma run_addresses:
  assumes wf: "wf_layout vol" and m: "maps_to vol vo p j y" and n: "n \<le> run_length vol vo p j"
  shows "map (byte_addr vol) [vo ..< vo + n] =
    map (\<lambda>k. (fst (place_addr vol p j y), snd (place_addr vol p j y) + k)) [0 ..< n]"
proof (rule nth_equalityI)
  fix k assume "k < length (map (byte_addr vol) [vo ..< vo + n])"
  then have k: "k < n" by simp
  then have "byte_addr vol (vo + k) = place_addr vol p j (y + k)"
    using n by (intro byte_addr_maps_to [OF wf] maps_to_run [OF wf m]) simp
  then show "map (byte_addr vol) [vo ..< vo + n] ! k =
    map (\<lambda>k. (fst (place_addr vol p j y), snd (place_addr vol p j y) + k)) [0 ..< n] ! k"
    using k by (simp add: place_addr_def)
qed simp

lemma run_fits:
  assumes wf: "wf_layout vol" and m: "maps_to vol vo p j y" and n: "n \<le> run_length vol vo p j" "0 < n"
  shows "snd (place_addr vol p j y) + n < 2 ^ 64"
proof -
  have M: "maps_to vol (vo + (n - 1)) p j (y + (n - 1))" using n by (intro maps_to_run [OF wf m]) simp
  note E = maps_to_extent [OF wf M]
  have "y + n \<le> phase_extent (v_stripe_unit vol) (v_phases vol ! p) j" using E(3) n by simp
  then have "snd (place_addr vol p j y) + n \<le> ph_physical_starts_bytes (v_phases vol ! p) ! j
      + phase_extent (v_stripe_unit vol) (v_phases vol ! p) j"
    by (simp add: place_addr_def)
  also have "\<dots> < 2 ^ 64" using wf_layout_phase(1) [OF wf E(1)] E(2) by (simp add: wf_phase_def)
  finally show ?thesis .
qed

lemma map_lba_step:
  assumes wf: "wf_layout vol" and m: "maps_to vol vo p j y"
    and n: "0 < n" "n < 2 ^ 32" "vo + n \<le> v_virtual_total_bytes vol" and es: "length es < MAX_IO_ENTRIES"
    and c: "c = min n (run_length vol vo p j)"
  shows "map_lba_loop vol vo n es =
    map_lba_loop vol (vo + c) (n - c) (add_entry es (fst (place_addr vol p j y)) (snd (place_addr vol p j y)) c)"
proof -
  have "vo + c \<le> vo + n" by (simp add: c)
  then have "vo + c < 2 ^ 64" using n wf_layout_su(3) [OF wf] by linarith
  moreover have "c < 2 ^ 32" "c \<le> n" using n by (auto simp: c)
  moreover have "n < 2 ^ 64" using n by simp
  ultimately have "u64 (vo + c) = vo + c" "sub64 n (u32 c) = n - c" by (simp_all add: wrap)
  then show ?thesis
    using n es by (subst map_lba_loop.simps)
      (simp add: map_single_byte_maps_to [OF wf m] chunk_size_run [OF wf m] c [symmetric])
qed

text \<open>
  The loop ends; what it has written expands to the addresses of a prefix of the request, and it
  stops early only with the array full. The array cannot fill up when the stripe units the rest
  of the request touches still fit.
\<close>

lemma map_lba_loop_correct:
  assumes wf: "wf_layout vol"
  shows "length (expand es) + n < 2 ^ 32 \<Longrightarrow> vo + n \<le> v_virtual_total_bytes vol \<Longrightarrow>
    last_fits es \<Longrightarrow> length es \<le> MAX_IO_ENTRIES \<Longrightarrow>
    \<exists>m es'. map_lba_loop vol vo n es = Some (Inr (m = n, es')) \<and> m \<le> n \<and>
      expand es' = expand es @ map (byte_addr vol) [vo ..< vo + m] \<and>
      length es' \<le> MAX_IO_ENTRIES \<and> (m < n \<longrightarrow> length es' = MAX_IO_ENTRIES) \<and>
      (length es + units_touched (v_stripe_unit vol) vo n \<le> MAX_IO_ENTRIES \<longrightarrow>
        m = n \<and> length es' \<le> length es + units_touched (v_stripe_unit vol) vo n)"
proof (induction n arbitrary: vo es rule: less_induct)
  case (less n)
  let ?su = "v_stripe_unit vol"
  note S = wf_layout_su [OF wf]
  show ?case
  proof (cases "0 < n \<and> length es < MAX_IO_ENTRIES")
    case False
    then have "map_lba_loop vol vo n es = Some (Inr (0 = n, es))"
      by (subst map_lba_loop.simps) auto
    moreover have "n = 0 \<or> length es = MAX_IO_ENTRIES \<and> 0 < units_touched ?su vo n"
      using False less.prems(4) units_touched_pos [OF S(1), of n vo] by auto
    ultimately show ?thesis
      using less.prems(4) by (intro exI [of _ 0] exI [of _ es]) auto
  next
    case True
    then have "vo < v_virtual_total_bytes vol" using less.prems by simp
    then obtain p j y where M: "maps_to vol vo p j y" using maps_to_exists [OF wf] by blast
    let ?a = "place_addr vol p j y" and ?c = "min n (run_length vol vo p j)"
    let ?es = "add_entry es (fst ?a) (snd ?a) ?c"
    have c: "0 < ?c" "?c \<le> n" "?c \<le> run_length vol vo p j"
      using True run_length_pos(1) [OF wf M] by auto
    have step: "map_lba_loop vol vo n es = map_lba_loop vol (vo + ?c) (n - ?c) ?es"
      using True less.prems by (intro map_lba_step [OF wf M]) auto
    have "length (expand es) + ?c < 2 ^ 32" using less.prems(1) c by linarith
    note A = expand_add_entry [OF this less.prems(3) run_fits [OF wf M c(3,1)], of "fst ?a"]
    have ex: "expand ?es = expand es @ map (byte_addr vol) [vo ..< vo + ?c]"
      unfolding run_addresses [OF wf M c(3)] by (rule A(1))
    have al: "?su dvd vo + ?c \<or> ?c = n" using run_ends_aligned [OF wf M] by (auto simp: min_def)
    have "n - ?c < n" "length (expand ?es) + (n - ?c) < 2 ^ 32" "vo + ?c + (n - ?c) \<le> v_virtual_total_bytes vol"
      "length ?es \<le> MAX_IO_ENTRIES"
      using c less.prems True A(4) by (simp_all add: ex)
    from less.IH [OF this(1,2,3) A(2) this(4)] obtain m es' where
      R: "map_lba_loop vol (vo + ?c) (n - ?c) ?es = Some (Inr (m = n - ?c, es'))" "m \<le> n - ?c"
        "expand es' = expand ?es @ map (byte_addr vol) [vo + ?c ..< vo + ?c + m]"
        "length es' \<le> MAX_IO_ENTRIES" "m < n - ?c \<longrightarrow> length es' = MAX_IO_ENTRIES"
        "length ?es + units_touched ?su (vo + ?c) (n - ?c) \<le> MAX_IO_ENTRIES \<longrightarrow>
          m = n - ?c \<and> length es' \<le> length ?es + units_touched ?su (vo + ?c) (n - ?c)"
      by blast
    have split: "[vo ..< vo + (?c + m)] = [vo ..< vo + ?c] @ [vo + ?c ..< vo + ?c + m]"
      using upt_add_eq_append [of vo "vo + ?c" m] by (simp add: add.assoc)
    have u: "Suc (units_touched ?su (vo + ?c) (n - ?c)) \<le> units_touched ?su vo n \<or>
        ?c = n \<and> 0 < units_touched ?su vo n"
      using al units_touched_step [OF S(1) c(1,2)] units_touched_pos [OF S(1)] True by blast
    have cnt: "length es + units_touched ?su vo n \<le> MAX_IO_ENTRIES \<longrightarrow>
        ?c + m = n \<and> length es' \<le> length es + units_touched ?su vo n"
    proof
      assume k: "length es + units_touched ?su vo n \<le> MAX_IO_ENTRIES"
      show "?c + m = n \<and> length es' \<le> length es + units_touched ?su vo n"
      proof (cases "?c = n")
        case True
        then have "es' = ?es" "m = 0" using R(1,2) by (auto simp: map_lba_loop.simps)
        then show ?thesis using True A(4) u by auto
      next
        case False
        then have "Suc (units_touched ?su (vo + ?c) (n - ?c)) \<le> units_touched ?su vo n" using u by blast
        then show ?thesis using R(2,6) A(4) k c by linarith
      qed
    qed
    have "map_lba_loop vol vo n es = Some (Inr (?c + m = n, es'))"
      using R(1,2) c by (simp add: step) linarith
    moreover have "expand es' = expand es @ map (byte_addr vol) [vo ..< vo + (?c + m)]"
      unfolding R(3) ex split by simp
    moreover have "?c + m \<le> n" "?c + m < n \<longrightarrow> length es' = MAX_IO_ENTRIES" using R(2,5) c by linarith+
    ultimately show ?thesis using R(4) cnt by blast
  qed
qed

section \<open>Properties\<close>

text \<open>A two-disk volume for the witnesses: one phase, two cycles of two 512-byte units.\<close>

definition two_disks :: STRIPE_VOLUME where
  "two_disks = zero_volume\<lparr>v_disk_count := 2, v_stripe_unit := 512, v_phase_count := 1,
     v_phases := [zero_phase\<lparr>ph_active_count := 2, ph_active_disk_indices := [0, 1, 0, 0],
       ph_ratios := [1, 1, 0, 0], ph_total_ratio := 2, ph_virtual_size_bytes := 2048,
       ph_cycle_size_bytes := 1024\<rparr>, zero_phase, zero_phase, zero_phase],
     v_virtual_total_bytes := 2048\<rparr>"

lemma wf_two_disks: "wf_layout two_disks"
  by (simp add: wf_layout_def wf_phase_def two_disks_def zero_volume_def zero_phase_def const
      vstart_def cum_def phase_extent_def all_less_2 take_Cons')

lemma map_lba_prefix:
  assumes "wf_layout vol" "0 < n" "n < 2 ^ 32" "vo < v_virtual_total_bytes vol" "vo + n < 2 ^ 64"
  shows "\<exists>k es. stripe_volume_map_lba vol vo n =
             Some (Inr (k = min n (v_virtual_total_bytes vol - vo), es)) \<and>
           k \<le> min n (v_virtual_total_bytes vol - vo) \<and>
           expand es = map (byte_addr vol) [vo ..< vo + k] \<and>
           length es \<le> MAX_IO_ENTRIES \<and>
           (k < min n (v_virtual_total_bytes vol - vo) \<longrightarrow> length es = MAX_IO_ENTRIES) \<and>
           (units_touched (v_stripe_unit vol) vo n \<le> MAX_IO_ENTRIES \<longrightarrow>
              k = min n (v_virtual_total_bytes vol - vo) \<and>
              length es \<le> units_touched (v_stripe_unit vol) vo n)"
proof -
  let ?m = "min n (v_virtual_total_bytes vol - vo)"
  have m: "(if v_virtual_total_bytes vol < u64 (vo + n) then v_virtual_total_bytes vol - vo else n) = ?m"
    using assms(4,5) by (simp add: wrap min_def) linarith
  have "length (expand []) + ?m < 2 ^ 32" "vo + ?m \<le> v_virtual_total_bytes vol" "last_fits []"
    "length ([] :: IO_MAPPING_ENTRY list) \<le> MAX_IO_ENTRIES"
    using assms(3,4) by (auto simp: expand_def last_fits_def)
  from map_lba_loop_correct [OF assms(1) this]
  obtain k es where L: "map_lba_loop vol vo ?m [] = Some (Inr (k = ?m, es))" "k \<le> ?m"
    "expand es = map (byte_addr vol) [vo ..< vo + k]" "length es \<le> MAX_IO_ENTRIES"
    "k < ?m \<longrightarrow> length es = MAX_IO_ENTRIES"
    "units_touched (v_stripe_unit vol) vo ?m \<le> MAX_IO_ENTRIES \<longrightarrow>
       k = ?m \<and> length es \<le> units_touched (v_stripe_unit vol) vo ?m"
    by (auto simp: expand_def)
  have "units_touched (v_stripe_unit vol) vo ?m \<le> units_touched (v_stripe_unit vol) vo n"
    unfolding units_touched_def by (intro diff_le_mono div_le_mono) simp
  moreover have "stripe_volume_map_lba vol vo n = map_lba_loop vol vo ?m []"
    using assms(2,4) by (simp add: stripe_volume_map_lba_def m Let_def)
  ultimately show ?thesis using L by (intro exI [of _ k] exI [of _ es]) (metis le_trans)
qed

text \<open>
  C1. On a well-formed layout the address map of a striped volume is total below the volume's
  size, rejects every address above it, and is a bijection from the volume's bytes onto the disk
  cells of the phase table: no two virtual bytes share a disk byte and no disk byte of an extent
  is lost.
\<close>

theorem map_single_byte_bijective:
  assumes "wf_layout vol"
  shows "(\<forall>vo. vo < v_virtual_total_bytes vol \<longrightarrow>
           map_single_byte vol vo = Inr (Some (byte_addr vol vo))) \<and>
         bij_betw (byte_addr vol) {..< v_virtual_total_bytes vol} (cells vol) \<and>
         (\<forall>vo. v_virtual_total_bytes vol \<le> vo \<longrightarrow> map_single_byte vol vo = Inr None)"
  using map_single_byte_addr [OF assms] byte_addr_bij [OF assms]
  by (simp add: map_single_byte_def)

theorem map_single_byte_bijective_witness:
  "bij_betw (byte_addr two_disks) {..< 2048} (cells two_disks)"
  using map_single_byte_bijective [OF wf_two_disks] by (simp add: two_disks_def)

text \<open>
  C2. Mapping a request returns, after finitely many chunks and without a fault, entries whose
  bytes in order are exactly the single-byte addresses of a prefix of the request clipped to the
  volume. It reports success exactly when the prefix is everything, stops early only with the
  entry array full, and succeeds with at most one entry per stripe unit whenever the request
  touches at most 256 units.
\<close>

theorem map_lba_correct:
  assumes "wf_layout vol" "0 < n" "n < 2 ^ 32" "vo < v_virtual_total_bytes vol" "vo + n < 2 ^ 64"
  shows "\<exists>k es. stripe_volume_map_lba vol vo n =
             Some (Inr (k = min n (v_virtual_total_bytes vol - vo), es)) \<and>
           k \<le> min n (v_virtual_total_bytes vol - vo) \<and>
           expand es = map (byte_addr vol) [vo ..< vo + k] \<and>
           length es \<le> MAX_IO_ENTRIES \<and>
           (k < min n (v_virtual_total_bytes vol - vo) \<longrightarrow> length es = MAX_IO_ENTRIES) \<and>
           (units_touched (v_stripe_unit vol) vo n \<le> MAX_IO_ENTRIES \<longrightarrow>
              k = min n (v_virtual_total_bytes vol - vo) \<and>
              length es \<le> units_touched (v_stripe_unit vol) vo n)"
  by (rule map_lba_prefix [OF assms])

theorem map_lba_correct_witness:
  "\<exists>k es. stripe_volume_map_lba two_disks 100 1000 = Some (Inr (k = 1000, es)) \<and> k = 1000 \<and>
     expand es = map (byte_addr two_disks) [100 ..< 100 + k] \<and> length es \<le> 3"
proof -
  have f: "v_virtual_total_bytes two_disks = 2048" "v_stripe_unit two_disks = 512"
    "units_touched 512 100 1000 = 3" "min 1000 (2048 - 100) = (1000 :: nat)"
    by (simp_all add: two_disks_def units_touched_def)
  have "(3 :: nat) \<le> MAX_IO_ENTRIES" by (simp add: const)
  moreover have "0 < (1000 :: nat)" "(1000 :: nat) < 2 ^ 32" "100 < v_virtual_total_bytes two_disks"
    "100 + 1000 < (2 :: nat) ^ 64" by (simp_all add: f)
  ultimately show ?thesis
    using map_lba_correct [OF wf_two_disks, of 1000 100] unfolding f by blast
qed

end
