(* ===== verification/LayoutLoop.thy ===== *)
theory LayoutLoop
  imports AddressMap
begin

text \<open>
  Laying out a volume: \<^verbatim>\<open>stripe_volume_normalize_ratios\<close> gives small coprime ratios, and the
  loop shared by \<^verbatim>\<open>stripe_volume_create\<close> and \<^verbatim>\<open>stripe_volume_expand\<close> keeps \<open>layout_inv\<close>. At
  its end the phase table is well formed, every disk is used from its first byte on, and less
  than one segment of each pool is left over.
\<close>

section \<open>Speed ratios\<close>

lemma foldl_max: "foldl (\<lambda>m s. if m < s then s else m) a xs = Max (insert a (set (xs :: nat list)))"
proof (induction xs arbitrary: a)
  case (Cons x xs)
  then show ?case by (cases "xs = []") (simp_all add: max_def insert_commute)
qed simp

lemma foldl_gcd: "foldl gcd_u32 a xs = Gcd (insert a (set xs))"
  by (induction xs arbitrary: a) (simp_all add: gcd_u32_gcd gcd.assoc)

lemma foldl_u32_sum: "t + sum_list rs < 2 ^ 32 \<Longrightarrow> foldl (\<lambda>t r. u32 (t + r)) t rs = t + sum_list rs"
  by (induction rs arbitrary: t) (simp_all add: wrap add.assoc)

lemma raw_ratio_bounds:
  assumes "0 < m" "m < 2 ^ 32" "s \<le> m"
  shows "1 \<le> raw_ratio m s \<and> raw_ratio m s \<le> MAX_RATIO"
proof -
  let ?n = "s * MAX_RATIO + m div 2"
  have "?n < 2 ^ 64" using assms by (simp add: const)
  moreover have "?n < Suc MAX_RATIO * m"
    using assms by (simp add: const)
  then have "?n div m < Suc MAX_RATIO" by (rule less_mult_imp_div_less)
  moreover from this have "u32 (?n div m) = ?n div m" by (intro u32_id) (simp add: const)
  ultimately show ?thesis by (simp add: raw_ratio_def Let_def wrap const)
qed

lemma raw_ratio_mono:
  assumes "0 < m" "m < 2 ^ 32" "s \<le> t" "t \<le> m"
  shows "raw_ratio m s \<le> raw_ratio m t"
proof -
  have *: "raw_ratio m x = (if (x * MAX_RATIO + m div 2) div m = 0 then 1 else (x * MAX_RATIO + m div 2) div m)"
    if "x \<le> m" for x
  proof -
    have "(x * MAX_RATIO + m div 2) < 2 ^ 64" using assms that by (simp add: const)
    moreover have "x * MAX_RATIO + m div 2 < Suc MAX_RATIO * m"
      using assms(1) that by (simp add: const)
    then have "(x * MAX_RATIO + m div 2) div m < Suc MAX_RATIO" by (rule less_mult_imp_div_less)
    ultimately show ?thesis by (simp add: raw_ratio_def Let_def wrap const)
  qed
  have "(s * MAX_RATIO + m div 2) div m \<le> (t * MAX_RATIO + m div 2) div m"
    using assms by (intro div_le_mono) simp
  then show ?thesis using assms by (simp only: *) auto
qed

lemma Gcd_div:
  fixes xs :: "nat list"
  assumes "xs \<noteq> []" "\<forall>x \<in> set xs. 1 \<le> x \<and> x \<le> m" "g = Gcd (set xs)"
  shows "g \<noteq> 0" "\<forall>r \<in> set (map (\<lambda>r. r div g) xs). 1 \<le> r \<and> r \<le> m"
    "Gcd (set (map (\<lambda>r. r div g) xs)) = 1"
proof -
  have dv: "g dvd r" if "r \<in> set xs" for r unfolding assms(3) by (rule Gcd_dvd [OF that])
  have "hd xs \<in> set xs" "hd xs \<noteq> 0" using assms(1,2) by (cases xs; auto)+
  then show g: "g \<noteq> 0" using dv by fastforce
  show "\<forall>r \<in> set (map (\<lambda>r. r div g) xs). 1 \<le> r \<and> r \<le> m"
  proof
    fix r assume "r \<in> set (map (\<lambda>r. r div g) xs)"
    then obtain x where x: "x \<in> set xs" "r = x div g" by auto
    have "1 \<le> x" "x \<le> m" using assms(2) x(1) by auto
    moreover have "g \<le> x" using dv [OF x(1)] \<open>1 \<le> x\<close> by (intro dvd_imp_le) auto
    then have "0 < r" using g x(2) by (simp add: div_greater_zero_iff)
    moreover have "r \<le> x" unfolding x(2) by (rule div_le_dividend)
    ultimately show "1 \<le> r \<and> r \<le> m" by linarith
  qed
  have e: "map (\<lambda>r. g * (r div g)) xs = xs"
    using dv by (intro map_idI dvd_mult_div_cancel)
  have "set (map (\<lambda>r. g * (r div g)) xs) = (*) g ` set (map (\<lambda>r. r div g) xs)"
    by (simp add: image_image)
  then have "Gcd (set xs) = g * Gcd (set (map (\<lambda>r. r div g) xs))"
    unfolding e by (simp only: Gcd_mult normalize_nat_def id_apply)
  then have "g * 1 = g * Gcd (set (map (\<lambda>r. r div g) xs))" unfolding assms(3) [symmetric] by simp
  then show "Gcd (set (map (\<lambda>r. r div g) xs)) = 1" using g mult_cancel1 by metis
qed

lemma normalize_facts:
  assumes "speeds \<noteq> []" "length speeds \<le> MAX_DISKS" "\<forall>s \<in> set speeds. s < 2 ^ 32"
  obtains rs where "stripe_volume_normalize_ratios speeds = Some (rs, sum_list rs)"
    "length rs = length speeds" "\<forall>r \<in> set rs. 1 \<le> r \<and> r \<le> MAX_RATIO" "Gcd (set rs) = 1"
    "\<forall>i < length rs. \<forall>j < length rs. speeds ! i \<le> speeds ! j \<longrightarrow> rs ! i \<le> rs ! j"
proof -
  let ?m = "foldl (\<lambda>m s. if m < s then s else m) (hd speeds) (tl speeds)"
  have m: "?m = Max (set speeds)" using assms(1) by (cases speeds) (simp_all add: foldl_max)
  show ?thesis
  proof (cases "?m = 0")
    case True
    have "set (map (\<lambda>_. 1) speeds) = {1 :: nat}" using assms(1) by (cases speeds) auto
    then show ?thesis using True assms
      by (intro that [of "map (\<lambda>_. 1) speeds"])
        (simp_all add: stripe_volume_normalize_ratios_def sum_list_triv const)
  next
    case False
    let ?raw = "map (raw_ratio ?m) speeds"
    let ?g0 = "foldl gcd_u32 (hd ?raw) (tl ?raw)"
    have le: "s \<in> set speeds \<Longrightarrow> s \<le> ?m" for s by (simp add: m)
    have m32: "0 < ?m" "?m < 2 ^ 32" using False assms by (simp_all add: m)
    have raw: "\<forall>r \<in> set ?raw. 1 \<le> r \<and> r \<le> MAX_RATIO" using raw_ratio_bounds [OF m32] le by auto
    have g0: "?g0 = Gcd (set ?raw)" using assms(1) by (cases speeds) (simp_all add: foldl_gcd)
    have "?raw \<noteq> []" using assms(1) by simp
    note G = Gcd_div [OF this raw g0]
    let ?rs = "map (\<lambda>r. r div ?g0) ?raw"
    note rs = G(2)
    have "sum_list ?rs \<le> length ?rs * MAX_RATIO"
      using rs by (intro sum_list_bound) blast
    also have "\<dots> \<le> MAX_DISKS * MAX_RATIO" using assms(2) by simp
    finally have sum: "foldl (\<lambda>t r. u32 (t + r)) 0 ?rs = sum_list ?rs"
      using foldl_u32_sum [of 0 ?rs] by (simp add: const)
    have eq: "stripe_volume_normalize_ratios speeds = Some (?rs, sum_list ?rs)"
      using assms(1) False G(1) sum
      by (simp add: stripe_volume_normalize_ratios_def Let_def)
    have mono: "\<forall>i < length ?rs. \<forall>j < length ?rs. speeds ! i \<le> speeds ! j \<longrightarrow> ?rs ! i \<le> ?rs ! j"
      using le by (auto intro!: div_le_mono raw_ratio_mono [OF m32])
    show ?thesis
      by (rule that [OF eq _ rs G(3) mono]) simp
  qed
qed

section \<open>The limiting disk and the charge of a phase\<close>

definition max_virtual :: "nat \<Rightarrow> nat list \<Rightarrow> nat \<times> nat \<Rightarrow> nat" where
  "max_virtual tot rp x = rp ! fst x * tot div snd x"

lemma min_virtual_facts:
  assumes "\<forall>x \<in> set xs. rp ! fst x * tot < 2 ^ 64"
    "min_virtual tot rp i xs best = (least, k)"
  shows "least \<le> fst best \<and> (\<forall>x \<in> set xs. least \<le> max_virtual tot rp x) \<and>
    ((least, k) = best \<or> (\<exists>m < length xs. k = i + m \<and> least = max_virtual tot rp (xs ! m)))"
  using assms
proof (induction tot rp i xs best rule: min_virtual.induct)
  case (2 tot rp i d r xs l idx)
  let ?v = "max_virtual tot rp (d, r)"
  let ?b = "if ?v < l then (?v, i) else (l, idx)"
  have v: "u64 (rp ! d * tot) div r = ?v" using 2(2) by (simp add: max_virtual_def wrap)
  have "min_virtual tot rp (Suc i) xs ?b = (least, k)" using 2(3) by (simp add: v Let_def)
  then have I: "least \<le> fst ?b \<and> (\<forall>x \<in> set xs. least \<le> max_virtual tot rp x) \<and>
    ((least, k) = ?b \<or> (\<exists>m < length xs. k = Suc i + m \<and> least = max_virtual tot rp (xs ! m)))"
    using 2(2) by (intro 2(1) [OF refl, unfolded v]) simp_all
  have "least \<le> ?v" "least \<le> l" using I by (auto split: if_splits)
  moreover have "(least, k) = (l, idx) \<or>
      (\<exists>m < length ((d, r) # xs). k = i + m \<and> least = max_virtual tot rp (((d, r) # xs) ! m))"
  proof -
    consider "(least, k) = (l, idx)" | "least = ?v" "k = i"
      | m where "m < length xs" "k = Suc i + m" "least = max_virtual tot rp (xs ! m)"
      using I by (auto split: if_splits)
    then show ?thesis
    proof cases
      case 2
      then show ?thesis by (intro disjI2 exI [of _ 0]) simp
    next
      case (3 m)
      then show ?thesis by (intro disjI2 exI [of _ "Suc m"]) simp
    qed simp
  qed
  ultimately show ?case using I by auto
qed simp

lemma charge_facts:
  assumes "charge su c xs rp up = (ks, rp', up')"
    "distinct (map fst xs)" "length up = length rp"
    "\<forall>(d, r) \<in> set xs. d < length rp \<and> c * r * su \<le> rp ! d \<and> rp ! d + up ! d < 2 ^ 64 \<and> r * su < 2 ^ 64"
    "0 < su"
  shows "length rp' = length rp \<and> length up' = length up \<and>
    (\<forall>(d, r) \<in> set xs. rp' ! d = rp ! d - c * r * su \<and> up' ! d = up ! d + c * r * su) \<and>
    (\<forall>d. d \<notin> fst ` set xs \<longrightarrow> rp' ! d = rp ! d \<and> up' ! d = up ! d) \<and>
    ks = filter (\<lambda>(d, r). r * su \<le> rp' ! d) xs \<and>
    sum_list up' = sum_list up + c * sum_list (map snd xs) * su"
  using assms
proof (induction su c xs rp up arbitrary: ks rp' up' rule: charge.induct)
  case (2 su c d r xs rp up)
  let ?used = "c * r * su"
  have d: "d < length rp" "?used \<le> rp ! d" "rp ! d + up ! d < 2 ^ 64" "r * su < 2 ^ 64"
    using 2(5) by auto
  have "c * r \<le> ?used" using 2(6) by simp
  then have cr: "c * r < 2 ^ 64" "?used < 2 ^ 64" using d(2,3) by linarith+
  have used: "u64 (u64 (c * r) * su) = ?used" by (simp only: u64_id [OF cr(1)] u64_id [OF cr(2)])
  let ?up = "up[d := up ! d + ?used]" and ?rp = "rp[d := rp ! d - ?used]"
  have u: "u64 (up ! d + ?used) = up ! d + ?used" "sub64 (rp ! d) ?used = rp ! d - ?used"
    using d by (simp_all add: wrap)
  obtain ks1 rq uq where ch0: "charge su c xs ?rp ?up = (ks1, rq, uq)" by (metis prod_cases3)
  have "charge su c ((d, r) # xs) rp up = (if r * su \<le> rp ! d - ?used then (d, r) # ks1 else ks1, rq, uq)"
    using d(1) by (simp add: Let_def used u ch0 u64_id [OF d(4)])
  with 2(2) have ksd: "ks = (if r * su \<le> rp ! d - ?used then (d, r) # ks1 else ks1)"
    and ch: "charge su c xs ?rp ?up = (ks1, rp', up')" using ch0 by auto
  have nd: "d \<notin> fst ` set xs" "distinct (map fst xs)" using 2(3) by auto
  have P: "\<forall>(d', r') \<in> set xs. d' < length ?rp \<and> c * r' * su \<le> ?rp ! d' \<and>
      ?rp ! d' + ?up ! d' < 2 ^ 64 \<and> r' * su < 2 ^ 64"
    using 2(5) nd(1) by (force simp: nth_list_update)
  have "length ?up = length ?rp" using 2(4) by simp
  from 2(1) [OF refl refl refl, unfolded used u, OF ch nd(2) this P 2(6)]
  have I: "length rp' = length ?rp \<and> length up' = length ?up \<and>
    (\<forall>(d', r') \<in> set xs. rp' ! d' = ?rp ! d' - c * r' * su \<and> up' ! d' = ?up ! d' + c * r' * su) \<and>
    (\<forall>d'. d' \<notin> fst ` set xs \<longrightarrow> rp' ! d' = ?rp ! d' \<and> up' ! d' = ?up ! d') \<and>
    ks1 = filter (\<lambda>(d', r'). r' * su \<le> rp' ! d') xs \<and>
    sum_list up' = sum_list ?up + c * sum_list (map snd xs) * su" .
  have dd: "rp' ! d = rp ! d - ?used" "up' ! d = up ! d + ?used" using I nd(1) d(1) 2(4) by auto
  have ks: "ks = filter (\<lambda>(d', r'). r' * su \<le> rp' ! d') ((d, r) # xs)" using I ksd dd by simp
  have "sum_list ?up = sum_list up + ?used"
    using d(1) 2(4) by (simp add: sum_list_update)
  then have F1: "sum_list up' = sum_list up + c * sum_list (map snd ((d, r) # xs)) * su"
    using I by (simp add: algebra_simps)
  have "\<forall>(d', r') \<in> set xs. rp' ! d' = rp ! d' - c * r' * su \<and> up' ! d' = up ! d' + c * r' * su"
  proof clarify
    fix d' r' assume m: "(d', r') \<in> set xs"
    then have "d \<noteq> d'" using nd(1) by force
    moreover have "rp' ! d' = ?rp ! d' - c * r' * su \<and> up' ! d' = ?up ! d' + c * r' * su"
      using I m by blast
    ultimately show "rp' ! d' = rp ! d' - c * r' * su \<and> up' ! d' = up ! d' + c * r' * su" by simp
  qed
  then have F2: "\<forall>(d', r') \<in> set ((d, r) # xs). rp' ! d' = rp ! d' - c * r' * su \<and> up' ! d' = up ! d' + c * r' * su"
    using dd by (simp only: list.set ball_simps prod.case simp_thms)
  have F3: "\<forall>d'. d' \<notin> fst ` set ((d, r) # xs) \<longrightarrow> rp' ! d' = rp ! d' \<and> up' ! d' = up ! d'"
    using I by auto
  have "length rp' = length rp" "length up' = length up" using I by simp_all
  with F1 F2 F3 ks show ?case by blast
qed simp

section \<open>Adding a phase\<close>

lemma wf_layout_snoc:
  assumes wf: "wf_layout vol" and pc: "v_phase_count vol < MAX_DISKS"
    and ph: "wf_phase (v_stripe_unit vol) (v_disk_count vol) ph"
      "ph_virtual_start_bytes ph = v_virtual_total_bytes vol"
      "v_virtual_total_bytes vol + ph_virtual_size_bytes ph < 2 ^ 64"
    and dis: "\<forall>p < v_phase_count vol. \<forall>i < ph_active_count (v_phases vol ! p). \<forall>j < ph_active_count ph.
      ph_active_disk_indices (v_phases vol ! p) ! i = ph_active_disk_indices ph ! j \<longrightarrow>
      ph_physical_starts_bytes (v_phases vol ! p) ! i
        + phase_extent (v_stripe_unit vol) (v_phases vol ! p) i \<le> ph_physical_starts_bytes ph ! j"
  shows "wf_layout (vol\<lparr>v_phases := (v_phases vol)[v_phase_count vol := ph],
    v_phase_count := Suc (v_phase_count vol),
    v_virtual_total_bytes := v_virtual_total_bytes vol + ph_virtual_size_bytes ph\<rparr>)"
    (is "wf_layout ?vol")
proof -
  let ?n = "v_phase_count vol"
  have len: "length (v_phases vol) = MAX_DISKS" using wf by (simp add: wf_layout_def)
  have old: "p < ?n \<Longrightarrow> v_phases ?vol ! p = v_phases vol ! p" for p by simp
  have new: "v_phases ?vol ! ?n = ph" using pc len by simp
  have vs: "p \<le> ?n \<Longrightarrow> vstart ?vol p = vstart vol p" for p by (simp add: vstart_def)
  have vS: "vstart ?vol (Suc ?n) = v_virtual_total_bytes vol + ph_virtual_size_bytes ph"
    using pc len wf_layout_su(4) [OF wf] vs [of ?n] by (simp add: vstart_Suc)
  have each: "\<forall>p < v_phase_count ?vol. wf_phase (v_stripe_unit ?vol) (v_disk_count ?vol) (v_phases ?vol ! p) \<and>
      ph_virtual_start_bytes (v_phases ?vol ! p) = vstart ?vol p"
  proof (intro allI impI)
    fix p assume "p < v_phase_count ?vol"
    then consider "p = ?n" | "p < ?n" by fastforce
    then show "wf_phase (v_stripe_unit ?vol) (v_disk_count ?vol) (v_phases ?vol ! p) \<and>
      ph_virtual_start_bytes (v_phases ?vol ! p) = vstart ?vol p"
    proof cases
      case 1
      then show ?thesis using ph(1,2) new vs [of ?n] wf_layout_su(4) [OF wf] by simp
    next
      case 2
      then show ?thesis using wf_layout_phase(1,2) [OF wf 2] vs [of p] by simp
    qed
  qed
  have disj: "\<forall>q < v_phase_count ?vol. \<forall>p < q.
        \<forall>i < ph_active_count (v_phases ?vol ! p). \<forall>j < ph_active_count (v_phases ?vol ! q).
          ph_active_disk_indices (v_phases ?vol ! p) ! i = ph_active_disk_indices (v_phases ?vol ! q) ! j \<longrightarrow>
          ph_physical_starts_bytes (v_phases ?vol ! p) ! i
            + phase_extent (v_stripe_unit ?vol) (v_phases ?vol ! p) i
          \<le> ph_physical_starts_bytes (v_phases ?vol ! q) ! j"
  proof (intro allI impI)
    fix q p i j assume q: "q < v_phase_count ?vol" and p: "p < q"
      and a: "i < ph_active_count (v_phases ?vol ! p)" "j < ph_active_count (v_phases ?vol ! q)"
        "ph_active_disk_indices (v_phases ?vol ! p) ! i = ph_active_disk_indices (v_phases ?vol ! q) ! j"
    have pn: "p < ?n" using p q by simp
    show "ph_physical_starts_bytes (v_phases ?vol ! p) ! i
            + phase_extent (v_stripe_unit ?vol) (v_phases ?vol ! p) i
          \<le> ph_physical_starts_bytes (v_phases ?vol ! q) ! j"
    proof (cases "q = ?n")
      case True
      then show ?thesis using dis pn a unfolding True new old [OF pn] by simp
    next
      case False
      then have qn: "q < ?n" using q by simp
      then show ?thesis using wf p a unfolding old [OF pn] old [OF qn]
        by (simp add: wf_layout_def)
    qed
  qed
  have "vstart ?vol (v_phase_count ?vol) = v_virtual_total_bytes ?vol" using vS by simp
  moreover have "0 < v_stripe_unit ?vol \<and> v_stripe_unit ?vol < 2 ^ 32 \<and> v_phase_count ?vol \<le> MAX_DISKS \<and>
      length (v_phases ?vol) = MAX_DISKS \<and> v_virtual_total_bytes ?vol < 2 ^ 64"
    using wf_layout_su(1,2) [OF wf] pc len ph(3) by simp
  ultimately show ?thesis unfolding wf_layout_def using each disj by simp
qed

section \<open>The invariant of the layout loop\<close>

definition with_layout :: "STRIPE_VOLUME \<Rightarrow> nat \<Rightarrow> layout \<Rightarrow> STRIPE_VOLUME" where
  "with_layout vol n st = vol\<lparr>v_disk_count := n, v_phases := l_phases st,
     v_phase_count := l_phase_count st, v_virtual_total_bytes := l_virt_offset st\<rparr>"

definition phase_arrays :: "MAPPING_PHASE \<Rightarrow> bool" where
  "phase_arrays ph \<longleftrightarrow> length (ph_active_disk_indices ph) = MAX_DISKS \<and>
     length (ph_ratios ph) = MAX_DISKS \<and> length (ph_physical_starts_bytes ph) = MAX_DISKS"

definition disk_split :: "nat \<Rightarrow> nat list \<Rightarrow> nat list \<Rightarrow> layout \<Rightarrow> bool" where
  "disk_split su pools rr st \<longleftrightarrow>
     length (l_remaining_phys st) = length pools \<and> length (l_used_phys st) = length pools \<and>
     distinct (map fst (l_remaining st)) \<and>
     (\<forall>(d, r) \<in> set (l_remaining st). d < length pools \<and> r = rr ! d \<and>
        l_remaining_phys st ! d + l_used_phys st ! d = pools ! d) \<and>
     (\<forall>d < length pools. d \<notin> fst ` set (l_remaining st) \<longrightarrow>
        l_used_phys st ! d \<le> pools ! d \<and> pools ! d < l_used_phys st ! d + rr ! d * su)"

definition layout_inv :: "STRIPE_VOLUME \<Rightarrow> nat list \<Rightarrow> nat list \<Rightarrow> layout \<Rightarrow> bool" where
  "layout_inv vol pools rr st \<longleftrightarrow>
     wf_layout (with_layout vol (v_disk_count vol + length pools) st) \<and>
     (\<forall>p < MAX_DISKS. phase_arrays (l_phases st ! p)) \<and>
     v_phase_count vol \<le> l_phase_count st \<and>
     take (v_phase_count vol) (l_phases st) = take (v_phase_count vol) (v_phases vol) \<and>
     disk_split (v_stripe_unit vol) pools rr st \<and>
     l_virt_offset st = v_virtual_total_bytes vol + sum_list (l_used_phys st) \<and>
     (\<forall>p < l_phase_count st. \<forall>j < ph_active_count (l_phases st ! p). \<forall>d < length pools.
        ph_active_disk_indices (l_phases st ! p) ! j = v_disk_count vol + d \<longrightarrow>
        ph_physical_starts_bytes (l_phases st ! p) ! j
          + phase_extent (v_stripe_unit vol) (l_phases st ! p) j \<le> l_used_phys st ! d) \<and>
     (\<forall>p < l_phase_count st. v_phase_count vol \<le> p \<longrightarrow>
        (\<forall>j < ph_active_count (l_phases st ! p).
           v_disk_count vol \<le> ph_active_disk_indices (l_phases st ! p) ! j)) \<and>
     l_phase_count st + length (l_remaining st) \<le> v_phase_count vol + length pools"

text \<open>The pools and ratios a call may be given.\<close>

definition pools_ok :: "STRIPE_VOLUME \<Rightarrow> nat list \<Rightarrow> nat list \<Rightarrow> bool" where
  "pools_ok vol pools rr \<longleftrightarrow> length rr = length pools \<and>
     v_phase_count vol + length pools \<le> MAX_DISKS \<and>
     (\<forall>x \<in> set pools. x < 2 ^ 56) \<and> (\<forall>r \<in> set rr. 1 \<le> r \<and> r \<le> MAX_RATIO) \<and>
     v_virtual_total_bytes vol + sum_list pools < 2 ^ 64"

lemma length_fill [simp]: "length xs \<le> length arr \<Longrightarrow> length (fill xs arr) = length arr"
  by (simp add: fill_def)

lemma fill_nth: "j < length xs \<Longrightarrow> fill xs arr ! j = xs ! j"
  by (simp add: fill_def nth_append)

lemma take_fill: "take (length xs) (fill xs arr) = xs" "j \<le> length xs \<Longrightarrow> take j (fill xs arr) = take j xs"
  by (simp_all add: fill_def)

lemma disk_split_used_le:
  assumes "disk_split su pools rr st" "d < length pools"
  shows "l_used_phys st ! d \<le> pools ! d"
proof (cases "d \<in> fst ` set (l_remaining st)")
  case True
  then have "l_remaining_phys st ! d + l_used_phys st ! d = pools ! d"
    using assms(1) by (auto simp: disk_split_def)
  then show ?thesis by simp
qed (use assms in \<open>simp add: disk_split_def\<close>)

lemma layout_inv_add_phase:
  assumes inv: "layout_inv vol pools rr st" and ok: "pools_ok vol pools rr"
    and pc: "l_phase_count st < MAX_DISKS"
    and ph: "wf_phase (v_stripe_unit vol) (v_disk_count vol + length pools) ph"
      "ph_virtual_start_bytes ph = l_virt_offset st"
    and at: "\<forall>j < ph_active_count ph. \<exists>d < length pools.
      ph_active_disk_indices ph ! j = v_disk_count vol + d \<and>
      ph_physical_starts_bytes ph ! j = l_used_phys st ! d \<and>
      l_used_phys st ! d + phase_extent (v_stripe_unit vol) ph j \<le> up ! d"
    and up: "\<forall>d < length pools. l_used_phys st ! d \<le> up ! d"
      "sum_list up = sum_list (l_used_phys st) + ph_virtual_size_bytes ph"
    and st': "st' = \<lparr>l_phases = (l_phases st)[l_phase_count st := ph],
      l_phase_count = Suc (l_phase_count st),
      l_virt_offset = u64 (l_virt_offset st + ph_virtual_size_bytes ph),
      l_remaining = rem, l_remaining_phys = rp, l_used_phys = up\<rparr>"
    and split: "disk_split (v_stripe_unit vol) pools rr st'"
    and rem: "length rem < length (l_remaining st)"
  shows "layout_inv vol pools rr st'"
proof -
  let ?su = "v_stripe_unit vol" and ?N = "v_disk_count vol + length pools" and ?pc = "l_phase_count st"
  let ?vol = "with_layout vol ?N st"
  have wf: "wf_layout ?vol" using inv by (simp add: layout_inv_def)
  have len: "length (l_phases st) = MAX_DISKS" using wf by (simp add: wf_layout_def with_layout_def)
  have "sum_list up \<le> sum_list pools"
    using split disk_split_used_le [OF split] by (intro sum_list_le_pointwise) (auto simp: disk_split_def st')
  then have "l_virt_offset st + ph_virtual_size_bytes ph < 2 ^ 64"
    using up(2) inv ok by (simp add: layout_inv_def pools_ok_def)
  note bound = this u64_id [OF this]
  have "wf_layout (?vol\<lparr>v_phases := (v_phases ?vol)[v_phase_count ?vol := ph],
    v_phase_count := Suc (v_phase_count ?vol),
    v_virtual_total_bytes := v_virtual_total_bytes ?vol + ph_virtual_size_bytes ph\<rparr>)"
  proof (rule wf_layout_snoc [OF wf])
    show "\<forall>p < v_phase_count ?vol. \<forall>i < ph_active_count (v_phases ?vol ! p). \<forall>j < ph_active_count ph.
      ph_active_disk_indices (v_phases ?vol ! p) ! i = ph_active_disk_indices ph ! j \<longrightarrow>
      ph_physical_starts_bytes (v_phases ?vol ! p) ! i
        + phase_extent (v_stripe_unit ?vol) (v_phases ?vol ! p) i \<le> ph_physical_starts_bytes ph ! j"
    proof (intro allI impI)
      fix p i j assume a: "p < v_phase_count ?vol" "i < ph_active_count (v_phases ?vol ! p)"
        and j: "j < ph_active_count ph"
        and eq: "ph_active_disk_indices (v_phases ?vol ! p) ! i = ph_active_disk_indices ph ! j"
      obtain d where "d < length pools" "ph_active_disk_indices ph ! j = v_disk_count vol + d"
        "ph_physical_starts_bytes ph ! j = l_used_phys st ! d"
        using at j by blast
      with a eq inv show "ph_physical_starts_bytes (v_phases ?vol ! p) ! i
        + phase_extent (v_stripe_unit ?vol) (v_phases ?vol ! p) i \<le> ph_physical_starts_bytes ph ! j"
        by (simp add: layout_inv_def with_layout_def)
    qed
  qed (use pc ph bound in \<open>simp_all add: with_layout_def\<close>)
  then have 1: "wf_layout (with_layout vol ?N st')"
    using bound by (simp add: with_layout_def st')
  have "phase_arrays ph" using ph(1) by (simp add: wf_phase_def phase_arrays_def)
  then have 2: "\<forall>p < MAX_DISKS. phase_arrays (l_phases st' ! p)"
    using inv len pc by (simp add: layout_inv_def st' nth_list_update)
  have 3: "v_phase_count vol \<le> l_phase_count st'"
    "take (v_phase_count vol) (l_phases st') = take (v_phase_count vol) (v_phases vol)"
    using inv by (simp_all add: layout_inv_def st')
  have 4: "\<forall>p < l_phase_count st'. \<forall>j < ph_active_count (l_phases st' ! p). \<forall>d < length pools.
        ph_active_disk_indices (l_phases st' ! p) ! j = v_disk_count vol + d \<longrightarrow>
        ph_physical_starts_bytes (l_phases st' ! p) ! j
          + phase_extent ?su (l_phases st' ! p) j \<le> l_used_phys st' ! d"
  proof (intro allI impI)
    fix p j d assume a: "p < l_phase_count st'" "j < ph_active_count (l_phases st' ! p)" "d < length pools"
      "ph_active_disk_indices (l_phases st' ! p) ! j = v_disk_count vol + d"
    show "ph_physical_starts_bytes (l_phases st' ! p) ! j
          + phase_extent ?su (l_phases st' ! p) j \<le> l_used_phys st' ! d"
    proof (cases "p = ?pc")
      case True
      then have p: "l_phases st' ! p = ph" using pc len by (simp add: st')
      then show ?thesis using at a by (auto simp: st')
    next
      case False
      then have "p < ?pc" "l_phases st' ! p = l_phases st ! p" using a(1) by (simp_all add: st')
      then have "ph_physical_starts_bytes (l_phases st' ! p) ! j
          + phase_extent ?su (l_phases st' ! p) j \<le> l_used_phys st ! d"
        using inv a by (simp add: layout_inv_def)
      also have "\<dots> \<le> l_used_phys st' ! d" using up(1) a(3) by (simp add: st')
      finally show ?thesis .
    qed
  qed
  have 5: "l_virt_offset st' = v_virtual_total_bytes vol + sum_list (l_used_phys st')"
    using inv up(2) bound by (simp add: layout_inv_def st')
  have 6: "l_phase_count st' + length (l_remaining st') \<le> v_phase_count vol + length pools"
    using inv rem by (simp add: layout_inv_def st')
  have 7: "\<forall>p < l_phase_count st'. v_phase_count vol \<le> p \<longrightarrow>
        (\<forall>j < ph_active_count (l_phases st' ! p).
           v_disk_count vol \<le> ph_active_disk_indices (l_phases st' ! p) ! j)"
  proof (intro allI impI)
    fix p j assume a: "p < l_phase_count st'" "v_phase_count vol \<le> p" "j < ph_active_count (l_phases st' ! p)"
    show "v_disk_count vol \<le> ph_active_disk_indices (l_phases st' ! p) ! j"
    proof (cases "p = ?pc")
      case True
      then have p: "l_phases st' ! p = ph" using pc len by (simp add: st')
      then show ?thesis using at a(3) by (metis le_add1)
    next
      case False
      then have "p < ?pc" "l_phases st' ! p = l_phases st ! p" using a(1) by (simp_all add: st')
      then show ?thesis using inv a by (simp add: layout_inv_def)
    qed
  qed
  show ?thesis unfolding layout_inv_def using 1 2 3 4 5 6 7 split by blast
qed

section \<open>The slot a round fills\<close>

lemma remaining_facts:
  assumes "layout_inv vol pools rr st" "pools_ok vol pools rr" "x \<in> set (l_remaining st)"
  shows "fst x < length pools" "snd x = rr ! fst x" "1 \<le> snd x" "snd x \<le> MAX_RATIO"
    "l_remaining_phys st ! fst x + l_used_phys st ! fst x = pools ! fst x"
    "pools ! fst x < 2 ^ 56"
proof -
  have "\<forall>(d, r) \<in> set (l_remaining st). d < length pools \<and> r = rr ! d \<and>
      l_remaining_phys st ! d + l_used_phys st ! d = pools ! d"
    using assms(1) by (simp add: layout_inv_def disk_split_def)
  with assms(3) show A: "fst x < length pools" "snd x = rr ! fst x"
    "l_remaining_phys st ! fst x + l_used_phys st ! fst x = pools ! fst x" by auto
  then show "1 \<le> snd x" "snd x \<le> MAX_RATIO" "pools ! fst x < 2 ^ 56"
    using assms(2) by (simp_all add: pools_ok_def)
qed

lemma remaining_total:
  assumes inv: "layout_inv vol pools rr st" and ok: "pools_ok vol pools rr"
  shows "length (l_remaining st) \<le> MAX_DISKS" "sum_list (map snd (l_remaining st)) \<le> 128"
    "foldl (\<lambda>t r. u32 (t + r)) 0 (map snd (l_remaining st)) = sum_list (map snd (l_remaining st))"
proof -
  have "l_phase_count st + length (l_remaining st) \<le> v_phase_count vol + length pools"
    "v_phase_count vol \<le> l_phase_count st"
    using inv by (simp_all add: layout_inv_def)
  then show len: "length (l_remaining st) \<le> MAX_DISKS" using ok by (simp add: pools_ok_def)
  have "sum_list (map snd (l_remaining st)) \<le> length (map snd (l_remaining st)) * MAX_RATIO"
    using remaining_facts(4) [OF inv ok] by (intro sum_list_bound) auto
  also have "\<dots> \<le> MAX_DISKS * MAX_RATIO" using len by simp
  finally show s: "sum_list (map snd (l_remaining st)) \<le> 128" by (simp add: const)
  then show "foldl (\<lambda>t r. u32 (t + r)) 0 (map snd (l_remaining st)) = sum_list (map snd (l_remaining st))"
    using foldl_u32_sum [of 0] by simp
qed

definition filled_phase :: "STRIPE_VOLUME \<Rightarrow> layout \<Rightarrow> nat \<Rightarrow> MAPPING_PHASE" where
  "filled_phase vol st sz =
     (fill_phase (v_disk_count vol) (v_stripe_unit vol) st (l_phases st ! l_phase_count st))
       \<lparr>ph_virtual_size_bytes := sz\<rparr>"

lemma filled_phase_facts:
  assumes inv: "layout_inv vol pools rr st" and ok: "pools_ok vol pools rr"
    and pc: "l_phase_count st < MAX_DISKS"
  shows "ph_active_count (filled_phase vol st sz) = length (l_remaining st)"
    "j < length (l_remaining st) \<Longrightarrow>
      ph_active_disk_indices (filled_phase vol st sz) ! j = v_disk_count vol + fst (l_remaining st ! j)"
    "j < length (l_remaining st) \<Longrightarrow>
      ph_ratios (filled_phase vol st sz) ! j = snd (l_remaining st ! j)"
    "j < length (l_remaining st) \<Longrightarrow>
      ph_physical_starts_bytes (filled_phase vol st sz) ! j = l_used_phys st ! fst (l_remaining st ! j)"
    "ph_total_ratio (filled_phase vol st sz) = sum_list (map snd (l_remaining st))"
    "ph_cycle_size_bytes (filled_phase vol st sz) = sum_list (map snd (l_remaining st)) * v_stripe_unit vol"
    "ph_virtual_start_bytes (filled_phase vol st sz) = l_virt_offset st"
    "ph_virtual_size_bytes (filled_phase vol st sz) = sz"
    "phase_arrays (filled_phase vol st sz)"
    "take (length (l_remaining st)) (ph_active_disk_indices (filled_phase vol st sz)) =
      map (\<lambda>x. v_disk_count vol + fst x) (l_remaining st)"
    "cum (filled_phase vol st sz) (length (l_remaining st)) = sum_list (map snd (l_remaining st))"
proof -
  note T = remaining_total [OF inv ok]
  have su: "v_stripe_unit vol < 2 ^ 32" using inv by (simp add: layout_inv_def wf_layout_def with_layout_def)
  have "sum_list (map snd (l_remaining st)) * v_stripe_unit vol \<le> 128 * v_stripe_unit vol"
    using T(2) by (rule mult_le_mono1)
  also have "\<dots> < 2 ^ 64" using su by simp
  finally have c: "u64 (sum_list (map snd (l_remaining st)) * v_stripe_unit vol)
      = sum_list (map snd (l_remaining st)) * v_stripe_unit vol" by (rule u64_id)
  have arr: "phase_arrays (l_phases st ! l_phase_count st)" using inv pc by (simp add: layout_inv_def)
  note D = filled_phase_def fill_phase_def Let_def
  show "ph_active_count (filled_phase vol st sz) = length (l_remaining st)"
    "ph_total_ratio (filled_phase vol st sz) = sum_list (map snd (l_remaining st))"
    "ph_cycle_size_bytes (filled_phase vol st sz) = sum_list (map snd (l_remaining st)) * v_stripe_unit vol"
    "ph_virtual_start_bytes (filled_phase vol st sz) = l_virt_offset st"
    "ph_virtual_size_bytes (filled_phase vol st sz) = sz"
    by (simp_all add: D T(3) c)
  show "phase_arrays (filled_phase vol st sz)" using arr T(1) by (simp add: D phase_arrays_def)
  show "take (length (l_remaining st)) (ph_active_disk_indices (filled_phase vol st sz)) =
      map (\<lambda>x. v_disk_count vol + fst x) (l_remaining st)"
    by (simp add: D fill_def split_beta)
  show "cum (filled_phase vol st sz) (length (l_remaining st)) = sum_list (map snd (l_remaining st))"
    by (simp add: D fill_def cum_def)
  assume j: "j < length (l_remaining st)"
  then show "ph_active_disk_indices (filled_phase vol st sz) ! j = v_disk_count vol + fst (l_remaining st ! j)"
    "ph_ratios (filled_phase vol st sz) ! j = snd (l_remaining st ! j)"
    "ph_physical_starts_bytes (filled_phase vol st sz) ! j = l_used_phys st ! fst (l_remaining st ! j)"
    by (simp_all add: D fill_nth split_beta)
qed

lemma wf_filled_phase:
  assumes inv: "layout_inv vol pools rr st" and ok: "pools_ok vol pools rr"
    and pc: "l_phase_count st < MAX_DISKS" and rem: "l_remaining st \<noteq> []"
    and sz: "0 < sz" "v_stripe_unit vol dvd sz"
      "length (l_remaining st) \<noteq> 1 \<longrightarrow> sum_list (map snd (l_remaining st)) * v_stripe_unit vol dvd sz"
    and ext: "\<forall>j < length (l_remaining st). l_used_phys st ! fst (l_remaining st ! j)
      + phase_extent (v_stripe_unit vol) (filled_phase vol st sz) j \<le> pools ! fst (l_remaining st ! j)"
  shows "wf_phase (v_stripe_unit vol) (v_disk_count vol + length pools) (filled_phase vol st sz)"
proof -
  note F = filled_phase_facts [OF inv ok pc, where sz = sz]
  have "distinct (map fst (l_remaining st))" using inv by (simp add: layout_inv_def disk_split_def)
  then have "distinct (map ((+) (v_disk_count vol)) (map fst (l_remaining st)))"
    by (subst distinct_map) simp
  then have d: "distinct (map (\<lambda>x. v_disk_count vol + fst x) (l_remaining st))" by (simp add: comp_def)
  have each: "\<forall>j < length (l_remaining st). v_disk_count vol + fst (l_remaining st ! j) < v_disk_count vol + length pools \<and>
      1 \<le> snd (l_remaining st ! j) \<and> snd (l_remaining st ! j) \<le> MAX_RATIO \<and>
      l_used_phys st ! fst (l_remaining st ! j)
        + phase_extent (v_stripe_unit vol) (filled_phase vol st sz) j < 2 ^ 64"
  proof (intro allI impI)
    fix j assume j: "j < length (l_remaining st)"
    note R = remaining_facts [OF inv ok nth_mem [OF j]]
    have "l_used_phys st ! fst (l_remaining st ! j)
        + phase_extent (v_stripe_unit vol) (filled_phase vol st sz) j \<le> pools ! fst (l_remaining st ! j)"
      using ext j by blast
    also have "\<dots> < 2 ^ 64" using R(6) by simp
    finally show "v_disk_count vol + fst (l_remaining st ! j) < v_disk_count vol + length pools \<and>
      1 \<le> snd (l_remaining st ! j) \<and> snd (l_remaining st ! j) \<le> MAX_RATIO \<and>
      l_used_phys st ! fst (l_remaining st ! j)
        + phase_extent (v_stripe_unit vol) (filled_phase vol st sz) j < 2 ^ 64"
      using R by simp
  qed
  have "1 \<le> length (l_remaining st)" using rem by (cases "l_remaining st") simp_all
  then show ?thesis
    unfolding wf_phase_def F(1,5,6,8,10,11)
    using F(9) d each remaining_total(1) [OF inv ok] sz
    by (simp add: phase_arrays_def F(2,3,4))
qed

section \<open>One round of the loop\<close>

lemma wf_layout_cong:
  assumes "v_stripe_unit v = v_stripe_unit w" "v_disk_count v = v_disk_count w"
    "v_phase_count v = v_phase_count w" "v_virtual_total_bytes v = v_virtual_total_bytes w"
    "length (v_phases v) = length (v_phases w)"
    "\<forall>p < v_phase_count w. v_phases v ! p = v_phases w ! p" "v_phase_count w \<le> length (v_phases w)"
  shows "wf_layout v \<longleftrightarrow> wf_layout w"
proof -
  have "take p (v_phases v) = take p (v_phases w)" if "p \<le> v_phase_count w" for p
    using that assms by (intro nth_take_lemma) auto
  then have "\<forall>p \<le> v_phase_count w. vstart v p = vstart w p" by (simp add: vstart_def)
  then show ?thesis using assms by (simp add: wf_layout_def)
qed

lemma layout_inv_scratch:
  assumes inv: "layout_inv vol pools rr st" and pc: "l_phase_count st < MAX_DISKS"
    and ph: "phase_arrays ph"
    and st': "st' = st\<lparr>l_phases := (l_phases st)[l_phase_count st := ph], l_remaining := rem\<rparr>"
    and split: "disk_split (v_stripe_unit vol) pools rr st'"
    and rem: "length rem \<le> length (l_remaining st)"
  shows "layout_inv vol pools rr st'"
proof -
  let ?N = "v_disk_count vol + length pools"
  have wf: "wf_layout (with_layout vol ?N st)" using inv by (simp add: layout_inv_def)
  have len: "length (l_phases st) = MAX_DISKS" using wf by (simp add: wf_layout_def with_layout_def)
  have "wf_layout (with_layout vol ?N st') \<longleftrightarrow> wf_layout (with_layout vol ?N st)"
    using pc len by (intro wf_layout_cong) (simp_all add: with_layout_def st')
  moreover have "\<forall>p < MAX_DISKS. phase_arrays (l_phases st' ! p)"
    using inv len pc ph by (simp add: layout_inv_def st' nth_list_update)
  moreover have "take (v_phase_count vol) (l_phases st') = take (v_phase_count vol) (v_phases vol)"
    using inv by (simp add: layout_inv_def st')
  moreover have "p < l_phase_count st \<Longrightarrow> l_phases st' ! p = l_phases st ! p" for p by (simp add: st')
  ultimately show ?thesis using inv wf split rem
    unfolding layout_inv_def by (simp add: st')
qed

lemma layout_su: "layout_inv vol pools rr st \<Longrightarrow> 0 < v_stripe_unit vol \<and> v_stripe_unit vol < 2 ^ 32"
  by (simp add: layout_inv_def wf_layout_def with_layout_def)

lemma layout_update_all:
  "st\<lparr>l_phases := a, l_virt_offset := b, l_used_phys := c, l_remaining_phys := d, l_remaining := e,
      l_phase_count := f\<rparr>
   = \<lparr>l_phases = a, l_phase_count = f, l_virt_offset = b, l_remaining = e,
      l_remaining_phys = d, l_used_phys = c\<rparr>"
  by (cases st) simp

lemma phase_loop_stop:
  "l_remaining st = [] \<Longrightarrow> phase_loop base su st = st"
  by (subst phase_loop.simps) simp

text \<open>One disk is left and it has no room for a unit.\<close>

lemma phase_loop_break:
  assumes "l_remaining st = [(d, r)]" "l_phase_count st < MAX_DISKS" "l_remaining_phys st ! d < su"
  shows "phase_loop base su st = st\<lparr>l_phases := (l_phases st)[l_phase_count st :=
    fill_phase base su st (l_phases st ! l_phase_count st)]\<rparr>"
  using assms by (subst phase_loop.simps) (simp add: Let_def)

lemma break_inv:
  assumes inv: "layout_inv vol pools rr st" and ok: "pools_ok vol pools rr"
    and rem: "l_remaining st = [(d, r)]" and pc: "l_phase_count st < MAX_DISKS"
    and small: "l_remaining_phys st ! d < v_stripe_unit vol"
  shows "layout_inv vol pools rr
    ((phase_loop (v_disk_count vol) (v_stripe_unit vol) st)\<lparr>l_remaining := []\<rparr>)"
proof -
  let ?su = "v_stripe_unit vol"
  let ?ph = "fill_phase (v_disk_count vol) ?su st (l_phases st ! l_phase_count st)"
  have R: "d < length pools" "r = rr ! d" "1 \<le> r" "l_remaining_phys st ! d + l_used_phys st ! d = pools ! d"
    using remaining_facts [OF inv ok, of "(d, r)"] rem by simp_all
  have "?su \<le> rr ! d * ?su" using R(2,3) by simp
  then have "pools ! d < l_used_phys st ! d + rr ! d * ?su" using R(4) small by linarith
  moreover have "\<forall>d' < length pools. d' \<noteq> d \<longrightarrow> l_used_phys st ! d' \<le> pools ! d' \<and>
      pools ! d' < l_used_phys st ! d' + rr ! d' * ?su"
    "length (l_remaining_phys st) = length pools" "length (l_used_phys st) = length pools"
    using inv rem by (simp_all add: layout_inv_def disk_split_def)
  ultimately have split: "disk_split ?su pools rr
      (st\<lparr>l_phases := (l_phases st)[l_phase_count st := ?ph], l_remaining := []\<rparr>)"
    using R by (simp add: disk_split_def) (metis le_add2)
  have "phase_arrays ?ph"
    using filled_phase_facts(9) [OF inv ok pc] by (simp add: filled_phase_def phase_arrays_def)
  from layout_inv_scratch [OF inv pc this refl split] show ?thesis
    by (simp add: phase_loop_break [OF rem pc small])
qed

text \<open>One disk is left: the phase takes all its whole units.\<close>

definition single_step :: "STRIPE_VOLUME \<Rightarrow> layout \<Rightarrow> nat \<Rightarrow> nat \<Rightarrow> layout" where
  "single_step vol st d sz =
     \<lparr>l_phases = (l_phases st)[l_phase_count st := filled_phase vol st sz],
      l_phase_count = Suc (l_phase_count st),
      l_virt_offset = u64 (l_virt_offset st + ph_virtual_size_bytes (filled_phase vol st sz)),
      l_remaining = [], l_remaining_phys = (l_remaining_phys st)[d := 0],
      l_used_phys = (l_used_phys st)[d := l_used_phys st ! d + sz]\<rparr>"

lemma phase_loop_single:
  assumes rem: "l_remaining st = [(d, r)]" and pc: "l_phase_count st < MAX_DISKS"
    and av: "v_stripe_unit vol \<le> l_remaining_phys st ! d" "0 < v_stripe_unit vol"
    and b: "l_remaining_phys st ! d + l_used_phys st ! d < 2 ^ 64"
    and sz: "sz = l_remaining_phys st ! d - l_remaining_phys st ! d mod v_stripe_unit vol"
  shows "phase_loop (v_disk_count vol) (v_stripe_unit vol) st = single_step vol st d sz"
proof -
  let ?su = "v_stripe_unit vol" and ?a = "l_remaining_phys st ! d"
  have "?a mod ?su < ?su" using av(2) by simp
  then have sz0: "sz \<noteq> 0" using av(1) sz by linarith
  have "u64 (l_used_phys st ! d + sz) = l_used_phys st ! d + sz"
    using b sz by (intro u64_id) linarith
  then have "phase_loop (v_disk_count vol) ?su st = phase_loop (v_disk_count vol) ?su (single_step vol st d sz)"
    using rem pc av sz0 sz [symmetric]
    by (subst phase_loop.simps) (simp add: Let_def single_step_def filled_phase_def layout_update_all)
  then show ?thesis by (simp add: phase_loop_stop single_step_def)
qed

lemma single_inv:
  assumes inv: "layout_inv vol pools rr st" and ok: "pools_ok vol pools rr"
    and rem: "l_remaining st = [(d, r)]" and pc: "l_phase_count st < MAX_DISKS"
    and av: "v_stripe_unit vol \<le> l_remaining_phys st ! d"
  shows "layout_inv vol pools rr (phase_loop (v_disk_count vol) (v_stripe_unit vol) st)"
proof -
  let ?su = "v_stripe_unit vol" and ?a = "l_remaining_phys st ! d" and ?u = "l_used_phys st ! d"
  define sz where sz: "sz = ?a - ?a mod ?su"
  have su: "0 < ?su" using layout_su [OF inv] by simp
  have R: "d < length pools" "r = rr ! d" "1 \<le> r" "?a + ?u = pools ! d" "pools ! d < 2 ^ 56"
    using remaining_facts [OF inv ok, of "(d, r)"] rem by simp_all
  have md: "?a mod ?su < ?su" using su by simp
  have szd: "?su dvd sz" unfolding sz by (metis dvd_minus_mod)
  have sz1: "0 < sz" "sz \<le> ?a" "?a < sz + ?su" using md av sz by linarith+
  have rsu: "?su \<le> rr ! d * ?su" using R(2,3) by simp
  have step: "phase_loop (v_disk_count vol) ?su st = single_step vol st d sz"
    using R by (intro phase_loop_single [OF rem pc av su _ sz]) simp
  note F = filled_phase_facts [OF inv ok pc, where sz = sz]
  have one: "length (l_remaining st) = 1" "l_remaining st ! 0 = (d, r)" using rem by simp_all
  have ext: "phase_extent ?su (filled_phase vol st sz) j = sz" for j
    by (simp add: phase_extent_def F(1,8) one)
  have lens: "length (l_remaining_phys st) = length pools" "length (l_used_phys st) = length pools"
    using inv by (simp_all add: layout_inv_def disk_split_def)
  show ?thesis unfolding step
  proof (rule layout_inv_add_phase [OF inv ok pc])
    show "wf_phase ?su (v_disk_count vol + length pools) (filled_phase vol st sz)"
    proof (rule wf_filled_phase [OF inv ok pc])
      show "\<forall>j<length (l_remaining st). l_used_phys st ! fst (l_remaining st ! j)
          + phase_extent ?su (filled_phase vol st sz) j \<le> pools ! fst (l_remaining st ! j)"
        using R sz1 by (simp add: ext rem)
    qed (use szd sz1 one rem in simp_all)
    show "\<forall>j<ph_active_count (filled_phase vol st sz). \<exists>d'<length pools.
        ph_active_disk_indices (filled_phase vol st sz) ! j = v_disk_count vol + d' \<and>
        ph_physical_starts_bytes (filled_phase vol st sz) ! j = l_used_phys st ! d' \<and>
        l_used_phys st ! d' + phase_extent ?su (filled_phase vol st sz) j
          \<le> (l_used_phys st)[d := ?u + sz] ! d'"
      using R(1) lens F(2,4) one by (intro allI impI exI [of _ d]) (simp add: F(1) ext)
    show "\<forall>d'<length pools. l_used_phys st ! d' \<le> (l_used_phys st)[d := ?u + sz] ! d'"
      using lens R(1) by (simp add: nth_list_update)
    show "sum_list ((l_used_phys st)[d := ?u + sz]) =
        sum_list (l_used_phys st) + ph_virtual_size_bytes (filled_phase vol st sz)"
      using R(1) lens by (simp add: F(8) sum_list_update)
    show "single_step vol st d sz = \<lparr>l_phases = (l_phases st)[l_phase_count st := filled_phase vol st sz],
        l_phase_count = Suc (l_phase_count st),
        l_virt_offset = u64 (l_virt_offset st + ph_virtual_size_bytes (filled_phase vol st sz)),
        l_remaining = [], l_remaining_phys = (l_remaining_phys st)[d := 0],
        l_used_phys = (l_used_phys st)[d := ?u + sz]\<rparr>"
      by (simp add: single_step_def)
    have "\<forall>d' < length pools. d' \<noteq> d \<longrightarrow> l_used_phys st ! d' \<le> pools ! d' \<and>
        pools ! d' < l_used_phys st ! d' + rr ! d' * ?su"
      using inv rem by (simp add: layout_inv_def disk_split_def)
    moreover have "?u + sz \<le> pools ! d" "pools ! d < ?u + sz + rr ! d * ?su"
      using R sz1 rsu by linarith+
    ultimately show "disk_split ?su pools rr (single_step vol st d sz)"
      using lens R(1) by (simp add: disk_split_def single_step_def nth_list_update)
  qed (use F(7) rem in simp_all)
qed

text \<open>Several disks are left: the limits of the round.\<close>

lemma round_limits:
  assumes inv: "layout_inv vol pools rr st" and ok: "pools_ok vol pools rr"
    and rem: "l_remaining st \<noteq> []"
    and tot: "tot = sum_list (map snd (l_remaining st))"
    and mv: "min_virtual tot (l_remaining_phys st) 0 (l_remaining st) (2 ^ 64 - 1, 2 ^ 32 - 1) = (least, k)"
    and c: "c = least div (tot * v_stripe_unit vol)"
  shows "\<forall>(d, r) \<in> set (l_remaining st). c * r * v_stripe_unit vol \<le> l_remaining_phys st ! d"
    "k < length (l_remaining st)"
    "l_remaining_phys st ! fst (l_remaining st ! k)
       < Suc c * snd (l_remaining st ! k) * v_stripe_unit vol"
    "0 < tot"
proof -
  let ?su = "v_stripe_unit vol" and ?rp = "l_remaining_phys st"
  have su: "0 < ?su" using layout_su [OF inv] by simp
  have hd: "hd (l_remaining st) \<in> set (l_remaining st)" using rem by simp
  have "snd (hd (l_remaining st)) \<le> tot" unfolding tot
    using hd by (intro member_le_sum_list) simp_all
  then show tot0: "0 < tot" using remaining_facts(3) [OF inv ok hd] by linarith
  have bnd: "?rp ! fst x * tot < 2 ^ 63" if "x \<in> set (l_remaining st)" for x
  proof -
    have "?rp ! fst x < 2 ^ 56" using remaining_facts(5,6) [OF inv ok that] by linarith
    then have "?rp ! fst x \<le> 2 ^ 56 - 1" by simp
    moreover have "tot \<le> 128" using remaining_total(2) [OF inv ok] tot by simp
    ultimately have "?rp ! fst x * tot \<le> (2 ^ 56 - 1) * 128" by (rule mult_le_mono)
    then show ?thesis by simp
  qed
  have "\<forall>x \<in> set (l_remaining st). ?rp ! fst x * tot < 2 ^ 64" using bnd by fastforce
  note M = min_virtual_facts [OF this mv]
  have mx: "max_virtual tot ?rp x < 2 ^ 63" if "x \<in> set (l_remaining st)" for x
    using bnd [OF that] unfolding max_virtual_def by (meson div_le_dividend le_less_trans)
  have "least < 2 ^ 63" using M hd mx by fastforce
  then obtain m where m: "m < length (l_remaining st)" "k = m"
    "least = max_virtual tot ?rp (l_remaining st ! m)" using M by auto
  then show k: "k < length (l_remaining st)" by simp
  show "\<forall>(d, r) \<in> set (l_remaining st). c * r * ?su \<le> ?rp ! d"
  proof clarify
    fix d r assume x: "(d, r) \<in> set (l_remaining st)"
    have "c * (tot * ?su) \<le> least" unfolding c by (rule div_times_less_eq_dividend)
    also have "least \<le> ?rp ! d * tot div r" using M x by (fastforce simp: max_virtual_def)
    finally have "c * (tot * ?su) * r \<le> ?rp ! d * tot div r * r" by (rule mult_le_mono1)
    also have "\<dots> \<le> ?rp ! d * tot" by (rule div_times_less_eq_dividend)
    finally have "tot * (c * r * ?su) \<le> tot * ?rp ! d" by (simp add: mult.commute mult.left_commute)
    then show "c * r * ?su \<le> ?rp ! d" using tot0 by simp
  qed
  let ?d = "fst (l_remaining st ! k)" and ?r = "snd (l_remaining st ! k)"
  have r0: "0 < ?r" using remaining_facts(3) [OF inv ok nth_mem [OF k]] by simp
  have "least < Suc c * (tot * ?su)"
    unfolding c using tot0 su by (simp add: dividend_less_div_times)
  then have "?rp ! ?d * tot div ?r < Suc c * (tot * ?su)" using m by (simp add: max_virtual_def)
  then have "?rp ! ?d * tot < Suc c * (tot * ?su) * ?r" using r0 by (simp add: div_less_iff_less_mult)
  then have "tot * ?rp ! ?d < tot * (Suc c * ?r * ?su)" by (simp only: mult.commute mult.left_commute)
  then show "?rp ! ?d < Suc c * ?r * ?su" by simp
qed

text \<open>A round that cannot fill one cycle drops the limiting disk.\<close>

lemma set_remove_at:
  "k < length xs \<Longrightarrow> distinct (map fst xs) \<Longrightarrow>
   set (remove_at k xs) \<subseteq> set xs \<and> distinct (map fst (remove_at k xs)) \<and>
   fst ` set (remove_at k xs) = fst ` set xs - {fst (xs ! k)} \<and> length (remove_at k xs) < length xs"
proof -
  assume k: "k < length xs" and d: "distinct (map fst xs)"
  have e: "xs = take k xs @ xs ! k # drop (Suc k) xs" using k by (simp add: id_take_nth_drop)
  have r: "remove_at k xs = take k xs @ drop (Suc k) xs" using k by (cases xs) (auto simp: remove_at_def min_def)
  have "distinct (map fst (take k xs @ xs ! k # drop (Suc k) xs))" using d e by simp
  then have dd: "distinct (map fst (remove_at k xs))" "fst (xs ! k) \<notin> fst ` set (remove_at k xs)"
    unfolding r by auto
  have s: "set xs = insert (xs ! k) (set (remove_at k xs))" unfolding r by (subst e) auto
  have "fst ` set (remove_at k xs) = fst ` set xs - {fst (xs ! k)}" using dd(2) by (subst s) auto
  moreover have "set (remove_at k xs) \<subseteq> set xs" using s by auto
  moreover have "length (remove_at k xs) < length xs" using k by (intro remove_at_shorter) auto
  ultimately show ?thesis using dd(1) by simp
qed

definition drop_step :: "STRIPE_VOLUME \<Rightarrow> layout \<Rightarrow> nat \<Rightarrow> layout" where
  "drop_step vol st k = st\<lparr>l_phases := (l_phases st)[l_phase_count st :=
      fill_phase (v_disk_count vol) (v_stripe_unit vol) st (l_phases st ! l_phase_count st)],
    l_remaining := remove_at k (l_remaining st)\<rparr>"

lemma drop_inv:
  assumes inv: "layout_inv vol pools rr st" and ok: "pools_ok vol pools rr"
    and pc: "l_phase_count st < MAX_DISKS" and k: "k < length (l_remaining st)"
    and small: "l_remaining_phys st ! fst (l_remaining st ! k) < snd (l_remaining st ! k) * v_stripe_unit vol"
  shows "layout_inv vol pools rr (drop_step vol st k)" "length (l_remaining (drop_step vol st k)) < length (l_remaining st)"
proof -
  let ?su = "v_stripe_unit vol" and ?d = "fst (l_remaining st ! k)"
  let ?ph = "fill_phase (v_disk_count vol) ?su st (l_phases st ! l_phase_count st)"
  have ds: "disk_split ?su pools rr st" and dist: "distinct (map fst (l_remaining st))"
    using inv by (simp_all add: layout_inv_def disk_split_def)
  note R = remaining_facts [OF inv ok nth_mem [OF k]] and S = set_remove_at [OF k dist]
  have "l_used_phys st ! ?d \<le> pools ! ?d \<and> pools ! ?d < l_used_phys st ! ?d + rr ! ?d * ?su"
    using R(2,5) small by simp
  then have split: "disk_split ?su pools rr (drop_step vol st k)"
    using ds S by (auto simp: disk_split_def drop_step_def)
  have "phase_arrays ?ph"
    using filled_phase_facts(9) [OF inv ok pc] by (simp add: filled_phase_def phase_arrays_def)
  then show "layout_inv vol pools rr (drop_step vol st k)"
    using S split by (intro layout_inv_scratch [OF inv pc _ drop_step_def]) simp_all
  show "length (l_remaining (drop_step vol st k)) < length (l_remaining st)"
    using S by (simp add: drop_step_def)
qed

text \<open>A full round: \<open>c\<close> cycles are laid out over all the remaining disks.\<close>

definition full_step :: "STRIPE_VOLUME \<Rightarrow> layout \<Rightarrow> nat \<Rightarrow> (nat \<times> nat) list \<Rightarrow> nat list \<Rightarrow> nat list \<Rightarrow> layout" where
  "full_step vol st sz kept rp up =
     \<lparr>l_phases = (l_phases st)[l_phase_count st := filled_phase vol st sz],
      l_phase_count = Suc (l_phase_count st),
      l_virt_offset = u64 (l_virt_offset st + ph_virtual_size_bytes (filled_phase vol st sz)),
      l_remaining = kept, l_remaining_phys = rp, l_used_phys = up\<rparr>"

lemma full_inv:
  assumes inv: "layout_inv vol pools rr st" and ok: "pools_ok vol pools rr"
    and pc: "l_phase_count st < MAX_DISKS" and two: "length (l_remaining st) \<noteq> 1" and rem: "l_remaining st \<noteq> []"
    and tot: "tot = sum_list (map snd (l_remaining st))" "0 < tot"
    and fits: "\<forall>(d, r) \<in> set (l_remaining st). c * r * v_stripe_unit vol \<le> l_remaining_phys st ! d"
    and k: "k < length (l_remaining st)"
      "l_remaining_phys st ! fst (l_remaining st ! k) < Suc c * snd (l_remaining st ! k) * v_stripe_unit vol"
    and c: "c \<noteq> 0"
    and ch: "charge (v_stripe_unit vol) c (l_remaining st) (l_remaining_phys st) (l_used_phys st) = (kept, rp, up)"
  shows "layout_inv vol pools rr (full_step vol st (c * (tot * v_stripe_unit vol)) kept rp up)"
    "length kept < length (l_remaining st)"
proof -
  let ?su = "v_stripe_unit vol" and ?xs = "l_remaining st"
  let ?sz = "c * (tot * ?su)" and ?d = "fst (l_remaining st ! k)" and ?r = "snd (l_remaining st ! k)"
  have su: "0 < ?su" "?su < 2 ^ 32" using layout_su [OF inv] by simp_all
  have dist: "distinct (map fst ?xs)" and lens: "length (l_remaining_phys st) = length pools"
    "length (l_used_phys st) = length pools" and ds: "disk_split ?su pools rr st"
    using inv by (simp_all add: layout_inv_def disk_split_def)
  have pre: "\<forall>(d, r) \<in> set ?xs. d < length (l_remaining_phys st) \<and> c * r * ?su \<le> l_remaining_phys st ! d \<and>
      l_remaining_phys st ! d + l_used_phys st ! d < 2 ^ 64 \<and> r * ?su < 2 ^ 64"
  proof clarify
    fix d r assume x: "(d, r) \<in> set ?xs"
    note R = remaining_facts [OF inv ok x, simplified]
    have "r * ?su \<le> 32 * ?su" using R(4) by (intro mult_le_mono1) (simp add: const)
    also have "\<dots> < 2 ^ 64" using su(2) by simp
    finally have "r * ?su < 2 ^ 64" .
    then show "d < length (l_remaining_phys st) \<and> c * r * ?su \<le> l_remaining_phys st ! d \<and>
      l_remaining_phys st ! d + l_used_phys st ! d < 2 ^ 64 \<and> r * ?su < 2 ^ 64"
      using R(1,5,6) lens fits x by auto
  qed
  have CH: "length rp = length (l_remaining_phys st) \<and> length up = length (l_used_phys st) \<and>
    (\<forall>(d, r) \<in> set ?xs. rp ! d = l_remaining_phys st ! d - c * r * ?su \<and> up ! d = l_used_phys st ! d + c * r * ?su) \<and>
    (\<forall>d. d \<notin> fst ` set ?xs \<longrightarrow> rp ! d = l_remaining_phys st ! d \<and> up ! d = l_used_phys st ! d) \<and>
    kept = filter (\<lambda>(d, r). r * ?su \<le> rp ! d) ?xs \<and>
    sum_list up = sum_list (l_used_phys st) + c * sum_list (map snd ?xs) * ?su"
    using charge_facts [OF ch dist _ pre su(1)] lens by simp
  have charged: "rp ! d = l_remaining_phys st ! d - c * r * ?su" "up ! d = l_used_phys st ! d + c * r * ?su"
    if "(d, r) \<in> set ?xs" for d r using CH that by blast+
  have kept: "kept = filter (\<lambda>(d, r). r * ?su \<le> rp ! d) ?xs" using CH by blast
  have xk: "(?d, ?r) \<in> set ?xs" using nth_mem [OF k(1)] by simp
  have "c * ?r * ?su \<le> l_remaining_phys st ! ?d" using fits xk by blast
  moreover have "Suc c * ?r * ?su = c * ?r * ?su + ?r * ?su" by (simp add: algebra_simps)
  ultimately have "rp ! ?d < ?r * ?su" using charged(1) [OF xk] k(2) by linarith
  then have "(?d, ?r) \<notin> set kept" unfolding kept by (simp add: split_beta)
  then show less: "length kept < length ?xs"
    using xk unfolding kept by (metis filter_id_conv length_filter_less)
  note F = filled_phase_facts [OF inv ok pc, where sz = ?sz]
  have ext: "phase_extent ?su (filled_phase vol st ?sz) j = c * snd (?xs ! j) * ?su" if "j < length ?xs" for j
    unfolding phase_extent_def F(1,6,8) F(3) [OF that] tot(1) [symmetric] using two tot(2) su by simp
  show "layout_inv vol pools rr (full_step vol st ?sz kept rp up)"
  proof (rule layout_inv_add_phase [OF inv ok pc])
    show "wf_phase ?su (v_disk_count vol + length pools) (filled_phase vol st ?sz)"
    proof (rule wf_filled_phase [OF inv ok pc rem])
      show "\<forall>j<length ?xs. l_used_phys st ! fst (?xs ! j)
          + phase_extent ?su (filled_phase vol st ?sz) j \<le> pools ! fst (?xs ! j)"
      proof (intro allI impI)
        fix j assume j: "j < length ?xs"
        have "c * snd (?xs ! j) * ?su \<le> l_remaining_phys st ! fst (?xs ! j)"
          using fits nth_mem [OF j] by (auto simp: split_beta)
        then show "l_used_phys st ! fst (?xs ! j)
          + phase_extent ?su (filled_phase vol st ?sz) j \<le> pools ! fst (?xs ! j)"
          using remaining_facts(5) [OF inv ok nth_mem [OF j]] ext [OF j] by linarith
      qed
    qed (use su c tot in simp_all)
    show "\<forall>j<ph_active_count (filled_phase vol st ?sz). \<exists>d<length pools.
        ph_active_disk_indices (filled_phase vol st ?sz) ! j = v_disk_count vol + d \<and>
        ph_physical_starts_bytes (filled_phase vol st ?sz) ! j = l_used_phys st ! d \<and>
        l_used_phys st ! d + phase_extent ?su (filled_phase vol st ?sz) j \<le> up ! d"
    proof (intro allI impI)
      fix j assume "j < ph_active_count (filled_phase vol st ?sz)"
      then have j: "j < length ?xs" by (simp add: F(1))
      have "up ! fst (?xs ! j) = l_used_phys st ! fst (?xs ! j) + c * snd (?xs ! j) * ?su"
        using nth_mem [OF j] by (intro charged(2)) simp
      then show "\<exists>d<length pools.
        ph_active_disk_indices (filled_phase vol st ?sz) ! j = v_disk_count vol + d \<and>
        ph_physical_starts_bytes (filled_phase vol st ?sz) ! j = l_used_phys st ! d \<and>
        l_used_phys st ! d + phase_extent ?su (filled_phase vol st ?sz) j \<le> up ! d"
        using remaining_facts(1) [OF inv ok nth_mem [OF j]] F(2,4) [OF j] ext [OF j]
        by (intro exI [of _ "fst (?xs ! j)"]) simp
    qed
    show "\<forall>d<length pools. l_used_phys st ! d \<le> up ! d"
    proof (intro allI impI)
      fix d show "l_used_phys st ! d \<le> up ! d"
        by (cases "d \<in> fst ` set ?xs") (use CH charged(2) in \<open>auto\<close>)
    qed
    show "sum_list up = sum_list (l_used_phys st) + ph_virtual_size_bytes (filled_phase vol st ?sz)"
      unfolding F(8) using CH tot(1) by (simp add: mult.assoc)
    show "disk_split ?su pools rr (full_step vol st ?sz kept rp up)"
      unfolding disk_split_def full_step_def layout.simps
    proof (intro conjI)
      show "length rp = length pools" "length up = length pools" using CH lens by simp_all
      show "distinct (map fst kept)" unfolding kept by (rule distinct_map_filter [OF dist])
      show "\<forall>(d, r) \<in> set kept. d < length pools \<and> r = rr ! d \<and> rp ! d + up ! d = pools ! d"
      proof clarify
        fix d r assume "(d, r) \<in> set kept"
        then have x: "(d, r) \<in> set ?xs" unfolding kept by simp
        then have "c * r * ?su \<le> l_remaining_phys st ! d" using fits by blast
        then show "d < length pools \<and> r = rr ! d \<and> rp ! d + up ! d = pools ! d"
          using remaining_facts(1,2,5) [OF inv ok x] charged [OF x] by simp
      qed
      show "\<forall>d<length pools. d \<notin> fst ` set kept \<longrightarrow> up ! d \<le> pools ! d \<and> pools ! d < up ! d + rr ! d * ?su"
      proof (intro allI impI)
        fix d assume d: "d < length pools" and nk: "d \<notin> fst ` set kept"
        show "up ! d \<le> pools ! d \<and> pools ! d < up ! d + rr ! d * ?su"
        proof (cases "d \<in> fst ` set ?xs")
          case True
          then obtain r where x: "(d, r) \<in> set ?xs" by auto
          then have "rp ! d < r * ?su" using nk unfolding kept by force
          moreover have "c * r * ?su \<le> l_remaining_phys st ! d" using fits x by blast
          ultimately show ?thesis
            using remaining_facts(2,5) [OF inv ok x] charged [OF x] by simp
        next
          case False
          then show ?thesis using ds d CH by (simp add: disk_split_def)
        qed
      qed
    qed
    show "full_step vol st ?sz kept rp up = \<lparr>l_phases = (l_phases st)[l_phase_count st := filled_phase vol st ?sz],
        l_phase_count = Suc (l_phase_count st),
        l_virt_offset = u64 (l_virt_offset st + ph_virtual_size_bytes (filled_phase vol st ?sz)),
        l_remaining = kept, l_remaining_phys = rp, l_used_phys = up\<rparr>"
      by (rule full_step_def)
  qed (use F(7) less in simp_all)
qed

section \<open>The whole loop\<close>

lemma phase_loop_round:
  assumes rem: "l_remaining st \<noteq> []" "length (l_remaining st) \<noteq> 1" and pc: "l_phase_count st < MAX_DISKS"
    and ph: "ph = fill_phase (v_disk_count vol) (v_stripe_unit vol) st (l_phases st ! l_phase_count st)"
    and mv: "min_virtual (ph_total_ratio ph) (l_remaining_phys st) 0 (l_remaining st)
      (2 ^ 64 - 1, 2 ^ 32 - 1) = (least, k)"
    and c: "c = least div ph_cycle_size_bytes ph"
    and ch: "charge (v_stripe_unit vol) c (l_remaining st) (l_remaining_phys st) (l_used_phys st) = (kept, rp, up)"
  shows "phase_loop (v_disk_count vol) (v_stripe_unit vol) st =
    (if c = 0 then phase_loop (v_disk_count vol) (v_stripe_unit vol) (drop_step vol st k)
     else phase_loop (v_disk_count vol) (v_stripe_unit vol)
       (full_step vol st (u64 (c * ph_cycle_size_bytes ph)) kept rp up))"
  using rem pc mv ch
  by (subst phase_loop.simps)
    (simp add: Let_def ph [symmetric] c [symmetric] drop_step_def full_step_def filled_phase_def
      layout_update_all)

lemma phase_loop_inv:
  assumes ok: "pools_ok vol pools rr"
  shows "layout_inv vol pools rr st \<Longrightarrow> layout_inv vol pools rr
    ((phase_loop (v_disk_count vol) (v_stripe_unit vol) st)\<lparr>l_remaining := []\<rparr>)"
proof (induction "length (l_remaining st)" arbitrary: st rule: less_induct)
  case less
  let ?base = "v_disk_count vol" and ?su = "v_stripe_unit vol"
  note inv = less.prems
  have room: "l_phase_count st < MAX_DISKS" if "l_remaining st \<noteq> []"
  proof -
    have "l_phase_count st + length (l_remaining st) \<le> MAX_DISKS"
      using inv ok by (simp add: layout_inv_def pools_ok_def)
    then show ?thesis using that by (cases "l_remaining st") simp_all
  qed
  consider "l_remaining st = []" | d r where "l_remaining st = [(d, r)]"
    | "l_remaining st \<noteq> []" "length (l_remaining st) \<noteq> 1"
    by (cases "l_remaining st") (auto simp: length_Suc_conv)
  then show ?case
  proof cases
    case 1
    moreover have "st\<lparr>l_remaining := []\<rparr> = st" using 1 by (cases st) simp
    ultimately show ?thesis using inv by (simp only: phase_loop_stop)
  next
    case (2 d r)
    have pc: "l_phase_count st < MAX_DISKS" using room 2 by simp
    show ?thesis
    proof (cases "l_remaining_phys st ! d < ?su")
      case True
      then show ?thesis by (rule break_inv [OF inv ok 2 pc])
    next
      case False
      then have av: "?su \<le> l_remaining_phys st ! d" by simp
      let ?sz = "l_remaining_phys st ! d - l_remaining_phys st ! d mod ?su"
      have "l_remaining_phys st ! d + l_used_phys st ! d < 2 ^ 64"
        using remaining_facts(5,6) [OF inv ok, of "(d, r)"] 2 by simp
      then have "phase_loop ?base ?su st = single_step vol st d ?sz"
        using layout_su [OF inv] by (intro phase_loop_single [OF 2 pc av]) auto
      moreover have "(single_step vol st d ?sz)\<lparr>l_remaining := []\<rparr> = single_step vol st d ?sz"
        by (simp add: single_step_def)
      ultimately show ?thesis using single_inv [OF inv ok 2 pc av] by simp
    qed
  next
    case 3
    have pc: "l_phase_count st < MAX_DISKS" using room 3 by simp
    define ph where ph: "ph = fill_phase ?base ?su st (l_phases st ! l_phase_count st)"
    define tot where tot: "tot = sum_list (map snd (l_remaining st))"
    have F: "ph_total_ratio ph = tot" "ph_cycle_size_bytes ph = tot * ?su"
      using filled_phase_facts(5,6) [OF inv ok pc] by (simp_all add: filled_phase_def ph tot)
    obtain least k where mv: "min_virtual (ph_total_ratio ph) (l_remaining_phys st) 0 (l_remaining st)
      (2 ^ 64 - 1, 2 ^ 32 - 1) = (least, k)" by (metis surj_pair)
    define c where c: "c = least div ph_cycle_size_bytes ph"
    obtain kept rp up where ch: "charge ?su c (l_remaining st) (l_remaining_phys st) (l_used_phys st) = (kept, rp, up)"
      by (metis prod_cases3)
    note L = round_limits [OF inv ok 3(1) tot mv [unfolded F(1)] c [unfolded F(2)]]
    note step = phase_loop_round [OF 3 pc ph mv c ch]
    show ?thesis
    proof (cases "c = 0")
      case True
      then have small: "l_remaining_phys st ! fst (l_remaining st ! k) < snd (l_remaining st ! k) * ?su"
        using L(3) by simp
      note D = drop_inv [OF inv ok pc L(2) small]
      show ?thesis using less.hyps [OF D(2,1)] True step by simp
    next
      case False
      have xk: "l_remaining st ! k \<in> set (l_remaining st)" using L(2) by simp
      note G = full_inv [OF inv ok pc 3(2,1) tot L(4) L(1) L(2,3) False ch]
      have less': "length (l_remaining (full_step vol st (c * (tot * ?su)) kept rp up)) < length (l_remaining st)"
        using G(2) by (simp add: full_step_def)
      have "c * (tot * ?su) \<le> least" unfolding c F(2) by (rule div_times_less_eq_dividend)
      moreover have "least < 2 ^ 64"
      proof -
        have "\<forall>x \<in> set (l_remaining st). l_remaining_phys st ! fst x * tot < 2 ^ 64"
        proof
          fix x assume x: "x \<in> set (l_remaining st)"
          have "l_remaining_phys st ! fst x \<le> 2 ^ 56 - 1"
            using remaining_facts(5,6) [OF inv ok x] by simp
          moreover have "tot \<le> 128" using remaining_total(2) [OF inv ok] tot by simp
          ultimately have "l_remaining_phys st ! fst x * tot \<le> (2 ^ 56 - 1) * 128" by (rule mult_le_mono)
          then show "l_remaining_phys st ! fst x * tot < 2 ^ 64" by simp
        qed
        then have "least \<le> fst (2 ^ 64 - 1 :: nat, 2 ^ 32 - 1 :: nat)"
          using min_virtual_facts mv [unfolded F(1)] by blast
        then show ?thesis by simp
      qed
      ultimately have "u64 (c * (tot * ?su)) = c * (tot * ?su)" by (intro u64_id) linarith
      then have "phase_loop ?base ?su st = phase_loop ?base ?su (full_step vol st (c * (tot * ?su)) kept rp up)"
        using False step by (simp add: F(2))
      then show ?thesis using less.hyps [OF less' G(1)] by simp
    qed
  qed
qed

section \<open>Creating a volume\<close>

text \<open>The bytes of disk \<open>base + d\<close> below \<open>used ! d\<close>.\<close>

definition used_cells :: "nat \<Rightarrow> nat list \<Rightarrow> (nat \<times> nat) set" where
  "used_cells base used = {(d, x). base \<le> d \<and> d < base + length used \<and> x < used ! (d - base)}"

lemma used_cells_Sigma: "used_cells base used = (SIGMA d : {base ..< base + length used}. {..< used ! (d - base)})"
  by (auto simp: used_cells_def)

lemma card_used_cells: "finite (used_cells base used) \<and> card (used_cells base used) = sum_list used"
proof -
  have "card (used_cells base used) = (\<Sum>d = base ..< base + length used. used ! (d - base))"
    unfolding used_cells_Sigma by simp
  also have "\<dots> = (\<Sum>d = 0 ..< length used. used ! d)"
    using sum.shift_bounds_nat_ivl [of "\<lambda>d. used ! (d - base)" 0 base "length used"]
    by (simp add: add.commute)
  also have "\<dots> = sum_list used" by (simp add: sum_list_sum_nth)
  finally show ?thesis by (simp add: used_cells_Sigma)
qed

lemma card_cells: "wf_layout vol \<Longrightarrow> finite (cells vol) \<and> card (cells vol) = v_virtual_total_bytes vol"
  using byte_addr_bij [of vol] by (metis bij_betw_finite bij_betw_same_card card_lessThan finite_lessThan)

lemma cells_cong:
  assumes "v_stripe_unit v = v_stripe_unit w" "v_phase_count v = v_phase_count w" "v_phases v = v_phases w"
  shows "cells v = cells w"
  using assms by (simp add: cells_def)

text \<open>The speeds and pools of the disks given to the two layout functions.\<close>

definition disks_ok :: "(ptr \<Rightarrow> DISK_INFO) \<Rightarrow> ptr list \<Rightarrow> bool" where
  "disks_ok heap disks \<longleftrightarrow>
     (\<forall>d \<in> set disks. d_pool_bytes (heap d) < 2 ^ 56 \<and> disk_speed (heap d) < 2 ^ 32)"

definition call_ratios :: "(ptr \<Rightarrow> DISK_INFO) \<Rightarrow> ptr list \<Rightarrow> nat list" where
  "call_ratios heap disks =
     (case stripe_volume_normalize_ratios (map (\<lambda>d. disk_speed (heap d)) disks) of
        Some (rs, tot) \<Rightarrow> rs | None \<Rightarrow> [])"

lemma call_ratios_facts:
  assumes "disks_ok heap disks" "disks \<noteq> []" "length disks \<le> MAX_DISKS"
  shows "length (call_ratios heap disks) = length disks"
    "\<forall>r \<in> set (call_ratios heap disks). 1 \<le> r \<and> r \<le> MAX_RATIO"
proof -
  have "\<forall>s \<in> set (map (\<lambda>d. disk_speed (heap d)) disks). s < 2 ^ 32"
    using assms(1) by (auto simp: disks_ok_def)
  then obtain rs tot where "stripe_volume_normalize_ratios (map (\<lambda>d. disk_speed (heap d)) disks) = Some (rs, tot)"
    "length rs = length (map (\<lambda>d. disk_speed (heap d)) disks)" "\<forall>r \<in> set rs. 1 \<le> r \<and> r \<le> MAX_RATIO"
    by (rule normalize_facts [rotated 2]) (use assms(2,3) in simp_all)
  then show "length (call_ratios heap disks) = length disks"
    "\<forall>r \<in> set (call_ratios heap disks). 1 \<le> r \<and> r \<le> MAX_RATIO"
    by (simp_all add: call_ratios_def)
qed

lemma sum_pools_bound:
  "disks_ok heap disks \<Longrightarrow> length disks \<le> MAX_DISKS \<Longrightarrow>
   sum_list (map (\<lambda>d. d_pool_bytes (heap d)) disks) \<le> 2 ^ 58"
proof -
  assume ok: "disks_ok heap disks" and n: "length disks \<le> MAX_DISKS"
  have "sum_list (map (\<lambda>d. d_pool_bytes (heap d)) disks)
      \<le> length (map (\<lambda>d. d_pool_bytes (heap d)) disks) * 2 ^ 56"
    using ok by (intro sum_list_bound) (auto simp: disks_ok_def less_imp_le)
  also have "\<dots> \<le> 4 * 2 ^ 56" using n by (simp add: const)
  finally show ?thesis by simp
qed

definition start_layout :: "(ptr \<Rightarrow> DISK_INFO) \<Rightarrow> STRIPE_VOLUME \<Rightarrow> ptr list \<Rightarrow> layout" where
  "start_layout heap vol disks =
     \<lparr>l_phases = v_phases vol, l_phase_count = v_phase_count vol,
      l_virt_offset = v_virtual_total_bytes vol,
      l_remaining = zip [0 ..< length disks] (call_ratios heap disks),
      l_remaining_phys = map (\<lambda>d. d_pool_bytes (heap d)) disks,
      l_used_phys = map (\<lambda>_. 0) disks\<rparr>"

definition c_arrays :: "STRIPE_VOLUME \<Rightarrow> bool" where
  "c_arrays vol \<longleftrightarrow> length (v_phases vol) = MAX_DISKS \<and> (\<forall>ph \<in> set (v_phases vol). phase_arrays ph)"

lemma wf_phase_mono: "wf_phase su n ph \<Longrightarrow> n \<le> m \<Longrightarrow> wf_phase su m ph"
  unfolding wf_phase_def by (meson less_le_trans)

lemma start_layout_inv:
  assumes wf: "wf_layout vol" and arr: "c_arrays vol" and ok: "disks_ok heap disks"
    and n: "disks \<noteq> []" "v_phase_count vol + length disks \<le> MAX_DISKS"
    and tot: "v_virtual_total_bytes vol < 2 ^ 63"
  shows "pools_ok vol (map (\<lambda>d. d_pool_bytes (heap d)) disks) (call_ratios heap disks)"
    "layout_inv vol (map (\<lambda>d. d_pool_bytes (heap d)) disks) (call_ratios heap disks) (start_layout heap vol disks)"
proof -
  let ?pools = "map (\<lambda>d. d_pool_bytes (heap d)) disks" and ?rr = "call_ratios heap disks"
  let ?st = "start_layout heap vol disks"
  have n': "length disks \<le> MAX_DISKS" using n(2) by simp
  note R = call_ratios_facts [OF ok n(1) n']
  show "pools_ok vol ?pools ?rr"
    using R n(2) ok tot sum_pools_bound [OF ok n'] by (simp add: pools_ok_def disks_ok_def)
  have "v_disk_count vol \<le> v_disk_count vol + length ?pools" by simp
  have "wf_layout (with_layout vol (v_disk_count vol + length ?pools) ?st)"
  proof -
    have "vstart (with_layout vol (v_disk_count vol + length ?pools) ?st) p = vstart vol p" for p
      by (simp add: with_layout_def start_layout_def vstart_def)
    moreover have "\<forall>p < v_phase_count vol. wf_phase (v_stripe_unit vol) (v_disk_count vol + length ?pools) (v_phases vol ! p)"
      using wf_layout_phase(1) [OF wf] by (blast intro: wf_phase_mono le_add1)
    ultimately show ?thesis
      using wf unfolding wf_layout_def by (simp add: with_layout_def start_layout_def)
  qed
  moreover have "\<forall>p<MAX_DISKS. phase_arrays (l_phases ?st ! p)"
    using arr by (simp add: c_arrays_def start_layout_def)
  moreover have "map fst (l_remaining ?st) = [0 ..< length disks]" using R(1) by (simp add: start_layout_def)
  then have "distinct (map fst (l_remaining ?st))" "fst ` set (l_remaining ?st) = {0 ..< length disks}"
    by (simp, metis set_map set_upt)
  then have "disk_split (v_stripe_unit vol) ?pools ?rr ?st"
    using R(1) by (auto simp: disk_split_def start_layout_def set_zip)
  moreover have "\<forall>p < v_phase_count vol. \<forall>j < ph_active_count (v_phases vol ! p). \<forall>d.
      ph_active_disk_indices (v_phases vol ! p) ! j \<noteq> v_disk_count vol + d"
    using wf_layout_phase(1) [OF wf] by (auto simp: wf_phase_def) (metis not_add_less1)
  ultimately show "layout_inv vol ?pools ?rr ?st"
    using R(1) by (simp add: layout_inv_def start_layout_def sum_list_triv)
qed

text \<open>What the loop makes of a well-formed volume.\<close>

lemma layout_run:
  assumes wf: "wf_layout vol" and arr: "c_arrays vol" and ok: "disks_ok heap disks"
    and n: "disks \<noteq> []" "v_phase_count vol + length disks \<le> MAX_DISKS"
    and tot: "v_virtual_total_bytes vol < 2 ^ 63"
    and st: "st = phase_loop (v_disk_count vol) (v_stripe_unit vol) (start_layout heap vol disks)"
    and w: "v_stripe_unit w = v_stripe_unit vol" "v_disk_count w = v_disk_count vol + length disks"
      "v_phases w = l_phases st" "v_phase_count w = l_phase_count st" "v_virtual_total_bytes w = l_virt_offset st"
  obtains used where "wf_layout w" "c_arrays w" "v_phase_count vol \<le> v_phase_count w"
    "take (v_phase_count vol) (v_phases w) = take (v_phase_count vol) (v_phases vol)"
    "length used = length disks"
    "v_virtual_total_bytes w = v_virtual_total_bytes vol + sum_list used"
    "cells w = cells vol \<union> used_cells (v_disk_count vol) used"
    "\<forall>d < length disks. used ! d \<le> d_pool_bytes (heap (disks ! d)) \<and>
       d_pool_bytes (heap (disks ! d)) < used ! d + call_ratios heap disks ! d * v_stripe_unit vol"
proof -
  let ?pools = "map (\<lambda>d. d_pool_bytes (heap d)) disks" and ?rr = "call_ratios heap disks"
  let ?used = "l_used_phys st"
  note S = start_layout_inv [OF wf arr ok n tot]
  have inv: "layout_inv vol ?pools ?rr (st\<lparr>l_remaining := []\<rparr>)"
    unfolding st by (rule phase_loop_inv [OF S])
  have wfw: "wf_layout w"
  proof -
    have "wf_layout (with_layout vol (v_disk_count vol + length ?pools) (st\<lparr>l_remaining := []\<rparr>))"
      using inv by (simp add: layout_inv_def)
    moreover from this have "l_phase_count st \<le> length (l_phases st)"
      by (simp add: wf_layout_def with_layout_def)
    ultimately show ?thesis using w by (subst wf_layout_cong) (simp_all add: with_layout_def)
  qed
  have lp: "length (l_phases st) = MAX_DISKS" using wfw w by (simp add: wf_layout_def)
  have arrw: "c_arrays w"
    using inv lp by (auto simp: c_arrays_def w layout_inv_def in_set_conv_nth)
  have split: "length ?used = length disks" "\<forall>d < length disks. ?used ! d \<le> ?pools ! d \<and>
      ?pools ! d < ?used ! d + ?rr ! d * v_stripe_unit vol"
    using inv by (auto simp: layout_inv_def disk_split_def)
  have pre: "v_phase_count vol \<le> v_phase_count w"
    "take (v_phase_count vol) (v_phases w) = take (v_phase_count vol) (v_phases vol)"
    and total: "v_virtual_total_bytes w = v_virtual_total_bytes vol + sum_list ?used"
    using inv by (simp_all add: layout_inv_def w)
  have old: "p < v_phase_count vol \<Longrightarrow> v_phases w ! p = v_phases vol ! p" for p
    using pre(2) by (metis nth_take)
  have sub: "cells w \<subseteq> cells vol \<union> used_cells (v_disk_count vol) ?used"
  proof
    fix c assume "c \<in> cells w"
    then obtain p j where p: "p < v_phase_count w" and j: "j < ph_active_count (v_phases w ! p)"
      and c: "fst c = ph_active_disk_indices (v_phases w ! p) ! j"
        "ph_physical_starts_bytes (v_phases w ! p) ! j \<le> snd c"
        "snd c < ph_physical_starts_bytes (v_phases w ! p) ! j
           + phase_extent (v_stripe_unit w) (v_phases w ! p) j"
      by (auto simp: cells_def)
    show "c \<in> cells vol \<union> used_cells (v_disk_count vol) ?used"
    proof (cases "p < v_phase_count vol")
      case True
      have "\<exists>p<v_phase_count vol. \<exists>j<ph_active_count (v_phases vol ! p).
          fst c = ph_active_disk_indices (v_phases vol ! p) ! j \<and>
          ph_physical_starts_bytes (v_phases vol ! p) ! j \<le> snd c \<and>
          snd c < ph_physical_starts_bytes (v_phases vol ! p) ! j
             + phase_extent (v_stripe_unit vol) (v_phases vol ! p) j"
        using True j c unfolding old [OF True] w(1) by blast
      then show ?thesis by (simp add: cells_def split_beta)
    next
      case False
      have "v_disk_count vol \<le> fst c" using inv False p j c(1) by (simp add: layout_inv_def w)
      then obtain d where d: "fst c = v_disk_count vol + d" by (metis le_iff_add)
      have "fst c < v_disk_count w" using wf_layout_phase(1) [OF wfw p] j c(1) by (simp add: wf_phase_def)
      then have dn: "d < length disks" using d w(2) by simp
      have "ph_physical_starts_bytes (v_phases w ! p) ! j
          + phase_extent (v_stripe_unit w) (v_phases w ! p) j \<le> ?used ! d"
        using inv p j c(1) d dn by (simp add: layout_inv_def w)
      then show ?thesis using c(3) d dn split(1) by (auto simp: used_cells_def split_beta)
    qed
  qed
  have "cells vol \<inter> used_cells (v_disk_count vol) ?used = {}"
    using wf_layout_phase(1) [OF wf] by (fastforce simp: cells_def used_cells_def wf_phase_def)
  then have "card (cells vol \<union> used_cells (v_disk_count vol) ?used) = v_virtual_total_bytes w"
    using card_cells [OF wf] card_used_cells [of "v_disk_count vol" ?used] total
    by (simp add: card_Un_disjoint)
  then have "cells w = cells vol \<union> used_cells (v_disk_count vol) ?used"
    using sub card_cells [OF wf] card_cells [OF wfw] card_used_cells [of "v_disk_count vol" ?used]
    by (intro card_subset_eq) simp_all
  with wfw arrw pre split total that show ?thesis by (metis nth_map)
qed

section \<open>Properties\<close>

theorem normalize_ratios_correct:
  assumes "speeds \<noteq> []" "length speeds \<le> MAX_DISKS" "\<forall>s \<in> set speeds. s < 2 ^ 32"
  shows "\<exists>rs. stripe_volume_normalize_ratios speeds = Some (rs, sum_list rs) \<and>
    length rs = length speeds \<and> (\<forall>r \<in> set rs. 1 \<le> r \<and> r \<le> MAX_RATIO) \<and> Gcd (set rs) = 1 \<and>
    (\<forall>i < length rs. \<forall>j < length rs. speeds ! i \<le> speeds ! j \<longrightarrow> rs ! i \<le> rs ! j)"
  using normalize_facts [OF assms] by metis

theorem normalize_ratios_correct_witness:
  "\<exists>rs. stripe_volume_normalize_ratios [500, 100] = Some (rs, sum_list rs) \<and>
    length rs = length [500, 100 :: nat] \<and> Gcd (set rs) = 1"
proof -
  have "[500, 100 :: nat] \<noteq> []" "length [500, 100 :: nat] \<le> MAX_DISKS"
    "\<forall>s \<in> set [500, 100 :: nat]. s < 2 ^ 32" by (simp_all add: const)
  from normalize_ratios_correct [OF this] show ?thesis by blast
qed

lemma stripe_volume_create_layout:
  assumes "MIN_DISKS \<le> length disks" "length disks \<le> MAX_DISKS"
    and "0 < su" "su < 2 ^ 32" and "disks_ok heap disks"
  shows "\<exists>vol' used. stripe_volume_create heap now vol disks su = Inr (True, vol') \<and>
    wf_layout vol' \<and> c_arrays vol' \<and> v_disk_count vol' = length disks \<and> v_stripe_unit vol' = su \<and>
    length used = length disks \<and> v_virtual_total_bytes vol' = sum_list used \<and>
    cells vol' = used_cells 0 used \<and>
    (\<forall>d < length disks. used ! d \<le> d_pool_bytes (heap (disks ! d)) \<and>
       d_pool_bytes (heap (disks ! d)) < used ! d + call_ratios heap disks ! d * su)"
proof -
  let ?v0 = "zero_volume\<lparr>v_stripe_unit := su\<rparr>"
  have wf: "wf_layout ?v0" using assms(3,4) by (simp add: wf_layout_def zero_volume_def vstart_def)
  have arr: "c_arrays ?v0"
    by (simp add: c_arrays_def zero_volume_def phase_arrays_def zero_phase_def)
  have ne: "disks \<noteq> []" using assms(1) by (auto simp: const)
  define st where st: "st = phase_loop (v_disk_count ?v0) (v_stripe_unit ?v0) (start_layout heap ?v0 disks)"
  define vol' where vol': "vol' = zero_volume\<lparr>
             v_raid_level := RAID_LEVEL_STRIPE, v_disk_count := length disks, v_stripe_unit := su,
             v_disks := fill (map Some disks) (v_disks zero_volume),
             v_phases := l_phases st, v_phase_count := l_phase_count st,
             v_virtual_total_bytes := l_virt_offset st, v_start_time := now\<rparr>"
  have st2: "st = phase_loop 0 su \<lparr>l_phases = v_phases zero_volume, l_phase_count = 0, l_virt_offset = 0,
      l_remaining = zip [0 ..< length disks] (call_ratios heap disks),
      l_remaining_phys = map (\<lambda>d. d_pool_bytes (heap d)) disks, l_used_phys = map (\<lambda>_. 0) disks\<rparr>"
    by (simp add: st start_layout_def zero_volume_def)
  have "\<not> (length disks < MIN_DISKS \<or> MAX_DISKS < length disks)" "su \<noteq> 0" using assms(1-3) by auto
  then have eq: "stripe_volume_create heap now vol disks su = Inr (True, vol')"
    unfolding stripe_volume_create_def Let_def vol' st2 call_ratios_def by (simp only: if_False)
  have w: "v_stripe_unit vol' = v_stripe_unit ?v0" "v_disk_count vol' = v_disk_count ?v0 + length disks"
      "v_phases vol' = l_phases st" "v_phase_count vol' = l_phase_count st"
      "v_virtual_total_bytes vol' = l_virt_offset st"
    by (simp_all add: vol' zero_volume_def)
  have z: "v_phase_count ?v0 + length disks \<le> MAX_DISKS" "v_virtual_total_bytes ?v0 < 2 ^ 63"
    using assms(2) by (simp_all add: zero_volume_def)
  obtain used where "wf_layout vol'" "c_arrays vol'" "length used = length disks"
    "v_virtual_total_bytes vol' = v_virtual_total_bytes ?v0 + sum_list used"
    "cells vol' = cells ?v0 \<union> used_cells (v_disk_count ?v0) used"
    "\<forall>d < length disks. used ! d \<le> d_pool_bytes (heap (disks ! d)) \<and>
       d_pool_bytes (heap (disks ! d)) < used ! d + call_ratios heap disks ! d * v_stripe_unit ?v0"
    by (rule layout_run [OF wf arr assms(5) ne z st w])
  moreover have "cells ?v0 = {}" by (simp add: cells_def zero_volume_def)
  ultimately show ?thesis using eq w
    by (intro exI [of _ vol'] exI [of _ used]) (simp add: zero_volume_def)
qed

text \<open>
  C4. Creating a striped volume of two to four disks succeeds with a well-formed layout that
  covers exactly a prefix of each disk's pool: the prefix fits the pool, leaves less than one
  segment (ratio times stripe unit) unused, and the volume's size is the sum of the prefixes.
\<close>

theorem stripe_volume_create_correct:
  assumes "MIN_DISKS \<le> length disks" "length disks \<le> MAX_DISKS"
    and "0 < su" "su < 2 ^ 32" and "disks_ok heap disks"
  shows "\<exists>vol' used. stripe_volume_create heap now vol disks su = Inr (True, vol') \<and>
    wf_layout vol' \<and> c_arrays vol' \<and> v_disk_count vol' = length disks \<and> v_stripe_unit vol' = su \<and>
    length used = length disks \<and> v_virtual_total_bytes vol' = sum_list used \<and>
    cells vol' = used_cells 0 used \<and>
    (\<forall>d < length disks. used ! d \<le> d_pool_bytes (heap (disks ! d)) \<and>
       d_pool_bytes (heap (disks ! d)) < used ! d + call_ratios heap disks ! d * su)"
  by (rule stripe_volume_create_layout [OF assms])

definition demo_disk :: DISK_INFO where
  "demo_disk = zero_disk\<lparr>d_pool_bytes := 4096, d_write_speed_mbs := 200\<rparr>"

theorem stripe_volume_create_correct_witness:
  "\<exists>vol' used. stripe_volume_create (\<lambda>_. demo_disk) 0 zero_volume [0, 1] 512 = Inr (True, vol') \<and>
    wf_layout vol' \<and> v_disk_count vol' = length [0, 1 :: ptr] \<and> cells vol' = used_cells 0 used"
proof -
  have "disks_ok (\<lambda>_. demo_disk) [0, 1]"
    by (simp add: disks_ok_def demo_disk_def disk_speed_def zero_disk_def)
  moreover have "MIN_DISKS \<le> length [0, 1 :: ptr]" "length [0, 1 :: ptr] \<le> MAX_DISKS"
    "0 < (512 :: nat)" "(512 :: nat) < 2 ^ 32" by (simp_all add: const)
  ultimately show ?thesis
    using stripe_volume_create_correct [of "[0, 1]" 512 "\<lambda>_. demo_disk" 0 zero_volume] by blast
qed

lemma stripe_volume_expand_layout:
  assumes "wf_layout vol" "c_arrays vol" "v_virtual_total_bytes vol < 2 ^ 63"
    and "new_disks \<noteq> []" "v_disk_count vol + length new_disks \<le> MAX_DISKS"
      "v_phase_count vol + length new_disks \<le> MAX_DISKS" and "disks_ok heap new_disks"
  shows "\<exists>vol' used. stripe_volume_expand heap vol new_disks = Inr (True, vol') \<and>
    wf_layout vol' \<and> v_disk_count vol' = v_disk_count vol + length new_disks \<and>
    length used = length new_disks \<and>
    v_virtual_total_bytes vol' = v_virtual_total_bytes vol + sum_list used \<and>
    cells vol' = cells vol \<union> used_cells (v_disk_count vol) used \<and>
    (\<forall>vo < v_virtual_total_bytes vol. map_single_byte vol' vo = map_single_byte vol vo) \<and>
    (\<forall>d < length new_disks. used ! d \<le> d_pool_bytes (heap (new_disks ! d)) \<and>
       d_pool_bytes (heap (new_disks ! d))
         < used ! d + call_ratios heap new_disks ! d * v_stripe_unit vol)"
proof -
  note wf = assms(1)
  define st where st: "st = phase_loop (v_disk_count vol) (v_stripe_unit vol) (start_layout heap vol new_disks)"
  let ?n = "v_disk_count vol + length new_disks"
  define vol' where vol': "vol' = vol\<lparr>
             v_disks := take (v_disk_count vol) (v_disks vol) @ map Some new_disks @ drop ?n (v_disks vol),
             v_phases := l_phases st, v_phase_count := l_phase_count st, v_disk_count := ?n,
             v_virtual_total_bytes := l_virt_offset st\<rparr>"
  have eq: "stripe_volume_expand heap vol new_disks = Inr (True, vol')"
    using assms(4-6) wf_layout_su(1) [OF wf] st vol'
    by (simp add: stripe_volume_expand_def start_layout_def call_ratios_def Let_def)
  have w: "v_stripe_unit vol' = v_stripe_unit vol" "v_disk_count vol' = v_disk_count vol + length new_disks"
      "v_phases vol' = l_phases st" "v_phase_count vol' = l_phase_count st"
      "v_virtual_total_bytes vol' = l_virt_offset st"
    by (simp_all add: vol')
  obtain used where U: "wf_layout vol'" "c_arrays vol'" "v_phase_count vol \<le> v_phase_count vol'"
    "take (v_phase_count vol) (v_phases vol') = take (v_phase_count vol) (v_phases vol)"
    "length used = length new_disks"
    "v_virtual_total_bytes vol' = v_virtual_total_bytes vol + sum_list used"
    "cells vol' = cells vol \<union> used_cells (v_disk_count vol) used"
    "\<forall>d < length new_disks. used ! d \<le> d_pool_bytes (heap (new_disks ! d)) \<and>
       d_pool_bytes (heap (new_disks ! d)) < used ! d + call_ratios heap new_disks ! d * v_stripe_unit vol"
    by (rule layout_run [OF wf assms(2,7,4,6,3) st w])
  have "map_single_byte vol' vo = map_single_byte vol vo" if vo: "vo < v_virtual_total_bytes vol" for vo
  proof -
    obtain p j y where M: "maps_to vol vo p j y" using maps_to_exists [OF wf vo] by blast
    then have p: "p < v_phase_count vol" by (simp add: maps_to_def)
    then have ph: "v_phases vol' ! p = v_phases vol ! p" using U(4) by (metis nth_take)
    have "take q (v_phases vol') = take q (v_phases vol)" if "q \<le> v_phase_count vol" for q
      using that U(4) by (metis min.absorb1 take_take)
    then have "vstart vol' p = vstart vol p" "vstart vol' (Suc p) = vstart vol (Suc p)"
      using p by (simp_all add: vstart_def)
    then have "maps_to vol' vo p j y" using M U(3) ph w(1) by (simp add: maps_to_def)
    then show ?thesis
      using map_single_byte_maps_to [OF wf M] map_single_byte_maps_to [OF U(1)] ph
      by (simp add: place_addr_def)
  qed
  then show ?thesis using eq U w by (intro exI [of _ vol'] exI [of _ used]) simp
qed

text \<open>
  C18. Expanding a well-formed volume by new disks keeps the layout well formed, keeps the address
  of every byte the volume had, adds exactly a prefix of each new disk's pool, and grows the
  volume by the sum of those prefixes.
\<close>

theorem stripe_volume_expand_correct:
  assumes "wf_layout vol" "c_arrays vol" "v_virtual_total_bytes vol < 2 ^ 63"
    and "new_disks \<noteq> []" "v_disk_count vol + length new_disks \<le> MAX_DISKS"
      "v_phase_count vol + length new_disks \<le> MAX_DISKS" and "disks_ok heap new_disks"
  shows "\<exists>vol' used. stripe_volume_expand heap vol new_disks = Inr (True, vol') \<and>
    wf_layout vol' \<and> v_disk_count vol' = v_disk_count vol + length new_disks \<and>
    length used = length new_disks \<and>
    v_virtual_total_bytes vol' = v_virtual_total_bytes vol + sum_list used \<and>
    cells vol' = cells vol \<union> used_cells (v_disk_count vol) used \<and>
    (\<forall>vo < v_virtual_total_bytes vol. map_single_byte vol' vo = map_single_byte vol vo) \<and>
    (\<forall>d < length new_disks. used ! d \<le> d_pool_bytes (heap (new_disks ! d)) \<and>
       d_pool_bytes (heap (new_disks ! d))
         < used ! d + call_ratios heap new_disks ! d * v_stripe_unit vol)"
  by (rule stripe_volume_expand_layout [OF assms])

theorem stripe_volume_expand_correct_witness:
  "\<exists>vol' used. stripe_volume_expand (\<lambda>_. demo_disk) two_disks [2] = Inr (True, vol') \<and>
    wf_layout vol' \<and> cells vol' = cells two_disks \<union> used_cells 2 used \<and>
    (\<forall>vo < 2048. map_single_byte vol' vo = map_single_byte two_disks vo)"
proof -
  have "disks_ok (\<lambda>_. demo_disk) [2]"
    by (simp add: disks_ok_def demo_disk_def disk_speed_def zero_disk_def)
  moreover have "c_arrays two_disks"
    by (simp add: c_arrays_def two_disks_def zero_volume_def zero_phase_def phase_arrays_def const)
  ultimately show ?thesis
    using stripe_volume_expand_correct [OF wf_two_disks, of "[2]" "\<lambda>_. demo_disk"]
    by (simp add: two_disks_def const) blast
qed

end
