(* ===== verification/IoRing.thy ===== *)
theory IoRing
  imports StorageTypes
begin

text \<open>
  The request ring of a disk worker, \<^verbatim>\<open>ring_push\<close> and \<^verbatim>\<open>ring_pop\<close> of
  \<^verbatim>\<open>src/src/stripe_engine.c\<close>: 64 slots addressed by the low six bits of two free-running
  32-bit sequence numbers. The ring is a bounded first-in first-out queue at every pair of sequence
  numbers, also across their wrap-around. \<open>ring_pop\<close> hands out the slot, not the request: the
  last lemma group shows what that allows once the slot is free for the producers again.
\<close>

section \<open>The operations\<close>

definition IO_RING_SIZE :: nat where [const]: "IO_RING_SIZE = 64"

definition ring_slot :: "32 word \<Rightarrow> nat" where
  "ring_slot s = unat (s AND 63)"

text \<open>The comparison is one of signed 32-bit numbers. \<open>None\<close> is the result \<open>false\<close>.\<close>

definition ring_push :: "'r IO_RING \<Rightarrow> 'r \<Rightarrow> 'r IO_RING option" where
  "ring_push ring req =
     (let ws = rg_write_seq ring; rs = rg_read_seq ring in
      if sint (ws - rs) < 64
      then Some (ring\<lparr>rg_entries := (rg_entries ring)[ring_slot ws := req], rg_write_seq := ws + 1\<rparr>)
      else None)"

text \<open>The result is the address of a slot; the request is read through it later.\<close>

definition ring_pop :: "'r IO_RING \<Rightarrow> (nat \<times> 'r IO_RING) option" where
  "ring_pop ring =
     (let rs = rg_read_seq ring in
      if rg_write_seq ring = rs then None
      else Some (ring_slot rs, ring\<lparr>rg_read_seq := rs + 1\<rparr>))"

text \<open>Popping and reading the slot before anything else happens to the ring.\<close>

definition ring_take :: "'r IO_RING \<Rightarrow> ('r \<times> 'r IO_RING) option" where
  "ring_take ring = (case ring_pop ring of
     None \<Rightarrow> None | Some (slot, ring') \<Rightarrow> Some (rg_entries ring' ! slot, ring'))"

section \<open>The queue a ring holds\<close>

definition ring_inv :: "'r IO_RING \<Rightarrow> bool" where
  "ring_inv ring \<longleftrightarrow> length (rg_entries ring) = IO_RING_SIZE \<and>
     unat (rg_write_seq ring - rg_read_seq ring) \<le> IO_RING_SIZE"

definition ring_list :: "'r IO_RING \<Rightarrow> 'r list" where
  "ring_list ring = map (\<lambda>k. rg_entries ring ! ring_slot (rg_read_seq ring + of_nat k))
     [0 ..< unat (rg_write_seq ring - rg_read_seq ring)]"

lemma ring_slot_mod: "ring_slot s = unat s mod 64"
proof -
  have "(63 :: nat) = mask 6" by (simp add: mask_eq_exp_minus_1)
  then have "unat s AND 63 = take_bit 6 (unat s)" by (simp only: take_bit_eq_mask)
  then show ?thesis by (simp add: ring_slot_def unsigned_and_eq take_bit_eq_mod)
qed

lemma ring_slot_less [simp]: "ring_slot s < 64"
  by (simp add: ring_slot_mod)

lemma ring_slot_add: "ring_slot (s + of_nat k) = (ring_slot s + k) mod 64"
proof -
  have "unat (s + of_nat k) mod 64 = (unat s + unat (of_nat k :: 32 word)) mod 2 ^ 32 mod 64"
    by (simp add: unat_word_ariths)
  also have "\<dots> = (unat s + unat (of_nat k :: 32 word)) mod 64"
    by (rule mod_mod_cancel) simp
  also have "\<dots> = (unat s + k mod 2 ^ 32 mod 64) mod 64"
    by (simp add: unat_of_nat mod_add_right_eq)
  also have "k mod 2 ^ 32 mod 64 = k mod 64" by (rule mod_mod_cancel) simp
  finally show ?thesis by (simp add: ring_slot_mod mod_simps)
qed

lemma mod_add_inject: "(a + i) mod m = (a + j) mod m \<Longrightarrow> i \<le> j \<Longrightarrow> j < m \<Longrightarrow> i = (j :: nat)"
proof -
  assume eq: "(a + i) mod m = (a + j) mod m" and ij: "i \<le> j" "j < m"
  then have "m dvd (a + j) - (a + i)"
    using mod_eq_dvd_iff_nat [of "a + i" "a + j" m] by simp
  then have "m dvd j - i" by simp
  then show "i = j" using ij by (metis dvd_imp_le le_antisym less_imp_diff_less linorder_not_le zero_less_diff)
qed

lemma ring_slot_inject:
  "i < 64 \<Longrightarrow> j < 64 \<Longrightarrow> ring_slot (s + of_nat i) = ring_slot (s + of_nat j) \<longleftrightarrow> i = j"
  unfolding ring_slot_add
  using mod_add_inject [of "ring_slot s" i 64 j] mod_add_inject [of "ring_slot s" j 64 i]
  by (cases "i \<le> j") auto

lemma length_ring_list [simp]: "length (ring_list ring) = unat (rg_write_seq ring - rg_read_seq ring)"
  by (simp add: ring_list_def)

lemma sint_less_64:
  "unat (d :: 32 word) \<le> 64 \<Longrightarrow> sint d < 64 \<longleftrightarrow> unat d < 64"
proof -
  assume d: "unat d \<le> 64"
  then have "uint d \<le> 64" by (metis of_nat_le_iff of_nat_numeral uint_nat)
  moreover have "- (2 ^ 31) \<le> uint d" by (rule order_trans [OF _ uint_ge_0]) simp
  ultimately have "signed_take_bit 31 (uint d) = uint d"
    by (intro signed_take_bit_int_eq_self) simp_all
  then have "sint d = uint d" unfolding sint_uint by simp
  then have "sint d = int (unat d)" by (simp only: uint_nat)
  then show ?thesis by (simp only: of_nat_less_iff [of "unat d" 64, unfolded of_nat_numeral])
qed

lemma ring_push_full: "ring_inv ring \<Longrightarrow> length (ring_list ring) = IO_RING_SIZE \<Longrightarrow> ring_push ring x = None"
  by (simp add: ring_push_def ring_inv_def Let_def sint_less_64 IO_RING_SIZE_def)

lemma unat_Suc_diff: "unat (w - r) < 64 \<Longrightarrow> unat (w + 1 - r) = Suc (unat (w - r :: 32 word))"
proof -
  assume "unat (w - r) < 64"
  then have "unat (w - r) + 1 < 2 ^ LENGTH(32)" by simp
  then have "unat ((w - r) + 1) = unat (w - r) + unat (1 :: 32 word)"
    by (subst unat_add_lem [symmetric]) simp
  moreover have "w + 1 - r = (w - r) + 1" by simp
  ultimately show ?thesis by (simp only: unat_1 One_nat_def add_Suc_right add_0_right)
qed

lemma ring_push_ok:
  assumes inv: "ring_inv ring" and room: "length (ring_list ring) < IO_RING_SIZE"
  shows "\<exists>ring'. ring_push ring x = Some ring' \<and> ring_inv ring' \<and> ring_list ring' = ring_list ring @ [x]"
proof -
  let ?ws = "rg_write_seq ring" and ?rs = "rg_read_seq ring"
  let ?n = "unat (?ws - ?rs)"
  let ?r = "ring\<lparr>rg_entries := (rg_entries ring)[ring_slot ?ws := x], rg_write_seq := ?ws + 1\<rparr>"
  have n: "?n < 64" and len: "length (rg_entries ring) = 64"
    using inv room by (simp_all add: ring_inv_def IO_RING_SIZE_def)
  have push: "ring_push ring x = Some ?r"
    using n by (simp add: ring_push_def Let_def sint_less_64)
  have n': "unat (?ws + 1 - ?rs) = Suc ?n" by (rule unat_Suc_diff [OF n])
  have ws: "?ws = ?rs + of_nat ?n" by simp
  have "rg_entries ?r ! ring_slot (?rs + of_nat k) = (ring_list ring @ [x]) ! k" if k: "k < Suc ?n" for k
  proof (cases "k = ?n")
    case True
    then have "?rs + of_nat k = ?ws" by simp
    then show ?thesis using True len by (simp add: nth_append)
  next
    case False
    then have kn: "k < ?n" using k by simp
    then have "ring_slot (?rs + of_nat k) \<noteq> ring_slot (?rs + of_nat ?n)"
      using n by (subst ring_slot_inject) auto
    then have "ring_slot (?rs + of_nat k) \<noteq> ring_slot ?ws" by simp
    then show ?thesis using kn by (simp add: nth_append ring_list_def)
  qed
  then have "ring_list ?r = ring_list ring @ [x]"
    using n' by (intro nth_equalityI) (simp_all add: ring_list_def [of ?r] del: upt_Suc)
  moreover have "ring_inv ?r" using n n' len by (simp add: ring_inv_def IO_RING_SIZE_def)
  ultimately show ?thesis using push by blast
qed

lemma ring_take_empty: "ring_list ring = [] \<Longrightarrow> ring_take ring = None"
  by (simp add: ring_take_def ring_pop_def ring_list_def Let_def unat_eq_0)

lemma unat_pred_diff: "unat (w - r) = Suc n \<Longrightarrow> unat (w - (r + 1) :: 32 word) = n"
proof -
  assume n: "unat (w - r) = Suc n"
  have "w - (r + 1) = (w - r) - 1" by simp
  moreover have "unat ((w - r) - 1) = unat (w - r) - 1"
    using n by (intro unat_minus_one) auto
  ultimately show ?thesis by (simp only: n diff_Suc_1)
qed

lemma ring_take_ok:
  assumes inv: "ring_inv ring" and q: "ring_list ring = x # xs"
  shows "\<exists>ring'. ring_take ring = Some (x, ring') \<and> ring_inv ring' \<and> ring_list ring' = xs"
proof -
  let ?ws = "rg_write_seq ring" and ?rs = "rg_read_seq ring"
  let ?r = "ring\<lparr>rg_read_seq := ?rs + 1\<rparr>"
  have n: "unat (?ws - ?rs) = Suc (length xs)" using q length_ring_list [of ring] by simp
  then have ne: "?ws \<noteq> ?rs" by auto
  have n': "unat (?ws - (?rs + 1)) = length xs" by (rule unat_pred_diff [OF n])
  have "ring_list ring ! 0 = x" using q by simp
  then have x: "rg_entries ring ! ring_slot ?rs = x" using n by (simp add: ring_list_def nth_append del: upt_Suc)
  have "ring_list ?r = xs"
  proof (rule nth_equalityI)
    show "length (ring_list ?r) = length xs" using n' by simp
    fix k assume "k < length (ring_list ?r)"
    then have k: "k < length xs" using n' by simp
    have shift: "?rs + 1 + of_nat k = ?rs + of_nat (Suc k)" by simp
    have "ring_list ?r ! k = rg_entries ring ! ring_slot (?rs + 1 + of_nat k)"
      using k n' by (simp add: ring_list_def)
    also have "\<dots> = ring_list ring ! Suc k"
      unfolding shift using k n by (simp add: ring_list_def del: upt_Suc of_nat_Suc)
    finally have "ring_list ?r ! k = ring_list ring ! Suc k" .
    then show "ring_list ?r ! k = xs ! k" using q by simp
  qed
  moreover have "ring_inv ?r" using inv n n' by (simp add: ring_inv_def)
  moreover have "ring_take ring = Some (x, ?r)"
    using ne x by (simp add: ring_take_def ring_pop_def Let_def)
  ultimately show ?thesis by blast
qed


section \<open>The contract of a bounded queue\<close>

datatype 'a queue_op = Push 'a | Pop

datatype 'a queue_out = Pushed bool | Popped "'a option"

text \<open>The observations of a sequence of operations on any queue.\<close>

fun run_ops :: "('q \<Rightarrow> 'a \<Rightarrow> 'q option) \<Rightarrow> ('q \<Rightarrow> ('a \<times> 'q) option) \<Rightarrow> 'q \<Rightarrow> 'a queue_op list
    \<Rightarrow> 'a queue_out list" where
  "run_ops push pop q [] = []"
| "run_ops push pop q (Push x # ops) =
     (case push q x of
        None \<Rightarrow> Pushed False # run_ops push pop q ops
      | Some q' \<Rightarrow> Pushed True # run_ops push pop q' ops)"
| "run_ops push pop q (Pop # ops) =
     (case pop q of
        None \<Rightarrow> Popped None # run_ops push pop q ops
      | Some (x, q') \<Rightarrow> Popped (Some x) # run_ops push pop q' ops)"

text \<open>The specification: a list with a capacity.\<close>

definition list_push :: "nat \<Rightarrow> 'a list \<Rightarrow> 'a \<Rightarrow> 'a list option" where
  "list_push cap xs x = (if length xs < cap then Some (xs @ [x]) else None)"

definition list_pop :: "'a list \<Rightarrow> ('a \<times> 'a list) option" where
  "list_pop xs = (case xs of [] \<Rightarrow> None | x # r \<Rightarrow> Some (x, r))"

locale bounded_queue =
  fixes push :: "'q \<Rightarrow> 'a \<Rightarrow> 'q option"
    and pop :: "'q \<Rightarrow> ('a \<times> 'q) option"
    and contents :: "'q \<Rightarrow> 'a list"
    and ok :: "'q \<Rightarrow> bool"
    and cap :: nat
  assumes push_full: "ok q \<Longrightarrow> length (contents q) = cap \<Longrightarrow> push q x = None"
    and push_room: "ok q \<Longrightarrow> length (contents q) < cap \<Longrightarrow>
      \<exists>q'. push q x = Some q' \<and> ok q' \<and> contents q' = contents q @ [x]"
    and pop_empty: "ok q \<Longrightarrow> contents q = [] \<Longrightarrow> pop q = None"
    and pop_some: "ok q \<Longrightarrow> contents q = x # xs \<Longrightarrow>
      \<exists>q'. pop q = Some (x, q') \<and> ok q' \<and> contents q' = xs"
    and bounded: "ok q \<Longrightarrow> length (contents q) \<le> cap"
begin

lemma push_cases:
  assumes "ok q"
  obtains "push q x = None" "list_push cap (contents q) x = None"
  | q' where "push q x = Some q'" "ok q'" "list_push cap (contents q) x = Some (contents q')"
proof (cases "length (contents q) < cap")
  case True
  then show ?thesis using push_room [OF assms True, of x] that(2) by (auto simp: list_push_def)
next
  case False
  then have "length (contents q) = cap" using bounded [OF assms] by simp
  then show ?thesis using push_full [OF assms] that(1) by (simp add: list_push_def)
qed

lemma pop_cases:
  assumes "ok q"
  obtains "pop q = None" "list_pop (contents q) = None"
  | x q' where "pop q = Some (x, q')" "ok q'" "list_pop (contents q) = Some (x, contents q')"
proof (cases "contents q")
  case Nil
  then show ?thesis using pop_empty [OF assms] that(1) by (simp add: list_pop_def)
next
  case (Cons x xs)
  then show ?thesis using pop_some [OF assms Cons] that(2) by (auto simp: list_pop_def)
qed

lemma refines_list:
  "ok q \<Longrightarrow> run_ops push pop q ops = run_ops (list_push cap) list_pop (contents q) ops"
proof (induction ops arbitrary: q)
  case (Cons opn ops)
  show ?case
  proof (cases opn)
    case (Push x)
    from Cons.prems show ?thesis
      by (rule push_cases [where x = x]) (use Push Cons.IH Cons.prems in \<open>simp_all\<close>)
  next
    case Pop
    from Cons.prems show ?thesis
      by (rule pop_cases) (use Pop Cons.IH Cons.prems in \<open>simp_all\<close>)
  qed
qed simp

lemma push_list:
  "ok q \<Longrightarrow> length (contents q) + length xs \<le> cap \<Longrightarrow>
   \<exists>q'. foldl (\<lambda>o' x. Option.bind o' (\<lambda>r. push r x)) (Some q) xs = Some q' \<and> ok q' \<and> contents q' = contents q @ xs"
proof (induction xs arbitrary: q)
  case (Cons x xs)
  then obtain q1 where q1: "push q x = Some q1" "ok q1" "contents q1 = contents q @ [x]"
    using push_room [of q x] by auto
  then have "length (contents q1) + length xs \<le> cap" using Cons.prems(2) by simp
  from Cons.IH [OF q1(2) this] show ?case using q1 by auto
qed auto

end

interpretation ring: bounded_queue ring_push ring_take ring_list ring_inv IO_RING_SIZE
proof
  fix q :: "'r IO_RING" and x xs
  assume inv: "ring_inv q"
  show "length (ring_list q) = IO_RING_SIZE \<Longrightarrow> ring_push q x = None"
    by (rule ring_push_full [OF inv])
  show "length (ring_list q) < IO_RING_SIZE \<Longrightarrow>
      \<exists>q'. ring_push q x = Some q' \<and> ring_inv q' \<and> ring_list q' = ring_list q @ [x]"
    by (rule ring_push_ok [OF inv])
  show "ring_list q = [] \<Longrightarrow> ring_take q = None" by (rule ring_take_empty)
  show "ring_list q = x # xs \<Longrightarrow> \<exists>q'. ring_take q = Some (x, q') \<and> ring_inv q' \<and> ring_list q' = xs"
    by (rule ring_take_ok [OF inv])
  show "length (ring_list q) \<le> IO_RING_SIZE" using inv by (simp add: ring_inv_def)
qed

section \<open>Properties\<close>

text \<open>A ring whose sequence numbers are about to wrap, for the witnesses.\<close>

definition wrapping_ring :: "nat IO_RING" where
  "wrapping_ring = \<lparr>rg_entries = replicate 64 0, rg_write_seq = - 1, rg_read_seq = - 1\<rparr>"

text \<open>
  C31. Any sequence of pushes and pops of the request ring, indices wrapping at 32 bits, answers
  as a queue bounded at the ring's size.
\<close>

theorem ring_is_bounded_fifo:
  assumes "ring_inv ring"
  shows "run_ops ring_push ring_take ring ops =
         run_ops (list_push IO_RING_SIZE) list_pop (ring_list ring) ops"
  using assms by (rule ring.refines_list)

lemma wrapping_ring_facts: "ring_inv wrapping_ring" "ring_list wrapping_ring = []"
  by (simp_all add: ring_inv_def wrapping_ring_def const ring_list_def)

theorem ring_is_bounded_fifo_witness:
  "run_ops ring_push ring_take wrapping_ring [Push 7, Push 8, Pop, Pop, Pop] =
   [Pushed True, Pushed True, Popped (Some 7), Popped (Some 8), Popped None]"
  unfolding ring_is_bounded_fifo [OF wrapping_ring_facts(1)] wrapping_ring_facts(2)
  by (simp add: list_push_def list_pop_def const)

theorem ring_pop_slot_reused:
  assumes "ring_inv ring" "length (ring_list ring) = IO_RING_SIZE"
    and "ring_pop ring = Some (slot, ring1)" "ring_push ring1 x = Some ring2"
  shows "rg_entries ring2 ! slot = x"
proof -
  let ?ws = "rg_write_seq ring" and ?rs = "rg_read_seq ring"
  have n: "unat (?ws - ?rs) = 64" using assms(2) by (simp add: const)
  have "?ws = ?rs + of_nat (unat (?ws - ?rs))" by simp
  then have "?ws = ?rs + of_nat 64" unfolding n .
  then have "ring_slot ?ws = (ring_slot ?rs + 64) mod 64" using ring_slot_add [of ?rs 64] by simp
  then have s: "ring_slot ?ws = ring_slot ?rs" by simp
  have ne: "?ws \<noteq> ?rs" using n by auto
  then have p: "slot = ring_slot ?rs" "ring1 = ring\<lparr>rg_read_seq := ?rs + 1\<rparr>"
    using assms(3) by (auto simp: ring_pop_def Let_def)
  then have "rg_entries ring2 = (rg_entries ring)[ring_slot ?ws := x]"
    using assms(4) by (auto simp: ring_push_def Let_def split: if_splits)
  then show ?thesis using assms(1) s p by (simp add: ring_inv_def const)
qed

end
