(* ===== verification/Workers.thy ===== *)
theory Workers
  imports IoRing AddressMap
begin

text \<open>
  The disk workers of a striped volume, \<^verbatim>\<open>src/src/stripe_engine.c\<close>: one iteration of
  \<^verbatim>\<open>disk_worker_thread\<close>, starting and stopping the workers, and \<^verbatim>\<open>submit_entries\<close>, which
  hands the entries of a mapped request to the workers and waits for them.

  \<open>submit_entries\<close> is given for the schedule in which a worker serves its request before the next
  one is pushed. Requests of different entries touch different bytes, so other schedules differ
  only in the order of the calls.
\<close>

section \<open>Serving a request\<close>

definition complete :: "IO_COMPLETION \<Rightarrow> IO_COMPLETION" where
  "complete cp = cp\<lparr>cp_pending := cp_pending cp - 1,
     cp_event := cp_event cp \<or> cp_pending cp - 1 = 0\<rparr>"

definition mark_faulty :: "ptr \<Rightarrow> sys \<Rightarrow> sys" where
  "mark_faulty d s = s\<lparr>s_heap := (s_heap s)(d := (s_heap s d)\<lparr>d_faulty := 1, d_healthy := 0\<rparr>)\<rparr>"

text \<open>
  One request: the overlapped call, the wait for it, and the completion. The number of bytes
  transferred is not looked at.
\<close>

definition serve :: "os \<Rightarrow> ptr \<Rightarrow> IO_REQUEST \<Rightarrow> mem \<times> IO_COMPLETION \<times> sys \<Rightarrow> mem \<times> IO_COMPLETION \<times> sys" where
  "serve os d req st = (case st of (buf, cp, s) \<Rightarrow>
     let h = d_handle (s_heap s d) in
     case rq_op req of
       IO_OP_WRITE \<Rightarrow>
         let (ok, k, s1) = dev_write os h (rq_physical_offset req)
               (read_bytes buf (rq_buffer req) (rq_length req)) s
         in if ok then (buf, complete cp, s1)
            else (buf, complete (cp\<lparr>cp_error := True\<rparr>), mark_faulty d s1)
     | IO_OP_READ \<Rightarrow>
         let (ok, bs, s1) = dev_read os h (rq_physical_offset req) (rq_length req) s;
             buf1 = write_bytes buf (rq_buffer req) bs
         in if ok then (buf1, complete cp, s1)
            else (buf1, complete (cp\<lparr>cp_error := True\<rparr>), mark_faulty d s1))"

text \<open>An iteration of the worker's loop.\<close>

definition worker_turn :: "os \<Rightarrow> DISK_WORKER \<Rightarrow> mem \<times> IO_COMPLETION \<times> sys
    \<Rightarrow> fault + DISK_WORKER \<times> mem \<times> IO_COMPLETION \<times> sys" where
  "worker_turn os w st = (case ring_take (wk_ring w) of
     None \<Rightarrow> Inr (w, st)
   | Some (req, ring') \<Rightarrow> (case wk_disk w of
       None \<Rightarrow> Inl NullDeref
     | Some d \<Rightarrow> Inr (w\<lparr>wk_ring := ring'\<rparr>, serve os d req st)))"

section \<open>Starting and stopping\<close>

definition fresh_worker :: "ptr option \<Rightarrow> nat \<Rightarrow> DISK_WORKER" where
  "fresh_worker d i = \<lparr>wk_disk = d,
     wk_ring = \<lparr>rg_entries = replicate IO_RING_SIZE zero_request, rg_write_seq = 0, rg_read_seq = 0\<rparr>,
     wk_stop = False, wk_disk_index = i\<rparr>"

text \<open>
  Two events and a thread for each disk. When one cannot be had the workers started so far are
  stopped and released.
\<close>

fun start_workers :: "os \<Rightarrow> ptr option list \<Rightarrow> nat \<Rightarrow> nat \<Rightarrow> sys \<Rightarrow> DISK_WORKER list option \<times> sys" where
  "start_workers os disks i 0 s = (Some [], s)"
| "start_workers os disks i (Suc n) s =
     (let wake_ok = sys_ok os s; s1 = tick s;
          io_ok = sys_ok os s1; s2 = tick s1;
          thread_ok = sys_ok os s2; s3 = tick s2
      in if \<not> wake_ok \<or> \<not> io_ok then (None, s2)
         else if \<not> thread_ok then (None, s3)
         else (case start_workers os disks (Suc i) n s3 of
                 (None, s') \<Rightarrow> (None, s')
               | (Some ws, s') \<Rightarrow> (Some (fresh_worker (disks ! i) i # ws), s')))"

definition stripe_volume_workers_init :: "os \<Rightarrow> STRIPE_VOLUME \<Rightarrow> sys \<Rightarrow> fault + bool \<times> STRIPE_VOLUME \<times> sys" where
  "stripe_volume_workers_init os vol s =
     (if v_disk_count vol = 0 then Inr (False, vol, s)
      else if \<not> sys_ok os s then Inr (False, vol, tick s)
      else if length (v_disks vol) < v_disk_count vol then Inl OutOfBounds
      else case start_workers os (v_disks vol) 0 (v_disk_count vol) (tick s) of
             (None, s') \<Rightarrow> Inr (False, vol, s')
           | (Some ws, s') \<Rightarrow> Inr (True, vol\<lparr>v_worker_state := Some ws\<rparr>, s'))"

definition stripe_volume_workers_stop :: "STRIPE_VOLUME \<Rightarrow> fault + STRIPE_VOLUME" where
  "stripe_volume_workers_stop vol = (case v_worker_state vol of
     None \<Rightarrow> Inr vol
   | Some ws \<Rightarrow> if length ws < v_disk_count vol then Inl OutOfBounds
                else Inr (vol\<lparr>v_worker_state := None\<rparr>))"

text \<open>The handles of the volume's disks are closed.\<close>

fun close_disks :: "ptr option list \<Rightarrow> (ptr \<Rightarrow> DISK_INFO) \<Rightarrow> fault + (ptr \<Rightarrow> DISK_INFO)" where
  "close_disks [] heap = Inr heap"
| "close_disks (None # ds) heap = Inl NullDeref"
| "close_disks (Some d # ds) heap = close_disks ds (heap(d := (heap d)\<lparr>d_handle := INVALID_HANDLE_VALUE\<rparr>))"

definition stripe_volume_destroy :: "STRIPE_VOLUME \<Rightarrow> sys \<Rightarrow> fault + STRIPE_VOLUME \<times> sys" where
  "stripe_volume_destroy vol s =
     (case stripe_volume_workers_stop vol of
        Inl f \<Rightarrow> Inl f
      | Inr vol' \<Rightarrow>
          if length (v_disks vol) < v_disk_count vol then Inl OutOfBounds
          else (case close_disks (take (v_disk_count vol) (v_disks vol)) (s_heap s) of
                  Inl f \<Rightarrow> Inl f
                | Inr heap \<Rightarrow> Inr (vol', s\<lparr>s_heap := heap\<rparr>)))"

section \<open>Submitting the entries of a request\<close>

record SUBMIT_ENTRY =
  se_buffer_offset :: nat
  se_disk_index :: nat
  se_physical_offset :: nat
  se_length :: nat

text \<open>The buffer offsets are cumulative.\<close>

fun prepare :: "nat \<Rightarrow> IO_MAPPING_ENTRY list \<Rightarrow> SUBMIT_ENTRY list" where
  "prepare acc [] = []"
| "prepare acc (e # es) =
     \<lparr>se_buffer_offset = acc, se_disk_index = e_disk_index e,
      se_physical_offset = e_physical_offset e, se_length = e_length_bytes e\<rparr>
     # prepare (u64 (acc + e_length_bytes e)) es"

definition request_of :: "IO_OP_TYPE \<Rightarrow> SUBMIT_ENTRY \<Rightarrow> IO_REQUEST" where
  "request_of opn se = \<lparr>rq_op = opn, rq_buffer = se_buffer_offset se,
     rq_physical_offset = se_physical_offset se, rq_length = se_length se, rq_completion = 0\<rparr>"

text \<open>
  One entry. An index past the disk count counts the entry as done without setting the event; a
  worker that has stopped never serves its ring.
\<close>

definition submit_one :: "os \<Rightarrow> nat \<Rightarrow> IO_OP_TYPE \<Rightarrow> SUBMIT_ENTRY
    \<Rightarrow> DISK_WORKER list \<times> mem \<times> IO_COMPLETION \<times> sys
    \<Rightarrow> fault + DISK_WORKER list \<times> mem \<times> IO_COMPLETION \<times> sys" where
  "submit_one os disk_count opn se st = (case st of (arr, buf, cp, s) \<Rightarrow>
     let di = se_disk_index se in
     if disk_count \<le> di
     then Inr (arr, buf, cp\<lparr>cp_error := True, cp_pending := cp_pending cp - 1\<rparr>, s)
     else if length arr \<le> di then Inl OutOfBounds
     else if wk_stop (arr ! di) then Inl Deadlock
     else (case ring_push (wk_ring (arr ! di)) (request_of opn se) of
             None \<Rightarrow> Inl Deadlock
           | Some ring' \<Rightarrow>
               (case worker_turn os ((arr ! di)\<lparr>wk_ring := ring'\<rparr>) (buf, cp, s) of
                  Inl f \<Rightarrow> Inl f
                | Inr (w, st') \<Rightarrow> Inr (arr[di := w], st'))))"

fun submit_all :: "os \<Rightarrow> nat \<Rightarrow> IO_OP_TYPE \<Rightarrow> SUBMIT_ENTRY list
    \<Rightarrow> DISK_WORKER list \<times> mem \<times> IO_COMPLETION \<times> sys
    \<Rightarrow> fault + DISK_WORKER list \<times> mem \<times> IO_COMPLETION \<times> sys" where
  "submit_all os disk_count opn [] st = Inr st"
| "submit_all os disk_count opn (se # ses) st =
     (case submit_one os disk_count opn se st of
        Inl f \<Rightarrow> Inl f
      | Inr st' \<Rightarrow> submit_all os disk_count opn ses st')"

text \<open>
  The local array has \<open>IO_RING_SIZE\<close> places, one per entry. The caller waits for the event
  without a time limit. The result carries the volume, whose rings have moved on, and the buffer.
\<close>

definition submit_entries :: "os \<Rightarrow> STRIPE_VOLUME \<Rightarrow> IO_MAPPING_ENTRY list \<Rightarrow> mem \<Rightarrow> IO_OP_TYPE \<Rightarrow> sys
    \<Rightarrow> fault + bool \<times> STRIPE_VOLUME \<times> mem \<times> sys" where
  "submit_entries os vol entries buf opn s =
     (if entries = [] then Inr (True, vol, buf, s)
      else case v_worker_state vol of
        None \<Rightarrow> Inr (False, vol, buf, s)
      | Some arr \<Rightarrow>
          if \<not> sys_ok os s then Inr (False, vol, buf, tick s)
          else if IO_RING_SIZE < length entries then Inl BufferOverflow
          else
            (case submit_all os (v_disk_count vol) opn (prepare 0 entries)
                    (arr, buf, \<lparr>cp_pending = int (length entries), cp_error = False, cp_event = False\<rparr>, tick s) of
               Inl f \<Rightarrow> Inl f
             | Inr (arr', buf', cp, s') \<Rightarrow>
                 if cp_event cp
                 then Inr (\<not> cp_error cp, vol\<lparr>v_worker_state := Some arr'\<rparr>, buf', s')
                 else Inl Deadlock))"

section \<open>Workers ready to serve\<close>

definition worker_idle :: "ptr option \<Rightarrow> DISK_WORKER \<Rightarrow> bool" where
  "worker_idle d w \<longleftrightarrow> wk_disk w = d \<and> \<not> wk_stop w \<and> ring_inv (wk_ring w) \<and> ring_list (wk_ring w) = []"

definition workers_idle :: "STRIPE_VOLUME \<Rightarrow> DISK_WORKER list \<Rightarrow> bool" where
  "workers_idle vol ws \<longleftrightarrow> length ws = v_disk_count vol \<and>
     (\<forall>i < v_disk_count vol. worker_idle (v_disks vol ! i) (ws ! i))"

text \<open>Every disk of the volume is open on a file of its own.\<close>

definition disk_path :: "STRIPE_VOLUME \<Rightarrow> sys \<Rightarrow> nat \<Rightarrow> string" where
  "disk_path vol s i = (case d_handle (s_heap s (vdisk vol i)) of FILE_HANDLE p \<Rightarrow> p | _ \<Rightarrow> [])"

definition disks_open :: "STRIPE_VOLUME \<Rightarrow> sys \<Rightarrow> bool" where
  "disks_open vol s \<longleftrightarrow> CHECK_DISKS vol \<and>
     (\<forall>i < v_disk_count vol. d_handle (s_heap s (vdisk vol i)) = FILE_HANDLE (disk_path vol s i)) \<and>
     (\<forall>i < v_disk_count vol. \<forall>j < v_disk_count vol. disk_path vol s i = disk_path vol s j \<longrightarrow> i = j)"

definition workers_ready :: "STRIPE_VOLUME \<Rightarrow> sys \<Rightarrow> bool" where
  "workers_ready vol s \<longleftrightarrow> disks_open vol s \<and>
     (case v_worker_state vol of None \<Rightarrow> False | Some ws \<Rightarrow> workers_idle vol ws)"

text \<open>The byte in a cell of a disk.\<close>

definition disk_byte :: "STRIPE_VOLUME \<Rightarrow> sys \<Rightarrow> nat \<times> nat \<Rightarrow> byte" where
  "disk_byte vol s c = w_media s (disk_path vol s (fst c)) (snd c)"

lemma start_workers_good:
  "all_good os \<Longrightarrow> \<exists>ws s'. start_workers os disks i n s = (Some ws, s') \<and> length ws = n \<and>
     (\<forall>k < n. ws ! k = fresh_worker (disks ! (i + k)) (i + k)) \<and>
     w_media s' = w_media s \<and> s_heap s' = s_heap s \<and> w_files s' = w_files s"
proof (induction n arbitrary: i s)
  case (Suc n)
  obtain ws s' where "start_workers os disks (Suc i) n (tick (tick (tick s))) = (Some ws, s')"
    "length ws = n" "\<forall>k < n. ws ! k = fresh_worker (disks ! (Suc i + k)) (Suc i + k)"
    "w_media s' = w_media s" "s_heap s' = s_heap s" "w_files s' = w_files s"
    using Suc.IH [OF Suc.prems, of "Suc i" "tick (tick (tick s))"] by (auto simp: tick_def)
  then show ?case using Suc.prems
    by (auto simp: Let_def nth_Cons split: nat.splits)
qed simp

lemma fresh_worker_idle: "worker_idle d (fresh_worker d i)"
  by (simp add: worker_idle_def fresh_worker_def ring_inv_def ring_list_def)


section \<open>What a submission does\<close>

lemma complete_power:
  "cp_error ((complete ^^ n) cp) = cp_error cp"
  "cp_pending ((complete ^^ n) cp) = cp_pending cp - int n"
  by (induction n) (simp_all add: complete_def)

lemma complete_event: "0 < n \<Longrightarrow> cp_pending cp = int n \<Longrightarrow> cp_event ((complete ^^ n) cp)"
  by (cases n) (simp_all add: complete_def complete_power)

lemma push_take_idle:
  assumes "worker_idle d w"
  shows "\<exists>r1 r2. ring_push (wk_ring w) x = Some r1 \<and> ring_take r1 = Some (x, r2) \<and>
    worker_idle d (w\<lparr>wk_ring := r2\<rparr>)"
proof -
  have w: "ring_inv (wk_ring w)" "ring_list (wk_ring w) = []" using assms by (simp_all add: worker_idle_def)
  have "length (ring_list (wk_ring w)) < IO_RING_SIZE" unfolding w(2) by (simp add: const)
  from ring.push_room [OF w(1) this, of x] obtain r1
    where r1: "ring_push (wk_ring w) x = Some r1" "ring_inv r1" "ring_list r1 = [] @ [x]"
    unfolding w(2) by blast
  then have "ring_list r1 = x # []" by simp
  from ring.pop_some [OF r1(2) this] obtain r2
    where "ring_take r1 = Some (x, r2)" "ring_inv r2" "ring_list r2 = []" by blast
  with assms r1(1) show ?thesis by (intro exI [of _ r1] exI [of _ r2]) (simp add: worker_idle_def)
qed

lemma workers_idle_update:
  "workers_idle vol ws \<Longrightarrow> i < v_disk_count vol \<Longrightarrow> worker_idle (v_disks vol ! i) w \<Longrightarrow>
   workers_idle vol (ws[i := w])"
  by (auto simp: workers_idle_def nth_list_update)

lemma submit_one_serves:
  assumes open': "disks_open vol s" and idle: "workers_idle vol arr"
    and di: "se_disk_index se < v_disk_count vol"
  shows "\<exists>arr'. submit_one os (v_disk_count vol) opn se (arr, buf, cp, s) =
      Inr (arr', serve os (vdisk vol (se_disk_index se)) (request_of opn se) (buf, cp, s)) \<and>
    workers_idle vol arr'"
proof -
  let ?d = "se_disk_index se" and ?r = "request_of opn se"
  have dsk: "v_disks vol ! ?d = Some (vdisk vol ?d)"
    using open' di by (intro CHECK_DISKS_vdisk) (simp_all add: disks_open_def)
  have w: "worker_idle (Some (vdisk vol ?d)) (arr ! ?d)" and len: "length arr = v_disk_count vol"
    using idle di dsk by (auto simp: workers_idle_def)
  obtain r1 r2 where R: "ring_push (wk_ring (arr ! ?d)) ?r = Some r1" "ring_take r1 = Some (?r, r2)"
    "worker_idle (Some (vdisk vol ?d)) ((arr ! ?d)\<lparr>wk_ring := r2\<rparr>)"
    using push_take_idle [OF w] by blast
  have "submit_one os (v_disk_count vol) opn se (arr, buf, cp, s) =
      Inr (arr[?d := (arr ! ?d)\<lparr>wk_ring := r2\<rparr>], serve os (vdisk vol ?d) ?r (buf, cp, s))"
    using di len w R by (simp add: submit_one_def worker_turn_def worker_idle_def Let_def)
  then show ?thesis using workers_idle_update [OF idle di] R(3) dsk by auto
qed

lemma disks_open_heap:
  "disks_open vol s \<Longrightarrow> s_heap s' = s_heap s \<Longrightarrow> disks_open vol s'"
  by (simp add: disks_open_def disk_path_def)

lemma disk_path_heap: "s_heap s' = s_heap s \<Longrightarrow> disk_path vol s' i = disk_path vol s i"
  by (simp add: disk_path_def)

lemma open_handle:
  "disks_open vol s \<Longrightarrow> i < v_disk_count vol \<Longrightarrow>
   d_handle (s_heap s (vdisk vol i)) = FILE_HANDLE (disk_path vol s i)"
  by (simp add: disks_open_def)

lemma expand_Cons: "expand (e # es) = expand_entry e @ expand es"
  by (simp add: expand_def)

lemma length_expand_entry [simp]: "length (expand_entry e) = e_length_bytes e"
  by (simp add: expand_entry_def)

text \<open>A write of one entry.\<close>

definition entry_written :: "STRIPE_VOLUME \<Rightarrow> IO_MAPPING_ENTRY \<Rightarrow> byte list \<Rightarrow> sys \<Rightarrow> sys" where
  "entry_written vol e bs s = (tick s)\<lparr>w_media := (w_media s)
     (disk_path vol s (e_disk_index e) :=
        write_bytes (w_media s (disk_path vol s (e_disk_index e))) (e_physical_offset e) bs)\<rparr>"

lemma entry_written_bytes:
  assumes "disks_open vol s" "e_disk_index e < v_disk_count vol" "length bs = e_length_bytes e"
  shows "k < e_length_bytes e \<Longrightarrow> disk_byte vol (entry_written vol e bs s) (expand_entry e ! k) = bs ! k"
    "fst c < v_disk_count vol \<Longrightarrow> c \<notin> set (expand_entry e) \<Longrightarrow>
      disk_byte vol (entry_written vol e bs s) c = disk_byte vol s c"
    "s_heap (entry_written vol e bs s) = s_heap s" "w_files (entry_written vol e bs s) = w_files s"
proof -
  show h: "s_heap (entry_written vol e bs s) = s_heap s" "w_files (entry_written vol e bs s) = w_files s"
    by (simp_all add: entry_written_def tick_def)
  note p = disk_path_heap [OF h(1), of vol]
  show "k < e_length_bytes e \<Longrightarrow> disk_byte vol (entry_written vol e bs s) (expand_entry e ! k) = bs ! k"
    using assms(3) by (simp add: disk_byte_def expand_entry_def p) (simp add: entry_written_def mem)
  assume c: "fst c < v_disk_count vol" "c \<notin> set (expand_entry e)"
  show "disk_byte vol (entry_written vol e bs s) c = disk_byte vol s c"
  proof (cases "fst c = e_disk_index e")
    case False
    then have "disk_path vol s (fst c) \<noteq> disk_path vol s (e_disk_index e)"
      using assms(1,2) c(1) by (auto simp: disks_open_def)
    then show ?thesis by (simp add: disk_byte_def p) (simp add: entry_written_def)
  next
    case True
    have "\<not> (e_physical_offset e \<le> snd c \<and> snd c < e_physical_offset e + e_length_bytes e)"
    proof
      assume "e_physical_offset e \<le> snd c \<and> snd c < e_physical_offset e + e_length_bytes e"
      then have "c = (e_disk_index e, e_physical_offset e + (snd c - e_physical_offset e))"
        "snd c - e_physical_offset e < e_length_bytes e"
        using True by (auto simp: prod_eq_iff)
      then have "c \<in> set (expand_entry e)" unfolding expand_entry_def by (metis (no_types, lifting) imageI list.set_map set_upt atLeastLessThan_iff le0)
      then show False using c(2) by blast
    qed
    then show ?thesis
      using assms(3) True by (simp add: disk_byte_def p) (auto simp: entry_written_def write_bytes_def)
  qed
qed

lemma serve_write:
  assumes "all_good os" "disks_open vol s" "se_disk_index se < v_disk_count vol" "se_length se < 2 ^ 32"
    and "e = \<lparr>e_disk_index = se_disk_index se, e_physical_offset = se_physical_offset se,
      e_length_bytes = se_length se\<rparr>"
  shows "serve os (vdisk vol (se_disk_index se)) (request_of IO_OP_WRITE se) (buf, cp, s) =
    (buf, complete cp, entry_written vol e (read_bytes buf (se_buffer_offset se) (se_length se)) s)"
  using assms(1,4,5) open_handle [OF assms(2,3)]
  by (simp add: serve_def request_of_def dev_write_def entry_written_def Let_def)

lemma serve_read:
  assumes "all_good os" "disks_open vol s" "se_disk_index se < v_disk_count vol" "se_length se < 2 ^ 32"
    and "e = \<lparr>e_disk_index = se_disk_index se, e_physical_offset = se_physical_offset se,
      e_length_bytes = se_length se\<rparr>"
  shows "serve os (vdisk vol (se_disk_index se)) (request_of IO_OP_READ se) (buf, cp, s) =
    (write_bytes buf (se_buffer_offset se) (map (disk_byte vol s) (expand_entry e)), complete cp, tick s)"
proof -
  have "map (disk_byte vol s) (expand_entry e) =
      read_bytes (w_media s (disk_path vol s (se_disk_index se))) (se_physical_offset se) (se_length se)"
    by (rule nth_equalityI) (simp_all add: assms(5) expand_entry_def disk_byte_def)
  then show ?thesis
    using assms(1,4) open_handle [OF assms(2,3)]
    by (simp add: serve_def request_of_def dev_read_def Let_def)
qed

lemma submit_all_write:
  assumes good: "all_good os"
  shows "disks_open vol s \<Longrightarrow> workers_idle vol arr \<Longrightarrow> \<forall>e \<in> set es. e_disk_index e < v_disk_count vol \<Longrightarrow>
    acc + length (expand es) < 2 ^ 32 \<Longrightarrow> distinct (expand es) \<Longrightarrow>
    \<exists>arr' s'. submit_all os (v_disk_count vol) IO_OP_WRITE (prepare acc es) (arr, buf, cp, s) =
        Inr (arr', buf, (complete ^^ length es) cp, s') \<and> workers_idle vol arr' \<and>
      s_heap s' = s_heap s \<and> w_files s' = w_files s \<and>
      (\<forall>k < length (expand es). disk_byte vol s' (expand es ! k) = buf (acc + k)) \<and>
      (\<forall>c. fst c < v_disk_count vol \<longrightarrow> c \<notin> set (expand es) \<longrightarrow> disk_byte vol s' c = disk_byte vol s c)"
proof (induction es arbitrary: acc arr cp s)
  case (Cons e es)
  let ?n = "e_length_bytes e"
  let ?se = "\<lparr>se_buffer_offset = acc, se_disk_index = e_disk_index e,
      se_physical_offset = e_physical_offset e, se_length = ?n\<rparr>"
  let ?s1 = "entry_written vol e (read_bytes buf acc ?n) s"
  have n: "?n < 2 ^ 32" "acc + ?n + length (expand es) < 2 ^ 32" using Cons.prems(4) by (simp_all add: expand_Cons)
  then have "acc + ?n < 2 ^ 64" by simp
  then have acc: "u64 (acc + ?n) = acc + ?n" by (rule u64_id)
  have di: "e_disk_index e < v_disk_count vol" using Cons.prems(3) by simp
  obtain arr1 where one: "submit_one os (v_disk_count vol) IO_OP_WRITE ?se (arr, buf, cp, s) =
      Inr (arr1, buf, complete cp, ?s1)" "workers_idle vol arr1"
    using submit_one_serves [OF Cons.prems(1,2), of ?se os IO_OP_WRITE buf cp]
      serve_write [OF good Cons.prems(1), of ?se e buf cp] di n by auto
  have len: "length (read_bytes buf acc ?n) = ?n" by simp
  note EW = entry_written_bytes [OF Cons.prems(1) di len]
  have "disks_open vol ?s1" by (rule disks_open_heap [OF Cons.prems(1) EW(3)])
  from Cons.IH [OF this one(2), of "acc + ?n" "complete cp"] Cons.prems(3,5) n(2)
  obtain arr' s' where I: "submit_all os (v_disk_count vol) IO_OP_WRITE (prepare (acc + ?n) es) (arr1, buf, complete cp, ?s1) =
        Inr (arr', buf, (complete ^^ length es) (complete cp), s')" "workers_idle vol arr'"
      "s_heap s' = s_heap ?s1" "w_files s' = w_files ?s1"
      "\<forall>k < length (expand es). disk_byte vol s' (expand es ! k) = buf (acc + ?n + k)"
      "\<forall>c. fst c < v_disk_count vol \<longrightarrow> c \<notin> set (expand es) \<longrightarrow> disk_byte vol s' c = disk_byte vol ?s1 c"
    by (auto simp: expand_Cons)
  have run: "submit_all os (v_disk_count vol) IO_OP_WRITE (prepare acc (e # es)) (arr, buf, cp, s) =
      Inr (arr', buf, (complete ^^ length (e # es)) cp, s')"
    using one(1) I(1) acc by (simp add: funpow_swap1)
  have written: "disk_byte vol s' (expand (e # es) ! k) = buf (acc + k)" if k: "k < length (expand (e # es))" for k
  proof (cases "k < ?n")
    case True
    then have "expand_entry e ! k \<in> set (expand_entry e)" by (intro nth_mem) simp
    then have "expand_entry e ! k \<notin> set (expand es)" using Cons.prems(5) by (auto simp: expand_Cons)
    moreover have "fst (expand_entry e ! k) < v_disk_count vol" using True di by (simp add: expand_entry_def)
    ultimately have "disk_byte vol s' (expand_entry e ! k) = disk_byte vol ?s1 (expand_entry e ! k)"
      using I(6) by blast
    then show ?thesis using EW(1) [OF True] True by (simp add: expand_Cons nth_append)
  next
    case False
    then show ?thesis using I(5) k by (simp add: expand_Cons nth_append)
  qed
  have kept: "disk_byte vol s' c = disk_byte vol s c"
    if "fst c < v_disk_count vol" "c \<notin> set (expand (e # es))" for c
    using that I(6) EW(2) unfolding expand_Cons set_append Un_iff by metis
  show ?case using run I(2,3,4) EW(3,4) written kept by (intro exI [of _ arr'] exI [of _ s']) simp
qed (simp add: expand_def)

lemma submit_all_read:
  assumes good: "all_good os"
  shows "disks_open vol s \<Longrightarrow> workers_idle vol arr \<Longrightarrow> \<forall>e \<in> set es. e_disk_index e < v_disk_count vol \<Longrightarrow>
    acc + length (expand es) < 2 ^ 32 \<Longrightarrow>
    \<exists>arr' s'. submit_all os (v_disk_count vol) IO_OP_READ (prepare acc es) (arr, buf, cp, s) =
        Inr (arr', write_bytes buf acc (map (disk_byte vol s) (expand es)), (complete ^^ length es) cp, s') \<and>
      workers_idle vol arr' \<and> s_heap s' = s_heap s \<and> w_files s' = w_files s \<and> w_media s' = w_media s"
proof (induction es arbitrary: acc arr cp s buf)
  case (Cons e es)
  let ?n = "e_length_bytes e"
  let ?se = "\<lparr>se_buffer_offset = acc, se_disk_index = e_disk_index e,
      se_physical_offset = e_physical_offset e, se_length = ?n\<rparr>"
  let ?b1 = "write_bytes buf acc (map (disk_byte vol s) (expand_entry e))"
  have n: "?n < 2 ^ 32" "acc + ?n + length (expand es) < 2 ^ 32" using Cons.prems(4) by (simp_all add: expand_Cons)
  then have "acc + ?n < 2 ^ 64" by simp
  then have acc: "u64 (acc + ?n) = acc + ?n" by (rule u64_id)
  have di: "e_disk_index e < v_disk_count vol" using Cons.prems(3) by simp
  obtain arr1 where one: "submit_one os (v_disk_count vol) IO_OP_READ ?se (arr, buf, cp, s) =
      Inr (arr1, ?b1, complete cp, tick s)" "workers_idle vol arr1"
    using submit_one_serves [OF Cons.prems(1,2), of ?se os IO_OP_READ buf cp]
      serve_read [OF good Cons.prems(1), of ?se e buf cp] di n by auto
  have h: "s_heap (tick s) = s_heap s" "w_media (tick s) = w_media s" "w_files (tick s) = w_files s"
    by (simp_all add: tick_def)
  have db: "disk_byte vol (tick s) = disk_byte vol s"
    by (simp add: fun_eq_iff disk_byte_def disk_path_heap [OF h(1)] h(2))
  from Cons.IH [OF disks_open_heap [OF Cons.prems(1) h(1)] one(2), of "acc + ?n" ?b1 "complete cp"] Cons.prems(3) n(2)
  obtain arr' s' where I: "submit_all os (v_disk_count vol) IO_OP_READ (prepare (acc + ?n) es) (arr1, ?b1, complete cp, tick s) =
        Inr (arr', write_bytes ?b1 (acc + ?n) (map (disk_byte vol s) (expand es)), (complete ^^ length es) (complete cp), s')"
      "workers_idle vol arr'" "s_heap s' = s_heap s" "w_files s' = w_files s" "w_media s' = w_media s"
    by (auto simp: db h)
  have "write_bytes ?b1 (acc + ?n) (map (disk_byte vol s) (expand es)) =
      write_bytes buf acc (map (disk_byte vol s) (expand (e # es)))"
    using write_bytes_append [of buf acc "map (disk_byte vol s) (expand_entry e)" "map (disk_byte vol s) (expand es)"]
    by (simp add: expand_Cons)
  then show ?case using one(1) I acc
    by (intro exI [of _ arr'] exI [of _ s']) (simp add: funpow_swap1)
qed (simp add: expand_def)


text \<open>The two submissions on a volume whose workers are ready.\<close>

lemma workers_ready_cases:
  assumes "workers_ready vol s"
  obtains ws where "v_worker_state vol = Some ws" "workers_idle vol ws" "disks_open vol s"
  using assms by (auto simp: workers_ready_def split: option.splits)

lemma workers_ready_after:
  assumes "disks_open vol s" "s_heap s' = s_heap s" "workers_idle vol ws"
  shows "workers_ready (vol\<lparr>v_worker_state := Some ws\<rparr>) s'"
  using disks_open_heap [OF assms(1,2)] assms(3)
  by (simp add: workers_ready_def disks_open_def CHECK_DISKS_def vdisk_def disk_path_def workers_idle_def)

lemma disk_byte_workers [simp]: "disk_byte (vol\<lparr>v_worker_state := w\<rparr>) s = disk_byte vol s"
  by (simp add: fun_eq_iff disk_byte_def disk_path_def vdisk_def)

lemma submit_entries_run:
  assumes "all_good os" "v_worker_state vol = Some arr" "es \<noteq> []" "length es \<le> IO_RING_SIZE"
    and "submit_all os (v_disk_count vol) opn (prepare 0 es)
      (arr, buf, \<lparr>cp_pending = int (length es), cp_error = False, cp_event = False\<rparr>, tick s) =
      Inr (arr', buf', (complete ^^ length es) \<lparr>cp_pending = int (length es), cp_error = False, cp_event = False\<rparr>, s')"
  shows "submit_entries os vol es buf opn s = Inr (True, vol\<lparr>v_worker_state := Some arr'\<rparr>, buf', s')"
  using assms by (simp add: submit_entries_def complete_event complete_power)

lemma tick_facts [simp]: "s_heap (tick s) = s_heap s" "w_media (tick s) = w_media s" "w_files (tick s) = w_files s"
  by (simp_all add: tick_def)

lemma disk_byte_tick [simp]: "disk_byte vol (tick s) = disk_byte vol s"
  by (simp add: fun_eq_iff disk_byte_def disk_path_def)

lemma submit_write_ready:
  assumes good: "all_good os" and ready: "workers_ready vol s" and es: "es \<noteq> []" "length es \<le> IO_RING_SIZE"
    and di: "\<forall>e \<in> set es. e_disk_index e < v_disk_count vol"
    and len: "length (expand es) < 2 ^ 32" and dist: "distinct (expand es)"
  shows "\<exists>ws s'. submit_entries os vol es buf IO_OP_WRITE s = Inr (True, vol\<lparr>v_worker_state := Some ws\<rparr>, buf, s') \<and>
    workers_ready (vol\<lparr>v_worker_state := Some ws\<rparr>) s' \<and> s_heap s' = s_heap s \<and> w_files s' = w_files s \<and>
    (\<forall>k < length (expand es). disk_byte vol s' (expand es ! k) = buf k) \<and>
    (\<forall>c. fst c < v_disk_count vol \<longrightarrow> c \<notin> set (expand es) \<longrightarrow> disk_byte vol s' c = disk_byte vol s c)"
proof -
  obtain ws where ws: "v_worker_state vol = Some ws" "workers_idle vol ws" "disks_open vol s"
    using workers_ready_cases [OF ready] .
  have op: "disks_open vol (tick s)" by (rule disks_open_heap [OF ws(3)]) simp
  have "0 + length (expand es) < 2 ^ 32" using len by simp
  from submit_all_write [OF good op ws(2) di this dist]
  obtain arr' s' where R: "submit_all os (v_disk_count vol) IO_OP_WRITE (prepare 0 es)
      (ws, buf, \<lparr>cp_pending = int (length es), cp_error = False, cp_event = False\<rparr>, tick s) =
      Inr (arr', buf, (complete ^^ length es) \<lparr>cp_pending = int (length es), cp_error = False, cp_event = False\<rparr>, s')"
    "workers_idle vol arr'" "s_heap s' = s_heap s" "w_files s' = w_files s"
    "\<forall>k < length (expand es). disk_byte vol s' (expand es ! k) = buf k"
    "\<forall>c. fst c < v_disk_count vol \<longrightarrow> c \<notin> set (expand es) \<longrightarrow> disk_byte vol s' c = disk_byte vol s c"
    unfolding disk_byte_tick tick_facts add_0 by blast
  show ?thesis
    using submit_entries_run [OF good ws(1) es R(1)] workers_ready_after [OF ws(3) R(3,2)] R(3-6) by blast
qed

lemma submit_read_ready:
  assumes good: "all_good os" and ready: "workers_ready vol s" and es: "es \<noteq> []" "length es \<le> IO_RING_SIZE"
    and di: "\<forall>e \<in> set es. e_disk_index e < v_disk_count vol" and len: "length (expand es) < 2 ^ 32"
  shows "\<exists>ws s'. submit_entries os vol es buf IO_OP_READ s =
      Inr (True, vol\<lparr>v_worker_state := Some ws\<rparr>, write_bytes buf 0 (map (disk_byte vol s) (expand es)), s') \<and>
    workers_ready (vol\<lparr>v_worker_state := Some ws\<rparr>) s' \<and> s_heap s' = s_heap s \<and> w_files s' = w_files s \<and>
    w_media s' = w_media s"
proof -
  obtain ws where ws: "v_worker_state vol = Some ws" "workers_idle vol ws" "disks_open vol s"
    using workers_ready_cases [OF ready] .
  have op: "disks_open vol (tick s)" by (rule disks_open_heap [OF ws(3)]) simp
  have "0 + length (expand es) < 2 ^ 32" using len by simp
  from submit_all_read [OF good op ws(2) di this]
  obtain arr' s' where R: "submit_all os (v_disk_count vol) IO_OP_READ (prepare 0 es)
      (ws, buf, \<lparr>cp_pending = int (length es), cp_error = False, cp_event = False\<rparr>, tick s) =
      Inr (arr', write_bytes buf 0 (map (disk_byte vol s) (expand es)),
        (complete ^^ length es) \<lparr>cp_pending = int (length es), cp_error = False, cp_event = False\<rparr>, s')"
    "workers_idle vol arr'" "s_heap s' = s_heap s" "w_files s' = w_files s" "w_media s' = w_media s"
    unfolding disk_byte_tick tick_facts add_0 by blast
  show ?thesis
    using submit_entries_run [OF good ws(1) es R(1)] workers_ready_after [OF ws(3) R(3,2)] R(3-5) by blast
qed

section \<open>Properties\<close>

theorem workers_init_ready:
  assumes "all_good os" "0 < v_disk_count vol" "disks_open vol s"
  shows "\<exists>ws s'. stripe_volume_workers_init os vol s = Inr (True, vol\<lparr>v_worker_state := Some ws\<rparr>, s') \<and>
    workers_ready (vol\<lparr>v_worker_state := Some ws\<rparr>) s' \<and>
    stripe_volume_workers_stop (vol\<lparr>v_worker_state := Some ws\<rparr>) = Inr (vol\<lparr>v_worker_state := None\<rparr>)"
proof -
  have "\<forall>i < v_disk_count vol. i < length (v_disks vol)"
    using assms(3) by (auto simp: disks_open_def CHECK_DISKS_def list_all_iff)
  then have len: "\<not> length (v_disks vol) < v_disk_count vol" using assms(2) by (metis nat_neq_iff)
  obtain ws s' where S: "start_workers os (v_disks vol) 0 (v_disk_count vol) (tick s) = (Some ws, s')"
    "length ws = v_disk_count vol" "\<forall>k < v_disk_count vol. ws ! k = fresh_worker (v_disks vol ! k) k"
    "s_heap s' = s_heap s"
    using start_workers_good [OF assms(1), of "v_disks vol" 0 "v_disk_count vol" "tick s"] by auto
  then have "workers_idle vol ws" using fresh_worker_idle by (simp add: workers_idle_def)
  then have "workers_ready (vol\<lparr>v_worker_state := Some ws\<rparr>) s'"
    by (rule workers_ready_after [OF assms(3) S(4)])
  moreover have "stripe_volume_workers_init os vol s = Inr (True, vol\<lparr>v_worker_state := Some ws\<rparr>, s')"
    using assms(1,2) len S(1) by (simp add: stripe_volume_workers_init_def)
  moreover have "stripe_volume_workers_stop (vol\<lparr>v_worker_state := Some ws\<rparr>) = Inr (vol\<lparr>v_worker_state := None\<rparr>)"
    using S(2) by (simp add: stripe_volume_workers_stop_def)
  ultimately show ?thesis by blast
qed

text \<open>A system with two open disks, for the witnesses.\<close>

definition two_disk_system :: sys where
  "two_disk_system = \<lparr>w_clock = 0, w_media = (\<lambda>_ _. 0), w_files = Map.empty,
     s_heap = (\<lambda>p. zero_disk\<lparr>d_handle := FILE_HANDLE (if p = 0 then ''a'' else ''b''),
       d_pool_bytes := 1024, d_healthy := 1\<rparr>)\<rparr>"

definition two_disk_volume :: STRIPE_VOLUME where
  "two_disk_volume = two_disks\<lparr>v_disks := [Some 0, Some 1, None, None],
     v_worker_state := Some [fresh_worker (Some 0) 0, fresh_worker (Some 1) 1]\<rparr>"

lemma two_disk_fields [simp]:
  "v_disk_count two_disk_volume = 2" "v_disks two_disk_volume = [Some 0, Some 1, None, None]"
  "v_worker_state two_disk_volume = Some [fresh_worker (Some 0) 0, fresh_worker (Some 1) 1]"
  "v_virtual_total_bytes two_disk_volume = 2048" "v_stripe_unit two_disk_volume = 512"
  by (simp_all add: two_disk_volume_def two_disks_def)

lemma two_disk_open: "disks_open two_disk_volume two_disk_system"
  by (simp add: disks_open_def CHECK_DISKS_def disk_path_def vdisk_def two_disk_system_def
      all_less_2 upt_rec)

lemma two_disk_ready: "workers_ready two_disk_volume two_disk_system"
  using two_disk_open by (simp add: workers_ready_def workers_idle_def all_less_2 fresh_worker_idle)

theorem workers_init_ready_witness:
  "\<exists>ws s'. stripe_volume_workers_init os_good two_disk_volume two_disk_system =
    Inr (True, two_disk_volume\<lparr>v_worker_state := Some ws\<rparr>, s')"
  using workers_init_ready [OF all_good_os_good _ two_disk_open] by auto

end
