(* ===== verification/RawIo.thy ===== *)
theory RawIo
  imports StorageTypes "HOL-Library.Sublist"
begin

text \<open>
  Reading and writing one disk, \<^verbatim>\<open>src/src/storage_common.c\<close>: the error count of a disk, and
  \<^verbatim>\<open>stripe_read_raw\<close>/\<^verbatim>\<open>stripe_write_raw\<close> with their three kinds of disk (RAM buffer, marked
  faulty, open file). \<open>byte_store\<close> states what a reader and writer of bytes promises; the clients
  that copy in chunks are proved against it.
\<close>

section \<open>The operations\<close>

definition update_disk :: "ptr \<Rightarrow> (DISK_INFO \<Rightarrow> DISK_INFO) \<Rightarrow> sys \<Rightarrow> sys" where
  "update_disk d f s = s\<lparr>s_heap := (s_heap s)(d := f (s_heap s d))\<rparr>"

text \<open>More than five consecutive errors mark the disk faulty; a success resets the count.\<close>

definition stripe_io_ok :: "bool \<Rightarrow> DISK_INFO \<Rightarrow> DISK_INFO" where
  "stripe_io_ok ok disk =
     (if \<not> ok then
        let n = d_error_count disk + 1; disk1 = disk\<lparr>d_error_count := n\<rparr>
        in if 5 < n then disk1\<lparr>d_faulty := 1\<rparr> else disk1
      else if 0 < d_error_count disk then disk\<lparr>d_error_count := 0\<rparr> else disk)"

text \<open>The result carries the bytes put at the start of the buffer.\<close>

definition stripe_read_raw :: "os \<Rightarrow> ptr \<Rightarrow> nat \<Rightarrow> nat \<Rightarrow> sys \<Rightarrow> bool \<times> byte list \<times> sys" where
  "stripe_read_raw os d off n s =
     (let disk = s_heap s d in
      case d_ram_buffer disk of
        Some m \<Rightarrow> (True, read_bytes m off n, s)
      | None \<Rightarrow>
          if d_faulty disk \<noteq> 0 then (False, [], s)
          else if d_handle disk \<noteq> INVALID_HANDLE_VALUE then
            let (ok, bs, s1) = dev_read os (d_handle disk) off n s;
                r = (ok \<and> length bs = n)
            in (r, bs, update_disk d (stripe_io_ok r) s1)
          else (False, [], update_disk d (stripe_io_ok False) s))"

definition stripe_write_raw :: "os \<Rightarrow> ptr \<Rightarrow> nat \<Rightarrow> byte list \<Rightarrow> sys \<Rightarrow> bool \<times> sys" where
  "stripe_write_raw os d off bs s =
     (let disk = s_heap s d in
      case d_ram_buffer disk of
        Some m \<Rightarrow> (True, update_disk d (\<lambda>disk. disk\<lparr>d_ram_buffer := Some (write_bytes m off bs)\<rparr>) s)
      | None \<Rightarrow>
          if d_faulty disk \<noteq> 0 then (False, s)
          else if d_handle disk \<noteq> INVALID_HANDLE_VALUE then
            let (ok, k, s1) = dev_write os (d_handle disk) off bs s;
                r = (ok \<and> k = length bs)
            in (r, update_disk d (stripe_io_ok r) s1)
          else (False, update_disk d (stripe_io_ok False) s))"

section \<open>What a store of bytes promises\<close>

text \<open>
  \<open>content\<close> are the bytes of a state; \<open>good\<close> says that the store is open and its calls succeed.
\<close>

locale byte_store =
  fixes get :: "nat \<Rightarrow> nat \<Rightarrow> 's \<Rightarrow> bool \<times> byte list \<times> 's"
    and put :: "nat \<Rightarrow> byte list \<Rightarrow> 's \<Rightarrow> bool \<times> 's"
    and content :: "'s \<Rightarrow> mem"
    and good :: "'s \<Rightarrow> bool"
    and cap :: nat
    and unit_limit :: nat
  assumes read_ok: "good s \<Longrightarrow> 0 < n \<Longrightarrow> n \<le> unit_limit \<Longrightarrow> off + n \<le> cap \<Longrightarrow>
      \<exists>s'. get off n s = (True, read_bytes (content s) off n, s') \<and> good s' \<and>
        (\<forall>x < cap. content s' x = content s x)"
    and write_ok: "good s \<Longrightarrow> 0 < length bs \<Longrightarrow> length bs \<le> unit_limit \<Longrightarrow> off + length bs \<le> cap \<Longrightarrow>
      \<exists>s'. put off bs s = (True, s') \<and> good s' \<and>
        (\<forall>x < cap. content s' x = write_bytes (content s) off bs x)"
begin

lemma read_after_write:
  assumes "good s" "0 < length bs" "length bs \<le> unit_limit" "off + length bs \<le> cap"
  shows "\<exists>s1 s2. put off bs s = (True, s1) \<and> get off (length bs) s1 = (True, bs, s2) \<and> good s2"
proof -
  obtain s1 where s1: "put off bs s = (True, s1)" "good s1"
    "\<forall>x < cap. content s1 x = write_bytes (content s) off bs x"
    using write_ok [OF assms] by blast
  obtain s2 where s2: "get off (length bs) s1 = (True, read_bytes (content s1) off (length bs), s2)" "good s2"
    using read_ok [OF s1(2) assms(2-4)] by blast
  have "read_bytes (content s1) off (length bs) = read_bytes (write_bytes (content s) off bs) off (length bs)"
    using s1(3) assms(4) by (intro read_bytes_cong) simp
  also have "\<dots> = bs" by (simp add: mem)
  finally show ?thesis using s1(1) s2 by auto
qed

lemma read_other:
  assumes "good s" "0 < length bs" "length bs \<le> unit_limit" "off + length bs \<le> cap"
    and "0 < n" "n \<le> unit_limit" "o2 + n \<le> cap" "o2 + n \<le> off \<or> off + length bs \<le> o2"
  shows "\<exists>s1 s2. put off bs s = (True, s1) \<and> get o2 n s1 = (True, read_bytes (content s) o2 n, s2)"
proof -
  obtain s1 where s1: "put off bs s = (True, s1)" "good s1"
    "\<forall>x < cap. content s1 x = write_bytes (content s) off bs x"
    using write_ok [OF assms(1-4)] by blast
  obtain s2 where s2: "get o2 n s1 = (True, read_bytes (content s1) o2 n, s2)"
    using read_ok [OF s1(2) assms(5-7)] by blast
  have "read_bytes (content s1) o2 n = read_bytes (write_bytes (content s) off bs) o2 n"
    using s1(3) assms(7) by (intro read_bytes_cong) simp
  also have "\<dots> = read_bytes (content s) o2 n" using assms(8) by (simp add: mem)
  finally show ?thesis using s1(1) s2 by auto
qed

end

section \<open>A disk is a store of bytes\<close>

definition disk_good :: "ptr \<Rightarrow> sys \<Rightarrow> bool" where
  "disk_good d s \<longleftrightarrow> d_ram_buffer (s_heap s d) \<noteq> None \<or>
     d_faulty (s_heap s d) = 0 \<and> (\<exists>p. d_handle (s_heap s d) = FILE_HANDLE p)"

definition disk_content :: "ptr \<Rightarrow> sys \<Rightarrow> mem" where
  "disk_content d s = (case d_ram_buffer (s_heap s d) of
     Some m \<Rightarrow> m
   | None \<Rightarrow> (case d_handle (s_heap s d) of FILE_HANDLE p \<Rightarrow> w_media s p | _ \<Rightarrow> (\<lambda>_. 0)))"

lemma stripe_io_ok_fields [simp]:
  "d_handle (stripe_io_ok ok disk) = d_handle disk" "d_ram_buffer (stripe_io_ok ok disk) = d_ram_buffer disk"
  "d_faulty (stripe_io_ok True disk) = d_faulty disk" "d_healthy (stripe_io_ok ok disk) = d_healthy disk"
  "d_pool_bytes (stripe_io_ok ok disk) = d_pool_bytes disk"
  by (simp_all add: stripe_io_ok_def Let_def)

lemma stripe_read_raw_good:
  assumes "all_good os" "disk_good d s" "n < 2 ^ 64"
  shows "\<exists>s'. stripe_read_raw os d off n s = (True, read_bytes (disk_content d s) off n, s') \<and>
    (s' = s \<or> s' = update_disk d (stripe_io_ok True) (tick s))"
proof (cases "d_ram_buffer (s_heap s d)")
  case None
  then obtain p where "d_faulty (s_heap s d) = 0" "d_handle (s_heap s d) = FILE_HANDLE p"
    using assms(2) by (auto simp: disk_good_def)
  then show ?thesis using None assms(1,3)
    by (simp add: stripe_read_raw_def dev_read_def disk_content_def Let_def)
qed (simp add: stripe_read_raw_def disk_content_def Let_def)

lemma stripe_write_raw_good:
  assumes "all_good os" "disk_good d s" "length bs < 2 ^ 64"
  shows "\<exists>s'. stripe_write_raw os d off bs s = (True, s') \<and> disk_good d s' \<and>
    disk_content d s' = write_bytes (disk_content d s) off bs \<and>
    (\<forall>d'. d' \<noteq> d \<longrightarrow> s_heap s' d' = s_heap s d') \<and>
    d_handle (s_heap s' d) = d_handle (s_heap s d) \<and> d_healthy (s_heap s' d) = d_healthy (s_heap s d) \<and>
    (d_ram_buffer (s_heap s' d) = None \<longleftrightarrow> d_ram_buffer (s_heap s d) = None) \<and>
    (\<forall>p. d_handle (s_heap s d) \<noteq> FILE_HANDLE p \<longrightarrow> w_media s' p = w_media s p)"
proof (cases "d_ram_buffer (s_heap s d)")
  case None
  then obtain p where "d_faulty (s_heap s d) = 0" "d_handle (s_heap s d) = FILE_HANDLE p"
    using assms(2) by (auto simp: disk_good_def)
  then show ?thesis using None assms(1,3)
    by (simp add: stripe_write_raw_def dev_write_def disk_content_def disk_good_def Let_def
        update_disk_def tick_def)
qed (simp add: stripe_write_raw_def disk_content_def disk_good_def Let_def update_disk_def)

lemma update_io_ok_good:
  "disk_good d s \<Longrightarrow> disk_good d (update_disk d (stripe_io_ok True) (tick s))"
  "disk_content d (update_disk d (stripe_io_ok True) (tick s)) = disk_content d s"
  by (auto simp: disk_good_def disk_content_def update_disk_def tick_def split: option.split HANDLE.split)

interpretation raw: byte_store "stripe_read_raw os d" "stripe_write_raw os d" "disk_content d"
  "\<lambda>s. all_good os \<and> disk_good d s" "2 ^ 64" "2 ^ 32" for os d
proof
  fix s and n off :: nat
  assume g: "all_good os \<and> disk_good d s" and n: "n \<le> 2 ^ 32"
  then have "n < 2 ^ 64" by simp
  then show "\<exists>s'. stripe_read_raw os d off n s = (True, read_bytes (disk_content d s) off n, s') \<and>
      (all_good os \<and> disk_good d s') \<and> (\<forall>x < 2 ^ 64. disk_content d s' x = disk_content d s x)"
    using stripe_read_raw_good [of os d s n off] g update_io_ok_good by metis
next
  fix s and bs :: "byte list" and off :: nat
  assume g: "all_good os \<and> disk_good d s" and n: "length bs \<le> 2 ^ 32"
  then have "length bs < 2 ^ 64" by simp
  then show "\<exists>s'. stripe_write_raw os d off bs s = (True, s') \<and> (all_good os \<and> disk_good d s') \<and>
      (\<forall>x < 2 ^ 64. disk_content d s' x = write_bytes (disk_content d s) off bs x)"
    using stripe_write_raw_good [of os d s bs off] g by metis
qed

section \<open>Properties\<close>

text \<open>The disk after a sequence of calls with these outcomes.\<close>

definition io_outcomes :: "bool list \<Rightarrow> DISK_INFO \<Rightarrow> DISK_INFO" where
  "io_outcomes oks disk = foldl (\<lambda>disk ok. stripe_io_ok ok disk) disk oks"

definition trailing_errors :: "bool list \<Rightarrow> nat" where
  "trailing_errors oks = length (takeWhile Not (rev oks))"

lemma suffix_errors: "suffix (replicate n False) oks \<longleftrightarrow> n \<le> trailing_errors oks"
proof -
  have "prefix (replicate n False) xs \<longleftrightarrow> n \<le> length (takeWhile Not xs)" for n and xs :: "bool list"
  proof (induction xs arbitrary: n)
    case Nil
    show ?case by (cases n) simp_all
  next
    case (Cons x xs)
    show ?case by (cases n) (auto simp: Cons.IH)
  qed
  from this [of n "rev oks"] show ?thesis
    by (simp add: suffix_to_prefix trailing_errors_def)
qed

theorem faulty_after_six_errors:
  assumes "d_error_count disk = 0" "d_faulty disk = 0"
  shows "(d_faulty (io_outcomes oks disk) \<noteq> 0 \<longleftrightarrow> sublist (replicate 6 False) oks) \<and>
         d_error_count (io_outcomes oks disk) = int (trailing_errors oks)"
proof (induction oks rule: rev_induct)
  case Nil
  show ?case using assms by (simp add: io_outcomes_def trailing_errors_def)
next
  case (snoc ok oks)
  let ?d = "io_outcomes oks disk"
  have step: "io_outcomes (oks @ [ok]) disk = stripe_io_ok ok ?d" by (simp add: io_outcomes_def)
  have t: "trailing_errors (oks @ [ok]) = (if ok then 0 else Suc (trailing_errors oks))"
    by (simp add: trailing_errors_def)
  have "sublist (replicate 6 False) (oks @ [ok]) \<longleftrightarrow>
      6 \<le> trailing_errors (oks @ [ok]) \<or> sublist (replicate 6 False) oks"
    by (simp only: sublist_snoc suffix_errors)
  then show ?case using snoc.IH unfolding step t by (auto simp: stripe_io_ok_def Let_def)
qed

theorem faulty_after_six_errors_witness:
  "d_faulty (io_outcomes [False, False, False, False, False, False] zero_disk) \<noteq> 0 \<and>
   d_error_count (io_outcomes [False, True] zero_disk) = 0"
  using faulty_after_six_errors [of zero_disk "[False, False, False, False, False, False]"]
    faulty_after_six_errors [of zero_disk "[False, True]"]
  by (simp add: zero_disk_def trailing_errors_def numeral_eq_Suc)

theorem raw_write_then_read:
  assumes "all_good os" "disk_good d s" "bs \<noteq> []" "length bs \<le> 2 ^ 32" "off + length bs \<le> 2 ^ 64"
  shows "\<exists>s1 s2. stripe_write_raw os d off bs s = (True, s1) \<and>
    stripe_read_raw os d off (length bs) s1 = (True, bs, s2)"
  using raw.read_after_write [of os d s bs off] assms by auto

definition ram_disk_system :: sys where
  "ram_disk_system = \<lparr>w_clock = 0, w_media = (\<lambda>_ _. 0), w_files = Map.empty,
     s_heap = (\<lambda>p. zero_disk\<lparr>d_ram_buffer := Some (\<lambda>_. 0)\<rparr>)\<rparr>"

theorem raw_write_then_read_witness:
  "\<exists>s1 s2. stripe_write_raw os_good 0 5 [1, 2, 3] ram_disk_system = (True, s1) \<and>
    stripe_read_raw os_good 0 5 3 s1 = (True, [1, 2, 3], s2)"
proof -
  have "disk_good 0 ram_disk_system" by (simp add: disk_good_def ram_disk_system_def)
  moreover have "[1, 2, 3 :: byte] \<noteq> []" "length [1, 2, 3 :: byte] = 3" by simp_all
  moreover have "(3 :: nat) \<le> 2 ^ 32" "5 + (3 :: nat) \<le> 2 ^ 64" by simp_all
  ultimately show ?thesis using raw_write_then_read [OF all_good_os_good, of 0 ram_disk_system "[1, 2, 3]" 5] by metis
qed

end
