(* ===== verification/RamCache.thy ===== *)
theory RamCache
  imports StorageTypes
begin

text \<open>
  The RAM cache, \<^verbatim>\<open>src/src/ram_cache.c\<close>: a buffer over the start of the volume's address
  space, cut into 64 KB blocks, with a bit of \<open>valid_map\<close> and of \<open>dirty_map\<close> per block. The
  bitmaps are byte arrays; \<open>bit_array\<close> is their contract. The flush, which needs the journal and
  the address map, is in \<open>CacheFlush\<close>.
\<close>

section \<open>Bitmaps\<close>

definition bit_test :: "byte list \<Rightarrow> nat \<Rightarrow> bool" where
  "bit_test m b \<longleftrightarrow> m ! (b div 8) AND push_bit (b mod 8) 1 \<noteq> 0"

definition bit_on :: "byte list \<Rightarrow> nat \<Rightarrow> byte list" where
  "bit_on m b = m[b div 8 := m ! (b div 8) OR push_bit (b mod 8) 1]"

definition bit_off :: "byte list \<Rightarrow> nat \<Rightarrow> byte list" where
  "bit_off m b = m[b div 8 := m ! (b div 8) AND NOT (push_bit (b mod 8) 1)]"

text \<open>An array of bits as a client sees it; \<open>room\<close> is the number of bits it has.\<close>

locale bit_array =
  fixes test :: "'m \<Rightarrow> nat \<Rightarrow> bool"
    and on :: "'m \<Rightarrow> nat \<Rightarrow> 'm"
    and off :: "'m \<Rightarrow> nat \<Rightarrow> 'm"
    and room :: "'m \<Rightarrow> nat"
  assumes test_on: "b < room m \<Longrightarrow> c < room m \<Longrightarrow> test (on m b) c \<longleftrightarrow> c = b \<or> test m c"
    and test_off: "b < room m \<Longrightarrow> c < room m \<Longrightarrow> test (off m b) c \<longleftrightarrow> c \<noteq> b \<and> test m c"
    and room_on: "room (on m b) = room m"
    and room_off: "room (off m b) = room m"
begin

lemma room_on_all: "room (foldl on m bs) = room m"
  by (induction bs arbitrary: m) (simp_all add: room_on)

lemma room_off_all: "room (foldl off m bs) = room m"
  by (induction bs arbitrary: m) (simp_all add: room_off)

lemma test_on_all:
  "\<forall>b \<in> set bs. b < room m \<Longrightarrow> c < room m \<Longrightarrow> test (foldl on m bs) c \<longleftrightarrow> c \<in> set bs \<or> test m c"
  by (induction bs arbitrary: m) (auto simp: test_on room_on)

lemma test_off_all:
  "\<forall>b \<in> set bs. b < room m \<Longrightarrow> c < room m \<Longrightarrow> test (foldl off m bs) c \<longleftrightarrow> c \<notin> set bs \<and> test m c"
  by (induction bs arbitrary: m) (auto simp: test_off room_off)

end

lemma bit_test_bit: "bit_test m b \<longleftrightarrow> bit (m ! (b div 8)) (b mod 8)"
  by (simp add: bit_test_def bit_iff_and_push_bit_not_eq_0)

lemma bit_or_push: "k < 8 \<Longrightarrow> bit (w OR 2 ^ n :: byte) k \<longleftrightarrow> k = n \<or> bit w k"
  by (auto simp: bit_or_iff bit_exp_iff possible_bit_word)

lemma bit_and_not_push: "k < 8 \<Longrightarrow> bit (w AND NOT (2 ^ n) :: byte) k \<longleftrightarrow> k \<noteq> n \<and> bit w k"
  by (auto simp: bit_and_iff bit_not_iff bit_exp_iff possible_bit_word)

lemma bit_on_length [simp]: "length (bit_on m b) = length m"
  by (simp add: bit_on_def)

lemma bit_off_length [simp]: "length (bit_off m b) = length m"
  by (simp add: bit_off_def)

lemma same_bit: "b div 8 = c div 8 \<Longrightarrow> b mod 8 = c mod 8 \<Longrightarrow> b = (c :: nat)"
  by (metis div_mult_mod_eq)

lemma byte_index: "b < 8 * n \<Longrightarrow> b div 8 < (n :: nat)"
  by (simp add: less_mult_imp_div_less mult.commute)

lemma bit_test_on:
  assumes "b < 8 * length m"
  shows "bit_test (bit_on m b) c \<longleftrightarrow> c = b \<or> bit_test m c"
proof (cases "b div 8 = c div 8")
  case True
  have "c mod 8 = b mod 8 \<longleftrightarrow> c = b" using True same_bit [of b c] by auto
  then show ?thesis
    using byte_index [OF assms] True by (simp add: bit_test_bit bit_on_def bit_or_push)
next
  case False
  then show ?thesis by (auto simp: bit_test_bit bit_on_def)
qed

lemma bit_test_off:
  assumes "b < 8 * length m"
  shows "bit_test (bit_off m b) c \<longleftrightarrow> c \<noteq> b \<and> bit_test m c"
proof (cases "b div 8 = c div 8")
  case True
  have "c mod 8 = b mod 8 \<longleftrightarrow> c = b" using True same_bit [of b c] by auto
  then show ?thesis
    using byte_index [OF assms] True by (simp add: bit_test_bit bit_off_def bit_and_not_push)
next
  case False
  then show ?thesis by (auto simp: bit_test_bit bit_off_def)
qed

interpretation bits: bit_array bit_test bit_on bit_off "\<lambda>m. 8 * length m"
  by unfold_locales (simp_all add: bit_test_on bit_test_off)

section \<open>The operations\<close>

text \<open>The allocations of a run are system calls of the oracle.\<close>

definition cache_init :: "os \<Rightarrow> RAM_CACHE \<Rightarrow> nat \<Rightarrow> 'a world_scheme \<Rightarrow> bool \<times> RAM_CACHE \<times> 'a world_scheme" where
  "cache_init os c size_bytes w =
     (if size_bytes = 0 then (False, c, w)
      else
        let n = u32 (size_bytes div CACHE_BLOCK_SIZE);
            c1 = c\<lparr>c_block_size := CACHE_BLOCK_SIZE, c_block_count := n,
                   c_cache_size_bytes := u64 (n * CACHE_BLOCK_SIZE)\<rparr>;
            bitmap_bytes = (n + 7) div 8;
            w1 = tick w; w2 = tick w1; w3 = tick w2
        in if \<not> sys_ok os w then (False, c1\<lparr>c_buffer := None\<rparr>, w1)
           else if \<not> sys_ok os w1 then (False, c1\<lparr>c_buffer := None\<rparr>, w2)
           else if \<not> sys_ok os w2 then (False, c1\<lparr>c_buffer := None, c_dirty_map := []\<rparr>, w3)
           else
             let c2 = c1\<lparr>c_buffer := Some (\<lambda>_. 0), c_dirty_map := replicate bitmap_bytes 0,
                         c_valid_map := replicate bitmap_bytes 0, c_hit_count := 0, c_miss_count := 0,
                         c_running := 1, c_thread_stop := 0, c_flush_thread := False, c_write_through := 0\<rparr>
             in if \<not> sys_ok os w3
                then (False, c2\<lparr>c_buffer := None, c_dirty_map := [], c_valid_map := [], c_flush_buffer := None\<rparr>, tick w3)
                else (True, c2\<lparr>c_flush_buffer := Some (\<lambda>_. 0), c_flush_buffer_size := u32 MAX_FLUSH_SIZE\<rparr>, tick w3))"

definition cache_destroy :: "RAM_CACHE \<Rightarrow> RAM_CACHE" where
  "cache_destroy c = (if c_buffer c = None then c else zero_cache)"

text \<open>The blocks a byte range touches, below the block count.\<close>

definition blocks_of :: "RAM_CACHE \<Rightarrow> nat \<Rightarrow> nat \<Rightarrow> nat list" where
  "blocks_of c off end =
     [off div c_block_size c ..< min (u64 (end + c_block_size c - 1) div c_block_size c) (c_block_count c)]"

definition cache_write :: "RAM_CACHE \<Rightarrow> byte list \<Rightarrow> nat \<Rightarrow> bool \<times> RAM_CACHE" where
  "cache_write c data off =
     (case c_buffer c of
        None \<Rightarrow> (False, c)
      | Some m \<Rightarrow>
          let end = u64 (off + length data)
          in if length data = 0 \<or> end < off \<or> c_cache_size_bytes c < end then (False, c)
             else let bs = blocks_of c off end
               in (True, c\<lparr>c_buffer := Some (write_bytes m off data),
                           c_dirty_map := foldl bit_on (c_dirty_map c) bs,
                           c_valid_map := foldl bit_on (c_valid_map c) bs\<rparr>))"

definition cache_read :: "RAM_CACHE \<Rightarrow> nat \<Rightarrow> nat \<Rightarrow> bool \<times> byte list \<times> RAM_CACHE" where
  "cache_read c off n =
     (case c_buffer c of
        None \<Rightarrow> (False, [], c)
      | Some m \<Rightarrow>
          let end = u64 (off + n)
          in if n = 0 \<or> end < off \<or> c_cache_size_bytes c < end then (False, [], c)
             else if list_all (bit_test (c_valid_map c)) (blocks_of c off end)
             then (True, read_bytes m off n, c\<lparr>c_hit_count := u64 (c_hit_count c + 1)\<rparr>)
             else (False, [], c\<lparr>c_miss_count := u64 (c_miss_count c + 1)\<rparr>))"

definition cache_invalidate :: "RAM_CACHE \<Rightarrow> nat \<Rightarrow> nat \<Rightarrow> RAM_CACHE" where
  "cache_invalidate c off n =
     (if c_buffer c = None then c
      else let end = u64 (off + n)
        in if n = 0 \<or> c_cache_size_bytes c < end then c
           else let bs = blocks_of c off end
             in c\<lparr>c_valid_map := foldl bit_off (c_valid_map c) bs,
                  c_dirty_map := foldl bit_off (c_dirty_map c) bs\<rparr>)"

text \<open>The number of dirty blocks and the pause of the flush thread that follows from it.\<close>

definition dirty_count :: "RAM_CACHE \<Rightarrow> nat" where
  "dirty_count c = length (filter (bit_test (c_dirty_map c)) [0 ..< c_block_count c])"

definition flush_sleep_ms :: "RAM_CACHE \<Rightarrow> nat" where
  "flush_sleep_ms c =
     (let n = dirty_count c; k = c_block_count c in
      if k = 0 then 1000
      else if 3 * k < 4 * n then 10
      else if k < 2 * n then 50
      else if k < 4 * n then 100
      else if k < 10 * n then 250
      else 1000)"

section \<open>The invariant\<close>

definition cache_inv :: "RAM_CACHE \<Rightarrow> bool" where
  "cache_inv c \<longleftrightarrow> c_buffer c \<noteq> None \<and> c_block_size c = CACHE_BLOCK_SIZE \<and>
     c_block_count c < 2 ^ 32 \<and> c_cache_size_bytes c = c_block_count c * CACHE_BLOCK_SIZE \<and>
     length (c_dirty_map c) = (c_block_count c + 7) div 8 \<and>
     length (c_valid_map c) = (c_block_count c + 7) div 8 \<and>
     (\<forall>b < c_block_count c. bit_test (c_dirty_map c) b \<longrightarrow> bit_test (c_valid_map c) b)"

definition valid_block :: "RAM_CACHE \<Rightarrow> nat \<Rightarrow> bool" where
  "valid_block c b \<longleftrightarrow> bit_test (c_valid_map c) b"

definition dirty_block :: "RAM_CACHE \<Rightarrow> nat \<Rightarrow> bool" where
  "dirty_block c b \<longleftrightarrow> bit_test (c_dirty_map c) b"

lemma bitmap_room: "b < n \<Longrightarrow> b < 8 * ((n + 7) div (8 :: nat))"
  by presburger

lemma cache_inv_size: "cache_inv c \<Longrightarrow> c_cache_size_bytes c < 2 ^ 48"
  by (simp add: cache_inv_def const)

text \<open>Inside the cache the block computation does not wrap.\<close>

lemma blocks_of_inside:
  assumes "cache_inv c" "off + n \<le> c_cache_size_bytes c"
  shows "blocks_of c off (u64 (off + n)) = [off div CACHE_BLOCK_SIZE ..< (off + n + CACHE_BLOCK_SIZE - 1) div CACHE_BLOCK_SIZE]"
    "u64 (off + n) = off + n"
    "\<forall>b \<in> set (blocks_of c off (u64 (off + n))). b < c_block_count c"
proof -
  have s: "off + n < 2 ^ 48" using assms cache_inv_size [OF assms(1)] by linarith
  then show u: "u64 (off + n) = off + n" by (intro u64_id) simp
  have "off + n + CACHE_BLOCK_SIZE - 1 < 2 ^ 64" using s by (simp add: const)
  then have u2: "u64 (off + n + CACHE_BLOCK_SIZE - 1) = off + n + CACHE_BLOCK_SIZE - 1" by (rule u64_id)
  have "off + n \<le> c_block_count c * CACHE_BLOCK_SIZE" using assms by (simp add: cache_inv_def)
  then have "off + n + CACHE_BLOCK_SIZE - 1 < Suc (c_block_count c) * CACHE_BLOCK_SIZE"
    by (simp add: const)
  then have "(off + n + CACHE_BLOCK_SIZE - 1) div CACHE_BLOCK_SIZE < Suc (c_block_count c)"
    by (rule less_mult_imp_div_less)
  then show B: "blocks_of c off (u64 (off + n)) = [off div CACHE_BLOCK_SIZE ..< (off + n + CACHE_BLOCK_SIZE - 1) div CACHE_BLOCK_SIZE]"
    using assms(1) u2 by (simp add: blocks_of_def u cache_inv_def min_absorb1)
  show "\<forall>b \<in> set (blocks_of c off (u64 (off + n))). b < c_block_count c"
    by (auto simp: blocks_of_def)
qed

lemma in_blocks:
  assumes "0 < n"
  shows "b \<in> set [off div CACHE_BLOCK_SIZE ..< (off + n + CACHE_BLOCK_SIZE - 1) div CACHE_BLOCK_SIZE] \<longleftrightarrow>
    (\<exists>x. off \<le> x \<and> x < off + n \<and> x div CACHE_BLOCK_SIZE = b)"
proof -
  let ?B = "CACHE_BLOCK_SIZE"
  have B: "0 < ?B" by (simp add: const)
  have up: "b < (off + n + ?B - 1) div ?B \<longleftrightarrow> b * ?B < off + n"
  proof -
    have "b < (off + n + ?B - 1) div ?B \<longleftrightarrow> Suc b * ?B \<le> off + n + ?B - 1"
      using B by (simp add: Suc_le_eq [symmetric] less_eq_div_iff_mult_less_eq)
    also have "\<dots> \<longleftrightarrow> b * ?B < off + n" using B by auto
    finally show ?thesis .
  qed
  show ?thesis
  proof
    assume "b \<in> set [off div ?B ..< (off + n + ?B - 1) div ?B]"
    then have lo: "off div ?B \<le> b" and hi: "b * ?B < off + n" using up by auto
    let ?x = "max off (b * ?B)"
    have "?x div ?B = b"
    proof (cases "off \<le> b * ?B")
      case True
      then show ?thesis using B by (simp add: max_def)
    next
      case False
      then have "b \<le> off div ?B" using B by (simp add: less_eq_div_iff_mult_less_eq)
      then show ?thesis using False lo by (simp add: max_def)
    qed
    then show "\<exists>x. off \<le> x \<and> x < off + n \<and> x div ?B = b"
      using hi assms by (intro exI [of _ ?x]) auto
  next
    assume "\<exists>x. off \<le> x \<and> x < off + n \<and> x div ?B = b"
    then obtain x where x: "off \<le> x" "x < off + n" "x div ?B = b" by blast
    then have "off div ?B \<le> b" by (metis div_le_mono)
    moreover have "b * ?B \<le> x" using x(3) by (metis div_times_less_eq_dividend)
    ultimately show "b \<in> set [off div ?B ..< (off + n + ?B - 1) div ?B]" using up x(2) by simp
  qed
qed


lemma cache_inv_rooms:
  assumes "cache_inv c" "b < c_block_count c"
  shows "b < 8 * length (c_dirty_map c)" "b < 8 * length (c_valid_map c)"
  using assms bitmap_room [of b "c_block_count c"] by (simp_all add: cache_inv_def)

section \<open>What the operations do\<close>

lemma cache_write_inside:
  assumes inv: "cache_inv c" and n: "0 < length data" "off + length data \<le> c_cache_size_bytes c"
    and m: "c_buffer c = Some m"
  shows "cache_write c data off = (True, c\<lparr>c_buffer := Some (write_bytes m off data),
      c_dirty_map := foldl bit_on (c_dirty_map c) (blocks_of c off (u64 (off + length data))),
      c_valid_map := foldl bit_on (c_valid_map c) (blocks_of c off (u64 (off + length data)))\<rparr>)"
  using n m blocks_of_inside(2) [OF inv n(2)] by (simp add: cache_write_def Let_def)

lemma cache_write_outside:
  assumes "cache_inv c" "off + length data < 2 ^ 64" "\<not> (0 < length data \<and> off + length data \<le> c_cache_size_bytes c)"
  shows "cache_write c data off = (False, c)"
  using assms by (auto simp: cache_write_def Let_def wrap split: option.split)

lemma foldl_bits:
  assumes inv: "cache_inv c" and bs: "\<forall>b \<in> set bs. b < c_block_count c" and c: "b < c_block_count c"
  shows "bit_test (foldl bit_on (c_valid_map c) bs) b \<longleftrightarrow> b \<in> set bs \<or> valid_block c b"
    "bit_test (foldl bit_on (c_dirty_map c) bs) b \<longleftrightarrow> b \<in> set bs \<or> dirty_block c b"
    "bit_test (foldl bit_off (c_valid_map c) bs) b \<longleftrightarrow> b \<notin> set bs \<and> valid_block c b"
    "bit_test (foldl bit_off (c_dirty_map c) bs) b \<longleftrightarrow> b \<notin> set bs \<and> dirty_block c b"
  using bs cache_inv_rooms [OF inv] c
  by (simp_all add: bits.test_on_all bits.test_off_all valid_block_def dirty_block_def)

lemma foldl_bit_length [simp]:
  "length (foldl bit_on m bs) = length m" "length (foldl bit_off m bs) = length m"
  using bits.room_on_all [of m bs] bits.room_off_all [of m bs] by simp_all

lemma cache_write_inv:
  assumes inv: "cache_inv c" and w: "cache_write c data off = (r, c')"
  shows "cache_inv c'"
proof (cases "r")
  case False
  then have "c' = c" using w by (auto simp: cache_write_def Let_def split: option.splits if_splits)
  then show ?thesis using inv by simp
next
  case True
  let ?bs = "blocks_of c off (u64 (off + length data))"
  have bs: "\<forall>b \<in> set ?bs. b < c_block_count c" by (auto simp: blocks_of_def)
  obtain m where "c_buffer c = Some m" using inv by (auto simp: cache_inv_def)
  then have c': "c' = c\<lparr>c_buffer := Some (write_bytes m off data),
      c_dirty_map := foldl bit_on (c_dirty_map c) ?bs, c_valid_map := foldl bit_on (c_valid_map c) ?bs\<rparr>"
    using w True by (auto simp: cache_write_def Let_def split: if_splits)
  have "\<forall>b < c_block_count c. bit_test (c_dirty_map c') b \<longrightarrow> bit_test (c_valid_map c') b"
    using inv foldl_bits [OF inv bs] by (simp add: c' cache_inv_def valid_block_def dirty_block_def)
  then show ?thesis using inv by (simp add: cache_inv_def c')
qed

lemma cache_read_inv: "cache_inv c \<Longrightarrow> cache_read c off n = (r, bs, c') \<Longrightarrow> cache_inv c'"
  by (auto simp: cache_read_def cache_inv_def Let_def split: option.splits if_splits)

lemma cache_invalidate_inv: "cache_inv c \<Longrightarrow> cache_inv (cache_invalidate c off n)"
proof -
  assume inv: "cache_inv c"
  let ?bs = "blocks_of c off (u64 (off + n))"
  have bs: "\<forall>b \<in> set ?bs. b < c_block_count c" by (auto simp: blocks_of_def)
  show ?thesis using inv foldl_bits [OF inv bs]
    by (auto simp: cache_inv_def cache_invalidate_def Let_def valid_block_def dirty_block_def)
qed

lemma cache_init_inv:
  assumes "cache_init os c size_bytes w = (True, c', w')"
  shows "cache_inv c'" "\<forall>b < c_block_count c'. \<not> valid_block c' b" "c_buffer c' = Some (\<lambda>_. 0)"
proof -
  let ?n = "u32 (size_bytes div CACHE_BLOCK_SIZE)"
  have n: "?n < 2 ^ 32" by (rule u32_less)
  then have "?n * CACHE_BLOCK_SIZE < 2 ^ 64" by (simp add: const)
  then have sz: "u64 (?n * CACHE_BLOCK_SIZE) = ?n * CACHE_BLOCK_SIZE" by (rule u64_id)
  have z: "b < ?n \<Longrightarrow> \<not> bit_test (replicate ((?n + 7) div 8) 0) b" for b
    using byte_index [OF bitmap_room, of b ?n] by (simp add: bit_test_bit)
  have c': "c_buffer c' = Some (\<lambda>_. 0)" "c_block_size c' = CACHE_BLOCK_SIZE" "c_block_count c' = ?n"
    "c_cache_size_bytes c' = ?n * CACHE_BLOCK_SIZE" "c_dirty_map c' = replicate ((?n + 7) div 8) 0"
    "c_valid_map c' = replicate ((?n + 7) div 8) 0"
    using assms sz by (auto simp: cache_init_def Let_def split: if_splits)
  then show "cache_inv c'" "\<forall>b < c_block_count c'. \<not> valid_block c' b" "c_buffer c' = Some (\<lambda>_. 0)"
    using z n by (simp_all add: cache_inv_def valid_block_def)
qed

text \<open>A read hits exactly when every block it touches is valid.\<close>

lemma cache_read_inside:
  assumes inv: "cache_inv c" and n: "0 < n" "off + n \<le> c_cache_size_bytes c" and m: "c_buffer c = Some m"
  shows "cache_read c off n =
    (if \<forall>x. off \<le> x \<and> x < off + n \<longrightarrow> valid_block c (x div CACHE_BLOCK_SIZE)
     then (True, read_bytes m off n, c\<lparr>c_hit_count := u64 (c_hit_count c + 1)\<rparr>)
     else (False, [], c\<lparr>c_miss_count := u64 (c_miss_count c + 1)\<rparr>))"
proof -
  note B = blocks_of_inside [OF inv n(2)]
  have "list_all (bit_test (c_valid_map c)) (blocks_of c off (u64 (off + n))) \<longleftrightarrow>
      (\<forall>b \<in> set [off div CACHE_BLOCK_SIZE ..< (off + n + CACHE_BLOCK_SIZE - 1) div CACHE_BLOCK_SIZE]. valid_block c b)"
    unfolding B(1) list_all_iff valid_block_def ..
  also have "\<dots> \<longleftrightarrow> (\<forall>x. off \<le> x \<and> x < off + n \<longrightarrow> valid_block c (x div CACHE_BLOCK_SIZE))"
    unfolding Ball_def in_blocks [OF n(1)] by blast
  finally show ?thesis using n m B(2) by (simp add: cache_read_def Let_def)
qed

lemma cache_write_valid:
  assumes inv: "cache_inv c" and n: "0 < length data" "off + length data \<le> c_cache_size_bytes c"
    and w: "cache_write c data off = (True, c')" and b: "b < c_block_count c"
  shows "valid_block c' b \<longleftrightarrow> valid_block c b \<or>
      (\<exists>x. off \<le> x \<and> x < off + length data \<and> x div CACHE_BLOCK_SIZE = b)"
    "dirty_block c' b \<longleftrightarrow> dirty_block c b \<or>
      (\<exists>x. off \<le> x \<and> x < off + length data \<and> x div CACHE_BLOCK_SIZE = b)"
proof -
  note B = blocks_of_inside [OF inv n(2)]
  obtain m where m: "c_buffer c = Some m" using inv by (auto simp: cache_inv_def)
  have maps: "c_valid_map c' = foldl bit_on (c_valid_map c) (blocks_of c off (u64 (off + length data)))"
    "c_dirty_map c' = foldl bit_on (c_dirty_map c) (blocks_of c off (u64 (off + length data)))"
    using w cache_write_inside [OF inv n m] by auto
  have mem: "b \<in> set (blocks_of c off (u64 (off + length data))) \<longleftrightarrow>
      (\<exists>x. off \<le> x \<and> x < off + length data \<and> x div CACHE_BLOCK_SIZE = b)"
    unfolding B(1) by (rule in_blocks [OF n(1)])
  show "valid_block c' b \<longleftrightarrow> valid_block c b \<or>
      (\<exists>x. off \<le> x \<and> x < off + length data \<and> x div CACHE_BLOCK_SIZE = b)"
    "dirty_block c' b \<longleftrightarrow> dirty_block c b \<or>
      (\<exists>x. off \<le> x \<and> x < off + length data \<and> x div CACHE_BLOCK_SIZE = b)"
    using foldl_bits(1,2) [OF inv B(3) b] mem unfolding valid_block_def dirty_block_def maps by blast+
qed

lemma block_of_inside: "cache_inv c \<Longrightarrow> x < c_cache_size_bytes c \<Longrightarrow> x div CACHE_BLOCK_SIZE < c_block_count c"
  by (simp add: cache_inv_def less_mult_imp_div_less)

section \<open>Properties\<close>

text \<open>A one-block cache for the witnesses.\<close>

definition small_cache :: RAM_CACHE where
  "small_cache = zero_cache\<lparr>c_buffer := Some (\<lambda>_. 0), c_block_size := CACHE_BLOCK_SIZE,
     c_block_count := 1, c_cache_size_bytes := CACHE_BLOCK_SIZE, c_dirty_map := [0], c_valid_map := [0]\<rparr>"

lemma small_cache_inv: "cache_inv small_cache" "\<not> valid_block small_cache 0"
  by (simp_all add: cache_inv_def small_cache_def const valid_block_def bit_test_def)

text \<open>
  C22. Initialising the cache establishes its invariant (bitmaps as long as the block count needs,
  dirty blocks valid, buffer size a multiple of the block size), and every operation keeps it.
\<close>

theorem cache_operations_keep_invariant:
  assumes "cache_inv c"
  shows "cache_inv (snd (cache_write c data off)) \<and> cache_inv (snd (snd (cache_read c off n))) \<and>
         cache_inv (cache_invalidate c off n) \<and>
         (\<forall>c' w'. cache_init os c0 sz w = (True, c', w') \<longrightarrow> cache_inv c')"
proof -
  have "cache_inv (snd (cache_write c data off))" using cache_write_inv [OF assms] by (metis prod.collapse)
  moreover have "cache_inv (snd (snd (cache_read c off n)))" using cache_read_inv [OF assms] by (metis prod.collapse)
  ultimately show ?thesis using cache_invalidate_inv [OF assms] cache_init_inv(1) by blast
qed

theorem cache_operations_keep_invariant_witness:
  "cache_inv (snd (cache_write small_cache [1, 2] 7)) \<and> cache_inv (cache_invalidate small_cache 0 1)"
  using cache_operations_keep_invariant [OF small_cache_inv(1)] by blast

text \<open>
  C21. A write to the RAM cache succeeds inside it, is a hit for the read of the same range, which
  returns the written bytes, and changes no other cached byte.
\<close>

theorem cache_read_after_write:
  assumes "cache_inv c" "data \<noteq> []" "off + length data \<le> c_cache_size_bytes c"
  shows "\<exists>c1 c2. cache_write c data off = (True, c1) \<and> cache_read c1 off (length data) = (True, data, c2) \<and>
    (\<forall>x < c_cache_size_bytes c. x < off \<or> off + length data \<le> x \<longrightarrow>
       the (c_buffer c1) x = the (c_buffer c) x)"
proof -
  have n: "0 < length data" using assms(2) by simp
  obtain m where m: "c_buffer c = Some m" using assms(1) by (auto simp: cache_inv_def)
  obtain c1 where w: "cache_write c data off = (True, c1)" "c_buffer c1 = Some (write_bytes m off data)"
    "c_cache_size_bytes c1 = c_cache_size_bytes c" "c_block_count c1 = c_block_count c"
    using cache_write_inside [OF assms(1) n assms(3) m] by simp
  have inv1: "cache_inv c1" by (rule cache_write_inv [OF assms(1) w(1)])
  have "\<forall>x. off \<le> x \<and> x < off + length data \<longrightarrow> valid_block c1 (x div CACHE_BLOCK_SIZE)"
  proof (intro allI impI)
    fix x assume x: "off \<le> x \<and> x < off + length data"
    then have "x div CACHE_BLOCK_SIZE < c_block_count c"
      using assms(3) by (intro block_of_inside [OF assms(1)]) simp
    then show "valid_block c1 (x div CACHE_BLOCK_SIZE)"
      using cache_write_valid(1) [OF assms(1) n assms(3) w(1)] x by blast
  qed
  then have "cache_read c1 off (length data) = (True, data, c1\<lparr>c_hit_count := u64 (c_hit_count c1 + 1)\<rparr>)"
    using cache_read_inside [OF inv1 n _ w(2)] assms(3) w(3) by (simp add: mem)
  then show ?thesis using w m by (auto simp: mem)
qed

theorem cache_read_after_write_witness:
  "\<exists>c1 c2. cache_write small_cache [1, 2] 7 = (True, c1) \<and> cache_read c1 7 (length [1, 2 :: byte]) = (True, [1, 2], c2)"
proof -
  have "[1, 2 :: byte] \<noteq> []" "7 + length [1, 2 :: byte] \<le> c_cache_size_bytes small_cache"
    by (simp_all add: small_cache_def const)
  from cache_read_after_write [OF small_cache_inv(1) this] show ?thesis by blast
qed

theorem cache_miss_after_invalidate:
  assumes "cache_inv c" "0 < n" "off + n \<le> c_cache_size_bytes c"
    and "0 < k" "o2 + k \<le> c_cache_size_bytes c" "off \<le> x" "x < off + n"
    and "o2 \<le> y" "y < o2 + k" "y div CACHE_BLOCK_SIZE = x div CACHE_BLOCK_SIZE"
  shows "fst (cache_read (cache_invalidate c off n) o2 k) = False"
proof -
  let ?c = "cache_invalidate c off n"
  note B = blocks_of_inside [OF assms(1,3)]
  obtain m where m: "c_buffer c = Some m" using assms(1) by (auto simp: cache_inv_def)
  have f: "c_buffer ?c = Some m" "c_cache_size_bytes ?c = c_cache_size_bytes c"
    "c_valid_map ?c = foldl bit_off (c_valid_map c) (blocks_of c off (u64 (off + n)))"
    using assms(2,3) m B(2) by (simp_all add: cache_invalidate_def Let_def)
  have "x div CACHE_BLOCK_SIZE < c_block_count c" using assms(3,7) by (intro block_of_inside [OF assms(1)]) simp
  moreover have "x div CACHE_BLOCK_SIZE \<in> set (blocks_of c off (u64 (off + n)))"
    unfolding B(1) in_blocks [OF assms(2)] using assms(6,7) by blast
  ultimately have "\<not> valid_block ?c (y div CACHE_BLOCK_SIZE)"
    using foldl_bits(3) [OF assms(1) B(3)] assms(10) by (simp add: valid_block_def f(3))
  then show ?thesis
    using cache_read_inside [OF cache_invalidate_inv [OF assms(1)] assms(4) _ f(1)] assms(5,8,9) f(2) by auto
qed

theorem cache_miss_after_invalidate_witness:
  "fst (cache_read (cache_invalidate small_cache 3 1) 5 2) = False"
  using cache_miss_after_invalidate [OF small_cache_inv(1), of 1 3 2 5 3 5]
  by (simp add: small_cache_def const)

text \<open>A byte that was never written reads as a hit once its block has been written anywhere.\<close>

theorem cache_serves_unwritten_bytes:
  assumes "cache_inv c" "c_buffer c = Some m" "data \<noteq> []" "off + length data \<le> c_cache_size_bytes c"
    and "x div CACHE_BLOCK_SIZE = off div CACHE_BLOCK_SIZE" "x < off \<or> off + length data \<le> x"
  shows "\<exists>c1 c2. cache_write c data off = (True, c1) \<and> cache_read c1 x 1 = (True, [m x], c2)"
proof -
  have n: "0 < length data" using assms(3) by simp
  obtain c1 where w: "cache_write c data off = (True, c1)" "c_buffer c1 = Some (write_bytes m off data)"
    "c_cache_size_bytes c1 = c_cache_size_bytes c" "c_block_count c1 = c_block_count c"
    using cache_write_inside [OF assms(1) n assms(4,2)] by simp
  have inv1: "cache_inv c1" by (rule cache_write_inv [OF assms(1) w(1)])
  have "off < c_cache_size_bytes c" using assms(4) n by linarith
  then have blk: "off div CACHE_BLOCK_SIZE < c_block_count c" by (rule block_of_inside [OF assms(1)])
  then have "x div CACHE_BLOCK_SIZE < c_block_count c" using assms(5) by simp
  then have "x < c_block_count c * CACHE_BLOCK_SIZE"
    by (simp add: const div_less_iff_less_mult)
  then have xs: "x + 1 \<le> c_cache_size_bytes c1" using assms(1) w(3) by (simp add: cache_inv_def)
  have "valid_block c1 (x div CACHE_BLOCK_SIZE)"
    unfolding assms(5) using cache_write_valid(1) [OF assms(1) n assms(4) w(1) blk] n by auto
  then have "\<forall>y. x \<le> y \<and> y < x + 1 \<longrightarrow> valid_block c1 (y div CACHE_BLOCK_SIZE)"
    by (metis Suc_eq_plus1 le_antisym less_Suc_eq_le)
  then have "cache_read c1 x 1 = (True, [write_bytes m off data x], c1\<lparr>c_hit_count := u64 (c_hit_count c1 + 1)\<rparr>)"
    using cache_read_inside [OF inv1 zero_less_one xs w(2)] by (simp add: read_bytes_def)
  moreover have "write_bytes m off data x = m x" using assms(6) by (simp add: mem)
  ultimately show ?thesis using w(1) by auto
qed

theorem cache_serves_unwritten_bytes_witness:
  "\<exists>c1 c2. cache_write small_cache [9] 0 = (True, c1) \<and> cache_read c1 100 1 = (True, [0], c2)"
  using cache_serves_unwritten_bytes [OF small_cache_inv(1), of "\<lambda>_. 0" "[9]" 0 100]
  by (simp add: small_cache_def const)

end
