(* ===== verification/Mirror.thy ===== *)
theory Mirror
  imports Workers RawIo RamCache
begin

text \<open>
  The mirror engine, \<^verbatim>\<open>src/src/mirror_engine.c\<close>: creation, reads with fail-over, writes to
  every healthy disk, rebuild onto a replacement. \<open>mirror_sync\<close> is the invariant behind the
  redundancy: every disk marked healthy holds the volume's bytes. It is kept under every behaviour
  of the disks, because a disk whose call fails is marked unhealthy in the same step.
\<close>

section \<open>Creation\<close>

definition set_healthy :: "int \<Rightarrow> DISK_INFO \<Rightarrow> DISK_INFO" where
  "set_healthy h disk = disk\<lparr>d_healthy := h\<rparr>"

definition mirror_volume_create :: "nat \<Rightarrow> STRIPE_VOLUME \<Rightarrow> ptr list \<Rightarrow> sys \<Rightarrow> bool \<times> STRIPE_VOLUME \<times> sys" where
  "mirror_volume_create now vol disks s =
     (let n = length disks in
      if n < MIN_MIRROR_DISKS \<or> MAX_DISKS < n then (False, vol, s)
      else
        let least = foldl (\<lambda>m d. if d_pool_bytes (s_heap s d) < m then d_pool_bytes (s_heap s d) else m)
                      (2 ^ 64 - 1) disks;
            size = least - least mod SECTOR_SIZE
        in (True, zero_volume\<lparr>v_raid_level := RAID_LEVEL_MIRROR, v_disk_count := n,
                    v_disks := fill (map Some disks) (v_disks zero_volume),
                    v_virtual_total_bytes := size, v_stripe_unit := SECTOR_SIZE, v_phase_count := 0,
                    v_healthy_count := int n, v_start_time := now\<rparr>,
            foldl (\<lambda>s d. update_disk d (set_healthy 1) s) s disks))"


section \<open>Reading and writing\<close>

definition is_healthy :: "sys \<Rightarrow> ptr \<Rightarrow> bool" where
  "is_healthy s d \<longleftrightarrow> d_healthy (s_heap s d) \<noteq> 0"

text \<open>Marking a disk unhealthy counts it once.\<close>

definition drop_mirror :: "ptr \<Rightarrow> STRIPE_VOLUME \<times> sys \<Rightarrow> STRIPE_VOLUME \<times> sys" where
  "drop_mirror d st = (case st of (vol, s) \<Rightarrow>
     (if d_healthy (s_heap s d) = 1 then vol\<lparr>v_healthy_count := v_healthy_count vol - 1\<rparr> else vol,
      update_disk d (set_healthy 0) s))"

definition add_bytes_read :: "nat \<Rightarrow> STRIPE_VOLUME \<Rightarrow> STRIPE_VOLUME" where
  "add_bytes_read n vol = vol\<lparr>v_bytes_read := u64 (v_bytes_read vol + n)\<rparr>"

definition add_bytes_written :: "nat \<Rightarrow> STRIPE_VOLUME \<Rightarrow> STRIPE_VOLUME" where
  "add_bytes_written n vol = vol\<lparr>v_bytes_written := u64 (v_bytes_written vol + n)\<rparr>"

text \<open>The disks in order: the first healthy one whose read succeeds answers.\<close>

fun mirror_read_loop :: "os \<Rightarrow> nat \<Rightarrow> nat \<Rightarrow> ptr list \<Rightarrow> STRIPE_VOLUME \<times> sys
    \<Rightarrow> bool \<times> byte list \<times> STRIPE_VOLUME \<times> sys" where
  "mirror_read_loop os off n [] st = (False, [], st)"
| "mirror_read_loop os off n (d # ds) st =
     (if \<not> is_healthy (snd st) d then mirror_read_loop os off n ds st
      else if d_faulty (s_heap (snd st) d) \<noteq> 0 then mirror_read_loop os off n ds (drop_mirror d st)
      else (case stripe_read_raw os d off n (snd st) of
              (ok, bs, s') \<Rightarrow>
                if ok then (True, bs, add_bytes_read n (fst st), s')
                else mirror_read_loop os off n ds (drop_mirror d (fst st, s'))))"

definition disk_ptrs :: "STRIPE_VOLUME \<Rightarrow> ptr list" where
  "disk_ptrs vol = map (vdisk vol) [0 ..< v_disk_count vol]"

definition mirror_volume_read :: "os \<Rightarrow> STRIPE_VOLUME \<Rightarrow> nat \<Rightarrow> nat \<Rightarrow> sys
    \<Rightarrow> bool \<times> byte list \<times> STRIPE_VOLUME \<times> sys" where
  "mirror_volume_read os vol off n s =
     (if n = 0 then (False, [], vol, s)
      else if v_virtual_total_bytes vol < n \<or> v_virtual_total_bytes vol - n < off then (False, [], vol, s)
      else if \<not> CHECK_DISKS vol then (False, [], vol, s)
      else if v_cache_enabled vol \<and> v_cache_flush_in_progress vol = 0 \<and>
              u64 (off + n) \<le> c_cache_size_bytes (v_cache vol)
      then (case cache_read (v_cache vol) off n of
              (ok, bs, c) \<Rightarrow>
                let vol1 = vol\<lparr>v_cache := c\<rparr>
                in (ok, bs, if ok then add_bytes_read n vol1 else vol1, s))
      else if filter (is_healthy s) (disk_ptrs vol) = [] then (False, [], vol, s)
      else mirror_read_loop os off n (disk_ptrs vol) (vol, s))"

fun mirror_write_loop :: "os \<Rightarrow> nat \<Rightarrow> byte list \<Rightarrow> ptr list \<Rightarrow> STRIPE_VOLUME \<times> sys
    \<Rightarrow> bool \<times> STRIPE_VOLUME \<times> sys" where
  "mirror_write_loop os off bs [] st = (False, st)"
| "mirror_write_loop os off bs (d # ds) st =
     (if \<not> is_healthy (snd st) d then mirror_write_loop os off bs ds st
      else if d_faulty (s_heap (snd st) d) \<noteq> 0 then mirror_write_loop os off bs ds (drop_mirror d st)
      else (case stripe_write_raw os d off bs (snd st) of
              (ok, s') \<Rightarrow>
                if ok then (case mirror_write_loop os off bs ds (fst st, s') of (r, st') \<Rightarrow> (True, st'))
                else mirror_write_loop os off bs ds (drop_mirror d (fst st, s'))))"

definition mirror_write_to_all :: "os \<Rightarrow> STRIPE_VOLUME \<Rightarrow> byte list \<Rightarrow> nat \<Rightarrow> sys \<Rightarrow> bool \<times> STRIPE_VOLUME \<times> sys" where
  "mirror_write_to_all os vol bs off s =
     (let n = length bs in
      if n = 0 then (False, vol, s)
      else if v_virtual_total_bytes vol < n \<or> v_virtual_total_bytes vol - n < off then (False, vol, s)
      else mirror_write_loop os off bs (disk_ptrs vol) (vol, s))"

definition mirror_volume_write :: "os \<Rightarrow> STRIPE_VOLUME \<Rightarrow> byte list \<Rightarrow> nat \<Rightarrow> sys \<Rightarrow> bool \<times> STRIPE_VOLUME \<times> sys" where
  "mirror_volume_write os vol bs off s =
     (let n = length bs in
      if n = 0 then (False, vol, s)
      else if v_virtual_total_bytes vol < n \<or> v_virtual_total_bytes vol - n < off then (False, vol, s)
      else if \<not> CHECK_DISKS vol then (False, vol, s)
      else if v_cache_enabled vol \<and> v_cache_flush_in_progress vol = 0 \<and>
              u64 (off + n) \<le> c_cache_size_bytes (v_cache vol)
      then
        let (ok, c) = cache_write (v_cache vol) bs off;
            vol1 = vol\<lparr>v_cache := c\<rparr>
        in if ok \<and> c_write_through c \<noteq> 0 then
             (case mirror_write_to_all os vol1 bs off s of
                (True, vol2, s2) \<Rightarrow> (True, add_bytes_written n vol2, s2)
              | (False, vol2, s2) \<Rightarrow>
                  (False, vol2\<lparr>v_cache := cache_invalidate (v_cache vol2) off n\<rparr>, s2))
           else (ok, if ok then add_bytes_written n vol1 else vol1, s)
      else (case mirror_write_to_all os vol bs off s of
              (any_ok, vol1, s1) \<Rightarrow> (any_ok, if any_ok then add_bytes_written n vol1 else vol1, s1)))"

section \<open>Rebuild\<close>

definition REBUILD_CHUNK :: nat where [const]: "REBUILD_CHUNK = 64 * 1024 * 1024"

function rebuild_loop :: "os \<Rightarrow> ptr \<Rightarrow> ptr \<Rightarrow> nat \<Rightarrow> nat \<Rightarrow> sys \<Rightarrow> bool \<times> sys" where
  "rebuild_loop os src repl limit off s =
     (if off < limit then
        let chunk = min_u64 (limit - off) REBUILD_CHUNK in
        case stripe_read_raw os src off chunk s of
          (ok, bs, s1) \<Rightarrow>
            if \<not> ok then (False, s1)
            else (case stripe_write_raw os repl off bs s1 of
                    (ok2, s2) \<Rightarrow> if \<not> ok2 then (False, s2)
                                else rebuild_loop os src repl limit (off + chunk) s2)
      else (True, s))"
  by pat_completeness auto
termination
  by (relation "measure (\<lambda>(os, src, repl, limit, off, s). limit - off)") (auto simp: const)

declare rebuild_loop.simps [simp del]

definition flush_file :: "os \<Rightarrow> HANDLE \<Rightarrow> 'a world_scheme \<Rightarrow> bool \<times> 'a world_scheme" where
  "flush_file os h w = (case h of FILE_HANDLE p \<Rightarrow> (sys_ok os w, tick w) | _ \<Rightarrow> (False, w))"

text \<open>The first healthy disk other than the one replaced.\<close>

definition rebuild_source :: "STRIPE_VOLUME \<Rightarrow> nat \<Rightarrow> sys \<Rightarrow> nat option" where
  "rebuild_source vol idx s =
     List.find (\<lambda>i. i \<noteq> idx \<and> is_healthy s (vdisk vol i)) [0 ..< v_disk_count vol]"

definition mirror_volume_rebuild :: "os \<Rightarrow> STRIPE_VOLUME \<Rightarrow> ptr \<Rightarrow> nat \<Rightarrow> sys \<Rightarrow> bool \<times> STRIPE_VOLUME \<times> sys" where
  "mirror_volume_rebuild os vol repl idx s =
     (if v_disk_count vol \<le> idx then (False, vol, s)
      else if \<not> CHECK_DISKS vol then (False, vol, s)
      else if v_virtual_total_bytes vol = 0 then (False, vol, s)
      else case rebuild_source vol idx s of
        None \<Rightarrow> (False, vol, s)
      | Some src \<Rightarrow>
          let old = vdisk vol idx;
              was = d_healthy (s_heap s old);
              s1 = update_disk old (set_healthy 0) s;
              vol1 = (if was \<noteq> 0 then vol\<lparr>v_healthy_count := v_healthy_count vol - 1\<rparr> else vol);
              undo = (\<lambda>s. (False,
                       if was \<noteq> 0 then vol1\<lparr>v_healthy_count := v_healthy_count vol1 + 1\<rparr> else vol1,
                       update_disk old (set_healthy was) s))
          in if \<not> sys_ok os s1 then undo (tick s1)
             else (case rebuild_loop os (vdisk vol src) repl (v_virtual_total_bytes vol) 0 (tick s1) of
                     (False, s2) \<Rightarrow> undo s2
                   | (True, s2) \<Rightarrow>
                       (case flush_file os (d_handle (s_heap s2 repl)) s2 of
                          (False, s3) \<Rightarrow> undo s3
                        | (True, s3) \<Rightarrow>
                            (True,
                             vol1\<lparr>v_disks := (v_disks vol1)[idx := Some repl],
                                  v_healthy_count := v_healthy_count vol1 + 1\<rparr>,
                             update_disk repl (set_healthy 1) s3))))"


section \<open>Disks with files of their own\<close>

definition own_files :: "ptr set \<Rightarrow> sys \<Rightarrow> bool" where
  "own_files D s \<longleftrightarrow>
     (\<forall>d \<in> D. d_ram_buffer (s_heap s d) = None \<and> (\<exists>p. d_handle (s_heap s d) = FILE_HANDLE p)) \<and>
     (\<forall>d \<in> D. \<forall>e \<in> D. d_handle (s_heap s d) = d_handle (s_heap s e) \<longrightarrow> d = e)"

text \<open>What every call keeps: the handles, the health flags and the other disks' bytes.\<close>

definition same_disks :: "ptr set \<Rightarrow> sys \<Rightarrow> sys \<Rightarrow> bool" where
  "same_disks D s s' \<longleftrightarrow> (\<forall>d \<in> D. d_ram_buffer (s_heap s' d) = d_ram_buffer (s_heap s d) \<and>
     d_handle (s_heap s' d) = d_handle (s_heap s d) \<and> d_healthy (s_heap s' d) = d_healthy (s_heap s d))"

lemma same_disks_own: "same_disks D s s' \<Longrightarrow> own_files D s \<Longrightarrow> own_files D s'"
  by (simp add: same_disks_def own_files_def)

lemma own_files_mono: "D' \<subseteq> D \<Longrightarrow> own_files D s \<Longrightarrow> own_files D' s"
  unfolding own_files_def by (meson subsetD)

lemma disk_content_file:
  "d_ram_buffer (s_heap s d) = None \<Longrightarrow> d_handle (s_heap s d) = FILE_HANDLE p \<Longrightarrow> disk_content d s = w_media s p"
  by (simp add: disk_content_def)

lemma own_content:
  assumes "own_files D s" "d \<in> D"
  obtains p where "d_ram_buffer (s_heap s d) = None" "d_handle (s_heap s d) = FILE_HANDLE p"
    "disk_content d s = w_media s p"
  using assms disk_content_file unfolding own_files_def by metis

lemma raw_read_any:
  assumes own: "own_files D s" and d: "d \<in> D" and r: "stripe_read_raw os d off n s = (ok, bs, s')"
  shows "same_disks D s s' \<and> (\<forall>e \<in> D. disk_content e s' = disk_content e s) \<and>
    (ok \<longrightarrow> bs = read_bytes (disk_content d s) off n)"
proof -
  obtain p where p: "d_ram_buffer (s_heap s d) = None" "d_handle (s_heap s d) = FILE_HANDLE p"
    "disk_content d s = w_media s p" using own_content [OF own d] .
  have h: "w_media s' = w_media s" "\<forall>e. e \<noteq> d \<longrightarrow> s_heap s' e = s_heap s e"
    "d_ram_buffer (s_heap s' d) = d_ram_buffer (s_heap s d)"
    "d_handle (s_heap s' d) = d_handle (s_heap s d)" "d_healthy (s_heap s' d) = d_healthy (s_heap s d)"
    using r p by (auto simp: stripe_read_raw_def dev_read_def Let_def update_disk_def split: if_splits)
  have sd: "same_disks D s s'" unfolding same_disks_def using h by metis
  have "\<forall>e \<in> D. disk_content e s' = disk_content e s"
  proof
    fix e assume e: "e \<in> D"
    show "disk_content e s' = disk_content e s"
      using own_content [OF own e] own_content [OF same_disks_own [OF sd own] e] sd e h(1)
      by (metis HANDLE.inject same_disks_def)
  qed
  moreover have "ok \<longrightarrow> bs = read_bytes (disk_content d s) off n"
    using r p by (auto simp: stripe_read_raw_def dev_read_def Let_def split: if_splits)
  ultimately show ?thesis using sd by blast
qed

lemma raw_write_any:
  assumes own: "own_files D s" and d: "d \<in> D" and r: "stripe_write_raw os d off bs s = (ok, s')"
  shows "same_disks D s s' \<and> (\<forall>e \<in> D. e \<noteq> d \<longrightarrow> disk_content e s' = disk_content e s) \<and>
    (ok \<longrightarrow> disk_content d s' = write_bytes (disk_content d s) off bs)"
proof -
  obtain p where p: "d_ram_buffer (s_heap s d) = None" "d_handle (s_heap s d) = FILE_HANDLE p"
    "disk_content d s = w_media s p" using own_content [OF own d] .
  have h: "\<forall>q. q \<noteq> p \<longrightarrow> w_media s' q = w_media s q" "\<forall>e. e \<noteq> d \<longrightarrow> s_heap s' e = s_heap s e"
    "d_ram_buffer (s_heap s' d) = d_ram_buffer (s_heap s d)"
    "d_handle (s_heap s' d) = d_handle (s_heap s d)" "d_healthy (s_heap s' d) = d_healthy (s_heap s d)"
    using r p by (auto simp: stripe_write_raw_def dev_write_def Let_def update_disk_def split: if_splits)
  have sd: "same_disks D s s'" unfolding same_disks_def using h by metis
  have "\<forall>e \<in> D. e \<noteq> d \<longrightarrow> disk_content e s' = disk_content e s"
  proof (intro ballI impI)
    fix e assume e: "e \<in> D" "e \<noteq> d"
    obtain q where q: "d_ram_buffer (s_heap s e) = None" "d_handle (s_heap s e) = FILE_HANDLE q"
      "disk_content e s = w_media s q" using own_content [OF own e(1)] .
    have "q \<noteq> p" using own d e p(2) q(2) by (metis own_files_def)
    moreover have "disk_content e s' = w_media s' q"
      using sd e(1) q(1,2) by (intro disk_content_file) (auto simp: same_disks_def)
    ultimately show "disk_content e s' = disk_content e s" using h(1) q(3) by simp
  qed
  moreover have "ok \<longrightarrow> disk_content d s' = write_bytes (disk_content d s) off bs"
  proof
    assume "ok"
    then have "w_media s' p = write_bytes (w_media s p) off bs"
      using r p by (auto simp: stripe_write_raw_def dev_write_def Let_def update_disk_def split: if_splits)
    moreover have "disk_content d s' = w_media s' p" using h(3,4) p(1,2) by (intro disk_content_file) simp_all
    ultimately show "disk_content d s' = write_bytes (disk_content d s) off bs" using p(3) by simp
  qed
  ultimately show ?thesis using sd by blast
qed

section \<open>The invariant of a mirror\<close>

definition health_ok :: "STRIPE_VOLUME \<Rightarrow> sys \<Rightarrow> bool" where
  "health_ok vol s \<longleftrightarrow> (\<forall>d \<in> set (disk_ptrs vol). d_healthy (s_heap s d) \<in> {0, 1}) \<and>
     v_healthy_count vol = int (length (filter (is_healthy s) (disk_ptrs vol)))"

definition mirror_inv :: "STRIPE_VOLUME \<Rightarrow> sys \<Rightarrow> bool" where
  "mirror_inv vol s \<longleftrightarrow> distinct (disk_ptrs vol) \<and> own_files (set (disk_ptrs vol)) s \<and> health_ok vol s"

definition holds :: "nat \<Rightarrow> mem \<Rightarrow> sys \<Rightarrow> ptr \<Rightarrow> bool" where
  "holds n c s d \<longleftrightarrow> (is_healthy s d \<longrightarrow> (\<forall>x < n. disk_content d s x = c x))"

definition mirror_sync :: "STRIPE_VOLUME \<Rightarrow> sys \<Rightarrow> mem \<Rightarrow> bool" where
  "mirror_sync vol s c \<longleftrightarrow> (\<forall>d \<in> set (disk_ptrs vol). holds (v_virtual_total_bytes vol) c s d)"

text \<open>Volumes that agree on all the mirror looks at but the healthy count and the counters.\<close>

definition same_mirror :: "STRIPE_VOLUME \<Rightarrow> STRIPE_VOLUME \<Rightarrow> bool" where
  "same_mirror v w \<longleftrightarrow> v_disks w = v_disks v \<and> v_disk_count w = v_disk_count v \<and>
     v_virtual_total_bytes w = v_virtual_total_bytes v \<and> v_cache w = v_cache v \<and>
     v_cache_enabled w = v_cache_enabled v \<and> v_cache_flush_in_progress w = v_cache_flush_in_progress v"

lemma same_mirror_refl [simp]: "same_mirror v v"
  by (simp add: same_mirror_def)

lemma same_mirror_trans: "same_mirror u v \<Longrightarrow> same_mirror v w \<Longrightarrow> same_mirror u w"
  by (simp add: same_mirror_def)

lemma same_mirror_ptrs: "same_mirror v w \<Longrightarrow> disk_ptrs w = disk_ptrs v"
  by (simp add: same_mirror_def disk_ptrs_def vdisk_def)

lemma same_mirror_add [simp]:
  "same_mirror v (add_bytes_read n v)" "same_mirror v (add_bytes_written n v)"
  "v_healthy_count (add_bytes_read n v) = v_healthy_count v" "v_healthy_count (add_bytes_written n v) = v_healthy_count v"
  by (simp_all add: same_mirror_def add_bytes_read_def add_bytes_written_def)

lemma same_disks_health:
  "same_disks (set (disk_ptrs vol)) s s' \<Longrightarrow> health_ok vol s \<Longrightarrow> health_ok vol s'"
proof -
  assume sd: "same_disks (set (disk_ptrs vol)) s s'" and h: "health_ok vol s"
  have "filter (is_healthy s') (disk_ptrs vol) = filter (is_healthy s) (disk_ptrs vol)"
    using sd by (intro filter_cong) (auto simp: same_disks_def is_healthy_def)
  with sd h show ?thesis by (simp add: health_ok_def same_disks_def)
qed

lemma mirror_inv_same:
  assumes "mirror_inv vol s" "same_disks (set (disk_ptrs vol)) s s'"
    "same_mirror vol w" "v_healthy_count w = v_healthy_count vol"
  shows "mirror_inv w s'"
  using assms same_disks_own same_disks_health [OF assms(2)] same_mirror_ptrs [OF assms(3)]
  by (auto simp: mirror_inv_def health_ok_def)

lemma is_healthy_same: "same_disks D s s' \<Longrightarrow> d \<in> D \<Longrightarrow> is_healthy s' d = is_healthy s d"
  by (simp add: same_disks_def is_healthy_def)

lemma filter_drop:
  "distinct xs \<Longrightarrow> d \<in> set xs \<Longrightarrow> P d \<Longrightarrow>
   length (filter P xs) = Suc (length (filter (\<lambda>x. x \<noteq> d \<and> P x) xs))"
proof (induction xs)
  case (Cons x xs)
  then show ?case
  proof (cases "x = d")
    case True
    then have "filter (\<lambda>x. x \<noteq> d \<and> P x) xs = filter P xs"
      using Cons.prems(1) by (intro filter_cong) auto
    then show ?thesis using True Cons.prems by simp
  qed simp
qed simp

lemma disk_ptrs_count [simp]: "disk_ptrs (vol\<lparr>v_healthy_count := k\<rparr>) = disk_ptrs vol"
  by (simp add: disk_ptrs_def vdisk_def)

lemma drop_mirror_facts:
  assumes inv: "mirror_inv vol s" and d: "d \<in> set (disk_ptrs vol)" and h: "is_healthy s d"
    and dr: "drop_mirror d (vol, s) = (w, s')"
  shows "mirror_inv w s'" "same_mirror vol w" "\<not> is_healthy s' d"
    "\<forall>e. e \<noteq> d \<longrightarrow> is_healthy s' e = is_healthy s e" "\<forall>e. disk_content e s' = disk_content e s"
proof -
  have h1: "d_healthy (s_heap s d) = 1" using inv d h by (auto simp: mirror_inv_def health_ok_def is_healthy_def)
  then have w: "w = vol\<lparr>v_healthy_count := v_healthy_count vol - 1\<rparr>" "s' = update_disk d (set_healthy 0) s"
    using dr by (auto simp: drop_mirror_def)
  show sm: "same_mirror vol w" by (simp add: w same_mirror_def)
  have heap: "s_heap s' = (s_heap s)(d := (s_heap s d)\<lparr>d_healthy := 0\<rparr>)" "w_media s' = w_media s"
    by (simp_all add: w update_disk_def set_healthy_def)
  show nh: "\<not> is_healthy s' d" "\<forall>e. e \<noteq> d \<longrightarrow> is_healthy s' e = is_healthy s e"
    by (simp_all add: is_healthy_def heap)
  show "\<forall>e. disk_content e s' = disk_content e s" by (simp add: disk_content_def heap split: option.split HANDLE.split)
  have p: "disk_ptrs w = disk_ptrs vol" using sm by (rule same_mirror_ptrs)
  have dist: "distinct (disk_ptrs vol)" using inv by (simp add: mirror_inv_def)
  have "filter (is_healthy s') (disk_ptrs vol) = filter (\<lambda>x. x \<noteq> d \<and> is_healthy s x) (disk_ptrs vol)"
    using nh by (intro filter_cong) auto
  moreover have "int (length (filter (is_healthy s) (disk_ptrs vol))) = v_healthy_count vol"
    using inv by (simp add: mirror_inv_def health_ok_def)
  ultimately have "v_healthy_count w = int (length (filter (is_healthy s') (disk_ptrs vol)))"
    using filter_drop [of "disk_ptrs vol" d "is_healthy s", OF dist d h] unfolding w(1) by simp
  moreover have "\<forall>e \<in> set (disk_ptrs vol). d_healthy (s_heap s' e) \<in> {0, 1}"
    using inv unfolding mirror_inv_def health_ok_def heap by simp
  ultimately have "health_ok w s'" unfolding health_ok_def p by blast
  moreover have "own_files (set (disk_ptrs vol)) s'"
  proof -
    have "d_ram_buffer (s_heap s' e) = d_ram_buffer (s_heap s e)" "d_handle (s_heap s' e) = d_handle (s_heap s e)" for e
      by (simp_all add: heap)
    then have "own_files (set (disk_ptrs vol)) s' \<longleftrightarrow> own_files (set (disk_ptrs vol)) s"
      by (simp only: own_files_def)
    then show ?thesis using inv by (simp add: mirror_inv_def)
  qed
  ultimately show "mirror_inv w s'" using dist by (simp add: mirror_inv_def p)
qed

lemma mirror_read_loop_sound:
  assumes "mirror_inv vol s" "mirror_sync vol s c" "set ds \<subseteq> set (disk_ptrs vol)"
    "off + n \<le> v_virtual_total_bytes vol" "mirror_read_loop os off n ds (vol, s) = (r, bs, vol', s')"
  shows "mirror_inv vol' s' \<and> mirror_sync vol' s' c \<and> same_mirror vol vol' \<and>
    (\<forall>d. is_healthy s' d \<longrightarrow> d \<in> set (disk_ptrs vol) \<longrightarrow> is_healthy s d) \<and>
    (if r then bs = read_bytes c off n else \<forall>d \<in> set ds. \<not> is_healthy s' d)"
  using assms
proof (induction ds arbitrary: vol s)
  case (Cons d ds)
  have d: "d \<in> set (disk_ptrs vol)" and ds: "set ds \<subseteq> set (disk_ptrs vol)" using Cons.prems(3) by auto
  show ?case
  proof (cases "is_healthy s d")
    case False
    then have "mirror_read_loop os off n ds (vol, s) = (r, bs, vol', s')" using Cons.prems(5) by simp
    from Cons.IH [OF Cons.prems(1,2) ds Cons.prems(4) this] show ?thesis using False d by auto
  next
    case True
    have dropped: ?thesis
      if inv1: "mirror_inv vol s1" and sd: "same_disks (set (disk_ptrs vol)) s s1"
        and ct: "\<forall>e \<in> set (disk_ptrs vol). disk_content e s1 = disk_content e s"
        and run: "mirror_read_loop os off n ds (drop_mirror d (vol, s1)) = (r, bs, vol', s')" for s1
    proof -
      obtain w s2 where dr: "drop_mirror d (vol, s1) = (w, s2)" by fastforce
      have h1: "is_healthy s1 d" using True is_healthy_same [OF sd d] by simp
      note D = drop_mirror_facts [OF inv1 d h1 dr]
      have p: "disk_ptrs w = disk_ptrs vol" by (rule same_mirror_ptrs [OF D(2)])
      have sub: "is_healthy s2 e \<longrightarrow> is_healthy s e" if "e \<in> set (disk_ptrs vol)" for e
        using D(3,4) is_healthy_same [OF sd that] by metis
      have "mirror_sync w s2 c"
        unfolding mirror_sync_def holds_def p
      proof (intro ballI impI allI)
        fix e x assume e: "e \<in> set (disk_ptrs vol)" "is_healthy s2 e" and x: "x < v_virtual_total_bytes w"
        then have "disk_content e s x = c x"
          using Cons.prems(2) sub D(2) by (auto simp: mirror_sync_def holds_def same_mirror_def)
        then show "disk_content e s2 x = c x" using ct e(1) D(5) by simp
      qed
      from Cons.IH [OF D(1) this _ _ run [unfolded dr]] ds Cons.prems(4) D(2) p
      have I: "mirror_inv vol' s' \<and> mirror_sync vol' s' c \<and> same_mirror w vol' \<and>
        (\<forall>d. is_healthy s' d \<longrightarrow> d \<in> set (disk_ptrs vol) \<longrightarrow> is_healthy s2 d) \<and>
        (if r then bs = read_bytes c off n else \<forall>d \<in> set ds. \<not> is_healthy s' d)"
        by (simp add: same_mirror_def)
      then have "\<not> is_healthy s' d" using d D(3) by blast
      then show ?thesis using I sub same_mirror_trans [OF D(2)] by auto
    qed
    show ?thesis
    proof (cases "d_faulty (s_heap s d) = 0")
      case False
      then show ?thesis using True Cons.prems(1,5) by (intro dropped [of s]) (simp_all add: same_disks_def)
    next
      case ok: True
      obtain b bs1 s1 where rd: "stripe_read_raw os d off n s = (b, bs1, s1)" by (metis prod_cases3)
      have own: "own_files (set (disk_ptrs vol)) s" using Cons.prems(1) by (simp add: mirror_inv_def)
      note RR = raw_read_any [OF own d rd]
      have inv1: "mirror_inv vol s1" using RR by (intro mirror_inv_same [OF Cons.prems(1)]) simp_all
      show ?thesis
      proof (cases b)
        case False
        then show ?thesis using True ok Cons.prems(5) rd RR inv1 by (intro dropped [of s1]) simp_all
      next
        case b: True
        then have res: "r" "bs = bs1" "vol' = add_bytes_read n vol" "s' = s1"
          using True ok Cons.prems(5) rd by auto
        have "mirror_inv vol' s'" using RR res by (intro mirror_inv_same [OF Cons.prems(1)]) simp_all
        moreover have sm: "same_mirror vol vol'" using res by simp
        moreover have "mirror_sync vol' s' c"
          using Cons.prems(2) RR res same_mirror_ptrs [OF sm] sm is_healthy_same [of _ s s1]
          unfolding mirror_sync_def holds_def same_mirror_def by metis
        moreover have "bs = read_bytes c off n"
          using RR b res(2) Cons.prems(2,4) True d
          by (auto simp: mirror_sync_def holds_def intro!: read_bytes_cong)
        moreover have "\<forall>e. is_healthy s' e \<longrightarrow> e \<in> set (disk_ptrs vol) \<longrightarrow> is_healthy s e"
          using RR res(4) is_healthy_same by metis
        ultimately show ?thesis using res(1) by simp
      qed
    qed
  qed
qed auto


text \<open>
  During a write the disks already served hold the new bytes and the rest the old ones.
\<close>

lemma mirror_write_loop_sound:
  assumes "mirror_inv vol s" "distinct ds" "set ds \<subseteq> set (disk_ptrs vol)"
    "\<forall>d \<in> set ds. holds (v_virtual_total_bytes vol) c s d"
    "\<forall>d \<in> set (disk_ptrs vol) - set ds. holds (v_virtual_total_bytes vol) (write_bytes c off bs) s d"
    "mirror_write_loop os off bs ds (vol, s) = (r, vol', s')"
  shows "mirror_inv vol' s' \<and> mirror_sync vol' s' (write_bytes c off bs) \<and> same_mirror vol vol' \<and>
    (\<forall>d \<in> set (disk_ptrs vol). is_healthy s' d \<longrightarrow> is_healthy s d) \<and>
    (\<not> r \<longrightarrow> (\<forall>d \<in> set ds. \<not> is_healthy s' d))"
  using assms
proof (induction ds arbitrary: vol s r)
  case Nil
  then show ?case by (auto simp: mirror_sync_def)
next
  case (Cons d ds)
  let ?n = "v_virtual_total_bytes vol" and ?c' = "write_bytes c off bs"
  have d: "d \<in> set (disk_ptrs vol)" "d \<notin> set ds" "distinct ds" and ds: "set ds \<subseteq> set (disk_ptrs vol)"
    using Cons.prems(2,3) by auto
  show ?case
  proof (cases "is_healthy s d")
    case False
    then have run: "mirror_write_loop os off bs ds (vol, s) = (r, vol', s')" using Cons.prems(6) by simp
    have "\<forall>e \<in> set (disk_ptrs vol) - set ds. holds ?n ?c' s e"
      using Cons.prems(5) False by (auto simp: holds_def)
    from Cons.IH [OF Cons.prems(1) d(3) ds _ this run] Cons.prems(4) False d show ?thesis by auto
  next
    case True
    have go: "mirror_inv vol' s' \<and> mirror_sync vol' s' ?c' \<and> same_mirror vol vol' \<and>
        (\<forall>e \<in> set (disk_ptrs vol). is_healthy s' e \<longrightarrow> is_healthy s2 e) \<and>
        (\<not> q \<longrightarrow> (\<forall>e \<in> set ds. \<not> is_healthy s' e))"
      if inv2: "mirror_inv w s2" and sm: "same_mirror vol w"
        and sub: "\<forall>e \<in> set (disk_ptrs vol). is_healthy s2 e \<longrightarrow> is_healthy s e"
        and ct: "\<forall>e \<in> set (disk_ptrs vol). e \<noteq> d \<longrightarrow> disk_content e s2 = disk_content e s"
        and hd: "holds ?n ?c' s2 d"
        and run: "mirror_write_loop os off bs ds (w, s2) = (q, vol', s')" for w s2 q
    proof -
      have p: "disk_ptrs w = disk_ptrs vol" and n: "v_virtual_total_bytes w = ?n"
        using same_mirror_ptrs [OF sm] sm by (simp_all add: same_mirror_def)
      have "\<forall>e \<in> set ds. holds (v_virtual_total_bytes w) c s2 e"
        unfolding n
      proof
        fix e assume e: "e \<in> set ds"
        then have "e \<noteq> d" "e \<in> set (disk_ptrs vol)" "holds ?n c s e" using d(2) ds Cons.prems(4) by auto
        then show "holds ?n c s2 e" using sub ct by (simp add: holds_def)
      qed
      moreover have "\<forall>e \<in> set (disk_ptrs w) - set ds. holds (v_virtual_total_bytes w) ?c' s2 e"
        unfolding n p
      proof
        fix e assume e: "e \<in> set (disk_ptrs vol) - set ds"
        show "holds ?n ?c' s2 e"
        proof (cases "e = d")
          case False
          then have "holds ?n ?c' s e" using e Cons.prems(5) by simp
          then show ?thesis using False e sub ct by (simp add: holds_def)
        qed (use hd in simp)
      qed
      moreover have "set ds \<subseteq> set (disk_ptrs w)" using ds p by simp
      ultimately have "mirror_inv vol' s' \<and> mirror_sync vol' s' ?c' \<and> same_mirror w vol' \<and>
        (\<forall>e \<in> set (disk_ptrs w). is_healthy s' e \<longrightarrow> is_healthy s2 e) \<and>
        (\<not> q \<longrightarrow> (\<forall>e \<in> set ds. \<not> is_healthy s' e))"
        using Cons.IH [OF inv2 d(3) _ _ _ run] by blast
      then show ?thesis using same_mirror_trans [OF sm] p by auto
    qed
    have dropped: ?thesis
      if inv1: "mirror_inv vol s1" and sd: "same_disks (set (disk_ptrs vol)) s s1"
        and ct: "\<forall>e \<in> set (disk_ptrs vol). e \<noteq> d \<longrightarrow> disk_content e s1 = disk_content e s"
        and run: "mirror_write_loop os off bs ds (drop_mirror d (vol, s1)) = (r, vol', s')" for s1
    proof -
      obtain w s2 where dr: "drop_mirror d (vol, s1) = (w, s2)" by fastforce
      have h1: "is_healthy s1 d" using True is_healthy_same [OF sd d(1)] by simp
      note D = drop_mirror_facts [OF inv1 d(1) h1 dr]
      have sub: "\<forall>e \<in> set (disk_ptrs vol). is_healthy s2 e \<longrightarrow> is_healthy s e"
        using D(3,4) is_healthy_same [OF sd] by metis
      have "holds ?n ?c' s2 d" using D(3) by (simp add: holds_def)
      from go [OF D(1,2) sub _ this run [unfolded dr]] ct D(5) sub d(1) D(3) show ?thesis by auto
    qed
    show ?thesis
    proof (cases "d_faulty (s_heap s d) = 0")
      case False
      then show ?thesis using True Cons.prems(1,6) by (intro dropped [of s]) (simp_all add: same_disks_def)
    next
      case ok: True
      obtain b s1 where wr: "stripe_write_raw os d off bs s = (b, s1)" by fastforce
      have own: "own_files (set (disk_ptrs vol)) s" using Cons.prems(1) by (simp add: mirror_inv_def)
      note RR = raw_write_any [OF own d(1) wr]
      have inv1: "mirror_inv vol s1" using RR by (intro mirror_inv_same [OF Cons.prems(1)]) simp_all
      show ?thesis
      proof (cases b)
        case False
        then show ?thesis using True ok Cons.prems(6) wr RR inv1 by (intro dropped [of s1]) simp_all
      next
        case b: True
        obtain q where run: "mirror_write_loop os off bs ds (vol, s1) = (q, vol', s')" "r"
          using True ok b Cons.prems(6) wr by (auto split: prod.splits)
        have "holds ?n ?c' s1 d"
          using Cons.prems(4) True RR b by (simp add: holds_def write_bytes_def)
        moreover have "\<forall>e \<in> set (disk_ptrs vol). is_healthy s1 e \<longrightarrow> is_healthy s e"
          using RR is_healthy_same by blast
        ultimately show ?thesis using go [OF inv1 same_mirror_refl _ _ _ run(1)] RR run(2) by blast
      qed
    qed
  qed
qed

lemma read_bytes_at: "off \<le> x \<Longrightarrow> x < off + k \<Longrightarrow> read_bytes m off k ! (x - off) = m x"
  by (simp add: less_diff_conv2 add.commute)

lemma rebuild_loop_sound:
  assumes "own_files D s" "src \<in> D" "repl \<in> D" "src \<noteq> repl" "off \<le> limit"
    "\<forall>x < off. disk_content repl s x = disk_content src s x"
    "rebuild_loop os src repl limit off s = (r, s')"
  shows "same_disks D s s' \<and> (\<forall>e \<in> D. e \<noteq> repl \<longrightarrow> disk_content e s' = disk_content e s) \<and>
    (r \<longrightarrow> (\<forall>x < limit. disk_content repl s' x = disk_content src s x))"
  using assms
proof (induction os src repl limit off s rule: rebuild_loop.induct)
  case (1 os src repl limit off s)
  note own = "1.prems"(1) and D = "1.prems"(2,3)
  show ?case
  proof (cases "off < limit")
    case False
    then show ?thesis using "1.prems" by (subst (asm) rebuild_loop.simps) (auto simp: same_disks_def)
  next
    case True
    let ?k = "min_u64 (limit - off) REBUILD_CHUNK"
    obtain b1 bs s1 where rd: "stripe_read_raw os src off ?k s = (b1, bs, s1)" by (metis prod_cases3)
    obtain b2 s2 where wr: "stripe_write_raw os repl off bs s1 = (b2, s2)" by fastforce
    note R1 = raw_read_any [OF own D(1) rd]
    have own1: "own_files D s1" using R1 same_disks_own own by blast
    note R2 = raw_write_any [OF own1 D(2) wr]
    have sd2: "same_disks D s s2" using R1 R2 by (auto simp: same_disks_def)
    have own2: "own_files D s2" using sd2 same_disks_own own by blast
    have others: "\<forall>e \<in> D. e \<noteq> repl \<longrightarrow> disk_content e s2 = disk_content e s" using R1 R2 by simp
    show ?thesis
    proof (cases "b1 \<and> b2")
      case False
      then have "s' = s1 \<or> s' = s2" "\<not> r"
        using "1.prems"(7) True rd wr by (auto simp: rebuild_loop.simps [of os src repl limit off s] Let_def split: if_splits)
      then show ?thesis using R1 sd2 others by auto
    next
      case both: True
      have kl: "off + ?k \<le> limit" using True by simp
      have run: "rebuild_loop os src repl limit (off + ?k) s2 = (r, s')"
        using "1.prems"(7) True rd wr both by (simp add: rebuild_loop.simps [of os src repl limit off s] Let_def)
      have bs: "bs = read_bytes (disk_content src s) off ?k" using R1 both by simp
      have src2: "disk_content src s2 = disk_content src s" using others D(1) "1.prems"(4) by simp
      have rep2: "disk_content repl s2 = write_bytes (disk_content repl s) off bs" using R1 R2 both D(2) by simp
      have "\<forall>x < off + ?k. disk_content repl s2 x = disk_content src s2 x"
        using "1.prems"(6) unfolding rep2 src2 bs by (simp add: write_bytes_def read_bytes_at)
      then have "same_disks D s2 s' \<and> (\<forall>e \<in> D. e \<noteq> repl \<longrightarrow> disk_content e s' = disk_content e s2) \<and>
        (r \<longrightarrow> (\<forall>x < limit. disk_content repl s' x = disk_content src s2 x))"
        using True both rd wr by (intro "1.IH" [OF True refl rd [symmetric] refl _ wr [symmetric] _ own2 D "1.prems"(4) kl _ run]) auto
      then show ?thesis using sd2 others src2 by (auto simp: same_disks_def)
    qed
  qed
qed


lemma drop_mirror_other:
  "e \<noteq> d \<Longrightarrow> s_heap (snd (drop_mirror d st)) e = s_heap (snd st) e"
  by (cases st) (simp add: drop_mirror_def update_disk_def)

lemma mirror_read_loop_live:
  assumes "all_good os" "n < 2 ^ 64" "d \<in> set ds"
    "is_healthy (snd st) d" "d_faulty (s_heap (snd st) d) = 0" "d_ram_buffer (s_heap (snd st) d) = None"
    "d_handle (s_heap (snd st) d) = FILE_HANDLE p"
    "\<forall>e \<in> set ds. d_ram_buffer (s_heap (snd st) e) = None \<and> (\<exists>p. d_handle (s_heap (snd st) e) = FILE_HANDLE p)"
  shows "fst (mirror_read_loop os off n ds st)"
  using assms(3-8)
proof (induction ds arbitrary: st)
  case (Cons e ds)
  note P = Cons.prems
  show ?case
  proof (cases "is_healthy (snd st) e")
    case False
    then have "e \<noteq> d" using P by auto
    then have "fst (mirror_read_loop os off n ds st)" using P by (intro Cons.IH) auto
    then show ?thesis using False by simp
  next
    case healthy: True
    show ?thesis
    proof (cases "d_faulty (s_heap (snd st) e) = 0")
      case True
      then have "disk_good e (snd st)" using P(6) by (auto simp: disk_good_def)
      then obtain s' where "stripe_read_raw os e off n (snd st) =
          (True, read_bytes (disk_content e (snd st)) off n, s')"
        using stripe_read_raw_good [OF assms(1) _ assms(2)] by blast
      then show ?thesis using healthy True by simp
    next
      case False
      then have ed: "e \<noteq> d" using P(3) by auto
      let ?st = "drop_mirror e st"
      have same: "s_heap (snd ?st) d = s_heap (snd st) d" using ed drop_mirror_other [of d e st] by simp
      have files: "d_ram_buffer (s_heap (snd ?st) x) = d_ram_buffer (s_heap (snd st) x)"
        "d_handle (s_heap (snd ?st) x) = d_handle (s_heap (snd st) x)" for x
        by (cases st; simp add: drop_mirror_def update_disk_def set_healthy_def)+
      have "fst (mirror_read_loop os off n ds ?st)"
        using P ed same by (intro Cons.IH) (auto simp: files is_healthy_def)
      then show ?thesis using healthy False by simp
    qed
  qed
qed simp

lemma mirror_write_loop_live:
  assumes "all_good os" "length bs < 2 ^ 64" "d \<in> set ds"
    "is_healthy (snd st) d" "d_faulty (s_heap (snd st) d) = 0" "d_ram_buffer (s_heap (snd st) d) = None"
    "d_handle (s_heap (snd st) d) = FILE_HANDLE p"
    "\<forall>e \<in> set ds. d_ram_buffer (s_heap (snd st) e) = None \<and> (\<exists>p. d_handle (s_heap (snd st) e) = FILE_HANDLE p)"
  shows "fst (mirror_write_loop os off bs ds st)"
  using assms(3-8)
proof (induction ds arbitrary: st)
  case (Cons e ds)
  note P = Cons.prems
  show ?case
  proof (cases "is_healthy (snd st) e")
    case False
    then have "e \<noteq> d" using P by auto
    then have "fst (mirror_write_loop os off bs ds st)" using P by (intro Cons.IH) auto
    then show ?thesis using False by simp
  next
    case healthy: True
    show ?thesis
    proof (cases "d_faulty (s_heap (snd st) e) = 0")
      case True
      then have "disk_good e (snd st)" using P(6) by (auto simp: disk_good_def)
      then obtain s' where "stripe_write_raw os e off bs (snd st) = (True, s')"
        using stripe_write_raw_good [OF assms(1) _ assms(2)] by blast
      then show ?thesis using healthy True by (simp split: prod.split)
    next
      case False
      then have ed: "e \<noteq> d" using P(3) by auto
      let ?st = "drop_mirror e st"
      have same: "s_heap (snd ?st) d = s_heap (snd st) d" using ed drop_mirror_other [of d e st] by simp
      have files: "d_ram_buffer (s_heap (snd ?st) x) = d_ram_buffer (s_heap (snd st) x)"
        "d_handle (s_heap (snd ?st) x) = d_handle (s_heap (snd st) x)" for x
        by (cases st; simp add: drop_mirror_def update_disk_def set_healthy_def)+
      have "fst (mirror_write_loop os off bs ds ?st)"
        using P ed same by (intro Cons.IH) (auto simp: files is_healthy_def)
      then show ?thesis using healthy False by simp
    qed
  qed
qed simp

lemma disk_good_heap: "s_heap s' d = s_heap s d \<Longrightarrow> disk_good d s' = disk_good d s"
  by (simp add: disk_good_def)

lemma rebuild_loop_live:
  assumes "all_good os" "disk_good src s" "disk_good repl s" "src \<noteq> repl"
  shows "fst (rebuild_loop os src repl limit off s) \<and>
    d_handle (s_heap (snd (rebuild_loop os src repl limit off s)) repl) = d_handle (s_heap s repl)"
  using assms
proof (induction os src repl limit off s rule: rebuild_loop.induct)
  case (1 os src repl limit off s)
  show ?case
  proof (cases "off < limit")
    case False
    then show ?thesis by (simp add: rebuild_loop.simps [of os src repl limit off s])
  next
    case True
    let ?k = "min_u64 (limit - off) REBUILD_CHUNK"
    have k: "?k < 2 ^ 64" by (simp add: const)
    obtain s1 where rd: "stripe_read_raw os src off ?k s = (True, read_bytes (disk_content src s) off ?k, s1)"
      "s1 = s \<or> s1 = update_disk src (stripe_io_ok True) (tick s)"
      using stripe_read_raw_good [OF "1.prems"(1,2) k] by blast
    have g1: "disk_good src s1" using rd(2) "1.prems"(2) update_io_ok_good by blast
    have h1: "s_heap s1 repl = s_heap s repl" using rd(2) "1.prems"(4) by (auto simp: update_disk_def tick_def)
    then have g2: "disk_good repl s1" using "1.prems"(3) disk_good_heap by blast
    have "length (read_bytes (disk_content src s) off ?k) < 2 ^ 64" using k by simp
    from stripe_write_raw_good [OF "1.prems"(1) g2 this, of off]
    obtain s2 where wr: "stripe_write_raw os repl off (read_bytes (disk_content src s) off ?k) s1 = (True, s2)"
      "disk_good repl s2" "\<forall>d'. d' \<noteq> repl \<longrightarrow> s_heap s2 d' = s_heap s1 d'"
      "d_handle (s_heap s2 repl) = d_handle (s_heap s1 repl)" by blast
    have "disk_good src s2" using g1 wr(3) "1.prems"(4) disk_good_heap by metis
    from "1.IH" [OF True refl rd(1) [symmetric] refl _ wr(1) [symmetric] _ "1.prems"(1) this wr(2) "1.prems"(4)]
    show ?thesis using True rd(1) wr(1,4) h1
      by (simp add: rebuild_loop.simps [of os src repl limit off s] Let_def)
  qed
qed

text \<open>Replacing an element changes a count by what goes and what comes.\<close>

lemma filter_update_count:
  "i < length xs \<Longrightarrow> length (filter P (xs[i := x])) + of_bool (P (xs ! i)) = length (filter P xs) + of_bool (P x)"
proof (induction xs arbitrary: i)
  case (Cons y ys)
  then show ?case by (cases i) auto
qed simp

lemma filter_count_drop:
  "distinct xs \<Longrightarrow> d \<in> set xs \<Longrightarrow>
   length (filter (\<lambda>x. x \<noteq> d \<and> P x) xs) + of_bool (P d) = length (filter P xs)"
proof (cases "P d")
  case False
  then have "filter (\<lambda>x. x \<noteq> d \<and> P x) xs = filter P xs" by (intro filter_cong) auto
  then show ?thesis using False by simp
qed (simp add: filter_drop)

lemma disk_content_update_healthy [simp]:
  "disk_content e (update_disk d (set_healthy h) s) = disk_content e s"
  by (simp add: disk_content_def update_disk_def set_healthy_def split: option.split HANDLE.split)

lemma disk_content_tick [simp]: "disk_content e (tick s) = disk_content e s"
  by (simp add: disk_content_def tick_def split: option.split HANDLE.split)

lemma update_healthy_fields [simp]:
  "d_ram_buffer (s_heap (update_disk d (set_healthy h) s) e) = d_ram_buffer (s_heap s e)"
  "d_handle (s_heap (update_disk d (set_healthy h) s) e) = d_handle (s_heap s e)"
  "d_pool_bytes (s_heap (update_disk d (set_healthy h) s) e) = d_pool_bytes (s_heap s e)"
  "d_healthy (s_heap (update_disk d (set_healthy h) s) e) = (if e = d then h else d_healthy (s_heap s e))"
  by (simp_all add: update_disk_def set_healthy_def)

lemma flush_file_facts:
  "flush_file os h s = (ok, s') \<Longrightarrow> s_heap s' = s_heap (s :: sys) \<and> w_media s' = w_media s"
  by (auto simp: flush_file_def split: HANDLE.splits)

lemma rebuild_source_Some:
  assumes "rebuild_source vol idx s = Some i"
  shows "i < v_disk_count vol \<and> i \<noteq> idx \<and> is_healthy s (vdisk vol i)"
  using assms by (auto simp: rebuild_source_def find_Some_iff)

lemma rebuild_source_None:
  "rebuild_source vol idx s = None \<longleftrightarrow> (\<forall>i < v_disk_count vol. i \<noteq> idx \<longrightarrow> \<not> is_healthy s (vdisk vol i))"
  by (auto simp: rebuild_source_def find_None_iff)

lemma disk_ptrs_nth [simp]: "i < v_disk_count vol \<Longrightarrow> disk_ptrs vol ! i = vdisk vol i"
  "length (disk_ptrs vol) = v_disk_count vol"
  by (simp_all add: disk_ptrs_def)

lemma disk_ptrs_update:
  assumes "i < v_disk_count vol" "v_disk_count vol \<le> length (v_disks vol)"
  shows "disk_ptrs (vol\<lparr>v_disks := (v_disks vol)[i := Some d], v_healthy_count := k\<rparr>) = (disk_ptrs vol)[i := d]"
  using assms by (intro nth_equalityI) (auto simp: disk_ptrs_def vdisk_def nth_list_update)

section \<open>Members that are all in order\<close>

text \<open>What a write on a working system leaves alone.\<close>

definition same_drives :: "sys \<Rightarrow> sys \<Rightarrow> bool" where
  "same_drives s s' \<longleftrightarrow> (\<forall>d. d_handle (s_heap s' d) = d_handle (s_heap s d) \<and> d_ram_buffer (s_heap s' d) = d_ram_buffer (s_heap s d) \<and>
     d_healthy (s_heap s' d) = d_healthy (s_heap s d) \<and> d_faulty (s_heap s' d) = d_faulty (s_heap s d) \<and>
     d_drive_letter (s_heap s' d) = d_drive_letter (s_heap s d))"

lemma same_drives_heap [intro]: "s_heap s' = s_heap s \<Longrightarrow> same_drives s s'"
  by (simp add: same_drives_def)

lemma same_drives_trans: "same_drives s t \<Longrightarrow> same_drives t u \<Longrightarrow> same_drives s u"
  by (simp add: same_drives_def)

definition member_files :: "ptr list \<Rightarrow> sys \<Rightarrow> string set" where
  "member_files ds s = {p. \<exists>d \<in> set ds. d_handle (s_heap s d) = FILE_HANDLE p}"

lemma same_drives_files: "same_drives s s' \<Longrightarrow> member_files ds s' = member_files ds s"
  by (simp add: same_drives_def member_files_def)

text \<open>Members that are all in order: healthy, without a fault, each with an open file of its own.\<close>

definition in_order :: "ptr list \<Rightarrow> sys \<Rightarrow> bool" where
  "in_order ds s \<longleftrightarrow> own_files (set ds) s \<and> (\<forall>d \<in> set ds. d_healthy (s_heap s d) = 1 \<and> d_faulty (s_heap s d) = 0)"

lemma same_drives_in_order: "same_drives s s' \<Longrightarrow> in_order ds s' = in_order ds s"
  by (simp add: same_drives_def in_order_def own_files_def)

lemma raw_write_all_good:
  assumes good: "all_good os" and d: "d_ram_buffer (s_heap s d) = None" "d_handle (s_heap s d) = FILE_HANDLE p" "d_faulty (s_heap s d) = 0"
    and len: "length bs < 2 ^ 64"
  shows "\<exists>s'. stripe_write_raw os d off bs s = (True, s') \<and> same_drives s s' \<and> w_files s' = w_files s \<and>
    w_media s' = (w_media s)(p := write_bytes (w_media s p) off bs)"
  using assms by (simp add: stripe_write_raw_def dev_write_def Let_def update_disk_def same_drives_def stripe_io_ok_def)

lemma mirror_loop_all_good:
  assumes good: "all_good os" and ds: "distinct ds" "in_order ds s" and len: "length bs < 2 ^ 64"
  shows "\<exists>s'. mirror_write_loop os off bs ds (vol, s) = (ds \<noteq> [], vol, s') \<and> same_drives s s' \<and> w_files s' = w_files s \<and>
    w_media s' = (\<lambda>p. if p \<in> member_files ds s then write_bytes (w_media s p) off bs else w_media s p)"
  using ds
proof (induction ds arbitrary: s)
  case Nil
  then show ?case by (simp add: member_files_def same_drives_heap)
next
  case (Cons d ds)
  have own: "own_files (set (d # ds)) s" using Cons.prems(2) by (simp add: in_order_def)
  then obtain p where p: "d_ram_buffer (s_heap s d) = None" "d_handle (s_heap s d) = FILE_HANDLE p"
    by (meson list.set_intros(1) own_content)
  have h: "is_healthy s d" "d_faulty (s_heap s d) = 0" using Cons.prems(2) by (simp_all add: in_order_def is_healthy_def)
  obtain s1 where W: "stripe_write_raw os d off bs s = (True, s1)" "same_drives s s1" "w_files s1 = w_files s"
    "w_media s1 = (w_media s)(p := write_bytes (w_media s p) off bs)"
    using raw_write_all_good [OF good p h(2) len] by blast
  have "in_order ds s" using Cons.prems(2) own_files_mono [OF _ own, of "set ds"] by (auto simp: in_order_def)
  then have "in_order ds s1" using same_drives_in_order [OF W(2)] by simp
  from Cons.IH [OF _ this] Cons.prems(1) obtain s2 where R: "mirror_write_loop os off bs ds (vol, s1) = (ds \<noteq> [], vol, s2)"
    "same_drives s1 s2" "w_files s2 = w_files s1"
    "w_media s2 = (\<lambda>p. if p \<in> member_files ds s1 then write_bytes (w_media s1 p) off bs else w_media s1 p)" by auto
  have mf: "member_files ds s1 = member_files ds s" by (rule same_drives_files [OF W(2)])
  have notin: "p \<notin> member_files ds s1"
  proof
    assume "p \<in> member_files ds s1"
    then obtain e where "e \<in> set ds" "d_handle (s_heap s e) = d_handle (s_heap s d)"
      using p(2) unfolding mf by (auto simp: member_files_def)
    then have "e = d" using own unfolding own_files_def by (meson list.set_intros)
    then show False using Cons.prems(1) \<open>e \<in> set ds\<close> by simp
  qed
  have "member_files (d # ds) s = insert p (member_files ds s1)"
    using p(2) unfolding mf by (auto simp: member_files_def)
  then have "w_media s2 = (\<lambda>q. if q \<in> member_files (d # ds) s then write_bytes (w_media s q) off bs else w_media s q)"
    using notin unfolding R(4) W(4) by (intro ext) auto
  moreover have "mirror_write_loop os off bs (d # ds) (vol, s) = (True, vol, s2)" using h W(1) R(1) by simp
  ultimately show ?case using W(3) R(3) same_drives_trans [OF W(2) R(2)] by (intro exI [of _ s2]) simp
qed

section \<open>Properties\<close>

text \<open>A mirror of two open disks, for the witnesses; its bytes are all zero.\<close>

definition two_mirror :: STRIPE_VOLUME where
  "two_mirror = zero_volume\<lparr>v_raid_level := RAID_LEVEL_MIRROR, v_disk_count := 2,
     v_disks := [Some 0, Some 1, None, None], v_virtual_total_bytes := 1024,
     v_stripe_unit := SECTOR_SIZE, v_healthy_count := 2\<rparr>"

lemma two_mirror_fields [simp]:
  "v_virtual_total_bytes two_mirror = 1024" "v_disk_count two_mirror = 2" "\<not> v_cache_enabled two_mirror"
  "disk_ptrs two_mirror = [0, 1]" "CHECK_DISKS two_mirror" "v_healthy_count two_mirror = 2"
  by (simp_all add: two_mirror_def zero_volume_def disk_ptrs_def vdisk_def CHECK_DISKS_def upt_rec)

lemma two_mirror_ok: "mirror_inv two_mirror two_disk_system" "mirror_sync two_mirror two_disk_system (\<lambda>_. 0)"
proof -
  show "mirror_inv two_mirror two_disk_system"
    unfolding mirror_inv_def health_ok_def own_files_def two_mirror_fields
    by (simp add: two_disk_system_def is_healthy_def zero_disk_def)
  show "mirror_sync two_mirror two_disk_system (\<lambda>_. 0)"
    unfolding mirror_sync_def holds_def two_mirror_fields
    by (simp add: two_disk_system_def disk_content_def zero_disk_def)
qed

lemma mirror_write_sync:
  assumes "mirror_inv vol s" "mirror_sync vol s c" "\<not> v_cache_enabled vol" "CHECK_DISKS vol"
    and "bs \<noteq> []" "off + length bs \<le> v_virtual_total_bytes vol" "v_virtual_total_bytes vol < 2 ^ 64"
    and "mirror_volume_write os vol bs off s = (r, vol', s')"
  shows "mirror_inv vol' s' \<and> mirror_sync vol' s' (write_bytes c off bs) \<and>
    (\<not> r \<longrightarrow> (\<forall>d \<in> set (disk_ptrs vol). \<not> is_healthy s' d)) \<and>
    (all_good os \<longrightarrow> (\<exists>d \<in> set (disk_ptrs vol). is_healthy s d \<and> d_faulty (s_heap s d) = 0) \<longrightarrow> r)"
proof -
  have guard: "\<not> (v_virtual_total_bytes vol < length bs \<or> v_virtual_total_bytes vol - length bs < off)"
    using assms(6) by auto
  obtain q w s1 where run: "mirror_write_loop os off bs (disk_ptrs vol) (vol, s) = (q, w, s1)"
    by (metis prod_cases3)
  then have res: "r = q" "vol' = (if q then add_bytes_written (length bs) w else w)" "s' = s1"
    using assms(3-5,8) guard by (auto simp: mirror_volume_write_def mirror_write_to_all_def Let_def)
  have "distinct (disk_ptrs vol)" using assms(1) by (simp add: mirror_inv_def)
  from mirror_write_loop_sound [OF assms(1) this subset_refl _ _ run, of c] assms(2)
  have L: "mirror_inv w s1" "mirror_sync w s1 (write_bytes c off bs)"
    "\<not> q \<longrightarrow> (\<forall>d \<in> set (disk_ptrs vol). \<not> is_healthy s1 d)" by (auto simp: mirror_sync_def)
  have sm: "same_mirror w vol'" "v_healthy_count vol' = v_healthy_count w" using res by simp_all
  have "mirror_inv vol' s1" by (rule mirror_inv_same [OF L(1) _ sm]) (simp add: same_disks_def)
  moreover have "mirror_sync vol' s1 (write_bytes c off bs)"
    using L(2) same_mirror_ptrs [OF sm(1)] sm(1) by (simp add: mirror_sync_def same_mirror_def)
  moreover have "q" if t: "all_good os" "d \<in> set (disk_ptrs vol)" "is_healthy s d" "d_faulty (s_heap s d) = 0" for d
  proof -
    have own: "own_files (set (disk_ptrs vol)) s" using assms(1) by (simp add: mirror_inv_def)
    then obtain p where p: "d_ram_buffer (s_heap s d) = None" "d_handle (s_heap s d) = FILE_HANDLE p"
      using own_content t(2) by metis
    have "length bs < 2 ^ 64" using assms(6,7) by linarith
    then have "fst (mirror_write_loop os off bs (disk_ptrs vol) (vol, s))"
      using mirror_write_loop_live [OF t(1) _ t(2), of bs "(vol, s)" p off] t(3,4) p own
      by (simp add: own_files_def)
    then show ?thesis by (simp add: run)
  qed
  ultimately show ?thesis using L(3) res by blast
qed

text \<open>
  C17. On a mirrored volume without a cache, whose healthy members agree, a read inside the volume
  implements the read of an abstract disk whatever the calls of the disks answer: a successful
  read returns the content common to the healthy members, a failed one leaves no member healthy,
  it succeeds when the system works and one healthy member is not faulty, and members are only
  dropped, never changed. (With a cache a read that misses takes another path, which is a
  finding.)
\<close>

theorem mirror_read_correct:
  assumes "mirror_inv vol s" "mirror_sync vol s c" "\<not> v_cache_enabled vol" "CHECK_DISKS vol"
    and "0 < n" "off + n \<le> v_virtual_total_bytes vol" "v_virtual_total_bytes vol < 2 ^ 64"
    and "mirror_volume_read os vol off n s = (r, bs, vol', s')"
  shows "mirror_inv vol' s' \<and> mirror_sync vol' s' c \<and>
    (r \<longrightarrow> bs = read_bytes c off n) \<and>
    (\<not> r \<longrightarrow> (\<forall>d \<in> set (disk_ptrs vol). \<not> is_healthy s' d)) \<and>
    (all_good os \<longrightarrow> (\<exists>d \<in> set (disk_ptrs vol). is_healthy s d \<and> d_faulty (s_heap s d) = 0) \<longrightarrow> r)"
proof -
  have guard: "\<not> (v_virtual_total_bytes vol < n \<or> v_virtual_total_bytes vol - n < off)" using assms(6) by auto
  show ?thesis
  proof (cases "filter (is_healthy s) (disk_ptrs vol) = []")
    case True
    then have "(r, bs, vol', s') = (False, [], vol, s)"
      using assms(3-5,8) guard by (simp add: mirror_volume_read_def)
    then show ?thesis using assms(1,2) True by (auto simp: filter_empty_conv)
  next
    case False
    then have run: "mirror_read_loop os off n (disk_ptrs vol) (vol, s) = (r, bs, vol', s')"
      using assms(3-5,8) guard by (simp add: mirror_volume_read_def)
    note L = mirror_read_loop_sound [OF assms(1,2) subset_refl assms(6) run]
    have live: "r" if t: "all_good os" "d \<in> set (disk_ptrs vol)" "is_healthy s d" "d_faulty (s_heap s d) = 0" for d
    proof -
      have own: "own_files (set (disk_ptrs vol)) s" using assms(1) by (simp add: mirror_inv_def)
      then obtain p where p: "d_ram_buffer (s_heap s d) = None" "d_handle (s_heap s d) = FILE_HANDLE p"
        using own_content t(2) by metis
      have "n < 2 ^ 64" using assms(6,7) by linarith
      then have "fst (mirror_read_loop os off n (disk_ptrs vol) (vol, s))"
        using mirror_read_loop_live [OF t(1) _ t(2), of n "(vol, s)" p off] t(3,4) p own
        by (simp add: own_files_def)
      then show ?thesis by (simp add: run)
    qed
    show ?thesis using L live by (auto split: if_splits)
  qed
qed

theorem mirror_read_correct_witness:
  "\<exists>vol' s'. mirror_volume_read os_good two_mirror 5 3 two_disk_system =
    (True, read_bytes (\<lambda>_. 0) 5 3, vol', s')"
proof -
  obtain r bs vol' s' where R: "mirror_volume_read os_good two_mirror 5 3 two_disk_system = (r, bs, vol', s')"
    by (metis prod_cases4)
  have "is_healthy two_disk_system 0" "d_faulty (s_heap two_disk_system 0) = 0"
    by (simp_all add: two_disk_system_def is_healthy_def zero_disk_def)
  then show ?thesis
    using mirror_read_correct [OF two_mirror_ok _ _ _ _ _ R] R all_good_os_good by auto
qed

text \<open>
  C16. On a mirrored volume without a cache, whose healthy members agree, a write inside the
  volume implements the write of an abstract disk whatever the calls of the disks answer: every
  member that is still healthy afterwards holds the updated content, the call fails only when no
  member is left, and it succeeds when the system works and one healthy member is not faulty.
\<close>

theorem mirror_write_correct:
  assumes "mirror_inv vol s" "mirror_sync vol s c" "\<not> v_cache_enabled vol" "CHECK_DISKS vol"
    and "bs \<noteq> []" "off + length bs \<le> v_virtual_total_bytes vol" "v_virtual_total_bytes vol < 2 ^ 64"
    and "mirror_volume_write os vol bs off s = (r, vol', s')"
  shows "mirror_inv vol' s' \<and> mirror_sync vol' s' (write_bytes c off bs) \<and>
    (\<not> r \<longrightarrow> (\<forall>d \<in> set (disk_ptrs vol). \<not> is_healthy s' d)) \<and>
    (all_good os \<longrightarrow> (\<exists>d \<in> set (disk_ptrs vol). is_healthy s d \<and> d_faulty (s_heap s d) = 0) \<longrightarrow> r)"
  by (rule mirror_write_sync [OF assms])

theorem mirror_write_correct_witness:
  "\<exists>vol' s'. mirror_volume_write os_good two_mirror [7] 5 two_disk_system = (True, vol', s') \<and>
    mirror_sync vol' s' (write_bytes (\<lambda>_. 0) 5 [7])"
proof -
  obtain r vol' s' where R: "mirror_volume_write os_good two_mirror [7] 5 two_disk_system = (r, vol', s')"
    by (metis prod_cases3)
  have "is_healthy two_disk_system 0" "d_faulty (s_heap two_disk_system 0) = 0"
    by (simp_all add: two_disk_system_def is_healthy_def zero_disk_def)
  then show ?thesis using mirror_write_correct [OF two_mirror_ok _ _ _ _ _ R] R all_good_os_good by auto
qed

text \<open>The volume after a rebuild that succeeded.\<close>

lemma mirror_replace:
  assumes inv: "mirror_inv vol s" and sync: "mirror_sync vol s c" and idx: "idx < v_disk_count vol"
    and len: "v_disk_count vol \<le> length (v_disks vol)" and new: "repl \<notin> set (disk_ptrs vol)"
    and own: "own_files (insert repl (set (disk_ptrs vol))) s'"
    and old: "\<not> is_healthy s' (vdisk vol idx)" and good: "d_healthy (s_heap s' repl) = 1"
    and others: "\<forall>e \<in> set (disk_ptrs vol). e \<noteq> vdisk vol idx \<longrightarrow> d_healthy (s_heap s' e) = d_healthy (s_heap s e)"
    and keep: "\<forall>e \<in> set (disk_ptrs vol). disk_content e s' = disk_content e s"
    and copied: "\<forall>x < v_virtual_total_bytes vol. disk_content repl s' x = c x"
    and vol': "vol' = vol\<lparr>v_disks := (v_disks vol)[idx := Some repl],
      v_healthy_count := v_healthy_count vol - of_bool (is_healthy s (vdisk vol idx)) + 1\<rparr>"
  shows "mirror_inv vol' s' \<and> mirror_sync vol' s' c"
proof -
  let ?old = "vdisk vol idx" and ?ps = "disk_ptrs vol"
  have ps: "disk_ptrs vol' = ?ps[idx := repl]" unfolding vol' by (rule disk_ptrs_update [OF idx len])
  have at: "?ps ! idx = ?old" "?old \<in> set ?ps" using idx by (auto simp: in_set_conv_nth)
  have dist: "distinct ?ps" using inv by (simp add: mirror_inv_def)
  have set: "set (disk_ptrs vol') = insert repl (set ?ps - {?old})"
    unfolding ps using dist idx at(1) by (simp add: set_update_distinct)
  have "length (filter (is_healthy s') ?ps) = length (filter (\<lambda>x. x \<noteq> ?old \<and> is_healthy s x) ?ps)"
    using old others by (intro arg_cong [of _ _ length] filter_cong) (auto simp: is_healthy_def)
  then have "length (filter (is_healthy s') (disk_ptrs vol')) + of_bool (is_healthy s ?old) =
      length (filter (is_healthy s) ?ps) + 1"
    using filter_update_count [of idx ?ps "is_healthy s'" repl] idx at(1) old good
      filter_count_drop [OF dist at(2), of "is_healthy s"]
    by (simp add: ps is_healthy_def)
  moreover have "v_healthy_count vol = int (length (filter (is_healthy s) ?ps))"
    using inv by (simp add: mirror_inv_def health_ok_def)
  ultimately have "v_healthy_count vol' = int (length (filter (is_healthy s') (disk_ptrs vol')))"
    unfolding vol' by auto
  moreover have "\<forall>e \<in> set (disk_ptrs vol'). d_healthy (s_heap s' e) \<in> {0, 1}"
    using inv others good unfolding set mirror_inv_def health_ok_def by auto
  moreover have "distinct (disk_ptrs vol')" unfolding ps using dist new by (intro distinct_list_update) auto
  moreover have "own_files (set (disk_ptrs vol')) s'" unfolding set by (rule own_files_mono [OF _ own]) auto
  ultimately have "mirror_inv vol' s'" by (simp add: mirror_inv_def health_ok_def)
  moreover have "mirror_sync vol' s' c"
    unfolding mirror_sync_def set holds_def
  proof (intro ballI impI allI)
    fix d x assume d: "d \<in> insert repl (set ?ps - {?old})" "is_healthy s' d" "x < v_virtual_total_bytes vol'"
    show "disk_content d s' x = c x"
    proof (cases "d = repl")
      case True
      then show ?thesis using copied d(3) by (simp add: vol')
    next
      case False
      then have "d \<in> set ?ps" "d \<noteq> ?old" using d(1) by auto
      then have "disk_content d s x = c x"
        using sync others d(2,3) by (auto simp: mirror_sync_def holds_def is_healthy_def vol')
      then show ?thesis using keep \<open>d \<in> set ?ps\<close> by simp
    qed
  qed
  ultimately show ?thesis by blast
qed

text \<open>
  C15. Rebuilding a mirror member on any outcome of the disk calls keeps the mirror in sync: on
  success the replacement takes the index and is healthy, on failure the volume and the health of
  its disks are unchanged; it fails when no other member is healthy, and succeeds on working disks
  otherwise.
\<close>

theorem mirror_rebuild_correct:
  assumes inv: "mirror_inv vol s" and sync: "mirror_sync vol s c" and checked: "CHECK_DISKS vol"
    and idx: "idx < v_disk_count vol" and pos: "0 < v_virtual_total_bytes vol"
    and len: "v_disk_count vol \<le> length (v_disks vol)"
    and new: "repl \<notin> set (disk_ptrs vol)" and own: "own_files (insert repl (set (disk_ptrs vol))) s"
    and run: "mirror_volume_rebuild os vol repl idx s = (r, vol', s')"
  shows "mirror_inv vol' s' \<and> mirror_sync vol' s' c \<and>
    (r \<longrightarrow> disk_ptrs vol' = (disk_ptrs vol)[idx := repl] \<and> is_healthy s' repl) \<and>
    (\<not> r \<longrightarrow> vol' = vol \<and> (\<forall>d \<in> set (disk_ptrs vol). is_healthy s' d = is_healthy s d)) \<and>
    ((\<forall>i < v_disk_count vol. i \<noteq> idx \<longrightarrow> \<not> is_healthy s (vdisk vol i)) \<longrightarrow> \<not> r) \<and>
    (all_good os \<longrightarrow> (\<forall>d \<in> insert repl (set (disk_ptrs vol)). disk_good d s) \<longrightarrow>
      (\<exists>i < v_disk_count vol. i \<noteq> idx \<and> is_healthy s (vdisk vol i)) \<longrightarrow> r)"
proof (cases "rebuild_source vol idx s")
  case None
  then have "(r, vol', s') = (False, vol, s)"
    using run checked idx pos by (simp add: mirror_volume_rebuild_def)
  then show ?thesis using inv sync None unfolding rebuild_source_None by auto
next
  case (Some i)
  let ?old = "vdisk vol idx" and ?src = "vdisk vol i" and ?D = "insert repl (set (disk_ptrs vol))"
  let ?was = "d_healthy (s_heap s ?old)"
  let ?s1 = "tick (update_disk ?old (set_healthy 0) s)"
  note src = rebuild_source_Some [OF Some]
  have mem: "?src \<in> set (disk_ptrs vol)" "?old \<in> set (disk_ptrs vol)"
    using src idx by (auto simp: disk_ptrs_def)
  have live: "(sys_ok os (update_disk ?old (set_healthy 0) s) \<and> ok \<and> fl)"
    if t: "all_good os" "\<forall>d \<in> ?D. disk_good d s" "rebuild_loop os ?src repl (v_virtual_total_bytes vol) 0 ?s1 = (ok, s2)"
      "flush_file os (d_handle (s_heap s2 repl)) s2 = (fl, s3)" for ok s2 fl s3
  proof -
    have g: "disk_good d ?s1 = disk_good d s" for d by (simp add: disk_good_def update_disk_def set_healthy_def)
    have "?src \<noteq> repl" using mem new by blast
    from rebuild_loop_live [OF t(1) _ _ this, of ?s1 "v_virtual_total_bytes vol" 0]
    have "ok \<and> d_handle (s_heap s2 repl) = d_handle (s_heap ?s1 repl)" using t(2,3) mem by (simp add: g)
    moreover obtain p where "d_handle (s_heap s repl) = FILE_HANDLE p" using own by (auto simp: own_files_def)
    ultimately show ?thesis using t(1,4) by (simp add: flush_file_def)
  qed
  have undone: "vol' = vol \<and> s' = update_disk ?old (set_healthy ?was) s2 \<and> \<not> r \<Longrightarrow>
      \<not> (all_good os \<and> (\<forall>d \<in> ?D. disk_good d s)) \<Longrightarrow> same_disks ?D ?s1 s2 \<Longrightarrow> (\<forall>e \<in> ?D. e \<noteq> repl \<longrightarrow> disk_content e s2 = disk_content e ?s1) \<Longrightarrow> ?thesis" for s2
  proof -
    assume u: "vol' = vol \<and> s' = update_disk ?old (set_healthy ?was) s2 \<and> \<not> r"
      and ng: "\<not> (all_good os \<and> (\<forall>d \<in> ?D. disk_good d s))"
      and sd: "same_disks ?D ?s1 s2" and ct: "\<forall>e \<in> ?D. e \<noteq> repl \<longrightarrow> disk_content e s2 = disk_content e ?s1"
    have sd': "same_disks (set (disk_ptrs vol)) s s'" using sd u by (simp add: same_disks_def)
    have "mirror_inv vol s'" by (rule mirror_inv_same [OF inv sd']) simp_all
    moreover have "mirror_sync vol s' c"
      using sync u ct new is_healthy_same [OF sd'] unfolding mirror_sync_def holds_def
      by (metis disk_content_update_healthy insertCI disk_content_tick)
    ultimately show ?thesis using u is_healthy_same [OF sd'] src ng by blast
  qed
  obtain ok s2 where loop: "rebuild_loop os ?src repl (v_virtual_total_bytes vol) 0 ?s1 = (ok, s2)" by fastforce
  obtain fl s3 where flush: "flush_file os (d_handle (s_heap s2 repl)) s2 = (fl, s3)" by fastforce
  have ne: "?src \<noteq> repl" using mem new by blast
  have own1: "own_files ?D ?s1" using own by (simp add: own_files_def)
  note L = rebuild_loop_sound [OF own1 insertI2 [OF mem(1)] insertI1 ne le0 _ loop]
  note F = flush_file_facts [OF flush]
  have sd2: "same_disks ?D ?s1 s2" and ct2: "\<forall>e \<in> ?D. e \<noteq> repl \<longrightarrow> disk_content e s2 = disk_content e ?s1"
    using L by simp_all
  have sd3: "same_disks ?D ?s1 s3" and ct3: "\<forall>e. disk_content e s3 = disk_content e s2"
    using F sd2 by (simp_all add: same_disks_def disk_content_def split: option.split HANDLE.split)
  have guards: "\<not> v_disk_count vol \<le> idx" "v_virtual_total_bytes vol \<noteq> 0" using idx pos by auto
  note R = run [unfolded mirror_volume_rebuild_def Let_def, simplified guards checked Some loop flush, simplified]
  show ?thesis
  proof (cases "sys_ok os (update_disk ?old (set_healthy 0) s) \<and> ok \<and> fl")
    case False
    then have ng: "\<not> (all_good os \<and> (\<forall>d \<in> ?D. disk_good d s))" using live [OF _ _ loop flush] by blast
    show ?thesis
    proof (cases "sys_ok os (update_disk ?old (set_healthy 0) s)")
      case False
      then show ?thesis using R by (intro undone [OF _ ng, of ?s1]) (auto simp: same_disks_def)
    next
      case True
      show ?thesis
      proof (cases ok)
        case False
        then show ?thesis using True R loop by (intro undone [OF _ ng sd2 ct2]) auto
      next
        case ok: True
        then show ?thesis using \<open>\<not> (_ \<and> ok \<and> fl)\<close> True R loop flush ct2 ct3 by (intro undone [OF _ ng sd3]) auto
      qed
    qed
  next
    case True
    then have res: "r" "s' = update_disk repl (set_healthy 1) s3"
      "vol' = vol\<lparr>v_disks := (v_disks vol)[idx := Some repl],
         v_healthy_count := v_healthy_count vol - of_bool (is_healthy s ?old) + 1\<rparr>"
      using R loop flush by (auto simp: is_healthy_def)
    have oldne: "?old \<noteq> repl" using mem new by blast
    have cp: "\<forall>x < v_virtual_total_bytes vol. disk_content repl s' x = c x"
    proof (intro allI impI)
      fix x assume x: "x < v_virtual_total_bytes vol"
      have "disk_content repl s' x = disk_content ?src s x" using True L x ct3 by (simp add: res(2))
      also have "\<dots> = c x" using sync mem(1) src x by (simp add: mirror_sync_def holds_def)
      finally show "disk_content repl s' x = c x" .
    qed
    have "own_files ?D s3" by (rule same_disks_own [OF sd3 own1])
    then have own': "own_files ?D s'" unfolding res(2) by (simp add: own_files_def)
    have h: "\<forall>e \<in> set (disk_ptrs vol). d_healthy (s_heap s' e) = (if e = ?old then 0 else d_healthy (s_heap s e))"
      using sd3 new unfolding res(2) same_disks_def by auto
    have keep: "\<forall>e \<in> set (disk_ptrs vol). disk_content e s' = disk_content e s"
      using ct2 ct3 new unfolding res(2) by auto
    have "mirror_inv vol' s' \<and> mirror_sync vol' s' c"
      using h mem(2) by (intro mirror_replace [OF inv sync idx len new own' _ _ _ keep cp res(3)])
        (auto simp: is_healthy_def res(2))
    then show ?thesis using res disk_ptrs_update [OF idx len] src by (auto simp: is_healthy_def)
  qed
qed

text \<open>A third disk, for the rebuild.\<close>

definition three_disk_system :: sys where
  "three_disk_system = two_disk_system\<lparr>s_heap := (\<lambda>p. zero_disk\<lparr>
     d_handle := FILE_HANDLE (if p = 0 then ''a'' else if p = 1 then ''b'' else ''c''),
     d_pool_bytes := 1024, d_healthy := of_bool (p \<noteq> 1)\<rparr>)\<rparr>"

definition one_lost :: STRIPE_VOLUME where
  "one_lost = two_mirror\<lparr>v_healthy_count := 1\<rparr>"

lemma one_lost_ok: "mirror_inv one_lost three_disk_system" "mirror_sync one_lost three_disk_system (\<lambda>_. 0)"
  "own_files (insert 2 (set (disk_ptrs one_lost))) three_disk_system"
  "\<forall>d \<in> insert 2 (set (disk_ptrs one_lost)). disk_good d three_disk_system"
  "is_healthy three_disk_system (vdisk one_lost 0)"
proof -
  have p: "disk_ptrs one_lost = [0, 1]" unfolding one_lost_def by simp
  show "mirror_inv one_lost three_disk_system"
    unfolding mirror_inv_def health_ok_def own_files_def p
    by (simp add: three_disk_system_def is_healthy_def zero_disk_def one_lost_def)
  show "mirror_sync one_lost three_disk_system (\<lambda>_. 0)"
    unfolding mirror_sync_def holds_def p
    by (simp add: three_disk_system_def two_disk_system_def disk_content_def zero_disk_def)
  show "own_files (insert 2 (set (disk_ptrs one_lost))) three_disk_system"
    "\<forall>d \<in> insert 2 (set (disk_ptrs one_lost)). disk_good d three_disk_system"
    unfolding p by (simp_all add: own_files_def disk_good_def three_disk_system_def zero_disk_def)
  show "is_healthy three_disk_system (vdisk one_lost 0)"
    by (simp add: one_lost_def two_mirror_def vdisk_def is_healthy_def three_disk_system_def)
qed

lemma one_lost_fields [simp]:
  "v_virtual_total_bytes one_lost = 1024" "v_disk_count one_lost = 2" "CHECK_DISKS one_lost"
  "disk_ptrs one_lost = [0, 1]" "length (v_disks one_lost) = 4"
  unfolding one_lost_def by (simp_all, simp_all add: CHECK_DISKS_def two_mirror_def zero_volume_def upt_rec)

theorem mirror_rebuild_correct_witness:
  "\<exists>vol' s'. mirror_volume_rebuild os_good one_lost 2 1 three_disk_system = (True, vol', s') \<and>
    disk_ptrs vol' = [0, 2] \<and> mirror_sync vol' s' (\<lambda>_. 0)"
proof -
  obtain r vol' s' where R: "mirror_volume_rebuild os_good one_lost 2 1 three_disk_system = (r, vol', s')"
    by (metis prod_cases3)
  have "\<exists>i < v_disk_count one_lost. i \<noteq> 1 \<and> is_healthy three_disk_system (vdisk one_lost i)"
    using one_lost_ok(5) by (intro exI [of _ 0]) simp
  then show ?thesis
    using mirror_rebuild_correct [OF one_lost_ok(1,2) _ _ _ _ _ one_lost_ok(3) R] one_lost_ok(4) R all_good_os_good
    by auto
qed

lemma Min_insert_min: "finite S \<Longrightarrow> Min (insert (min x a) S) = Min (insert a (insert x (S :: nat set)))"
  by (cases "S = {}") (simp_all add: min.assoc min.left_commute)

lemma foldl_min:
  "foldl (\<lambda>m d. if f d < m then f d else m) (a :: nat) ds = Min (insert a (f ` set ds))"
proof (induction ds arbitrary: a)
  case (Cons d ds)
  have "(if f d < a then f d else a) = min (f d) a" by (simp add: min_def)
  then show ?case using Min_insert_min [of "f ` set ds" "f d" a] by (simp add: Cons.IH)
qed simp

lemma set_healthy_all:
  "s_heap (foldl (\<lambda>s d. update_disk d (set_healthy h) s) s ds) e =
   (if e \<in> set ds then set_healthy h (s_heap s e) else s_heap s e) \<and>
   w_media (foldl (\<lambda>s d. update_disk d (set_healthy h) s) s ds) = w_media s"
  by (induction ds arbitrary: s) (auto simp: update_disk_def set_healthy_def)

theorem mirror_create_correct:
  assumes "2 \<le> length disks" "length disks \<le> 4" "distinct disks" "own_files (set disks) s"
    and "\<forall>d \<in> set disks. d_pool_bytes (s_heap s d) < 2 ^ 64"
  shows "\<exists>vol s'. mirror_volume_create now vol0 disks s = (True, vol, s') \<and>
    disk_ptrs vol = disks \<and> CHECK_DISKS vol \<and> mirror_inv vol s' \<and>
    v_healthy_count vol = int (length disks) \<and> 512 dvd v_virtual_total_bytes vol \<and>
    (\<forall>d \<in> set disks. v_virtual_total_bytes vol \<le> d_pool_bytes (s_heap s d)) \<and>
    (\<exists>d \<in> set disks. d_pool_bytes (s_heap s d) < v_virtual_total_bytes vol + 512)"
proof -
  let ?s' = "foldl (\<lambda>s d. update_disk d (set_healthy 1) s) s disks"
  let ?pool = "\<lambda>d. d_pool_bytes (s_heap s d)"
  let ?least = "Min (insert (2 ^ 64 - 1) (?pool ` set disks))"
  obtain vol where vol_def: "vol = zero_volume\<lparr>v_raid_level := RAID_LEVEL_MIRROR, v_disk_count := length disks,
      v_disks := fill (map Some disks) (v_disks zero_volume),
      v_virtual_total_bytes := ?least - ?least mod SECTOR_SIZE, v_stripe_unit := SECTOR_SIZE, v_phase_count := 0,
      v_healthy_count := int (length disks), v_start_time := now\<rparr>" by blast
  have "\<not> (length disks < MIN_MIRROR_DISKS \<or> MAX_DISKS < length disks)" using assms(1,2) by (simp add: const)
  then have C: "mirror_volume_create now vol0 disks s = (True, vol, ?s')"
    unfolding mirror_volume_create_def Let_def foldl_min vol_def by simp
  have vol: "v_virtual_total_bytes vol = ?least - ?least mod 512" "v_disk_count vol = length disks"
    "v_disks vol = fill (map Some disks) (replicate 4 None)" "v_healthy_count vol = int (length disks)"
    unfolding vol_def by (simp_all add: zero_volume_def SECTOR_SIZE_def MAX_DISKS_def)
  have nth: "v_disks vol ! i = Some (disks ! i)" if "i < length disks" for i
    using that by (simp add: vol(3) fill_def nth_append)
  have len: "length disks \<le> length (v_disks vol)" by (simp add: vol(3) fill_def)
  have ptrs: "disk_ptrs vol = disks"
    unfolding disk_ptrs_def vdisk_def vol(2) by (intro nth_equalityI) (simp_all add: nth)
  have check: "CHECK_DISKS vol" using len by (auto simp: CHECK_DISKS_def list_all_iff vol(2) nth)
  have healthy: "filter (is_healthy ?s') disks = disks"
    by (simp add: filter_id_conv is_healthy_def set_healthy_all set_healthy_def)
  have inv: "mirror_inv vol ?s'"
    unfolding mirror_inv_def health_ok_def ptrs healthy vol(4)
    using assms(3,4) by (simp add: own_files_def set_healthy_all set_healthy_def)
  have ne: "?pool ` set disks \<noteq> {}" using assms(1) by auto
  then have "Min (?pool ` set disks) \<in> ?pool ` set disks" by (intro Min_in) auto
  then obtain d where d: "d \<in> set disks" "?pool d = Min (?pool ` set disks)" by auto
  have "Min (?pool ` set disks) \<le> 2 ^ 64 - 1" using assms(5) d by (metis Suc_pred' less_Suc_eq_le zero_less_numeral zero_less_power)
  moreover have "?least = min (2 ^ 64 - 1) (Min (?pool ` set disks))" by (rule Min_insert [OF finite_imageI [OF finite_set] ne])
  ultimately have least: "?least = Min (?pool ` set disks)" by (simp only: min_absorb2)
  have "?least - ?least mod 512 \<le> ?pool e" if "e \<in> set disks" for e
    using that least by (metis Min_le diff_le_self dual_order.trans finite_imageI finite_set image_eqI)
  moreover have "?pool d < ?least - ?least mod 512 + 512" using d(2) least by simp
  moreover have "512 dvd ?least - ?least mod 512" by (simp add: minus_mod_eq_mult_div)
  ultimately show ?thesis using C ptrs check inv vol(1,4) d(1) by (intro exI [of _ vol] exI [of _ ?s']) auto
qed

theorem mirror_create_correct_witness:
  "\<exists>vol s'. mirror_volume_create 0 zero_volume [0, 1] two_disk_system = (True, vol, s') \<and>
    disk_ptrs vol = [0, 1] \<and> mirror_inv vol s'"
proof -
  have "own_files (set [0, 1]) two_disk_system"
    "\<forall>d \<in> set [0, 1]. d_pool_bytes (s_heap two_disk_system d) < 2 ^ 64"
    by (simp_all add: own_files_def two_disk_system_def zero_disk_def)
  then show ?thesis using mirror_create_correct [of "[0, 1]" two_disk_system 0 zero_volume] by auto
qed

end
