(* ===== verification/Crc.thy ===== *)
theory Crc
  imports Prelude
begin

text \<open>
  The CRC-32 of \<^verbatim>\<open>src/src/crc32.c\<close>, which guards journal entries and superblocks: the table,
  the byte loop over it, the bit-serial definition the table stands for, and the errors the code
  detects. The table is filled on the first call; here it is a constant.
\<close>

section \<open>The code\<close>

definition CRC_POLY :: "32 word" where
  "CRC_POLY = 0xEDB88320"

text \<open>The body of the inner loop of \<^verbatim>\<open>crc32_init\<close>.\<close>

definition crc_bit :: "32 word \<Rightarrow> 32 word" where
  "crc_bit crc = drop_bit 1 crc XOR (if crc AND 1 \<noteq> 0 then CRC_POLY else 0)"

definition crc_table :: "32 word list" where
  "crc_table = map (\<lambda>i. (crc_bit ^^ 8) (of_nat i)) [0 ..< 256]"

definition crc_step :: "32 word \<Rightarrow> byte \<Rightarrow> 32 word" where
  "crc_step crc b = crc_table ! unat ((crc XOR ucast b) AND 0xFF) XOR drop_bit 8 crc"

definition crc32 :: "byte list \<Rightarrow> 32 word" where
  "crc32 data = foldl crc_step 0xFFFFFFFF data XOR 0xFFFFFFFF"

section \<open>The bit-serial definition\<close>

definition crc_serial :: "byte list \<Rightarrow> 32 word" where
  "crc_serial data = foldl (\<lambda>crc b. (crc_bit ^^ 8) (crc XOR ucast b)) 0xFFFFFFFF data XOR 0xFFFFFFFF"

lemma crc_bit_bit0: "crc_bit w = drop_bit 1 w XOR (if bit w 0 then CRC_POLY else 0)"
  by (simp add: crc_bit_def bit_0 odd_iff_mod_2_eq_one and_one_eq)

lemma crc_bit_xor: "crc_bit (a XOR b) = crc_bit a XOR crc_bit b"
  unfolding crc_bit_bit0 by (simp add: drop_bit_xor bit_xor_iff ac_simps)

lemma crc_bits_xor: "(crc_bit ^^ n) (a XOR b) = (crc_bit ^^ n) a XOR (crc_bit ^^ n) b"
  by (induction n) (simp_all add: crc_bit_xor)

lemma crc_bits_shift:
  "(\<forall>k < n. \<not> bit w k) \<Longrightarrow> (crc_bit ^^ n) w = drop_bit n w"
proof (induction n arbitrary: w)
  case (Suc n)
  have 0: "crc_bit w = drop_bit 1 w" using Suc.prems by (simp add: crc_bit_bit0)
  have "\<forall>k < n. \<not> bit (drop_bit 1 w) k" using Suc.prems by (simp add: bit_drop_bit_eq)
  then have "(crc_bit ^^ n) (drop_bit 1 w) = drop_bit n (drop_bit 1 w)" by (rule Suc.IH)
  then show ?case by (simp add: funpow_swap1 0 drop_bit_drop_bit funpow_Suc_right del: funpow.simps)
qed simp

lemma bit_FF: "bit (0xFF :: 32 word) n \<longleftrightarrow> n < 8"
proof -
  have "(0xFF :: 32 word) = mask 8" by (simp add: mask_eq_exp_minus_1)
  then show ?thesis using bit_mask_iff [of 8 n, where 'a = "32 word"] by auto
qed

lemma bit_word32: "bit (w :: 32 word) n \<Longrightarrow> n < 32"
  using bit_imp_le_length [of w n] by simp

lemma xor_cancel: "a XOR c = b XOR c \<Longrightarrow> a = b" for a b c :: "32 word"
  by (metis xor.assoc xor_self_eq xor.right_neutral)

lemma low_byte: "w = (w AND 0xFF) XOR push_bit 8 (drop_bit 8 w)" for w :: "32 word"
proof (rule bit_word_eqI)
  fix n assume "n < LENGTH(32)"
  then show "bit w n = bit ((w AND 0xFF) XOR push_bit 8 (drop_bit 8 w)) n"
    by (simp only: bit_xor_iff bit_and_iff bit_FF bit_push_bit_iff bit_drop_bit_eq comp_apply) (auto dest: bit_word32)
qed

lemma crc_bits_byte: "(crc_bit ^^ 8) w = (crc_bit ^^ 8) (w AND 0xFF) XOR drop_bit 8 w"
proof -
  have "(crc_bit ^^ 8) (push_bit 8 (drop_bit 8 w)) = drop_bit 8 (push_bit 8 (drop_bit 8 w))"
    by (rule crc_bits_shift) (simp add: bit_push_bit_iff)
  also have "\<dots> = drop_bit 8 w" by (rule bit_word_eqI) (auto simp: bit_simps dest: bit_word32)
  finally show ?thesis by (metis low_byte crc_bits_xor)
qed

lemma crc_table_nth: "unat i < 256 \<Longrightarrow> crc_table ! unat i = (crc_bit ^^ 8) (i :: 32 word)"
  by (simp add: crc_table_def)

lemma low_byte_small: "unat ((w :: 32 word) AND 0xFF) < 256"
proof -
  have "w AND 0xFF = take_bit 8 w" by (simp add: take_bit_eq_mask mask_eq_exp_minus_1)
  then have "unat (w AND 0xFF) = take_bit 8 (unat w)" by (simp add: unsigned_take_bit_eq)
  then show ?thesis by (simp add: take_bit_eq_mod)
qed

lemma crc_step_serial: "crc_step crc b = (crc_bit ^^ 8) (crc XOR ucast b)"
proof -
  have "drop_bit 8 (crc XOR ucast b :: 32 word) = drop_bit 8 crc"
    by (rule bit_word_eqI) (auto simp: bit_simps dest: bit_imp_le_length)
  then show ?thesis unfolding crc_step_def
    using crc_table_nth [OF low_byte_small] crc_bits_byte [of "crc XOR ucast b"] by simp
qed

section \<open>What it detects\<close>

lemma crc_bit_top: "bit (crc_bit w) 31 \<longleftrightarrow> bit w 0"
  by (simp add: crc_bit_bit0 bit_simps CRC_POLY_def) (auto dest: bit_imp_le_length)

lemma crc_bit_inj: "crc_bit a = crc_bit b \<Longrightarrow> a = b"
proof -
  assume eq: "crc_bit a = crc_bit b"
  then have 0: "bit a 0 = bit b 0" using crc_bit_top by metis
  then have "drop_bit 1 a = drop_bit 1 b" using eq xor_cancel by (auto simp: crc_bit_bit0 split: if_splits)
  then have "bit a (Suc n) = bit b (Suc n)" for n by (metis bit_drop_bit_eq comp_apply plus_1_eq_Suc)
  then have "bit a n = bit b n" for n using 0 by (cases n) simp_all
  then show ?thesis by (intro bit_word_eqI) simp
qed

lemma crc_bits_inj: "(crc_bit ^^ n) a = (crc_bit ^^ n) b \<Longrightarrow> a = b"
  by (induction n) (auto dest: crc_bit_inj)

text \<open>The checksum a bit at a time, the lowest bit of each byte first.\<close>

definition crc_feed :: "32 word \<Rightarrow> bool \<Rightarrow> 32 word" where
  "crc_feed crc x = crc_bit (crc XOR of_bool x)"

definition byte_bits :: "byte \<Rightarrow> bool list" where
  "byte_bits b = map (bit b) [0 ..< 8]"

definition bit_stream :: "byte list \<Rightarrow> bool list" where
  "bit_stream bs = concat (map byte_bits bs)"

lemma bit_stream_simps [simp]: "bit_stream [] = []" "bit_stream (b # bs) = byte_bits b @ bit_stream bs"
  "length (byte_bits b) = 8" "length (bit_stream bs) = 8 * length bs"
  by (simp_all add: bit_stream_def byte_bits_def) (induction bs, simp_all add: byte_bits_def)

lemma bit_stream_nth: "i < 8 * length bs \<Longrightarrow> bit_stream bs ! i = bit (bs ! (i div 8)) (i mod 8)"
proof (induction bs arbitrary: i)
  case (Cons b bs)
  show ?case
  proof (cases "i < 8")
    case True
    then show ?thesis by (simp add: nth_append byte_bits_def)
  next
    case False
    then have "i div 8 = Suc ((i - 8) div 8)" "i mod 8 = (i - 8) mod 8" by (simp_all add: le_div_geq le_mod_geq)
    then show ?thesis using Cons False by (simp add: nth_append)
  qed
qed simp

text \<open>Up to 32 bits at once: they enter the register side by side.\<close>

fun side_by_side :: "bool list \<Rightarrow> 32 word" where
  "side_by_side [] = 0"
| "side_by_side (x # xs) = of_bool x XOR push_bit 1 (side_by_side xs)"

lemma bit_push_1: "bit (push_bit 1 w) k \<longleftrightarrow> 0 < k \<and> k < 32 \<and> bit w (k - 1)" for w :: "32 word"
  by (simp only: bit_push_bit_iff) (auto dest: bit_word32)

lemma bit_side_by_side: "bit (side_by_side xs) k \<longleftrightarrow> k < length xs \<and> k < 32 \<and> xs ! k"
proof (induction xs arbitrary: k)
  case (Cons x xs)
  have "bit (of_bool x :: 32 word) k \<longleftrightarrow> k = 0 \<and> x" by (cases x) (simp_all add: bit_1_iff)
  then show ?case using Cons.IH [of "k - 1"] unfolding side_by_side.simps bit_xor_iff bit_push_1 by (cases k) auto
qed simp

lemma crc_feeds: "length xs \<le> 32 \<Longrightarrow> foldl crc_feed crc xs = (crc_bit ^^ length xs) (crc XOR side_by_side xs)"
proof (induction xs arbitrary: crc)
  case (Cons x xs)
  let ?w = "side_by_side xs"
  have "drop_bit 1 (push_bit 1 ?w) = ?w"
  proof (rule bit_word_eqI)
    fix n assume "n < LENGTH(32)"
    have "bit (drop_bit 1 (push_bit 1 ?w)) n \<longleftrightarrow> Suc n < 32 \<and> bit ?w n"
      by (simp only: bit_drop_bit_eq comp_apply bit_push_1) simp
    then show "bit (drop_bit 1 (push_bit 1 ?w)) n = bit ?w n" using Cons.prems by (auto simp: bit_side_by_side)
  qed
  then have sh: "crc_bit (push_bit 1 ?w) = ?w" using crc_bits_shift [of 1 "push_bit 1 ?w"] bit_push_1 [of ?w 0] by simp
  have "foldl crc_feed crc (x # xs) = (crc_bit ^^ length xs) (crc_bit (crc XOR of_bool x) XOR ?w)"
    using Cons.IH [of "crc_feed crc x"] Cons.prems by (simp only: foldl_Cons crc_feed_def [of crc x] list.size)
  also have "crc_bit (crc XOR of_bool x) XOR ?w = crc_bit ((crc XOR of_bool x) XOR push_bit 1 ?w)"
    by (simp only: crc_bit_xor [of "crc XOR of_bool x"] sh)
  also have "(crc_bit ^^ length xs) \<dots> = (crc_bit ^^ length (x # xs)) (crc XOR side_by_side (x # xs))"
    by (simp add: funpow_swap1 xor.assoc)
  finally show ?case .
qed simp

lemma crc_step_feeds: "crc_step crc b = foldl crc_feed crc (byte_bits b)"
proof -
  have "side_by_side (byte_bits b) = ucast b"
  proof (rule bit_word_eqI)
    fix n assume "n < LENGTH(32)"
    show "bit (side_by_side (byte_bits b)) n = bit (ucast b :: 32 word) n"
      using bit_imp_le_length [of b n] by (cases "n < 8") (auto simp: bit_side_by_side byte_bits_def bit_ucast_iff)
  qed
  then show ?thesis by (simp add: crc_feeds crc_step_serial)
qed

lemma crc_steps_feeds: "foldl crc_step crc data = foldl crc_feed crc (bit_stream data)"
  by (induction data arbitrary: crc) (simp_all add: crc_step_feeds)

lemma crc_feed_inj: "foldl crc_feed a xs = foldl crc_feed b xs \<Longrightarrow> a = b"
proof (induction xs arbitrary: a b)
  case (Cons x xs)
  then have "crc_feed a x = crc_feed b x" by simp
  then have "a XOR of_bool x = b XOR of_bool x" unfolding crc_feed_def by (rule crc_bit_inj)
  then show ?case by (rule xor_cancel)
qed simp

lemma side_by_side_inj:
  assumes "length xs = length ys" "length ys \<le> 32" "side_by_side xs = side_by_side ys"
  shows "xs = ys"
proof (rule nth_equalityI)
  fix i assume "i < length xs"
  then show "xs ! i = ys ! i" using arg_cong [OF assms(3), of "\<lambda>w. bit w i"] assms(1,2) by (simp add: bit_side_by_side)
qed (rule assms(1))

lemma crc_window:
  assumes "foldl crc_feed a (before @ xs @ after) = foldl crc_feed a (before @ ys @ after)" "length xs = length ys" "length ys \<le> 32"
  shows "xs = ys"
proof -
  have "foldl crc_feed (foldl crc_feed a before) xs = foldl crc_feed (foldl crc_feed a before) ys"
    using assms(1) unfolding foldl_append by (rule crc_feed_inj)
  then have "foldl crc_feed a before XOR side_by_side xs = foldl crc_feed a before XOR side_by_side ys"
    using assms(2,3) crc_bits_inj by (simp add: crc_feeds)
  then have "side_by_side xs = side_by_side ys" by (metis xor_cancel xor.commute)
  then show ?thesis by (rule side_by_side_inj [OF assms(2,3)])
qed

lemma bit_stream_append [simp]: "bit_stream (xs @ ys) = bit_stream xs @ bit_stream ys"
  by (simp add: bit_stream_def)

lemma bit_stream_inj:
  assumes "length xs = length ys" "bit_stream xs = bit_stream ys"
  shows "xs = ys"
proof (rule nth_equalityI [OF assms(1)])
  fix n assume n: "n < length xs"
  show "xs ! n = ys ! n"
  proof (rule bit_word_eqI)
    fix m assume "m < LENGTH(8)"
    then have "8 * n + m < 8 * length xs" "(8 * n + m) div 8 = n" "(8 * n + m) mod 8 = m" using n by simp_all
    then show "bit (xs ! n) m = bit (ys ! n) m"
      using arg_cong [OF assms(2), of "\<lambda>Z. Z ! (8 * n + m)"] assms(1) by (simp add: bit_stream_nth)
  qed
qed

lemma crc32_burst:
  assumes "length xs = length ys" "length ys \<le> 4" "xs \<noteq> ys"
  shows "crc32 (before @ xs @ after) \<noteq> crc32 (before @ ys @ after)"
proof
  assume "crc32 (before @ xs @ after) = crc32 (before @ ys @ after)"
  then have "foldl crc_step 0xFFFFFFFF (before @ xs @ after) = foldl crc_step 0xFFFFFFFF (before @ ys @ after)"
    unfolding crc32_def by (rule xor_cancel)
  then have "foldl crc_feed 0xFFFFFFFF (bit_stream before @ bit_stream xs @ bit_stream after) =
      foldl crc_feed 0xFFFFFFFF (bit_stream before @ bit_stream ys @ bit_stream after)"
    by (simp only: crc_steps_feeds bit_stream_append)
  then have "bit_stream xs = bit_stream ys" using assms(1,2) by (intro crc_window) simp_all
  then show False using bit_stream_inj assms(1,3) by blast
qed

section \<open>Properties\<close>


text \<open>
  C30. The checksum differs for any two different inputs of the same length whose differing bits
  lie within 32 consecutive bits (the lowest bit of each byte first), aligned to bytes or not: no
  burst of up to 32 bits escapes it.
\<close>

theorem crc32_detects_burst:
  assumes "length xs = length ys" "xs \<noteq> ys"
    and "\<forall>i < 8 * length ys. i < k \<or> k + 32 \<le> i \<longrightarrow> bit (xs ! (i div 8)) (i mod 8) = bit (ys ! (i div 8)) (i mod 8)"
  shows "crc32 xs \<noteq> crc32 ys"
proof
  assume "crc32 xs = crc32 ys"
  then have crc: "foldl crc_feed 0xFFFFFFFF (bit_stream xs) = foldl crc_feed 0xFFFFFFFF (bit_stream ys)"
    unfolding crc32_def crc_steps_feeds by (rule xor_cancel)
  let ?X = "bit_stream xs" and ?Y = "bit_stream ys"
  have len: "length ?X = length ?Y" using assms(1) by simp
  have same: "?X ! i = ?Y ! i" if "i < length ?Y" "i < k \<or> k + 32 \<le> i" for i
    using assms(1) assms(3) [rule_format, of i] that by (simp add: bit_stream_nth)
  have pre: "take k ?X = take k ?Y" using len same by (intro nth_equalityI) simp_all
  have post: "drop (k + 32) ?X = drop (k + 32) ?Y" using len same by (intro nth_equalityI) simp_all
  have split: "Z = take k Z @ take 32 (drop k Z) @ drop (k + 32) Z" for Z :: "bool list"
    by (metis append_take_drop_id drop_drop add.commute)
  have "take 32 (drop k ?X) = take 32 (drop k ?Y)"
  proof (rule crc_window)
    show "foldl crc_feed 0xFFFFFFFF (take k ?X @ take 32 (drop k ?X) @ drop (k + 32) ?X) =
        foldl crc_feed 0xFFFFFFFF (take k ?X @ take 32 (drop k ?Y) @ drop (k + 32) ?X)"
      using crc split [of ?X] split [of ?Y] pre post by simp
  qed (use len in simp_all)
  then have streams: "?X = ?Y" using split [of ?X] split [of ?Y] pre post by simp
  then have "xs = ys" by (rule bit_stream_inj [OF assms(1)])
  then show False using assms(2) by simp
qed

text \<open>A burst of two bits that crosses a byte.\<close>

theorem crc32_detects_burst_witness: "crc32 [1, 2, 3] \<noteq> crc32 [1, 0x82, 2]"
proof (rule crc32_detects_burst [where k = 15])
  show "\<forall>i < 8 * length [1, 0x82, 2 :: byte]. i < 15 \<or> 15 + 32 \<le> i \<longrightarrow>
      bit ([1, 2, 3 :: byte] ! (i div 8)) (i mod 8) = bit ([1, 0x82, 2 :: byte] ! (i div 8)) (i mod 8)"
  proof -
    have "list_all (\<lambda>i. i < 15 \<or> 47 \<le> i \<longrightarrow>
        bit ([1, 2, 3 :: byte] ! (i div 8)) (i mod 8) = bit ([1, 0x82, 2 :: byte] ! (i div 8)) (i mod 8)) [0 ..< 24]" by code_simp
    then show ?thesis by (simp add: list_all_iff)
  qed
qed simp_all

end
