(* ===== verification/Codec.thy ===== *)
theory Codec
  imports Crc StorageTypes
begin

text \<open>
  Packed little-endian structures with a CRC at the end, as journal entries and superblocks are
  written, and the sequential file calls both use. A structure is the list of its fields; \<open>widths\<close>
  gives their sizes. \<open>sealed_record\<close> is the contract of a structure that carries its own checksum.
\<close>

section \<open>Little-endian fields\<close>

fun le :: "nat \<Rightarrow> nat \<Rightarrow> byte list" where
  "le 0 n = []"
| "le (Suc k) n = of_nat (n mod 256) # le k (n div 256)"

fun unle :: "byte list \<Rightarrow> nat" where
  "unle [] = 0"
| "unle (b # bs) = unat b + 256 * unle bs"

lemma length_le [simp]: "length (le k n) = k"
  by (induction k arbitrary: n) simp_all

lemma unle_le: "n < 256 ^ k \<Longrightarrow> unle (le k n) = n"
proof (induction k arbitrary: n)
  case (Suc k)
  have "n div 256 < 256 ^ k" using Suc.prems by (simp add: less_mult_imp_div_less mult.commute)
  then have "unle (le k (n div 256)) = n div 256" by (rule Suc.IH)
  moreover have "unat (of_nat (n mod 256) :: byte) = n mod 256" by (simp add: unat_of_nat)
  ultimately show ?case by simp
qed simp

lemma unle_bound: "unle bs < 256 ^ length bs"
proof (induction bs)
  case (Cons b bs)
  have "unat b < 256" using unsigned_less [of b] by simp
  then have "unat b + 256 * unle bs < 256 * (unle bs + 1)" by simp
  also have "\<dots> \<le> 256 * 256 ^ length bs" using Cons by (intro mult_le_mono2) simp
  finally show ?case by simp
qed simp

lemma le_unle: "length bs = k \<Longrightarrow> le k (unle bs) = bs"
proof (induction bs arbitrary: k)
  case (Cons b bs)
  have b: "unat b < 256" using unsigned_less [of b] by simp
  have "(of_nat (unat b + 256 * unle bs) :: byte) = b"
  proof -
    have "(256 :: byte) = 0" by simp
    then have "(256 :: byte) * of_nat (unle bs) = 0" by (metis mult_zero_left)
    then show ?thesis by simp
  qed
  then show ?case using Cons b by auto
qed simp

fun put_fields :: "nat list \<Rightarrow> nat list \<Rightarrow> byte list" where
  "put_fields (w # ws) (v # vs) = le w v @ put_fields ws vs"
| "put_fields ws vs = []"

fun get_fields :: "nat list \<Rightarrow> byte list \<Rightarrow> nat list" where
  "get_fields [] bs = []"
| "get_fields (w # ws) bs = unle (take w bs) # get_fields ws (drop w bs)"

definition fit_fields :: "nat list \<Rightarrow> nat list \<Rightarrow> bool" where
  "fit_fields ws vs \<longleftrightarrow> list_all2 (\<lambda>w v. v < 256 ^ w) ws vs"

lemma length_get_fields [simp]: "length (get_fields ws bs) = length ws"
  by (induction ws arbitrary: bs) simp_all

lemma length_put_fields: "length ws = length vs \<Longrightarrow> length (put_fields ws vs) = sum_list ws"
  by (induction ws vs rule: list_induct2) simp_all

lemma get_put_fields: "fit_fields ws vs \<Longrightarrow> get_fields ws (put_fields ws vs @ rest) = vs"
  unfolding fit_fields_def
  by (induction ws vs rule: list_all2_induct) (simp_all add: unle_le)

lemma fit_fields_length: "fit_fields ws vs \<Longrightarrow> length ws = length vs"
  by (simp add: fit_fields_def list_all2_lengthD)

section \<open>Checksummed structures\<close>

definition seal :: "byte list \<Rightarrow> byte list" where
  "seal body = body @ le 4 (unat (crc32 body))"

definition seal_ok :: "nat \<Rightarrow> byte list \<Rightarrow> bool" where
  "seal_ok n raw \<longleftrightarrow> n + 4 \<le> length raw \<and> unle (take 4 (drop n raw)) = unat (crc32 (take n raw))"

lemma crc_fits: "unat (w :: 32 word) < 256 ^ 4"
  using unsigned_less [of w] by simp

lemma seal_ok_seal: "length body = n \<Longrightarrow> seal_ok n (seal body @ rest)"
  by (simp add: seal_def seal_ok_def unle_le [OF crc_fits])

text \<open>A body that differs in up to four consecutive bytes is refused.\<close>

lemma seal_detects:
  assumes "length xs = length ys" "length ys \<le> 4" "xs \<noteq> ys" "length (before @ xs @ after) = n"
  shows "\<not> seal_ok n ((before @ ys @ after) @ le 4 (unat (crc32 (before @ xs @ after))) @ rest)"
proof -
  have "length (before @ ys @ after) = n" using assms(1,4) by simp
  moreover have "crc32 (before @ xs @ after) \<noteq> crc32 (before @ ys @ after)"
    by (rule crc32_burst [OF assms(1,2,3)])
  moreover have "unat a = unat b \<longleftrightarrow> a = b" for a b :: "32 word" by (simp add: word_unat_eq_iff)
  ultimately show ?thesis
    by (simp add: seal_ok_def unle_le [OF crc_fits] del: append_assoc)
qed

text \<open>
  A structure as a client sees it: \<open>body\<close> its bytes before the checksum, \<open>fields\<close> the way back,
  \<open>fits\<close> that every field is in the range of its C type.
\<close>

locale sealed_record =
  fixes body :: "'r \<Rightarrow> byte list"
    and fields :: "byte list \<Rightarrow> 'r"
    and fits :: "'r \<Rightarrow> bool"
    and n :: nat
  assumes body_length: "fits r \<Longrightarrow> length (body r) = n"
    and fields_body: "fits r \<Longrightarrow> fields (body r) = r"
begin

lemma seal_length: "fits r \<Longrightarrow> length (seal (body r)) = n + 4"
  by (simp add: seal_def body_length)

lemma accepted: "fits r \<Longrightarrow> seal_ok n (seal (body r) @ rest)"
  by (rule seal_ok_seal) (rule body_length)

lemma read_back: "fits r \<Longrightarrow> fields (take n (seal (body r) @ rest)) = r"
  by (simp add: seal_def body_length fields_body)

lemma body_inject: "fits r \<Longrightarrow> fits q \<Longrightarrow> body r = body q \<Longrightarrow> r = q"
  by (metis fields_body)

text \<open>A structure of which one to four consecutive bytes were replaced is refused.\<close>

lemma burst_refused:
  assumes "fits r" "body r = before @ xs @ after" "length xs = length ys" "length ys \<le> 4" "xs \<noteq> ys"
  shows "\<not> seal_ok n ((before @ ys @ after) @ drop n (seal (body r)) @ rest)"
proof -
  have "length (before @ xs @ after) = n" using body_length [OF assms(1)] assms(2) by simp
  from seal_detects [OF assms(3,4,5) this, of rest] show ?thesis
    using body_length [OF assms(1)] assms(2) by (simp add: seal_def)
qed

end

section \<open>Files\<close>

text \<open>
  The metadata files live in \<open>w_files\<close>. A write appends what the call moved and succeeds when
  that is everything; \<open>OPEN_ALWAYS\<close> creates the file, \<open>CREATE_ALWAYS\<close> empties it.
\<close>

definition open_always :: "os \<Rightarrow> string \<Rightarrow> 'a world_scheme \<Rightarrow> bool \<times> 'a world_scheme" where
  "open_always os p w =
     (if sys_ok os w
      then (True, (tick w)\<lparr>w_files := (w_files w)(p := Some (case w_files w p of None \<Rightarrow> [] | Some bs \<Rightarrow> bs))\<rparr>)
      else (False, tick w))"

definition create_always :: "os \<Rightarrow> string \<Rightarrow> 'a world_scheme \<Rightarrow> bool \<times> 'a world_scheme" where
  "create_always os p w =
     (if sys_ok os w then (True, (tick w)\<lparr>w_files := (w_files w)(p := Some [])\<rparr>) else (False, tick w))"

definition append_file :: "os \<Rightarrow> string \<Rightarrow> byte list \<Rightarrow> 'a world_scheme \<Rightarrow> bool \<times> 'a world_scheme" where
  "append_file os p bs w =
     (let k = moved os w (length bs) in
      (sys_ok os w \<and> k = length bs,
       (tick w)\<lparr>w_files := (w_files w)(p := map_option (\<lambda>old. old @ take k bs) (w_files w p))\<rparr>))"

text \<open>Reading up to \<open>n\<close> bytes from the start: the bytes moved, and whether the call succeeded.\<close>

definition read_file :: "os \<Rightarrow> string \<Rightarrow> nat \<Rightarrow> 'a world_scheme \<Rightarrow> bool \<times> byte list \<times> 'a world_scheme" where
  "read_file os p n w = (case w_files w p of
     None \<Rightarrow> (False, [], w)
   | Some bs \<Rightarrow> (sys_ok os w, take (moved os w n) bs, tick w))"

definition flush_buffers :: "os \<Rightarrow> 'a world_scheme \<Rightarrow> bool \<times> 'a world_scheme" where
  "flush_buffers os w = (sys_ok os w, tick w)"

text \<open>\<open>OPEN_EXISTING\<close>, deletion and replacement; a deletion that fails leaves the file.\<close>

definition open_existing :: "os \<Rightarrow> string \<Rightarrow> 'a world_scheme \<Rightarrow> bool \<times> 'a world_scheme" where
  "open_existing os p w = (w_files w p \<noteq> None \<and> sys_ok os w, tick w)"

definition delete_file :: "os \<Rightarrow> string \<Rightarrow> 'a world_scheme \<Rightarrow> 'a world_scheme" where
  "delete_file os p w = (if sys_ok os w then (tick w)\<lparr>w_files := (w_files w)(p := None)\<rparr> else tick w)"

definition rename_file :: "os \<Rightarrow> string \<Rightarrow> string \<Rightarrow> 'a world_scheme \<Rightarrow> bool \<times> 'a world_scheme" where
  "rename_file os p q w = (case w_files w p of
     None \<Rightarrow> (False, tick w)
   | Some bs \<Rightarrow> if sys_ok os w then (True, (tick w)\<lparr>w_files := (w_files w)(q := Some bs, p := None)\<rparr>)
               else (False, tick w))"

lemma file_ops_keep:
  "w_media (snd (open_always os p w)) = w_media w" "w_media (snd (create_always os p w)) = w_media w"
  "w_media (snd (append_file os p bs w)) = w_media w" "w_media (snd (snd (read_file os p n w))) = w_media w"
  "w_media (snd (flush_buffers os w)) = w_media w" "w_media (delete_file os p w) = w_media w"
  by (simp_all add: open_always_def create_always_def append_file_def read_file_def flush_buffers_def
      delete_file_def tick_def Let_def split: option.split)

text \<open>A file in the volume's metadata directory on a drive.\<close>

definition metadata_path :: "char \<Rightarrow> string \<Rightarrow> string" where
  "metadata_path letter name = [letter, CHR '':'', CHR 0x5C] @ ''RAIDTEST'' @ [CHR 0x5C] @ name"

definition drive_char :: "DISK_INFO \<Rightarrow> char" where
  "drive_char d = (case d_drive_letter d of [] \<Rightarrow> CHR 0x00 | c # _ \<Rightarrow> c)"

end
