(* ===== verification/StripeIo.thy ===== *)
theory StripeIo
  imports Mirror
begin

text \<open>
  Reads and writes of a volume, \<^verbatim>\<open>src/src/stripe_engine.c\<close>: the entry points
  \<^verbatim>\<open>stripe_volume_read\<close> and \<^verbatim>\<open>stripe_volume_write\<close> (mirror, cache and direct paths) and the three
  self tests built on them. \<open>stripe\<close> interprets \<open>byte_store\<close>: an uncached striped volume with its
  workers running is a store of bytes, up to the number of entries one submission may have.

  The I/O profiler's calls, which only count, are in \<open>Profiler\<close>. The caller's buffer is a byte
  memory; a mapping loop that did not end would be \<open>Inl Deadlock\<close>.
\<close>

section \<open>The entry points\<close>

text \<open>The direct path: map the request, hand the entries to the workers.\<close>

definition direct_io :: "os \<Rightarrow> IO_OP_TYPE \<Rightarrow> STRIPE_VOLUME \<Rightarrow> mem \<Rightarrow> nat \<Rightarrow> nat \<Rightarrow> sys
    \<Rightarrow> fault + bool \<times> STRIPE_VOLUME \<times> mem \<times> sys" where
  "direct_io os opn vol buf off n s =
     (case stripe_volume_map_lba vol off n of
        None \<Rightarrow> Inl Deadlock
      | Some (Inl f) \<Rightarrow> Inl f
      | Some (Inr (ok, es)) \<Rightarrow>
          if ok then submit_entries os vol es buf opn s else Inr (False, vol, buf, s))"

definition count_if :: "(STRIPE_VOLUME \<Rightarrow> STRIPE_VOLUME) \<Rightarrow> fault + bool \<times> STRIPE_VOLUME \<times> mem \<times> sys
    \<Rightarrow> fault + bool \<times> STRIPE_VOLUME \<times> mem \<times> sys" where
  "count_if f r = (case r of
     Inl e \<Rightarrow> Inl e
   | Inr (ok, vol, buf, s) \<Rightarrow> Inr (ok, if ok then f vol else vol, buf, s))"

definition stripe_volume_read :: "os \<Rightarrow> STRIPE_VOLUME \<Rightarrow> mem \<Rightarrow> nat \<Rightarrow> nat \<Rightarrow> sys
    \<Rightarrow> fault + bool \<times> STRIPE_VOLUME \<times> mem \<times> sys" where
  "stripe_volume_read os vol buf off n s =
     (if n = 0 then Inr (False, vol, buf, s)
      else if v_virtual_total_bytes vol < u64 (off + n) then Inr (False, vol, buf, s)
      else if \<not> CHECK_DISKS vol then Inr (False, vol, buf, s)
      else if v_raid_level vol = RAID_LEVEL_MIRROR then
        (case mirror_volume_read os vol off n s of
           (ok, bs, vol1, s1) \<Rightarrow> Inr (ok, if ok then add_bytes_read n vol1 else vol1, write_bytes buf 0 bs, s1))
      else
        let (hit, bs, c) =
              (if v_cache_enabled vol \<and> u64 (off + n) \<le> c_cache_size_bytes (v_cache vol)
               then cache_read (v_cache vol) off n else (False, [], v_cache vol));
            vol1 = vol\<lparr>v_cache := c\<rparr>
        in if hit then Inr (True, add_bytes_read n vol1, write_bytes buf 0 bs, s)
           else count_if (add_bytes_read n) (direct_io os IO_OP_READ vol1 buf off n s))"

definition stripe_volume_write :: "os \<Rightarrow> STRIPE_VOLUME \<Rightarrow> mem \<Rightarrow> nat \<Rightarrow> nat \<Rightarrow> sys
    \<Rightarrow> fault + bool \<times> STRIPE_VOLUME \<times> mem \<times> sys" where
  "stripe_volume_write os vol buf off n s =
     (if n = 0 then Inr (False, vol, buf, s)
      else if v_virtual_total_bytes vol < u64 (off + n) then Inr (False, vol, buf, s)
      else if \<not> CHECK_DISKS vol then Inr (False, vol, buf, s)
      else if v_raid_level vol = RAID_LEVEL_MIRROR then
        (case mirror_volume_write os vol (read_bytes buf 0 n) off s of
           (ok, vol1, s1) \<Rightarrow> Inr (ok, if ok then add_bytes_written n vol1 else vol1, buf, s1))
      else if v_cache_enabled vol \<and> v_cache_flush_in_progress vol = 0 \<and>
              u64 (off + n) \<le> c_cache_size_bytes (v_cache vol)
      then
        let into_cache = (\<lambda>vol s.
              (case cache_write (v_cache vol) (read_bytes buf 0 n) off of
                 (ok, c) \<Rightarrow>
                   let vol1 = vol\<lparr>v_cache := c\<rparr>
                   in Inr (ok, if ok then add_bytes_written n vol1 else vol1, buf, s)))
        in if c_write_through (v_cache vol) \<noteq> 0
           then (case direct_io os IO_OP_WRITE vol buf off n s of
                   Inl f \<Rightarrow> Inl f
                 | Inr (False, vol1, buf1, s1) \<Rightarrow> Inr (False, vol1, buf, s1)
                 | Inr (True, vol1, buf1, s1) \<Rightarrow> into_cache vol1 s1)
           else into_cache vol s
      else count_if (add_bytes_written n) (direct_io os IO_OP_WRITE vol buf off n s))"

section \<open>Self tests\<close>

definition MB64 :: nat where [const]: "MB64 = 64 * 1024 * 1024"

text \<open>\<open>(uint8_t)(i & 0xFF)\<close> and \<^verbatim>\<open>memset(buf, 0, n)\<close>.\<close>

definition ramp :: "nat \<Rightarrow> nat \<Rightarrow> mem" where
  "ramp start n = (\<lambda>i. if i < n then of_nat (start + i) else 0)"

definition zero_mem :: mem where
  "zero_mem = (\<lambda>_. 0)"

text \<open>Both calls are made whatever the first returns.\<close>

definition stripe_volume_verify_io :: "os \<Rightarrow> STRIPE_VOLUME \<Rightarrow> sys \<Rightarrow> fault + bool \<times> STRIPE_VOLUME \<times> sys" where
  "stripe_volume_verify_io os vol s =
     (let test_size = (if MB64 < v_virtual_total_bytes vol then MB64 else v_virtual_total_bytes vol);
          buffers_ok = (sys_ok os s \<and> sys_ok os (tick s)); s0 = tick (tick s);
          write_buf = ramp 0 test_size
      in if \<not> buffers_ok then Inr (False, vol, s0)
         else case stripe_volume_write os vol write_buf 0 test_size s0 of
           Inl f \<Rightarrow> Inl f
         | Inr (write_ok, vol1, _, s1) \<Rightarrow>
             (case stripe_volume_read os vol1 zero_mem 0 test_size s1 of
                Inl f \<Rightarrow> Inl f
              | Inr (read_ok, vol2, read_buf, s2) \<Rightarrow>
                  Inr (write_ok \<and> read_ok \<and> read_bytes write_buf 0 test_size = read_bytes read_buf 0 test_size,
                       vol2, s2)))"

text \<open>
  The random test. \<open>rnd k\<close> is the \<open>k\<close>-th value of \<open>rand()\<close>. The result of an operation is whether
  it passed.
\<close>

definition random_op :: "os \<Rightarrow> (nat \<Rightarrow> nat) \<Rightarrow> nat \<Rightarrow> nat \<Rightarrow> nat \<Rightarrow> STRIPE_VOLUME \<Rightarrow> sys
    \<Rightarrow> fault + bool \<times> STRIPE_VOLUME \<times> sys" where
  "random_op os rnd max_size vmax k vol s =
     (let size0 = 4096 + rnd (3 * k) mod (max_size - 4095);
          sz = size0 - size0 mod 512;
          max_off = sub64 vmax sz
      in if max_off = 0 then Inl DivByZero
         else
           let off0 = u64 (rnd (3 * k + 1) * rnd (3 * k + 2)) mod max_off;
               off = off0 - off0 mod 512;
               write_buf = ramp off sz
           in case stripe_volume_write os vol write_buf off sz s of
                Inl f \<Rightarrow> Inl f
              | Inr (False, vol1, _, s1) \<Rightarrow> Inr (False, vol1, s1)
              | Inr (True, vol1, _, s1) \<Rightarrow>
                  (case stripe_volume_read os vol1 zero_mem off sz s1 of
                     Inl f \<Rightarrow> Inl f
                   | Inr (False, vol2, _, s2) \<Rightarrow> Inr (False, vol2, s2)
                   | Inr (True, vol2, read_buf, s2) \<Rightarrow>
                       Inr (read_bytes write_buf 0 sz = read_bytes read_buf 0 sz, vol2, s2)))"

fun random_ops :: "os \<Rightarrow> (nat \<Rightarrow> nat) \<Rightarrow> nat \<Rightarrow> nat \<Rightarrow> nat \<Rightarrow> nat \<Rightarrow> nat \<Rightarrow> STRIPE_VOLUME \<Rightarrow> sys
    \<Rightarrow> fault + nat \<times> STRIPE_VOLUME \<times> sys" where
  "random_ops os rnd max_size vmax k 0 failed vol s = Inr (failed, vol, s)"
| "random_ops os rnd max_size vmax k (Suc n) failed vol s =
     (case random_op os rnd max_size vmax k vol s of
        Inl f \<Rightarrow> Inl f
      | Inr (passed, vol1, s1) \<Rightarrow>
          random_ops os rnd max_size vmax (Suc k) n (if passed then failed else u32 (failed + 1)) vol1 s1)"

definition stripe_volume_random_test :: "os \<Rightarrow> (nat \<Rightarrow> nat) \<Rightarrow> STRIPE_VOLUME \<Rightarrow> nat \<Rightarrow> nat \<Rightarrow> sys
    \<Rightarrow> fault + bool \<times> STRIPE_VOLUME \<times> sys" where
  "stripe_volume_random_test os rnd vol operations max_size_kb s =
     (if operations = 0 then Inr (False, vol, s)
      else if v_virtual_total_bytes vol < 65536 then Inr (False, vol, s)
      else
        let m0 = u32 (max_size_kb * 1024);
            m1 = (if m0 < 4096 then 4096 else m0);
            max_size = (if 1024 * 1024 < m1 then 1024 * 1024 else m1);
            buffers_ok = (sys_ok os s \<and> sys_ok os (tick s))
        in if \<not> buffers_ok then Inr (False, vol, tick (tick s))
           else case random_ops os rnd max_size (v_virtual_total_bytes vol) 0 operations 0 vol (tick (tick s)) of
                  Inl f \<Rightarrow> Inl f
                | Inr (failed, vol', s') \<Rightarrow> Inr (failed = 0, vol', s'))"

text \<open>
  The mapping dump: the lines printed, as (virtual offset, disk, physical offset).
\<close>

partial_function (option) dump_loop :: "STRIPE_VOLUME \<Rightarrow> nat \<Rightarrow> nat \<Rightarrow> nat \<Rightarrow> (nat \<times> nat \<times> nat) list
    \<Rightarrow> (fault + (nat \<times> nat \<times> nat) list) option" where
  "dump_loop vol step end vo acc =
     (if vo < end then
        if v_virtual_total_bytes vol < vo then Some (Inr acc)
        else case map_single_byte vol vo of
          Inl f \<Rightarrow> Some (Inl f)
        | Inr None \<Rightarrow> dump_loop vol step end (u64 (vo + step)) acc
        | Inr (Some a) \<Rightarrow> dump_loop vol step end (u64 (vo + step)) (acc @ [(vo, a)])
      else Some (Inr acc))"

definition stripe_volume_dump_mapping :: "STRIPE_VOLUME \<Rightarrow> nat \<Rightarrow> nat \<Rightarrow> (fault + bool \<times> (nat \<times> nat \<times> nat) list) option" where
  "stripe_volume_dump_mapping vol start end =
     (if end \<le> start then Some (Inr (False, []))
      else
        let start1 = (if v_virtual_total_bytes vol < start then 0 else start);
            end1 = (if v_virtual_total_bytes vol < end then v_virtual_total_bytes vol else end);
            step = (if v_stripe_unit vol div 4 < SECTOR_SIZE then SECTOR_SIZE else v_stripe_unit vol div 4)
        in case dump_loop vol step end1 start1 [] of
             None \<Rightarrow> None
           | Some (Inl f) \<Rightarrow> Some (Inl f)
           | Some (Inr ls) \<Rightarrow> Some (Inr (True, ls)))"

section \<open>A striped volume is a store of bytes\<close>

definition volume_byte :: "STRIPE_VOLUME \<Rightarrow> sys \<Rightarrow> mem" where
  "volume_byte vol s = (\<lambda>x. disk_byte vol s (byte_addr vol x))"

text \<open>A striped volume of size \<open>cap\<close> and unit \<open>su\<close>, uncached, with its workers running.\<close>

definition stripe_good :: "nat \<Rightarrow> nat \<Rightarrow> STRIPE_VOLUME \<Rightarrow> sys \<Rightarrow> bool" where
  "stripe_good cap su vol s \<longleftrightarrow> wf_layout vol \<and> workers_ready vol s \<and> v_raid_level vol \<noteq> RAID_LEVEL_MIRROR \<and>
     \<not> v_cache_enabled vol \<and> v_virtual_total_bytes vol = cap \<and> v_stripe_unit vol = su"

definition unit_bytes :: "nat \<Rightarrow> nat" where
  "unit_bytes su = min (63 * su) (2 ^ 32 - 1)"

definition stripe_get :: "os \<Rightarrow> nat \<Rightarrow> nat \<Rightarrow> STRIPE_VOLUME \<times> sys \<Rightarrow> bool \<times> byte list \<times> STRIPE_VOLUME \<times> sys" where
  "stripe_get os off n st = (case stripe_volume_read os (fst st) zero_mem off n (snd st) of
     Inl f \<Rightarrow> (False, [], st)
   | Inr (ok, vol, buf, s) \<Rightarrow> (ok, read_bytes buf 0 n, vol, s))"

definition stripe_put :: "os \<Rightarrow> nat \<Rightarrow> byte list \<Rightarrow> STRIPE_VOLUME \<times> sys \<Rightarrow> bool \<times> STRIPE_VOLUME \<times> sys" where
  "stripe_put os off bs st =
     (case stripe_volume_write os (fst st) (write_bytes zero_mem 0 bs) off (length bs) (snd st) of
        Inl f \<Rightarrow> (False, st)
      | Inr (ok, vol, buf, s) \<Rightarrow> (ok, vol, s))"

lemma units_touched_le:
  assumes "0 < su" "n \<le> k * su"
  shows "units_touched su vo n \<le> Suc k"
proof -
  have "vo + n + su - 1 \<le> (vo + su - 1) + k * su" using assms by linarith
  then have "(vo + n + su - 1) div su \<le> ((vo + su - 1) + k * su) div su" by (rule div_le_mono)
  also have "\<dots> = k + (vo + su - 1) div su" using assms(1) by (intro div_mult_self1) simp
  also have "(vo + su - 1) div su \<le> (vo + su) div su" by (rule div_le_mono) simp
  also have "(vo + su) div su = vo div su + 1" using div_add_self2 [of su vo] assms(1) by simp
  finally show ?thesis by (simp add: units_touched_def)
qed

text \<open>The volume fields the engine's address map and the predicates read.\<close>

definition same_volume :: "STRIPE_VOLUME \<Rightarrow> STRIPE_VOLUME \<Rightarrow> bool" where
  "same_volume v w \<longleftrightarrow> (\<exists>ws r wr. w = v\<lparr>v_worker_state := ws, v_bytes_read := r, v_bytes_written := wr\<rparr>)"

lemma same_volume_fields:
  assumes "same_volume v w"
  shows "v_disk_count w = v_disk_count v" "v_disks w = v_disks v" "v_phases w = v_phases v"
    "v_phase_count w = v_phase_count v" "v_virtual_total_bytes w = v_virtual_total_bytes v"
    "v_stripe_unit w = v_stripe_unit v" "v_raid_level w = v_raid_level v" "v_cache_enabled w = v_cache_enabled v"
    "v_cache w = v_cache v" "v_cache_flush_in_progress w = v_cache_flush_in_progress v"
  using assms by (auto simp: same_volume_def)


text \<open>The address map and the bytes of a volume depend on its layout and its disks only.\<close>

definition same_layout :: "STRIPE_VOLUME \<Rightarrow> STRIPE_VOLUME \<Rightarrow> bool" where
  "same_layout v w \<longleftrightarrow> v_disk_count w = v_disk_count v \<and> v_disks w = v_disks v \<and> v_phases w = v_phases v \<and>
     v_phase_count w = v_phase_count v \<and> v_virtual_total_bytes w = v_virtual_total_bytes v \<and>
     v_stripe_unit w = v_stripe_unit v"

lemma same_volume_layout: "same_volume v w \<Longrightarrow> same_layout v w"
  by (simp add: same_layout_def same_volume_fields)

lemma same_layout_map:
  assumes "same_layout v w"
  shows "map_single_byte w vo = map_single_byte v vo"
proof -
  note F = assms [unfolded same_layout_def]
  have "map_phases w vo p = map_phases v vo p" for p
  proof (induction "v_phase_count v - p" arbitrary: p)
    case 0
    then show ?case by (simp add: map_phases.simps [of _ _ p] F)
  next
    case (Suc k)
    then have "map_phases w vo (Suc p) = map_phases v vo (Suc p)" by simp
    then show ?case by (simp only: map_phases.simps [of w vo p] map_phases.simps [of v vo p] F)
  qed
  then show ?thesis by (simp add: map_single_byte_def F)
qed

lemma same_layout_bytes:
  assumes "same_layout v w"
  shows "volume_byte w s = volume_byte v s" "wf_layout w = wf_layout v" "disks_open w s = disks_open v s"
    "CHECK_DISKS w = CHECK_DISKS v" "disk_ptrs w = disk_ptrs v"
proof -
  note F = assms [unfolded same_layout_def]
  show "volume_byte w s = volume_byte v s"
    by (simp add: fun_eq_iff volume_byte_def byte_addr_def same_layout_map [OF assms] disk_byte_def
        disk_path_def vdisk_def F)
  show "wf_layout w = wf_layout v" by (simp add: wf_layout_def vstart_def F)
  show "disks_open w s = disks_open v s" "CHECK_DISKS w = CHECK_DISKS v" "disk_ptrs w = disk_ptrs v"
    by (simp_all add: disks_open_def CHECK_DISKS_def vdisk_def disk_path_def disk_ptrs_def F)
qed

lemma same_volume_bytes:
  assumes "same_volume v w"
  shows "volume_byte w s = volume_byte v s" "wf_layout w = wf_layout v"
  using same_layout_bytes [OF same_volume_layout [OF assms]] by simp_all

lemma workers_ready_same:
  "same_volume v w \<Longrightarrow> v_worker_state w = v_worker_state v \<Longrightarrow> workers_ready w s = workers_ready v s"
  by (simp add: workers_ready_def disks_open_def CHECK_DISKS_def vdisk_def disk_path_def workers_idle_def
      same_volume_fields split: option.split)

lemma byte_addr_disk:
  assumes "wf_layout vol" "vo < v_virtual_total_bytes vol"
  shows "fst (byte_addr vol vo) < v_disk_count vol"
proof -
  have "byte_addr vol vo \<in> cells vol" using byte_addr_bij [OF assms(1)] assms(2) by (auto simp: bij_betw_def)
  then show ?thesis using wf_layout_phase(1) [OF assms(1)] by (fastforce simp: cells_def wf_phase_def)
qed

lemma add_entry_disks:
  "\<forall>e \<in> set es. e_disk_index e < n \<Longrightarrow> d < n \<Longrightarrow> \<forall>e \<in> set (add_entry es d x k). e_disk_index e < n"
  by (auto simp: add_entry_def dest: in_set_butlastD)

lemma map_lba_disks:
  assumes "map_lba_loop vol vo k es = Some r"
  shows "wf_layout vol \<longrightarrow> (\<forall>e \<in> set es. e_disk_index e < v_disk_count vol) \<longrightarrow>
    (\<forall>ok es'. r = Inr (ok, es') \<longrightarrow> (\<forall>e \<in> set es'. e_disk_index e < v_disk_count vol))"
proof (rule map_lba_loop.raw_induct [where P = "\<lambda>vol vo k es r. wf_layout vol \<longrightarrow>
    (\<forall>e \<in> set es. e_disk_index e < v_disk_count vol) \<longrightarrow>
    (\<forall>ok es'. r = Inr (ok, es') \<longrightarrow> (\<forall>e \<in> set es'. e_disk_index e < v_disk_count vol))", OF _ assms], intro impI)
  fix f vol vo k es r
  assume IH: "\<And>vol vo k es r. f vol vo k es = Some r \<Longrightarrow> wf_layout vol \<longrightarrow>
      (\<forall>e \<in> set es. e_disk_index e < v_disk_count vol) \<longrightarrow>
      (\<forall>ok es'. r = Inr (ok, es') \<longrightarrow> (\<forall>e \<in> set es'. e_disk_index e < v_disk_count vol))"
    and run: "(if 0 < k \<and> length es < MAX_IO_ENTRIES
      then case map_single_byte vol vo of Inl f \<Rightarrow> Some (Inl f)
        | Inr None \<Rightarrow> Some (Inr (False, []))
        | Inr (Some a) \<Rightarrow> f vol (u64 (vo + chunk_size vol vo (fst a) k))
            (sub64 k (u32 (chunk_size vol vo (fst a) k)))
            (add_entry es (fst a) (snd a) (chunk_size vol vo (fst a) k))
      else Some (Inr (k = 0, es))) = Some r"
    and wf: "wf_layout vol" and es: "\<forall>e \<in> set es. e_disk_index e < v_disk_count vol"
  show "\<forall>ok es'. r = Inr (ok, es') \<longrightarrow> (\<forall>e \<in> set es'. e_disk_index e < v_disk_count vol)"
  proof (cases "0 < k \<and> length es < MAX_IO_ENTRIES \<and> vo < v_virtual_total_bytes vol")
    case False
    then show ?thesis using run es by (auto simp: map_single_byte_def split: if_splits)
  next
    case True
    have m: "map_single_byte vol vo = Inr (Some (byte_addr vol vo))" using map_single_byte_addr [OF wf] True by blast
    have "fst (byte_addr vol vo) < v_disk_count vol" using byte_addr_disk [OF wf] True by blast
    from add_entry_disks [OF es this] show ?thesis using run IH wf True by (simp add: m)
  qed
qed

text \<open>The entries of a request that touches few enough units, and of one that is short enough.\<close>

lemma map_units:
  assumes wf: "wf_layout vol" and n: "0 < n" "n < 2 ^ 32" "off + n \<le> v_virtual_total_bytes vol"
    and u: "units_touched (v_stripe_unit vol) off n \<le> MAX_IO_ENTRIES"
  shows "\<exists>es. stripe_volume_map_lba vol off n = Some (Inr (True, es)) \<and> es \<noteq> [] \<and>
    length es \<le> units_touched (v_stripe_unit vol) off n \<and> expand es = map (byte_addr vol) [off ..< off + n] \<and>
    distinct (expand es) \<and> (\<forall>e \<in> set es. e_disk_index e < v_disk_count vol)"
proof -
  have b: "off < v_virtual_total_bytes vol" "off + n < 2 ^ 64"
    using n wf by (auto simp: wf_layout_def)
  have m: "min n (v_virtual_total_bytes vol - off) = n" using n(3) by simp
  obtain k es where M: "stripe_volume_map_lba vol off n = Some (Inr (k = n, es))"
    "expand es = map (byte_addr vol) [off ..< off + k]" "k = n" "length es \<le> units_touched (v_stripe_unit vol) off n"
    using map_lba_prefix [OF wf n(1,2) b] u unfolding m by blast
  have "length (expand es) = n" using M(2,3) by simp
  then have "es \<noteq> []" using n(1) by (auto simp: expand_def)
  moreover have "distinct (expand es)"
    unfolding M(2,3) using byte_addr_inj [OF wf] n(3) by (simp add: distinct_map inj_on_subset subset_eq)
  moreover have "\<forall>e \<in> set es. e_disk_index e < v_disk_count vol"
    using M(1) map_lba_disks [of vol off _ "[]"] wf n(1) b(1)
    by (fastforce simp: stripe_volume_map_lba_def Let_def)
  ultimately show ?thesis using M by auto
qed

lemma map_request:
  assumes wf: "wf_layout vol" and n: "0 < n" "n \<le> unit_bytes (v_stripe_unit vol)"
    and off: "off + n \<le> v_virtual_total_bytes vol"
  shows "\<exists>es. stripe_volume_map_lba vol off n = Some (Inr (True, es)) \<and> es \<noteq> [] \<and>
    length es \<le> IO_RING_SIZE \<and> expand es = map (byte_addr vol) [off ..< off + n] \<and>
    distinct (expand es) \<and> (\<forall>e \<in> set es. e_disk_index e < v_disk_count vol)"
proof -
  have su: "0 < v_stripe_unit vol" using wf by (simp add: wf_layout_def)
  have "n \<le> 63 * v_stripe_unit vol" "n < 2 ^ 32" using n(2) by (simp_all add: unit_bytes_def)
  have u: "units_touched (v_stripe_unit vol) off n \<le> 64"
    using units_touched_le [OF su \<open>n \<le> 63 * v_stripe_unit vol\<close>, of off] by simp
  obtain es where "stripe_volume_map_lba vol off n = Some (Inr (True, es))" "es \<noteq> []"
    "length es \<le> units_touched (v_stripe_unit vol) off n" "expand es = map (byte_addr vol) [off ..< off + n]"
    "distinct (expand es)" "\<forall>e \<in> set es. e_disk_index e < v_disk_count vol"
    using map_units [OF wf n(1) \<open>n < 2 ^ 32\<close> off] u by (auto simp: const)
  moreover from this(3) u have "length es \<le> IO_RING_SIZE" by (simp add: const)
  ultimately show ?thesis by blast
qed

text \<open>Writing the entries of a range in order changes the volume's bytes as \<^verbatim>\<open>memcpy\<close> would.\<close>

lemma entries_write_range:
  assumes wf: "wf_layout vol" and es: "expand es = map (byte_addr vol) [off ..< off + n]"
    and n: "off + n \<le> v_virtual_total_bytes vol" and x: "x < v_virtual_total_bytes vol"
    and put: "\<forall>k < n. disk_byte vol s' (expand es ! k) = bs ! k" and len: "length bs = n"
    and keep: "\<forall>c. fst c < v_disk_count vol \<longrightarrow> c \<notin> set (expand es) \<longrightarrow> disk_byte vol s' c = disk_byte vol s c"
  shows "volume_byte vol s' x = write_bytes (volume_byte vol s) off bs x"
proof (cases "off \<le> x \<and> x < off + n")
  case True
  then have k: "x - off < n" "byte_addr vol x = expand es ! (x - off)" using es by (auto simp: less_diff_conv2)
  then show ?thesis using put len True by (simp add: volume_byte_def write_bytes_def)
next
  case False
  have "byte_addr vol x \<notin> set (expand es)"
  proof
    assume "byte_addr vol x \<in> set (expand es)"
    then obtain y where y: "off \<le> y" "y < off + n" "byte_addr vol x = byte_addr vol y" using es by auto
    have "x \<in> {..< v_virtual_total_bytes vol}" "y \<in> {..< v_virtual_total_bytes vol}" using x y(2) n by auto
    then have "x = y" using inj_onD [OF byte_addr_inj [OF wf] y(3)] by blast
    then show False using y False by blast
  qed
  then have "disk_byte vol s' (byte_addr vol x) = disk_byte vol s (byte_addr vol x)"
    using keep byte_addr_disk [OF wf x] by blast
  then show ?thesis using False len by (auto simp: volume_byte_def write_bytes_def)
qed

lemma same_volume_I [simp]:
  "same_volume v v" "same_volume v (v\<lparr>v_worker_state := ws\<rparr>)"
  "same_volume v (add_bytes_read n (v\<lparr>v_worker_state := ws\<rparr>))"
  "same_volume v (add_bytes_written n (v\<lparr>v_worker_state := ws\<rparr>))"
proof -
  show "same_volume v v" unfolding same_volume_def
    by (rule exI [of _ "v_worker_state v"], rule exI [of _ "v_bytes_read v"], rule exI [of _ "v_bytes_written v"]) simp
  show "same_volume v (v\<lparr>v_worker_state := ws\<rparr>)" unfolding same_volume_def
    by (rule exI [of _ ws], rule exI [of _ "v_bytes_read v"], rule exI [of _ "v_bytes_written v"]) simp
  show "same_volume v (add_bytes_read n (v\<lparr>v_worker_state := ws\<rparr>))"
    unfolding same_volume_def add_bytes_read_def
    by (rule exI [of _ ws], rule exI [of _ "u64 (v_bytes_read v + n)"], rule exI [of _ "v_bytes_written v"]) simp
  show "same_volume v (add_bytes_written n (v\<lparr>v_worker_state := ws\<rparr>))"
    unfolding same_volume_def add_bytes_written_def
    by (rule exI [of _ ws], rule exI [of _ "v_bytes_read v"], rule exI [of _ "u64 (v_bytes_written v + n)"]) simp
qed

lemma stripe_good_same:
  assumes "stripe_good cap su v s0" "same_volume v w" "workers_ready w s"
  shows "stripe_good cap su w s"
  using assms same_volume_bytes(2) [OF assms(2)] same_volume_fields [OF assms(2)]
  by (simp add: stripe_good_def)

lemma workers_ready_counters [simp]:
  "workers_ready (add_bytes_read n v) s = workers_ready v s"
  "workers_ready (add_bytes_written n v) s = workers_ready v s"
  by (simp_all add: add_bytes_read_def add_bytes_written_def workers_ready_def disks_open_def CHECK_DISKS_def
      vdisk_def disk_path_def workers_idle_def split: option.split)

text \<open>
  The direct path on a well-formed volume with its workers running: a write changes the volume's
  bytes as \<open>memcpy\<close> would, a read returns them.
\<close>

lemma direct_write_good:
  assumes good: "all_good os" "wf_layout vol" "workers_ready vol s"
    and n: "0 < n" "n \<le> unit_bytes (v_stripe_unit vol)" "off + n \<le> v_virtual_total_bytes vol"
  shows "\<exists>ws s'. direct_io os IO_OP_WRITE vol buf off n s = Inr (True, vol\<lparr>v_worker_state := Some ws\<rparr>, buf, s') \<and>
    workers_ready (vol\<lparr>v_worker_state := Some ws\<rparr>) s' \<and> s_heap s' = s_heap s \<and> w_files s' = w_files s \<and>
    (\<forall>x < v_virtual_total_bytes vol. volume_byte vol s' x = write_bytes (volume_byte vol s) off (read_bytes buf 0 n) x)"
proof -
  obtain es where M: "stripe_volume_map_lba vol off n = Some (Inr (True, es))" "es \<noteq> []"
    "length es \<le> IO_RING_SIZE" "expand es = map (byte_addr vol) [off ..< off + n]" "distinct (expand es)"
    "\<forall>e \<in> set es. e_disk_index e < v_disk_count vol"
    using map_request [OF good(2) n] by blast
  have len: "length (expand es) = n" "length (expand es) < 2 ^ 32" using M(4) n(2) by (simp_all add: unit_bytes_def)
  obtain ws s' where S: "submit_entries os vol es buf IO_OP_WRITE s = Inr (True, vol\<lparr>v_worker_state := Some ws\<rparr>, buf, s')"
    "workers_ready (vol\<lparr>v_worker_state := Some ws\<rparr>) s'" "s_heap s' = s_heap s" "w_files s' = w_files s"
    "\<forall>k < length (expand es). disk_byte vol s' (expand es ! k) = buf k"
    "\<forall>c. fst c < v_disk_count vol \<longrightarrow> c \<notin> set (expand es) \<longrightarrow> disk_byte vol s' c = disk_byte vol s c"
    using submit_write_ready [OF good(1,3) M(2,3,6) len(2) M(5)] by blast
  have "volume_byte vol s' x = write_bytes (volume_byte vol s) off (read_bytes buf 0 n) x"
    if "x < v_virtual_total_bytes vol" for x
    using entries_write_range [OF good(2) M(4) n(3) that, of s' "read_bytes buf 0 n" s] S(5,6) len(1) by auto
  then show ?thesis using M(1) S(1-4) by (intro exI [of _ ws] exI [of _ s']) (simp add: direct_io_def)
qed

lemma direct_read_good:
  assumes good: "all_good os" "wf_layout vol" "workers_ready vol s"
    and n: "0 < n" "n \<le> unit_bytes (v_stripe_unit vol)" "off + n \<le> v_virtual_total_bytes vol"
  shows "\<exists>ws s'. direct_io os IO_OP_READ vol buf off n s =
      Inr (True, vol\<lparr>v_worker_state := Some ws\<rparr>, write_bytes buf 0 (read_bytes (volume_byte vol s) off n), s') \<and>
    workers_ready (vol\<lparr>v_worker_state := Some ws\<rparr>) s' \<and> s_heap s' = s_heap s \<and> w_files s' = w_files s \<and>
    volume_byte vol s' = volume_byte vol s"
proof -
  obtain es where M: "stripe_volume_map_lba vol off n = Some (Inr (True, es))" "es \<noteq> []"
    "length es \<le> IO_RING_SIZE" "expand es = map (byte_addr vol) [off ..< off + n]" "distinct (expand es)"
    "\<forall>e \<in> set es. e_disk_index e < v_disk_count vol"
    using map_request [OF good(2) n] by blast
  have len: "length (expand es) < 2 ^ 32" using M(4) n(2) by (simp add: unit_bytes_def)
  obtain ws s' where S: "submit_entries os vol es buf IO_OP_READ s =
      Inr (True, vol\<lparr>v_worker_state := Some ws\<rparr>, write_bytes buf 0 (map (disk_byte vol s) (expand es)), s')"
    "workers_ready (vol\<lparr>v_worker_state := Some ws\<rparr>) s'" "s_heap s' = s_heap s" "w_files s' = w_files s"
    "w_media s' = w_media s"
    using submit_read_ready [OF good(1,3) M(2,3,6) len] by blast
  have "map (disk_byte vol s) (expand es) = read_bytes (volume_byte vol s) off n"
    by (simp add: M(4) read_bytes_def volume_byte_def)
  moreover have "volume_byte vol s' = volume_byte vol s"
    using S(3,5) by (simp add: fun_eq_iff volume_byte_def disk_byte_def disk_path_def)
  ultimately show ?thesis using M(1) S(1-4) by (intro exI [of _ ws] exI [of _ s']) (simp add: direct_io_def)
qed

lemma u64_request: "wf_layout vol \<Longrightarrow> off + n \<le> v_virtual_total_bytes vol \<Longrightarrow> u64 (off + n) = off + n"
  by (rule u64_id) (simp add: wf_layout_def)

lemma ready_checked: "workers_ready vol s \<Longrightarrow> CHECK_DISKS vol"
  by (simp add: workers_ready_def disks_open_def)

lemma stripe_write_good:
  assumes good: "all_good os" "stripe_good cap su vol s" and n: "0 < n" "n \<le> unit_bytes su" "off + n \<le> cap"
  shows "\<exists>vol' s'. stripe_volume_write os vol buf off n s = Inr (True, vol', buf, s') \<and> same_volume vol vol' \<and>
    stripe_good cap su vol' s' \<and> s_heap s' = s_heap s \<and> w_files s' = w_files s \<and>
    (\<forall>x < cap. volume_byte vol' s' x = write_bytes (volume_byte vol s) off (read_bytes buf 0 n) x)"
proof -
  have G: "wf_layout vol" "workers_ready vol s" "v_raid_level vol \<noteq> RAID_LEVEL_MIRROR" "\<not> v_cache_enabled vol"
    "v_virtual_total_bytes vol = cap" "v_stripe_unit vol = su" using good(2) by (simp_all add: stripe_good_def)
  obtain ws s' where S: "direct_io os IO_OP_WRITE vol buf off n s = Inr (True, vol\<lparr>v_worker_state := Some ws\<rparr>, buf, s')"
    "workers_ready (vol\<lparr>v_worker_state := Some ws\<rparr>) s'" "s_heap s' = s_heap s" "w_files s' = w_files s"
    "\<forall>x < cap. volume_byte vol s' x = write_bytes (volume_byte vol s) off (read_bytes buf 0 n) x"
    using direct_write_good [OF good(1) G(1,2) n(1), of off buf] n G(5,6) by auto
  let ?vol' = "add_bytes_written n (vol\<lparr>v_worker_state := Some ws\<rparr>)"
  have "stripe_volume_write os vol buf off n s = Inr (True, ?vol', buf, s')"
    using G n S(1) u64_request [OF G(1)] ready_checked [OF G(2)] by (simp add: stripe_volume_write_def count_if_def)
  moreover have "volume_byte ?vol' s' = volume_byte vol s'" by (rule same_volume_bytes) simp
  ultimately show ?thesis
    using S(2-5) stripe_good_same [OF good(2), of ?vol' s'] by (intro exI [of _ ?vol'] exI [of _ s']) simp
qed

lemma stripe_read_good:
  assumes good: "all_good os" "stripe_good cap su vol s" and n: "0 < n" "n \<le> unit_bytes su" "off + n \<le> cap"
  shows "\<exists>vol' s'. stripe_volume_read os vol buf off n s =
      Inr (True, vol', write_bytes buf 0 (read_bytes (volume_byte vol s) off n), s') \<and> same_volume vol vol' \<and>
    stripe_good cap su vol' s' \<and> s_heap s' = s_heap s \<and> w_files s' = w_files s \<and>
    volume_byte vol' s' = volume_byte vol s"
proof -
  have G: "wf_layout vol" "workers_ready vol s" "v_raid_level vol \<noteq> RAID_LEVEL_MIRROR" "\<not> v_cache_enabled vol"
    "v_virtual_total_bytes vol = cap" "v_stripe_unit vol = su" using good(2) by (simp_all add: stripe_good_def)
  obtain ws s' where S: "direct_io os IO_OP_READ vol buf off n s =
      Inr (True, vol\<lparr>v_worker_state := Some ws\<rparr>, write_bytes buf 0 (read_bytes (volume_byte vol s) off n), s')"
    "workers_ready (vol\<lparr>v_worker_state := Some ws\<rparr>) s'" "s_heap s' = s_heap s" "w_files s' = w_files s"
    "volume_byte vol s' = volume_byte vol s"
    using direct_read_good [OF good(1) G(1,2) n(1), of off buf] n G(5,6) by auto
  let ?vol' = "add_bytes_read n (vol\<lparr>v_worker_state := Some ws\<rparr>)"
  have "stripe_volume_read os vol buf off n s =
      Inr (True, ?vol', write_bytes buf 0 (read_bytes (volume_byte vol s) off n), s')"
    using G n S(1) u64_request [OF G(1)] ready_checked [OF G(2)]
    by (simp add: stripe_volume_read_def count_if_def Let_def)
  moreover have "volume_byte ?vol' s' = volume_byte vol s'" by (rule same_volume_bytes) simp
  ultimately show ?thesis
    using S(2-5) stripe_good_same [OF good(2), of ?vol' s'] by (intro exI [of _ ?vol'] exI [of _ s']) simp
qed

lemma read_bytes_zero [simp]: "read_bytes (write_bytes zero_mem 0 bs) 0 (length bs) = bs"
  by (simp add: mem)

interpretation stripe: byte_store "stripe_get os" "stripe_put os" "\<lambda>st. volume_byte (fst st) (snd st)"
  "\<lambda>st. all_good os \<and> stripe_good cap su (fst st) (snd st)" cap "unit_bytes su" for os cap su
proof
  fix st and n off :: nat
  assume g: "all_good os \<and> stripe_good cap su (fst st) (snd st)" and n: "0 < n" "n \<le> unit_bytes su" "off + n \<le> cap"
  show "\<exists>st'. stripe_get os off n st = (True, read_bytes (volume_byte (fst st) (snd st)) off n, st') \<and>
      (all_good os \<and> stripe_good cap su (fst st') (snd st')) \<and>
      (\<forall>x < cap. volume_byte (fst st') (snd st') x = volume_byte (fst st) (snd st) x)"
    using stripe_read_good [OF conjunct1 [OF g] conjunct2 [OF g] n, of zero_mem] g
    by (auto simp: stripe_get_def mem)
next
  fix st and bs :: "byte list" and off :: nat
  assume g: "all_good os \<and> stripe_good cap su (fst st) (snd st)"
    and n: "0 < length bs" "length bs \<le> unit_bytes su" "off + length bs \<le> cap"
  show "\<exists>st'. stripe_put os off bs st = (True, st') \<and>
      (all_good os \<and> stripe_good cap su (fst st') (snd st')) \<and>
      (\<forall>x < cap. volume_byte (fst st') (snd st') x = write_bytes (volume_byte (fst st) (snd st)) off bs x)"
    using stripe_write_good [OF conjunct1 [OF g] conjunct2 [OF g] n, of "write_bytes zero_mem 0 bs"] g
    by (auto simp: stripe_put_def)
qed

section \<open>A request with too many entries\<close>

text \<open>Two equal disks of \<open>cycles\<close> stripe units each.\<close>

definition pair_volume :: "nat \<Rightarrow> nat \<Rightarrow> STRIPE_VOLUME" where
  "pair_volume su cycles = two_disk_volume\<lparr>v_stripe_unit := su, v_phases :=
     [zero_phase\<lparr>ph_active_count := 2, ph_active_disk_indices := [0, 1, 0, 0], ph_ratios := [1, 1, 0, 0],
        ph_total_ratio := 2, ph_virtual_size_bytes := cycles * (2 * su), ph_cycle_size_bytes := 2 * su\<rparr>,
      zero_phase, zero_phase, zero_phase],
     v_virtual_total_bytes := cycles * (2 * su)\<rparr>"

lemma pair_fields [simp]:
  "v_stripe_unit (pair_volume su k) = su" "v_virtual_total_bytes (pair_volume su k) = k * (2 * su)"
  "v_disk_count (pair_volume su k) = 2" "v_phase_count (pair_volume su k) = 1"
  "v_raid_level (pair_volume su k) = 0" "\<not> v_cache_enabled (pair_volume su k)"
  by (simp_all add: pair_volume_def two_disk_volume_def two_disks_def zero_volume_def)

lemma wf_pair:
  assumes "0 < su" "su < 2 ^ 32" "0 < k" "k * (2 * su) < 2 ^ 64"
  shows "wf_layout (pair_volume su k)"
proof -
  have "k * su < 2 ^ 64" using assms(4) by linarith
  then show ?thesis using assms
    by (simp add: wf_layout_def wf_phase_def pair_volume_def two_disk_volume_def two_disks_def zero_volume_def
      zero_phase_def const vstart_def cum_def phase_extent_def all_less_2 take_Cons' less_2_cases_iff
       del: One_nat_def)
qed

lemma pair_addr:
  assumes "0 < su" "su < 2 ^ 32" "k * (2 * su) < 2 ^ 64" "x < k * (2 * su)"
  shows "fst (byte_addr (pair_volume su k) x) = x div su mod 2"
proof -
  have wf: "wf_layout (pair_volume su k)" using assms by (intro wf_pair) (auto intro!: gr0I)
  let ?j = "x div su mod 2" and ?ph = "v_phases (pair_volume su k) ! 0"
  have ph: "ph_active_count ?ph = 2" "ph_ratios ?ph = [1, 1, 0, 0]" "ph_cycle_size_bytes ?ph = 2 * su"
    "ph_active_disk_indices ?ph = [0, 1, 0, 0]" "v_phases (pair_volume su k) \<noteq> []"
    "ph_virtual_size_bytes ?ph = k * (2 * su)"
    by (simp_all add: pair_volume_def)
  have j: "?j = 0 \<or> ?j = 1" by linarith
  have cum: "cum ?ph 0 = 0" "cum ?ph 1 = 1" "cum ?ph 2 = 2" by (simp_all add: cum_def ph take_Cons')
  have c: "cum ?ph ?j = ?j" "cum ?ph (Suc ?j) = Suc ?j" using j cum by (auto simp: numeral_2_eq_2)
  have x: "x mod (2 * su) = ?j * su + x mod su" using mod_mult2_eq [of x su 2] by (simp add: mult.commute)
  have "x mod su < su" using assms(1) by simp
  then have seg: "?j * su \<le> x mod (2 * su)" "x mod (2 * su) < Suc ?j * su" unfolding x by simp_all
  have vs: "vstart (pair_volume su k) (Suc 0) = k * (2 * su)"
    using ph(5,6) by (cases "v_phases (pair_volume su k)") (simp_all add: vstart_def)
  obtain y where "placed su ?ph x ?j y" using j seg unfolding placed_def ph(1,3) c by auto
  then have m: "maps_to (pair_volume su k) x 0 ?j y" using assms(4) by (simp add: maps_to_def vs)
  show ?thesis using byte_addr_maps_to [OF wf m] j by (auto simp: place_addr_def ph)
qed

lemma expand_split:
  assumes "e \<in> set es"
  shows "\<exists>i. i + e_length_bytes e \<le> length (expand es) \<and>
    (\<forall>k < e_length_bytes e. fst (expand es ! (i + k)) = e_disk_index e)"
proof -
  obtain a b where es: "es = a @ e # b" using assms by (auto simp: in_set_conv_decomp)
  have "expand es = expand a @ expand_entry e @ expand b" by (simp add: es expand_def)
  then show ?thesis by (intro exI [of _ "length (expand a)"]) (auto simp: nth_append expand_entry_def)
qed

lemma length_expand_le: "\<forall>e \<in> set es. e_length_bytes e \<le> m \<Longrightarrow> length (expand es) \<le> length es * m"
  by (induction es) (auto simp: expand_Cons expand_def [of "[]"])

lemma pair_ready: "workers_ready (pair_volume su k) two_disk_system"
  using two_disk_ready
  by (simp add: pair_volume_def workers_ready_def disks_open_def CHECK_DISKS_def vdisk_def disk_path_def workers_idle_def)

lemma pair_entries:
  assumes "0 < su" "su < 2 ^ 32" "k * (2 * su) < 2 ^ 64" "off + n \<le> k * (2 * su)"
    and es: "expand es = map (byte_addr (pair_volume su k)) [off ..< off + n]"
  shows "n \<le> length es * su"
proof -
  have "e_length_bytes e \<le> su" if e: "e \<in> set es" for e
  proof (rule ccontr)
    assume long: "\<not> e_length_bytes e \<le> su"
    obtain i where i: "i + e_length_bytes e \<le> length (expand es)"
      "\<forall>k < e_length_bytes e. fst (expand es ! (i + k)) = e_disk_index e" using expand_split [OF e] by blast
    have lt: "i + su < n" using i(1) long by (simp add: es)
    have "0 < e_length_bytes e" "su < e_length_bytes e" using long by auto
    then have "fst (expand es ! (i + 0)) = fst (expand es ! (i + su))" using i(2) by metis
    then have "(off + i) div su mod 2 = (off + i + su) div su mod 2"
      using lt assms pair_addr [of su k "off + i"] pair_addr [of su k "off + i + su"] by (simp add: es add.assoc)
    moreover have "(off + i + su) div su = Suc ((off + i) div su)"
      using div_add_self2 [of su "off + i"] assms(1) by simp
    moreover have "a mod 2 \<noteq> Suc a mod 2" for a :: nat by presburger
    ultimately show False by metis
  qed
  then have "length (expand es) \<le> length es * su" by (intro length_expand_le) blast
  then show ?thesis using es by simp
qed

lemma stripe_write_read:
  assumes "all_good os" "stripe_good cap su vol s"
    and "0 < n" "n \<le> unit_bytes su" "off + n \<le> cap" "0 < m" "m \<le> unit_bytes su" "o2 + m \<le> cap"
  shows "\<exists>vol1 s1 vol2 s2.
    stripe_volume_write os vol buf off n s = Inr (True, vol1, buf, s1) \<and>
    stripe_volume_read os vol1 rbuf o2 m s1 =
      Inr (True, vol2, write_bytes rbuf 0 (read_bytes (write_bytes (volume_byte vol s) off (read_bytes buf 0 n)) o2 m), s2) \<and>
    stripe_good cap su vol2 s2"
proof -
  obtain vol1 s1 where W: "stripe_volume_write os vol buf off n s = Inr (True, vol1, buf, s1)"
    "stripe_good cap su vol1 s1"
    "\<forall>x < cap. volume_byte vol1 s1 x = write_bytes (volume_byte vol s) off (read_bytes buf 0 n) x"
    using stripe_write_good [OF assms(1,2,3,4,5)] by blast
  obtain vol2 s2 where R: "stripe_volume_read os vol1 rbuf o2 m s1 =
      Inr (True, vol2, write_bytes rbuf 0 (read_bytes (volume_byte vol1 s1) o2 m), s2)" "stripe_good cap su vol2 s2"
    using stripe_read_good [OF assms(1) W(2) assms(6,7,8)] by blast
  have "read_bytes (volume_byte vol1 s1) o2 m =
      read_bytes (write_bytes (volume_byte vol s) off (read_bytes buf 0 n)) o2 m"
    using W(3) assms(8) by (intro read_bytes_cong) simp
  then show ?thesis using W(1) R by auto
qed

section \<open>Properties\<close>




text \<open>
  C3. On a well-formed striped volume without a cache, on a working system and with its workers
  running, a write inside the volume of at most 63 stripe units and below 4 GB, followed by a read
  within the same limits, returns, for every byte of the read, what the write stored there or what
  the volume held before; both calls succeed, the caller's buffer beyond the request is kept, and
  the volume stays good. Longer requests are the subject of another property.
\<close>

theorem stripe_write_then_read:
  assumes "all_good os" "stripe_good cap su vol s"
    and "0 < n" "n \<le> unit_bytes su" "off + n \<le> cap" "0 < m" "m \<le> unit_bytes su" "o2 + m \<le> cap"
  shows "\<exists>vol1 s1 vol2 s2.
    stripe_volume_write os vol buf off n s = Inr (True, vol1, buf, s1) \<and>
    stripe_volume_read os vol1 rbuf o2 m s1 =
      Inr (True, vol2, write_bytes rbuf 0 (read_bytes (write_bytes (volume_byte vol s) off (read_bytes buf 0 n)) o2 m), s2) \<and>
    stripe_good cap su vol2 s2"
  by (rule stripe_write_read [OF assms])

lemma two_disk_good: "stripe_good 2048 512 two_disk_volume two_disk_system"
proof -
  have "wf_layout two_disk_volume"
    using wf_two_disks by (simp add: two_disk_volume_def wf_layout_def vstart_def)
  then show ?thesis using two_disk_ready
    by (simp add: stripe_good_def two_disk_volume_def two_disks_def zero_volume_def const)
qed

theorem stripe_write_then_read_witness:
  "\<exists>vol1 s1 vol2 s2.
    stripe_volume_write os_good two_disk_volume (ramp 7 1000) 100 1000 two_disk_system = Inr (True, vol1, ramp 7 1000, s1) \<and>
    stripe_volume_read os_good vol1 zero_mem 600 10 s1 = Inr (True, vol2,
      write_bytes zero_mem 0 (read_bytes (write_bytes (volume_byte two_disk_volume two_disk_system) 100
        (read_bytes (ramp 7 1000) 0 1000)) 600 10), s2)"
proof -
  have "(1000 :: nat) \<le> unit_bytes 512" "(10 :: nat) \<le> unit_bytes 512" by (simp_all add: unit_bytes_def)
  moreover have "0 < (1000 :: nat)" "100 + 1000 \<le> (2048 :: nat)" "0 < (10 :: nat)" "600 + 10 \<le> (2048 :: nat)" by simp_all
  ultimately show ?thesis using stripe_write_then_read [OF all_good_os_good two_disk_good] by metis
qed

text \<open>The self tests pass on a volume that works.\<close>

lemma random_ops_pass:
  assumes "all_good os" "stripe_good cap su vol s" "\<forall>k. rnd k < 2 ^ 15" "36863 \<le> unit_bytes su" "65536 \<le> cap" "cap < 2 ^ 64"
  shows "\<exists>vol' s'. random_ops os rnd m cap k n failed vol s = Inr (failed, vol', s') \<and> stripe_good cap su vol' s'"
  using assms(2)
proof (induction n arbitrary: k vol s)
  case (Suc n)
  let ?len = "4096 + rnd (3 * k) mod (m - 4095)"
  obtain sz where sz_def: "?len - ?len mod 512 = sz" by simp
  let ?start = "u64 (rnd (3 * k + 1) * rnd (3 * k + 2)) mod (cap - sz)"
  obtain off where off_def: "?start - ?start mod 512 = off" by simp
  have "rnd (3 * k) mod (m - 4095) \<le> rnd (3 * k)" by simp
  also have "rnd (3 * k) < 32768" using assms(3) by simp
  finally have "?len \<le> 36863" by linarith
  moreover have "512 \<le> ?len" by simp
  ultimately have sz: "0 < sz" "sz \<le> 36863" "sz < cap" using assms(5) mod_less_divisor [of 512 ?len] unfolding sz_def [symmetric] by linarith+
  then have sub: "sub64 cap sz = cap - sz" using assms(6) by (intro sub64_id) auto
  have "?start < cap - sz" using sz(3) by (intro mod_less_divisor) simp
  then have off: "off + sz \<le> cap" unfolding off_def [symmetric] by linarith
  have unit: "sz \<le> unit_bytes su" using sz(2) assms(4) by linarith
  obtain vol1 s1 vol2 s2 where W: "stripe_volume_write os vol (ramp off sz) off sz s = Inr (True, vol1, ramp off sz, s1)"
    "stripe_volume_read os vol1 zero_mem off sz s1 = Inr (True, vol2, write_bytes zero_mem 0
       (read_bytes (write_bytes (volume_byte vol s) off (read_bytes (ramp off sz) 0 sz)) off sz), s2)"
    "stripe_good cap su vol2 s2"
    using stripe_write_read [OF assms(1) Suc.prems sz(1) unit off sz(1) unit off] by blast
  have "read_bytes (write_bytes zero_mem 0 (read_bytes (write_bytes (volume_byte vol s) off
      (read_bytes (ramp off sz) 0 sz)) off sz)) 0 sz = read_bytes (ramp off sz) 0 sz"
    by (simp add: mem)
  moreover have "cap - sz \<noteq> 0" using sz(3) by simp
  ultimately have "random_op os rnd m cap k vol s = Inr (True, vol2, s2)"
    unfolding random_op_def Let_def sz_def sub off_def W(1) by (simp add: W(2))
  then show ?case using Suc.IH [OF W(3), of "Suc k"] by simp
qed simp

text \<open>
  C32. On a good striped volume the two built-in self tests end and report success: the verify
  pass when the pass fits one request, the random test for every sequence of random numbers.
\<close>

theorem self_tests_pass:
  assumes "all_good os" "stripe_good cap su vol s" "65536 \<le> cap" "36863 \<le> unit_bytes su" "\<forall>k. rnd k < 2 ^ 15"
  shows "(min cap MB64 \<le> unit_bytes su \<longrightarrow>
      (\<exists>vol' s'. stripe_volume_verify_io os vol s = Inr (True, vol', s'))) \<and>
    (0 < operations \<longrightarrow> (\<exists>vol' s'. stripe_volume_random_test os rnd vol operations max_size_kb s = Inr (True, vol', s')))"
proof -
  have cap: "v_virtual_total_bytes vol = cap" "cap < 2 ^ 64" using assms(2) by (auto simp: stripe_good_def wf_layout_def)
  have good: "stripe_good cap su vol (tick (tick s))"
    using assms(2) disks_open_heap [of vol s "tick (tick s)"]
    by (auto simp: stripe_good_def workers_ready_def)
  have "\<exists>vol' s'. stripe_volume_verify_io os vol s = Inr (True, vol', s')" if fits: "min cap MB64 \<le> unit_bytes su"
  proof -
    let ?n = "min cap MB64"
    have n: "0 < ?n" "0 + ?n \<le> cap" using assms(3) by (auto simp: const)
    have t: "(if MB64 < cap then MB64 else cap) = ?n" by (simp add: min_def)
    obtain vol1 s1 vol2 s2 where
      "stripe_volume_write os vol (ramp 0 ?n) 0 ?n (tick (tick s)) = Inr (True, vol1, ramp 0 ?n, s1)"
      "stripe_volume_read os vol1 zero_mem 0 ?n s1 = Inr (True, vol2, write_bytes zero_mem 0
        (read_bytes (write_bytes (volume_byte vol (tick (tick s))) 0 (read_bytes (ramp 0 ?n) 0 ?n)) 0 ?n), s2)"
      using stripe_write_read [OF assms(1) good n(1) fits n(2) n(1) fits n(2)] by blast
    then show ?thesis using assms(1) unfolding stripe_volume_verify_io_def cap t Let_def by (simp add: mem)
  qed
  moreover have "\<exists>vol' s'. stripe_volume_random_test os rnd vol operations max_size_kb s = Inr (True, vol', s')"
    if "0 < operations"
  proof -
    let ?mx = "max 4096 (u32 (max_size_kb * 1024))"
    let ?m = "min (1024 * 1024) ?mx"
    have m: "(if 1024 * 1024 < ?mx then 1024 * 1024 else ?mx) = ?m"
      "(if u32 (max_size_kb * 1024) < 4096 then 4096 else u32 (max_size_kb * 1024)) = ?mx"
      by (simp_all only: min_def max_def split: if_split) auto
    obtain vol' s' where "random_ops os rnd ?m cap 0 operations 0 vol (tick (tick s)) = Inr (0, vol', s')"
      using random_ops_pass [OF assms(1) good assms(5,4,3) cap(2), of ?m 0 operations 0] by blast
    then show ?thesis using that assms(1,3)
      unfolding stripe_volume_random_test_def cap(1) Let_def m by simp
  qed
  ultimately show ?thesis by blast
qed


lemma pair_good:
  assumes "0 < su" "su < 2 ^ 32" "0 < k" "k * (2 * su) < 2 ^ 64"
  shows "stripe_good (k * (2 * su)) su (pair_volume su k) two_disk_system"
  using wf_pair [OF assms] pair_ready by (simp add: stripe_good_def const)

theorem self_tests_pass_witness:
  "(\<exists>vol' s'. stripe_volume_verify_io os_good (pair_volume 1048576 3) two_disk_system = Inr (True, vol', s')) \<and>
   (\<exists>vol' s'. stripe_volume_random_test os_good (\<lambda>k. k mod 100) (pair_volume 1048576 3) 20 64 two_disk_system = Inr (True, vol', s'))"
proof -
  have g: "stripe_good 6291456 1048576 (pair_volume 1048576 3) two_disk_system" using pair_good [of 1048576 3] by simp
  have "(65536 :: nat) \<le> 6291456" "(36863 :: nat) \<le> unit_bytes 1048576" "min 6291456 MB64 \<le> unit_bytes 1048576"
    by (simp_all add: unit_bytes_def const)
  moreover have "\<forall>k :: nat. k mod 100 < 2 ^ 15"
  proof
    fix k :: nat
    have "k mod 100 < 100" by simp
    also have "\<dots> < (2 :: nat) ^ 15" by simp
    finally show "k mod 100 < 2 ^ 15" .
  qed
  ultimately show ?thesis using self_tests_pass [OF all_good_os_good g, of "\<lambda>k. k mod 100" 20 64] by simp
qed

text \<open>A successful write to a mirror is counted twice.\<close>

lemma mirror_write_loop_counter:
  "mirror_write_loop os off bs ds st = (r, vol', s') \<Longrightarrow> v_bytes_written vol' = v_bytes_written (fst st)"
proof (induction os off bs ds st arbitrary: r rule: mirror_write_loop.induct)
  case (2 os off bs d ds st)
  have d: "v_bytes_written (fst (drop_mirror d x)) = v_bytes_written (fst x)" for x
    by (cases x) (simp add: drop_mirror_def)
  show ?case using 2 by (auto simp: d split: if_splits prod.splits)
qed simp

lemma mirror_write_counter:
  assumes "mirror_volume_write os vol bs off s = (True, vol', s')"
  shows "v_bytes_written vol' = u64 (v_bytes_written vol + length bs)"
proof -
  have loop: "v_bytes_written w = v_bytes_written v"
    if "mirror_write_to_all os v bs off s = (r, w, t)" for v r w t
    using that mirror_write_loop_counter by (fastforce simp: mirror_write_to_all_def Let_def split: if_splits)
  have u: "v_bytes_written (w\<lparr>v_cache := c\<rparr>) = v_bytes_written w" for w c by simp
  show ?thesis using assms loop u
    by (fastforce simp: mirror_volume_write_def Let_def add_bytes_written_def split: if_splits prod.splits bool.splits)
qed

theorem mirror_counters_doubled:
  assumes "v_raid_level vol = RAID_LEVEL_MIRROR"
    and "stripe_volume_write os vol buf off n s = Inr (True, vol', buf', s')"
  shows "v_bytes_written vol' = u64 (v_bytes_written vol + 2 * n)"
proof -
  obtain v1 where "mirror_volume_write os vol (read_bytes buf 0 n) off s = (True, v1, s')" "vol' = add_bytes_written n v1"
    using assms by (auto simp: stripe_volume_write_def split: if_splits prod.splits)
  then have "v_bytes_written vol' = u64 (u64 (v_bytes_written vol + n) + n)"
    using mirror_write_counter by (fastforce simp: add_bytes_written_def)
  then show ?thesis by (simp add: u64_def mod_simps) (simp add: add.assoc mult_2)
qed

theorem mirror_counters_doubled_witness:
  "\<exists>vol' buf' s'. stripe_volume_write os_good two_mirror (ramp 7 100) 5 100 two_disk_system = Inr (True, vol', buf', s') \<and>
    v_bytes_written vol' = 200"
proof -
  let ?bs = "read_bytes (ramp 7 100) 0 100"
  obtain r v1 s1 where R: "mirror_volume_write os_good two_mirror ?bs 5 two_disk_system = (r, v1, s1)"
    by (metis prod_cases3)
  have h: "is_healthy two_disk_system 0" "d_faulty (s_heap two_disk_system 0) = 0"
    by (simp_all add: two_disk_system_def is_healthy_def zero_disk_def)
  have ne: "?bs \<noteq> []" using length_read_bytes [of "ramp 7 100" 0 100] by force
  have "r" using mirror_write_sync [OF two_mirror_ok _ _ ne _ _ R] h all_good_os_good by auto
  moreover have lv: "v_raid_level two_mirror = RAID_LEVEL_MIRROR" "v_bytes_written two_mirror = 0"
    by (simp_all add: two_mirror_def zero_volume_def)
  ultimately have W: "stripe_volume_write os_good two_mirror (ramp 7 100) 5 100 two_disk_system =
      Inr (True, add_bytes_written 100 v1, ramp 7 100, s1)"
    using R by (simp add: stripe_volume_write_def wrap)
  from mirror_counters_doubled [OF lv(1) W] W show ?thesis by (simp add: lv(2) wrap)
qed
end
