(* ===== verification/Journal.thy ===== *)
theory Journal
  imports Codec StripeIo
begin

text \<open>
  The write-ahead journal of cache flushes, \<^verbatim>\<open>src/src/journal.c\<close>: entries of 48 packed bytes,
  the three appending calls, and the recovery that scans each disk's journal and replays the
  ranges of a cycle that was begun and not committed. The structure is sealed by a CRC
  (\<open>sealed_record\<close>); the scan is related to the sequence of calls that wrote the file.
\<close>

section \<open>Entries\<close>

definition JOURNAL_MAGIC :: nat where [const]: "JOURNAL_MAGIC = 0x4A4F5552"
definition JOURNAL_VERSION :: nat where [const]: "JOURNAL_VERSION = 2"
definition JT_BEGIN :: nat where [const]: "JT_BEGIN = 1"
definition JT_DATA :: nat where [const]: "JT_DATA = 2"
definition JT_COMMIT :: nat where [const]: "JT_COMMIT = 3"
definition JE_BODY :: nat where [const]: "JE_BODY = 44"
definition JE_SIZE :: nat where [const]: "JE_SIZE = 48"
definition JOURNAL_LIMIT :: nat where [const]: "JOURNAL_LIMIT = 64 * 1024 * 1024"

record JOURNAL_ENTRY =
  je_magic :: nat
  je_version :: nat
  je_entry_type :: nat
  je_generation :: nat
  je_timestamp :: nat
  je_virtual_offset :: nat
  je_length :: nat
  je_data_crc :: nat

definition je_widths :: "nat list" where
  "je_widths = [4, 4, 4, 8, 8, 8, 4, 4]"

definition je_values :: "JOURNAL_ENTRY \<Rightarrow> nat list" where
  "je_values je = [je_magic je, je_version je, je_entry_type je, je_generation je, je_timestamp je,
     je_virtual_offset je, je_length je, je_data_crc je]"

text \<open>The packed bytes before the checksum, and the structure read from them.\<close>

definition je_body :: "JOURNAL_ENTRY \<Rightarrow> byte list" where
  "je_body je = put_fields je_widths (je_values je)"

definition je_fields :: "byte list \<Rightarrow> JOURNAL_ENTRY" where
  "je_fields bs = (let vs = get_fields je_widths bs in
     \<lparr>je_magic = vs ! 0, je_version = vs ! 1, je_entry_type = vs ! 2, je_generation = vs ! 3,
      je_timestamp = vs ! 4, je_virtual_offset = vs ! 5, je_length = vs ! 6, je_data_crc = vs ! 7\<rparr>)"

definition make_je :: "nat \<Rightarrow> nat \<Rightarrow> nat \<Rightarrow> nat \<Rightarrow> byte list \<Rightarrow> JOURNAL_ENTRY" where
  "make_je now ty gen virt_off data =
     \<lparr>je_magic = JOURNAL_MAGIC, je_version = JOURNAL_VERSION, je_entry_type = ty, je_generation = gen,
      je_timestamp = now, je_virtual_offset = virt_off, je_length = length data,
      je_data_crc = (if data = [] then 0 else unat (crc32 data))\<rparr>"

section \<open>Appending\<close>

definition journal_path :: "DISK_INFO \<Rightarrow> string" where
  "journal_path d = metadata_path (drive_char d) ''journal.dat''"

fun append_chunks :: "os \<Rightarrow> string \<Rightarrow> byte list list \<Rightarrow> 'a world_scheme \<Rightarrow> bool \<times> 'a world_scheme" where
  "append_chunks os p [] w = (True, w)"
| "append_chunks os p (c # cs) w =
     (case append_file os p c w of
        (False, w1) \<Rightarrow> (False, w1)
      | (True, w1) \<Rightarrow> append_chunks os p cs w1)"

text \<open>One disk: open, append, flush.\<close>

definition journal_append :: "os \<Rightarrow> byte list list \<Rightarrow> ptr \<Rightarrow> sys \<Rightarrow> bool \<times> sys" where
  "journal_append os chunks d s =
     (let p = journal_path (s_heap s d) in
      case open_always os p s of
        (False, s1) \<Rightarrow> (False, s1)
      | (True, s1) \<Rightarrow>
          (case append_chunks os p chunks s1 of
             (False, s2) \<Rightarrow> (False, s2)
           | (True, s2) \<Rightarrow> flush_buffers os s2))"

fun journal_append_all :: "os \<Rightarrow> byte list list \<Rightarrow> ptr list \<Rightarrow> sys \<Rightarrow> bool \<times> sys" where
  "journal_append_all os chunks [] s = (False, s)"
| "journal_append_all os chunks (d # ds) s =
     (case journal_append os chunks d s of
        (ok, s1) \<Rightarrow> (case journal_append_all os chunks ds s1 of (any_ok, s2) \<Rightarrow> (ok \<or> any_ok, s2)))"

definition journal_write_entry :: "os \<Rightarrow> STRIPE_VOLUME \<Rightarrow> JOURNAL_ENTRY \<Rightarrow> sys \<Rightarrow> bool \<times> sys" where
  "journal_write_entry os vol je s =
     (if \<not> CHECK_DISKS vol then (False, s) else journal_append_all os [seal (je_body je)] (disk_ptrs vol) s)"

definition journal_begin :: "os \<Rightarrow> nat \<Rightarrow> STRIPE_VOLUME \<Rightarrow> sys \<Rightarrow> bool \<times> sys" where
  "journal_begin os now vol s = journal_write_entry os vol (make_je now JT_BEGIN (v_generation vol) 0 []) s"

definition journal_commit :: "os \<Rightarrow> nat \<Rightarrow> STRIPE_VOLUME \<Rightarrow> sys \<Rightarrow> bool \<times> sys" where
  "journal_commit os now vol s = journal_write_entry os vol (make_je now JT_COMMIT (v_generation vol) 0 []) s"

text \<open>This one does not check the disk pointers.\<close>

definition journal_data :: "os \<Rightarrow> nat \<Rightarrow> STRIPE_VOLUME \<Rightarrow> nat \<Rightarrow> byte list \<Rightarrow> sys \<Rightarrow> fault + bool \<times> sys" where
  "journal_data os now vol virt_off data s =
     (if \<not> CHECK_DISKS vol then Inl NullDeref
      else
        let je = make_je now JT_DATA (v_generation vol) virt_off data;
            chunks = (if data = [] then [seal (je_body je)] else [seal (je_body je), data])
        in Inr (journal_append_all os chunks (disk_ptrs vol) s))"

section \<open>Recovery\<close>

text \<open>
  The state of the scan. A range is (virtual offset, length, offset of its data in the file);
  \<open>range_count\<close> is the length of the list, the C array has room for 256.
\<close>

record scan_state =
  sc_offset :: nat
  sc_begin :: bool
  sc_commit :: bool
  sc_gen :: nat
  sc_ranges :: "(nat \<times> nat \<times> nat) list"

definition MAX_RANGES :: nat where [const]: "MAX_RANGES = 256"

text \<open>
  The effect of an entry with a good checksum whose payload begins at \<open>off\<close>. The bound on the
  payload is computed in 32 bits; checking the payload's CRC then reads it.
\<close>

definition scan_range :: "byte list \<Rightarrow> JOURNAL_ENTRY \<Rightarrow> nat \<Rightarrow> scan_state \<Rightarrow> fault + scan_state" where
  "scan_range raw je off st =
     (if 2 \<le> je_version je \<and> length (sc_ranges st) < MAX_RANGES \<and> u32 (off + je_length je) \<le> length raw then
        if length raw < off + je_length je then Inl OutOfBounds
        else if unat (crc32 (take (je_length je) (drop off raw))) = je_data_crc je
        then Inr (st\<lparr>sc_ranges := sc_ranges st @ [(je_virtual_offset je, je_length je, off)]\<rparr>)
        else Inr st
      else Inr st)"

definition scan_entry :: "byte list \<Rightarrow> JOURNAL_ENTRY \<Rightarrow> nat \<Rightarrow> scan_state \<Rightarrow> fault + scan_state" where
  "scan_entry raw je off st =
     (if je_entry_type je = JT_BEGIN then
        Inr (st\<lparr>sc_begin := True, sc_commit := False, sc_gen := je_generation je, sc_ranges := []\<rparr>)
      else if je_entry_type je = JT_DATA \<and> sc_begin st \<and> \<not> sc_commit st then scan_range raw je off st
      else if je_entry_type je = JT_COMMIT \<and> sc_begin st then Inr (st\<lparr>sc_commit := True\<rparr>)
      else Inr st)"

text \<open>An iteration; the flag is a \<open>break\<close>.\<close>

definition scan_step :: "byte list \<Rightarrow> scan_state \<Rightarrow> fault + bool \<times> scan_state" where
  "scan_step raw st =
     (let je = je_fields (take JE_BODY (drop (sc_offset st) raw));
          off = sc_offset st + JE_SIZE
      in if je_magic je \<noteq> JOURNAL_MAGIC then Inr (True, st\<lparr>sc_offset := off\<rparr>)
         else if \<not> seal_ok JE_BODY (drop (sc_offset st) raw) then Inr (True, st\<lparr>sc_offset := length raw\<rparr>)
         else
           let payload = (if 2 \<le> je_version je \<and> je_entry_type je = JT_DATA then je_length je else 0)
           in case scan_entry raw je off st of
                Inl f \<Rightarrow> Inl f
              | Inr st1 \<Rightarrow>
                  let next = u32 (off + payload)
                  in Inr (False, st1\<lparr>sc_offset := (if length raw < next then length raw else next)\<rparr>))"

partial_function (option) journal_scan :: "byte list \<Rightarrow> scan_state \<Rightarrow> (fault + scan_state) option" where
  "journal_scan raw st =
     (if sc_offset st + JE_SIZE \<le> length raw then
        case scan_step raw st of
          Inl f \<Rightarrow> Some (Inl f)
        | Inr r \<Rightarrow> if fst r then Some (Inr (snd r)) else journal_scan raw (snd r)
      else Some (Inr st))"

definition scan_start :: scan_state where
  "scan_start = \<lparr>sc_offset = 0, sc_begin = False, sc_commit = False, sc_gen = 0, sc_ranges = []\<rparr>"

text \<open>Writing the ranges back; the result counts the failures.\<close>

fun replay :: "os \<Rightarrow> byte list \<Rightarrow> (nat \<times> nat \<times> nat) list \<Rightarrow> nat \<Rightarrow> STRIPE_VOLUME \<Rightarrow> sys
    \<Rightarrow> fault + nat \<times> STRIPE_VOLUME \<times> sys" where
  "replay os raw [] failed vol s = Inr (failed, vol, s)"
| "replay os raw ((off, len, at) # rs) failed vol s =
     (if at = 0 \<or> len = 0 then replay os raw rs (Suc failed) vol s
      else case stripe_volume_write os vol (write_bytes zero_mem 0 (take len (drop at raw))) off len s of
        Inl f \<Rightarrow> Inl f
      | Inr (ok, vol1, _, s1) \<Rightarrow> replay os raw rs (if ok then failed else Suc failed) vol1 s1)"

text \<open>
  One disk. The flag says the journal was clean. Opening, sizing and allocating are calls of the
  oracle; a journal above the limit is passed over like a missing one.
\<close>

definition recover_disk :: "os \<Rightarrow> ptr \<Rightarrow> STRIPE_VOLUME \<Rightarrow> sys \<Rightarrow> fault + bool \<times> STRIPE_VOLUME \<times> sys" where
  "recover_disk os d vol s =
     (let p = journal_path (s_heap s d) in
      case w_files s p of
        None \<Rightarrow> Inr (True, vol, tick s)
      | Some file \<Rightarrow>
          let s1 = tick s; s2 = tick s1; s3 = tick s2 in
          if \<not> sys_ok os s then Inr (True, vol, s1)
          else if \<not> sys_ok os s1 \<or> file = [] then Inr (True, vol, s2)
          else if JOURNAL_LIMIT < length file then Inr (True, vol, s2)
          else if \<not> sys_ok os s2 then Inr (True, vol, s3)
          else case read_file os p (length file) s3 of
            (ok, raw, s4) \<Rightarrow>
              if \<not> ok \<or> length raw < JE_SIZE then Inr (True, vol, s4)
              else (case journal_scan raw scan_start of
                None \<Rightarrow> Inl Deadlock
              | Some (Inl f) \<Rightarrow> Inl f
              | Some (Inr st) \<Rightarrow>
                  if sc_begin st \<and> \<not> sc_commit st then
                    (case replay os raw (sc_ranges st) 0 vol s4 of
                       Inl f \<Rightarrow> Inl f
                     | Inr (failed, vol1, s5) \<Rightarrow>
                         if failed = 0 then Inr (False, vol1, snd (create_always os p s5))
                         else Inr (False, vol1, s5))
                  else Inr (True, vol, snd (create_always os p s4))))"

fun recover_disks :: "os \<Rightarrow> ptr list \<Rightarrow> STRIPE_VOLUME \<Rightarrow> sys \<Rightarrow> fault + bool \<times> STRIPE_VOLUME \<times> sys" where
  "recover_disks os [] vol s = Inr (True, vol, s)"
| "recover_disks os (d # ds) vol s =
     (case recover_disk os d vol s of
        Inl f \<Rightarrow> Inl f
      | Inr (clean, vol1, s1) \<Rightarrow>
          (case recover_disks os ds vol1 s1 of
             Inl f \<Rightarrow> Inl f
           | Inr (all_clean, vol2, s2) \<Rightarrow> Inr (clean \<and> all_clean, vol2, s2)))"

definition journal_recover_all :: "os \<Rightarrow> STRIPE_VOLUME \<Rightarrow> sys \<Rightarrow> fault + bool \<times> STRIPE_VOLUME \<times> sys" where
  "journal_recover_all os vol s =
     (if \<not> CHECK_DISKS vol then Inl NullDeref else recover_disks os (disk_ptrs vol) vol s)"

section \<open>Entries are sealed\<close>

definition je_fits :: "JOURNAL_ENTRY \<Rightarrow> bool" where
  "je_fits je \<longleftrightarrow> fit_fields je_widths (je_values je)"

lemma je_get_put:
  assumes "je_fits je"
  shows "je_fields (je_body je) = je"
proof -
  have "get_fields je_widths (je_body je) = je_values je"
    using get_put_fields [of je_widths "je_values je" "[]"] assms by (simp add: je_body_def je_fits_def)
  then show ?thesis by (simp add: je_fields_def je_values_def Let_def)
qed

interpretation je: sealed_record je_body je_fields je_fits JE_BODY
proof
  fix r assume f: "je_fits r"
  show "je_fields (je_body r) = r" by (rule je_get_put [OF f])
  show "length (je_body r) = JE_BODY"
    using length_put_fields [of je_widths "je_values r"] by (simp add: je_body_def je_widths_def je_values_def const)
qed

lemma je_body_length: "length (je_body je) = JE_BODY"
  using length_put_fields [of je_widths "je_values je"] by (simp add: je_body_def je_widths_def je_values_def const)

lemma make_je_fits:
  "ty < 2 ^ 32 \<Longrightarrow> gen < 2 ^ 64 \<Longrightarrow> now < 2 ^ 64 \<Longrightarrow> off < 2 ^ 64 \<Longrightarrow> length data < 2 ^ 32 \<Longrightarrow>
   je_fits (make_je now ty gen off data)"
  using crc_fits [of "crc32 data"] by (simp add: je_fits_def fit_fields_def je_widths_def je_values_def make_je_def const)

section \<open>The scan reads back what was appended\<close>

text \<open>The calls that append to a journal, what they write, and what a scan should make of them.\<close>

datatype jop = JBegin nat nat | JData nat nat nat "byte list" | JCommit nat nat

fun jop_entry :: "jop \<Rightarrow> JOURNAL_ENTRY" where
  "jop_entry (JBegin now gen) = make_je now JT_BEGIN gen 0 []"
| "jop_entry (JData now gen off data) = make_je now JT_DATA gen off data"
| "jop_entry (JCommit now gen) = make_je now JT_COMMIT gen 0 []"

fun jop_payload :: "jop \<Rightarrow> byte list" where
  "jop_payload (JData now gen off data) = data"
| "jop_payload op = []"

definition jop_bytes :: "jop \<Rightarrow> byte list" where
  "jop_bytes op = seal (je_body (jop_entry op)) @ jop_payload op"

fun jop_ok :: "jop \<Rightarrow> bool" where
  "jop_ok (JBegin now gen) \<longleftrightarrow> now < 2 ^ 64 \<and> gen < 2 ^ 64"
| "jop_ok (JData now gen off data) \<longleftrightarrow> now < 2 ^ 64 \<and> gen < 2 ^ 64 \<and> off < 2 ^ 64 \<and> length data < 2 ^ 31"
| "jop_ok (JCommit now gen) \<longleftrightarrow> now < 2 ^ 64 \<and> gen < 2 ^ 64"

text \<open>Begun, committed, and the ranges of the cycle.\<close>

type_synonym cycle = "bool \<times> bool \<times> (nat \<times> byte list) list"

fun jop_step :: "jop \<Rightarrow> cycle \<Rightarrow> cycle" where
  "jop_step (JBegin now gen) c = (True, False, [])"
| "jop_step (JData now gen off data) (b, c, rs) =
     (b, c, if b \<and> \<not> c \<and> length rs < MAX_RANGES then rs @ [(off, data)] else rs)"
| "jop_step (JCommit now gen) (b, c, rs) = (b, c \<or> b, rs)"

definition scan_view :: "byte list \<Rightarrow> scan_state \<Rightarrow> cycle" where
  "scan_view raw st = (sc_begin st, sc_commit st,
     map (\<lambda>(off, len, at). (off, take len (drop at raw))) (sc_ranges st))"

lemma jop_fits: "jop_ok op \<Longrightarrow> je_fits (jop_entry op)"
  by (cases op) (auto intro!: make_je_fits simp: const)

lemma seal_je_length [simp]: "length (seal (je_body je)) = JE_SIZE"
  by (simp add: seal_def je_body_length const)

text \<open>The header at the head of the bytes is read as the entry it was made from.\<close>

lemma header_read:
  assumes "jop_ok op"
  shows "je_fields (take JE_BODY (seal (je_body (jop_entry op)) @ rest)) = jop_entry op"
    "seal_ok JE_BODY (seal (je_body (jop_entry op)) @ rest)"
  using je.read_back [OF jop_fits [OF assms]] je.accepted [OF jop_fits [OF assms]] by auto

lemma jop_entry_fields:
  "je_magic (jop_entry op) = JOURNAL_MAGIC" "je_version (jop_entry op) = 2"
  by (cases op; simp add: make_je_def const)+

lemma scan_one:
  assumes raw: "raw = before @ jop_bytes op @ rest" and ok: "jop_ok op" and len: "length raw < 2 ^ 32"
    and at: "sc_offset st = length before"
  shows "\<exists>st'. scan_step raw st = Inr (False, st') \<and> sc_offset st' = length (before @ jop_bytes op) \<and>
    scan_view raw st' = jop_step op (scan_view raw st)"
proof -
  let ?je = "jop_entry op" and ?off = "length before + JE_SIZE"
  have d: "drop (sc_offset st) raw = seal (je_body ?je) @ jop_payload op @ rest"
    by (simp add: raw at jop_bytes_def)
  have pay: "drop ?off raw = jop_payload op @ rest" by (simp add: raw jop_bytes_def)
  have tot: "?off + length (jop_payload op) \<le> length raw" by (simp add: raw jop_bytes_def)
  then have next': "u32 (?off + length (jop_payload op)) = ?off + length (jop_payload op)"
    using len by (intro u32_id) linarith
  have payload: "(if 2 \<le> je_version ?je \<and> je_entry_type ?je = JT_DATA then je_length ?je else 0) = length (jop_payload op)"
    by (cases op) (simp_all add: make_je_def const)
  have entry: "\<exists>st1. scan_entry raw ?je ?off st = Inr st1 \<and> scan_view raw st1 = jop_step op (scan_view raw st)"
  proof (cases op)
    case (JData now gen off data)
    have take: "take (length data) (drop ?off raw) = data" using pay JData by simp
    show ?thesis
      using take tot next' JData
      by (auto simp: scan_entry_def scan_range_def make_je_def scan_view_def const crc32_def)
  qed (simp_all add: scan_entry_def make_je_def scan_view_def const)
  then obtain st1 where st1: "scan_entry raw ?je ?off st = Inr st1" "scan_view raw st1 = jop_step op (scan_view raw st)"
    by blast
  have fields: "je_fields (take JE_BODY (drop (sc_offset st) raw)) = ?je" by (simp only: d header_read(1) [OF ok])
  have sealed: "seal_ok JE_BODY (drop (sc_offset st) raw)" by (simp only: d header_read(2) [OF ok])
  have "\<not> length raw < ?off + length (jop_payload op)" using tot by simp
  then have "scan_step raw st = Inr (False, st1\<lparr>sc_offset := ?off + length (jop_payload op)\<rparr>)"
    unfolding scan_step_def Let_def fields payload using sealed st1(1) by (simp add: at next' jop_entry_fields)
  then show ?thesis using st1(2)
    by (intro exI [of _ "st1\<lparr>sc_offset := ?off + length (jop_payload op)\<rparr>"]) (simp add: jop_bytes_def scan_view_def)
qed

text \<open>A tail cut off by a crash in the middle of an append.\<close>

definition torn :: "byte list \<Rightarrow> bool" where
  "torn t \<longleftrightarrow> t = [] \<or> (\<exists>op. jop_ok op \<and> strict_prefix t (jop_bytes op))"

lemma scan_stop: "length raw < sc_offset st + JE_SIZE \<Longrightarrow> journal_scan raw st = Some (Inr st)"
  by (simp add: journal_scan.simps)

lemma torn_cases:
  assumes "torn t"
  shows "length t < JE_SIZE \<or>
    (\<exists>now gen off data part. t = seal (je_body (jop_entry (JData now gen off data))) @ part \<and>
       jop_ok (JData now gen off data) \<and> length part < length data)"
proof (cases "length t < JE_SIZE")
  case False
  then obtain op where op: "jop_ok op" "strict_prefix t (jop_bytes op)"
    using assms by (auto simp: torn_def const)
  then obtain zs where zs: "jop_bytes op = t @ zs" "zs \<noteq> []" by (auto elim: strict_prefixE')
  have "take JE_SIZE (jop_bytes op) = seal (je_body (jop_entry op))" "drop JE_SIZE (jop_bytes op) = jop_payload op"
    by (simp_all add: jop_bytes_def)
  then have "take JE_SIZE t = seal (je_body (jop_entry op))" "jop_payload op = drop JE_SIZE t @ zs"
    using False unfolding zs(1) by auto
  then obtain part where part: "t = seal (je_body (jop_entry op)) @ part" "jop_payload op = part @ zs"
    by (metis append_take_drop_id)
  then obtain now gen off data where d: "op = JData now gen off data" using zs(2) by (cases op) auto
  then have "length part < length data" using part(2) zs(2) by simp
  then show ?thesis using op(1) part(1) d by blast
qed simp

lemma scan_torn:
  assumes t: "torn t" and raw: "raw = before @ t" and len: "length raw \<le> JOURNAL_LIMIT" and at: "sc_offset st = length before"
  shows "\<exists>st'. journal_scan raw st = Some (Inr st') \<and> scan_view raw st' = scan_view raw st"
proof (cases "length t < JE_SIZE")
  case True
  then show ?thesis using scan_stop [of raw st] by (auto simp: raw at)
next
  case False
  then obtain now gen off data part where p: "t = seal (je_body (jop_entry (JData now gen off data))) @ part"
    "jop_ok (JData now gen off data)" "length part < length data" using torn_cases [OF t] by blast
  let ?je = "jop_entry (JData now gen off data)" and ?off = "length before + JE_SIZE"
  have d: "drop (sc_offset st) raw = seal (je_body ?je) @ part" by (simp add: raw at p(1))
  have fields: "je_fields (take JE_BODY (drop (sc_offset st) raw)) = ?je" by (simp only: d header_read(1) [OF p(2)])
  have sealed: "seal_ok JE_BODY (drop (sc_offset st) raw)" by (simp only: d header_read(2) [OF p(2)])
  have tot: "length raw < ?off + length data" using p(3) by (simp add: raw p(1))
  have "?off \<le> length raw" by (simp add: raw p(1))
  then have "?off + length data < 2 ^ 32" using len p(2) by (simp add: const)
  then have next': "u32 (?off + length data) = ?off + length data" by (rule u32_id)
  have f: "je_magic ?je = JOURNAL_MAGIC" "je_version ?je = 2" "je_entry_type ?je = JT_DATA" "je_length ?je = length data"
    by (simp_all add: make_je_def const)
  have "scan_entry raw ?je ?off st = Inr st"
    using tot by (simp add: scan_entry_def scan_range_def f next' del: jop_entry.simps) (simp add: const)
  then have step: "scan_step raw st = Inr (False, st\<lparr>sc_offset := length raw\<rparr>)"
    unfolding scan_step_def Let_def fields using sealed tot by (simp add: at f next' del: jop_entry.simps)
  have "sc_offset st + JE_SIZE \<le> length raw" by (simp add: raw at p(1))
  then have "journal_scan raw st = journal_scan raw (st\<lparr>sc_offset := length raw\<rparr>)"
    by (simp add: journal_scan.simps [of raw st] step)
  also have "\<dots> = Some (Inr (st\<lparr>sc_offset := length raw\<rparr>))" by (rule scan_stop) (simp add: const)
  finally show ?thesis by (simp add: scan_view_def)
qed

lemma scan_all:
  assumes "\<forall>op \<in> set ops. jop_ok op" "torn t" "raw = before @ concat (map jop_bytes ops) @ t"
    "length raw \<le> JOURNAL_LIMIT" "sc_offset st = length before"
  shows "\<exists>st'. journal_scan raw st = Some (Inr st') \<and> scan_view raw st' = fold jop_step ops (scan_view raw st)"
  using assms
proof (induction ops arbitrary: before st)
  case Nil
  then show ?case using scan_torn [of t raw before st] by simp
next
  case (Cons op ops)
  have raw: "raw = before @ jop_bytes op @ (concat (map jop_bytes ops) @ t)" using Cons.prems(3) by simp
  have len: "length raw < 2 ^ 32" using Cons.prems(4) by (simp add: const)
  obtain st1 where st1: "scan_step raw st = Inr (False, st1)" "sc_offset st1 = length (before @ jop_bytes op)"
    "scan_view raw st1 = jop_step op (scan_view raw st)"
    using scan_one [OF raw _ len Cons.prems(5)] Cons.prems(1) by auto
  have "sc_offset st + JE_SIZE \<le> length raw" using Cons.prems(5) by (simp add: raw jop_bytes_def)
  then have "journal_scan raw st = journal_scan raw st1" by (simp add: journal_scan.simps [of raw st] st1(1))
  moreover obtain st' where "journal_scan raw st1 = Some (Inr st')" "scan_view raw st' = fold jop_step ops (scan_view raw st1)"
    using Cons.IH [of "before @ jop_bytes op" st1] Cons.prems raw st1(2) by auto
  ultimately show ?case using st1(3) by simp
qed

text \<open>Whatever the file holds, the ranges kept lie inside it.\<close>

definition ranges_ok :: "byte list \<Rightarrow> scan_state \<Rightarrow> bool" where
  "ranges_ok raw st \<longleftrightarrow> (\<forall>(off, len, at) \<in> set (sc_ranges st). 0 < at \<and> at + len \<le> length raw)"

lemma scan_step_ranges:
  assumes "scan_step raw st = Inr (b, st')" "ranges_ok raw st"
  shows "ranges_ok raw st'"
proof -
  have r: "ranges_ok raw st1" if "scan_range raw je off st = Inr st1" "0 < off" for je off st1
    using that assms(2) by (auto simp: scan_range_def ranges_ok_def split: if_splits)
  have e: "ranges_ok raw st1" if "scan_entry raw je off st = Inr st1" "0 < off" for je off st1
    using that r assms(2) by (auto simp: scan_entry_def split: if_splits) (auto simp: ranges_ok_def)
  have o: "ranges_ok raw (st\<lparr>sc_offset := k\<rparr>) = ranges_ok raw st" for st k by (simp add: ranges_ok_def)
  show ?thesis using assms e
    by (auto simp: scan_step_def Let_def o const split: if_splits sum.splits)
qed

lemma scan_ranges_ok:
  assumes "journal_scan raw st = Some r"
  shows "ranges_ok raw st \<longrightarrow> (\<forall>st'. r = Inr st' \<longrightarrow> ranges_ok raw st')"
proof (rule journal_scan.raw_induct [where P = "\<lambda>raw st r. ranges_ok raw st \<longrightarrow>
    (\<forall>st'. r = Inr st' \<longrightarrow> ranges_ok raw st')", OF _ assms], intro impI)
  fix f raw st r
  assume IH: "\<And>raw st r. f raw st = Some r \<Longrightarrow> ranges_ok raw st \<longrightarrow> (\<forall>st'. r = Inr st' \<longrightarrow> ranges_ok raw st')"
    and run: "(if sc_offset st + JE_SIZE \<le> length raw then
        case scan_step raw st of Inl f \<Rightarrow> Some (Inl f)
        | Inr r \<Rightarrow> if fst r then Some (Inr (snd r)) else f raw (snd r)
      else Some (Inr st)) = Some r" and ok: "ranges_ok raw st"
  show "\<forall>st'. r = Inr st' \<longrightarrow> ranges_ok raw st'"
    using run ok IH scan_step_ranges [of raw st]
    by (fastforce split: if_splits sum.splits)
qed

section \<open>Appending on machines whose calls succeed\<close>

definition journal_of :: "ptr \<Rightarrow> sys \<Rightarrow> byte list" where
  "journal_of d s = (case w_files s (journal_path (s_heap s d)) of None \<Rightarrow> [] | Some bs \<Rightarrow> bs)"

definition journal_put :: "ptr \<Rightarrow> byte list \<Rightarrow> sys \<Rightarrow> string \<rightharpoonup> byte list" where
  "journal_put d bs s = (w_files s)(journal_path (s_heap s d) := Some (journal_of d s @ bs))"

lemma append_chunks_good:
  assumes "all_good os" "w_files s p = Some old" "\<forall>c \<in> set cs. length c \<le> 2 ^ 64"
  shows "\<exists>s'. append_chunks os p cs (s :: sys) = (True, s') \<and> w_files s' = (w_files s)(p := Some (old @ concat cs)) \<and>
     w_media s' = w_media s \<and> s_heap s' = s_heap s"
  using assms
proof (induction cs arbitrary: s old)
  case Nil
  then show ?case by (simp add: fun_upd_idem)
next
  case (Cons c cs)
  let ?s = "(tick s)\<lparr>w_files := (w_files s)(p := Some (old @ c))\<rparr>"
  have "append_file os p c s = (True, ?s)" using Cons.prems by (simp add: append_file_def Let_def)
  moreover obtain s' where "append_chunks os p cs ?s = (True, s')"
    "w_files s' = (w_files ?s)(p := Some ((old @ c) @ concat cs))" "w_media s' = w_media ?s" "s_heap s' = s_heap ?s"
    using Cons.IH [OF Cons.prems(1), of ?s "old @ c"] Cons.prems(3) by fastforce
  ultimately show ?case by (simp add: fun_eq_iff)
qed

lemma journal_append_good:
  assumes "all_good os" "\<forall>c \<in> set cs. length c \<le> 2 ^ 64"
  shows "\<exists>s'. journal_append os cs d s = (True, s') \<and> w_files s' = journal_put d (concat cs) s \<and>
     w_media s' = w_media s \<and> s_heap s' = s_heap s"
proof -
  let ?p = "journal_path (s_heap s d)"
  let ?s = "(tick s)\<lparr>w_files := (w_files s)(?p := Some (journal_of d s))\<rparr>"
  have o: "open_always os ?p s = (True, ?s)" using assms(1) by (simp add: open_always_def journal_of_def)
  have "w_files ?s ?p = Some (journal_of d s)" by simp
  from append_chunks_good [OF assms(1) this assms(2)]
  obtain s' where "append_chunks os ?p cs ?s = (True, s')" "w_files s' = (w_files ?s)(?p := Some (journal_of d s @ concat cs))"
    "w_media s' = w_media ?s" "s_heap s' = s_heap ?s" by blast
  then show ?thesis using assms(1) o by (simp add: journal_append_def flush_buffers_def journal_put_def Let_def)
qed

text \<open>Every disk on a drive of its own gets the same bytes.\<close>

definition own_drives :: "ptr list \<Rightarrow> sys \<Rightarrow> bool" where
  "own_drives ds s \<longleftrightarrow> distinct (map (\<lambda>d. drive_char (s_heap s d)) ds)"

lemma journal_path_inject: "journal_path a = journal_path b \<longleftrightarrow> drive_char a = drive_char b"
  by (simp add: journal_path_def metadata_path_def)

lemma journal_append_all_good:
  assumes "all_good os" "\<forall>c \<in> set cs. length c \<le> 2 ^ 64" "own_drives ds s"
  shows "\<exists>s'. journal_append_all os cs ds s = (ds \<noteq> [], s') \<and> w_media s' = w_media s \<and> s_heap s' = s_heap s \<and>
     (\<forall>d \<in> set ds. journal_of d s' = journal_of d s @ concat cs) \<and>
     (\<forall>p. (\<forall>d \<in> set ds. p \<noteq> journal_path (s_heap s d)) \<longrightarrow> w_files s' p = w_files s p)"
  using assms(3)
proof (induction ds arbitrary: s)
  case (Cons d ds)
  obtain s1 where A: "journal_append os cs d s = (True, s1)" "w_files s1 = journal_put d (concat cs) s"
    "w_media s1 = w_media s" "s_heap s1 = s_heap s" using journal_append_good [OF assms(1,2)] by blast
  have "own_drives ds s1" using Cons.prems A(4) by (simp add: own_drives_def)
  from Cons.IH [OF this] obtain s2 where B: "journal_append_all os cs ds s1 = (ds \<noteq> [], s2)" "w_media s2 = w_media s1"
    "s_heap s2 = s_heap s1" "\<forall>e \<in> set ds. journal_of e s2 = journal_of e s1 @ concat cs"
    "\<forall>p. (\<forall>e \<in> set ds. p \<noteq> journal_path (s_heap s1 e)) \<longrightarrow> w_files s2 p = w_files s1 p" by blast
  have ne: "journal_path (s_heap s e) \<noteq> journal_path (s_heap s d)" if "e \<in> set ds" for e
    using Cons.prems imageI [OF that, of "\<lambda>d. drive_char (s_heap s d)"] by (auto simp: own_drives_def journal_path_inject)
  have others: "journal_of e s1 = journal_of e s" if "e \<in> set ds" for e
    using ne [OF that] by (simp add: journal_of_def A(2,4) journal_put_def)
  have "w_files s2 (journal_path (s_heap s d)) = w_files s1 (journal_path (s_heap s d))"
    using B(5) ne by (simp add: A(4)) metis
  then have "journal_of d s2 = journal_of d s @ concat cs"
    by (simp add: journal_of_def [of d s2] B(3) A(2,4) journal_put_def)
  then show ?case using A B others
    by (intro exI [of _ s2]) (auto simp: journal_put_def)
qed simp

lemma sealed_chunk: "length (seal (je_body je)) \<le> 2 ^ 64"
  by (simp add: const)

text \<open>The journals of a volume's disks grow by the records \<open>ops\<close>; every other small file stays as it is.\<close>

definition logged :: "STRIPE_VOLUME \<Rightarrow> jop list \<Rightarrow> sys \<Rightarrow> sys \<Rightarrow> bool" where
  "logged vol ops s s' \<longleftrightarrow> s_heap s' = s_heap s \<and>
     (\<forall>d \<in> set (disk_ptrs vol). journal_of d s' = journal_of d s @ concat (map jop_bytes ops)) \<and>
     (\<forall>p. (\<forall>d \<in> set (disk_ptrs vol). p \<noteq> journal_path (s_heap s d)) \<longrightarrow> w_files s' p = w_files s p)"

lemma logged_Nil [simp]: "logged vol [] s s"
  by (simp add: logged_def)

lemma logged_append:
  "logged vol xs s s1 \<Longrightarrow> logged vol ys s1 s2 \<Longrightarrow> logged vol (xs @ ys) s s2"
  by (simp add: logged_def)

lemma logged_same:
  "logged vol xs s s1 \<Longrightarrow> s_heap s2 = s_heap s1 \<Longrightarrow> w_files s2 = w_files s1 \<Longrightarrow> logged vol xs s s2"
proof -
  assume a: "logged vol xs s s1" and h: "s_heap s2 = s_heap s1" "w_files s2 = w_files s1"
  have "journal_of d s2 = journal_of d s1" for d by (simp add: journal_of_def h)
  then show ?thesis using a h by (simp add: logged_def)
qed

lemma append_logged:
  assumes "all_good os" "own_drives (disk_ptrs vol) s" "0 < v_disk_count vol"
    and "\<forall>c \<in> set cs. length c \<le> 2 ^ 64" "concat cs = jop_bytes op"
  shows "\<exists>s'. journal_append_all os cs (disk_ptrs vol) s = (True, s') \<and> w_media s' = w_media s \<and> logged vol [op] s s'"
proof -
  have ne: "(disk_ptrs vol \<noteq> []) = True" using assms(3) by (simp add: disk_ptrs_def)
  show ?thesis using journal_append_all_good [OF assms(1,4,2)] unfolding ne assms(5)
    by (auto simp: logged_def)
qed

lemma journal_calls_good:
  assumes good: "all_good os" "own_drives (disk_ptrs vol) s" "0 < v_disk_count vol" "CHECK_DISKS vol"
  shows "\<exists>s'. journal_begin os now vol s = (True, s') \<and> w_media s' = w_media s \<and>
      logged vol [JBegin now (v_generation vol)] s s'" (is ?opening)
    and "\<exists>s'. journal_commit os now vol s = (True, s') \<and> w_media s' = w_media s \<and>
      logged vol [JCommit now (v_generation vol)] s s'" (is ?closing)
    and "length data < 2 ^ 32 \<Longrightarrow> \<exists>s'. journal_data os now vol off data s = Inr (True, s') \<and> w_media s' = w_media s \<and>
      logged vol [JData now (v_generation vol) off data] s s'" (is "_ \<Longrightarrow> ?data")
proof -
  note A = append_logged [OF good(1-3)]
  show ?opening using A [of "[seal (je_body (make_je now JT_BEGIN (v_generation vol) 0 []))]" "JBegin now (v_generation vol)"]
    good(4) sealed_chunk by (simp add: journal_begin_def journal_write_entry_def jop_bytes_def)
  show ?closing using A [of "[seal (je_body (make_je now JT_COMMIT (v_generation vol) 0 []))]" "JCommit now (v_generation vol)"]
    good(4) sealed_chunk by (simp add: journal_commit_def journal_write_entry_def jop_bytes_def)
  assume len: "length data < 2 ^ 32"
  let ?chunks = "if data = [] then [seal (je_body (make_je now JT_DATA (v_generation vol) off data))]
    else [seal (je_body (make_je now JT_DATA (v_generation vol) off data)), data]"
  have "\<forall>c \<in> set ?chunks. length c \<le> 2 ^ 64" "concat ?chunks = jop_bytes (JData now (v_generation vol) off data)"
    using len sealed_chunk by (auto simp: jop_bytes_def)
  from A [OF this] show ?data using good(4) by (auto simp: journal_data_def Let_def)
qed

section \<open>Replaying\<close>

definition apply_ranges :: "(nat \<times> byte list) list \<Rightarrow> mem \<Rightarrow> mem" where
  "apply_ranges rs m = fold (\<lambda>(off, data) m. write_bytes m off data) rs m"

lemma write_bytes_cong:
  "\<forall>x < cap. m x = m' x \<Longrightarrow> \<forall>x < cap. write_bytes m off bs x = write_bytes m' off bs x"
  by (simp add: write_bytes_def)

lemma apply_ranges_cong:
  "\<forall>x < cap. m x = m' x \<Longrightarrow> \<forall>x < cap. apply_ranges rs m x = apply_ranges rs m' x"
proof (induction rs arbitrary: m m')
  case (Cons r rs)
  obtain off data where r: "r = (off, data)" by fastforce
  show ?case using Cons.IH [OF write_bytes_cong [OF Cons.prems, of off data]] by (simp add: r apply_ranges_def)
qed (simp add: apply_ranges_def)

lemma replay_good:
  assumes "all_good os" "stripe_good cap su vol s"
    "\<forall>(off, len, at) \<in> set rs. 0 < at \<and> at + len \<le> length raw \<and> 0 < len \<and> len \<le> unit_bytes su \<and> off + len \<le> cap"
  shows "\<exists>vol' s'. replay os raw rs failed vol s = Inr (failed, vol', s') \<and> stripe_good cap su vol' s' \<and>
    w_files s' = w_files s \<and> s_heap s' = s_heap s \<and>
    (\<forall>x < cap. volume_byte vol' s' x =
       apply_ranges (map (\<lambda>(off, len, at). (off, take len (drop at raw))) rs) (volume_byte vol s) x)"
  using assms(2,3)
proof (induction rs arbitrary: vol s)
  case Nil
  then show ?case by (simp add: apply_ranges_def)
next
  case (Cons r rs)
  obtain off len at where r: "r = (off, len, at)" by (metis prod_cases3)
  let ?bs = "take len (drop at raw)"
  have b: "0 < at" "at + len \<le> length raw" "0 < len" "len \<le> unit_bytes su" "off + len \<le> cap" using Cons.prems(2) r by auto
  have l: "length ?bs = len" using b by simp
  have buf: "read_bytes (write_bytes zero_mem 0 ?bs) 0 len = ?bs" by (rule read_write_same) (rule l [symmetric])
  obtain vol1 s1 where W: "stripe_volume_write os vol (write_bytes zero_mem 0 ?bs) off len s = Inr (True, vol1, write_bytes zero_mem 0 ?bs, s1)"
    "stripe_good cap su vol1 s1" "s_heap s1 = s_heap s" "w_files s1 = w_files s"
    "\<forall>x < cap. volume_byte vol1 s1 x = write_bytes (volume_byte vol s) off ?bs x"
    using stripe_write_good [OF assms(1) Cons.prems(1) b(3,4,5), of "write_bytes zero_mem 0 ?bs"] unfolding buf by blast
  obtain vol2 s2 where R: "replay os raw rs failed vol1 s1 = Inr (failed, vol2, s2)" "stripe_good cap su vol2 s2"
    "w_files s2 = w_files s1" "s_heap s2 = s_heap s1"
    "\<forall>x < cap. volume_byte vol2 s2 x =
       apply_ranges (map (\<lambda>(off, len, at). (off, take len (drop at raw))) rs) (volume_byte vol1 s1) x"
    using Cons.IH [OF W(2)] Cons.prems(2) by auto
  note cong = apply_ranges_cong [OF W(5), of "map (\<lambda>(off, len, at). (off, take len (drop at raw))) rs"]
  have "replay os raw (r # rs) failed vol s = Inr (failed, vol2, s2)"
    using W(1) R(1) b by (simp add: r)
  then show ?case using R W(3,4) cong
    by (intro exI [of _ vol2] exI [of _ s2]) (simp add: r apply_ranges_def)
qed

lemma log_scan:
  assumes "\<forall>op \<in> set ops. jop_ok op" "torn t" "length (concat (map jop_bytes ops) @ t) \<le> JOURNAL_LIMIT"
  shows "\<exists>st. journal_scan (concat (map jop_bytes ops) @ t) scan_start = Some (Inr st) \<and>
    scan_view (concat (map jop_bytes ops) @ t) st = fold jop_step ops (False, False, [])"
proof -
  let ?raw = "concat (map jop_bytes ops) @ t"
  have "?raw = [] @ ?raw" "sc_offset scan_start = length ([] :: byte list)" by (simp_all add: scan_start_def)
  from scan_all [OF assms(1,2) this(1) assms(3) this(2)] show ?thesis
    by (simp add: scan_view_def scan_start_def)
qed

lemma stripe_good_heap: "stripe_good cap su vol s \<Longrightarrow> s_heap s' = s_heap s \<Longrightarrow> stripe_good cap su vol s'"
  using disks_open_heap [of vol s s'] by (auto simp: stripe_good_def workers_ready_def)

text \<open>The recovery of a disk whose journal ends inside a cycle comes down to the replay.\<close>

lemma recover_cut:
  assumes good: "all_good os"
    and stored: "w_files s (journal_path (s_heap s d)) = Some (concat (map jop_bytes ops) @ t)"
    and log: "\<forall>op \<in> set ops. jop_ok op" "torn t" "length (concat (map jop_bytes ops) @ t) \<le> JOURNAL_LIMIT"
    and cut: "fold jop_step ops (False, False, []) = (True, False, rs)"
  obtains ranges where
    "map (\<lambda>(off, len, at). (off, take len (drop at (concat (map jop_bytes ops) @ t)))) ranges = rs"
    "\<forall>(off, len, at) \<in> set ranges. 0 < at \<and> at + len \<le> length (concat (map jop_bytes ops) @ t) \<and>
       (\<exists>data. (off, data) \<in> set rs \<and> length data = len)"
    "recover_disk os d vol s =
      (case replay os (concat (map jop_bytes ops) @ t) ranges 0 vol (tick (tick (tick (tick s)))) of
         Inl f \<Rightarrow> Inl f
       | Inr (failed, vol1, s1) \<Rightarrow> Inr (False, vol1,
           if failed = 0 then snd (create_always os (journal_path (s_heap s d)) s1) else s1))"
proof -
  let ?raw = "concat (map jop_bytes ops) @ t" and ?p = "journal_path (s_heap s d)"
  let ?s = "tick (tick (tick (tick s)))"
  obtain st where st: "journal_scan ?raw scan_start = Some (Inr st)"
    "scan_view ?raw st = fold jop_step ops (False, False, [])"
    using log_scan [OF log] by blast
  have view: "sc_begin st" "\<not> sc_commit st" "map (\<lambda>(off, len, at). (off, take len (drop at ?raw))) (sc_ranges st) = rs"
    using st(2) unfolding cut by (simp_all add: scan_view_def)
  have ok: "ranges_ok ?raw st" using scan_ranges_ok [OF st(1)] by (simp add: ranges_ok_def scan_start_def)
  have ranges: "\<forall>(off, len, at) \<in> set (sc_ranges st). 0 < at \<and> at + len \<le> length ?raw \<and>
      (\<exists>data. (off, data) \<in> set rs \<and> length data = len)"
  proof clarify
    fix off len at assume r: "(off, len, at) \<in> set (sc_ranges st)"
    have a: "0 < at" "at + len \<le> length ?raw" using ok r by (auto simp: ranges_ok_def)
    then have "length (take len (drop at ?raw)) = len" by simp
    moreover have "(off, take len (drop at ?raw)) \<in> set rs" using r view(3) by force
    ultimately show "0 < at \<and> at + len \<le> length ?raw \<and> (\<exists>data. (off, data) \<in> set rs \<and> length data = len)"
      using a by blast
  qed
  have "ops \<noteq> []" using cut by auto
  then have big: "JE_SIZE \<le> length ?raw" by (cases ops) (simp_all add: jop_bytes_def)
  have small: "length ?raw \<le> 2 ^ 64" using log(3) by (simp add: const)
  have rd: "read_file os ?p (length ?raw) (tick (tick (tick s))) = (True, ?raw, ?s)"
    using good stored small by (simp add: read_file_def)
  have "\<not> length ?raw < JE_SIZE" "\<not> JOURNAL_LIMIT < length ?raw" using big log(3) by simp_all
  moreover have "?raw \<noteq> []"
  proof
    assume "?raw = []"
    then have "length ?raw = 0" by (simp only: list.size)
    then show False using big by (simp only: const)
  qed
  ultimately have "recover_disk os d vol s =
      (case replay os ?raw (sc_ranges st) 0 vol ?s of
         Inl f \<Rightarrow> Inl f
       | Inr (failed, vol1, s1) \<Rightarrow> Inr (False, vol1, if failed = 0 then snd (create_always os ?p s1) else s1))"
    unfolding recover_disk_def Let_def stored using good st(1) view(1,2) rd
    by (auto split: sum.split)
  then show thesis by (rule that [OF view(3) ranges])
qed

section \<open>Recovery of a mirror\<close>

text \<open>
  A mirrored volume as loading leaves it: no cache, every member healthy, without a fault and open
  on a pool of its own. No workers are needed.
\<close>

definition mirror_loaded :: "STRIPE_VOLUME \<Rightarrow> sys \<Rightarrow> bool" where
  "mirror_loaded vol s \<longleftrightarrow> v_raid_level vol = RAID_LEVEL_MIRROR \<and> \<not> v_cache_enabled vol \<and> CHECK_DISKS vol \<and>
     0 < v_disk_count vol \<and> v_virtual_total_bytes vol < 2 ^ 64 \<and> distinct (disk_ptrs vol) \<and> in_order (disk_ptrs vol) s"

lemma mirror_write_all_good:
  assumes good: "all_good os" and vol: "mirror_loaded vol s" and bs: "0 < n" "off + n \<le> v_virtual_total_bytes vol"
  shows "\<exists>vol' s'. stripe_volume_write os vol buf off n s = Inr (True, vol', buf, s') \<and> same_mirror vol vol' \<and> mirror_loaded vol' s' \<and>
    same_drives s s' \<and> w_files s' = w_files s \<and>
    w_media s' = (\<lambda>p. if p \<in> member_files (disk_ptrs vol) s then write_bytes (w_media s p) off (read_bytes buf 0 n) else w_media s p)"
proof -
  note V = vol [unfolded mirror_loaded_def]
  let ?bs = "read_bytes buf 0 n"
  have len: "length ?bs = n" by simp
  have small: "length ?bs < 2 ^ 64" using bs V by (simp add: len)
  obtain s' where W: "mirror_write_loop os off ?bs (disk_ptrs vol) (vol, s) = (disk_ptrs vol \<noteq> [], vol, s')" "same_drives s s'"
    "w_files s' = w_files s"
    "w_media s' = (\<lambda>p. if p \<in> member_files (disk_ptrs vol) s then write_bytes (w_media s p) off ?bs else w_media s p)"
    using mirror_loop_all_good [OF good _ _ small, of "disk_ptrs vol" s off vol] V by blast
  have ne: "disk_ptrs vol \<noteq> []" using V by (simp add: disk_ptrs_def)
  have u: "u64 (off + n) = off + n" using bs V by (intro u64_id) linarith
  let ?vol' = "add_bytes_written n (add_bytes_written n vol)"
  have g: "\<not> (v_virtual_total_bytes vol < n \<or> v_virtual_total_bytes vol - n < off)" using bs by auto
  have "mirror_volume_write os vol ?bs off s = (True, add_bytes_written n vol, s')"
    using V W(1) ne g bs by (simp add: mirror_volume_write_def mirror_write_to_all_def Let_def len)
  then have "stripe_volume_write os vol buf off n s = Inr (True, ?vol', buf, s')"
    using V bs u by (simp add: stripe_volume_write_def)
  moreover have sm: "same_mirror vol ?vol'" by (simp add: same_mirror_def add_bytes_written_def)
  moreover have "mirror_loaded ?vol' s'"
    using V same_drives_in_order [OF W(2)] same_mirror_ptrs [OF sm]
    by (simp add: mirror_loaded_def add_bytes_written_def CHECK_DISKS_def)
  ultimately show ?thesis using W by blast
qed


lemma mirror_loaded_heap: "mirror_loaded vol s \<Longrightarrow> same_drives s s' \<Longrightarrow> mirror_loaded vol s'"
  using same_drives_in_order by (simp add: mirror_loaded_def)

text \<open>A byte that one of the ranges covers, and what applying ranges does to the others.\<close>

definition in_ranges :: "(nat \<times> byte list) list \<Rightarrow> nat \<Rightarrow> bool" where
  "in_ranges rs x \<longleftrightarrow> (\<exists>(off, data) \<in> set rs. off \<le> x \<and> x < off + length data)"

lemma apply_ranges_at:
  "in_ranges rs x \<or> m x = m' x \<Longrightarrow> apply_ranges rs m x = apply_ranges rs m' x"
proof (induction rs arbitrary: m m')
  case (Cons r rs)
  obtain off data where r: "r = (off, data)" by fastforce
  have "in_ranges rs x \<or> write_bytes m off data x = write_bytes m' off data x"
    using Cons.prems by (auto simp: r in_ranges_def write_bytes_def)
  then have "apply_ranges rs (write_bytes m off data) x = apply_ranges rs (write_bytes m' off data) x" by (rule Cons.IH)
  then show ?case by (simp add: r apply_ranges_def)
qed (simp add: apply_ranges_def in_ranges_def)

lemma apply_ranges_outside: "\<not> in_ranges rs x \<Longrightarrow> apply_ranges rs m x = m x"
proof (induction rs arbitrary: m)
  case (Cons r rs)
  obtain off data where r: "r = (off, data)" by fastforce
  have "\<not> in_ranges rs x" "write_bytes m off data x = m x" using Cons.prems by (auto simp: r in_ranges_def write_bytes_def)
  then show ?case using Cons.IH by (simp add: r apply_ranges_def)
qed (simp add: apply_ranges_def)

lemma apply_ranges_twice [simp]: "apply_ranges rs (apply_ranges rs m) = apply_ranges rs m"
  by (intro ext apply_ranges_at) (metis apply_ranges_outside)

lemma replay_mirror:
  assumes good: "all_good os" and "mirror_loaded vol s"
    and "\<forall>(off, len, at) \<in> set rs. 0 < at \<and> at + len \<le> length raw \<and> 0 < len \<and> off + len \<le> v_virtual_total_bytes vol"
  shows "\<exists>vol' s'. replay os raw rs failed vol s = Inr (failed, vol', s') \<and> same_mirror vol vol' \<and> mirror_loaded vol' s' \<and>
    same_drives s s' \<and> w_files s' = w_files s \<and>
    w_media s' = (\<lambda>p. if p \<in> member_files (disk_ptrs vol) s
       then apply_ranges (map (\<lambda>(off, len, at). (off, take len (drop at raw))) rs) (w_media s p) else w_media s p)"
  using assms(2,3)
proof (induction rs arbitrary: vol s)
  case Nil
  then show ?case by (simp add: apply_ranges_def same_drives_heap fun_eq_iff)
next
  case (Cons r rs)
  obtain off len at where r: "r = (off, len, at)" by (metis prod_cases3)
  let ?bs = "take len (drop at raw)" and ?rs = "map (\<lambda>(off, len, at). (off, take len (drop at raw))) rs"
  have b: "0 < at" "at + len \<le> length raw" "0 < len" "off + len \<le> v_virtual_total_bytes vol" using Cons.prems(2) r by auto
  have buf: "read_bytes (write_bytes zero_mem 0 ?bs) 0 len = ?bs" using b by (intro read_write_same) simp
  obtain vol1 s1 where W: "stripe_volume_write os vol (write_bytes zero_mem 0 ?bs) off len s = Inr (True, vol1, write_bytes zero_mem 0 ?bs, s1)"
    "same_mirror vol vol1" "mirror_loaded vol1 s1" "same_drives s s1" "w_files s1 = w_files s"
    "w_media s1 = (\<lambda>p. if p \<in> member_files (disk_ptrs vol) s then write_bytes (w_media s p) off ?bs else w_media s p)"
    using mirror_write_all_good [OF good Cons.prems(1) b(3,4), of "write_bytes zero_mem 0 ?bs"] unfolding buf by blast
  have t: "v_virtual_total_bytes vol1 = v_virtual_total_bytes vol" using W(2) by (simp add: same_mirror_def)
  have F: "member_files (disk_ptrs vol1) s1 = member_files (disk_ptrs vol) s"
    using same_mirror_ptrs [OF W(2)] same_drives_files [OF W(4)] by simp
  obtain vol2 s2 where R: "replay os raw rs failed vol1 s1 = Inr (failed, vol2, s2)" "same_mirror vol1 vol2" "mirror_loaded vol2 s2"
    "same_drives s1 s2" "w_files s2 = w_files s1"
    "w_media s2 = (\<lambda>p. if p \<in> member_files (disk_ptrs vol) s then apply_ranges ?rs (w_media s1 p) else w_media s1 p)"
    using Cons.IH [OF W(3)] Cons.prems(2) unfolding F t by auto
  have "replay os raw (r # rs) failed vol s = Inr (failed, vol2, s2)" using W(1) R(1) b by (simp add: r)
  moreover have "w_media s2 = (\<lambda>p. if p \<in> member_files (disk_ptrs vol) s
       then apply_ranges (map (\<lambda>(off, len, at). (off, take len (drop at raw))) (r # rs)) (w_media s p) else w_media s p)"
    unfolding R(6) W(6) by (intro ext) (simp add: apply_ranges_def r)
  ultimately show ?case using R(3,5) W(5) same_mirror_trans [OF W(2) R(2)] same_drives_trans [OF W(4) R(4)]
    by (intro exI [of _ vol2] exI [of _ s2]) (simp del: replay.simps list.map)
qed

text \<open>The recovery of one member writes the ranges to every member and empties the member's own journal.\<close>

lemma recover_mirror_disk:
  assumes good: "all_good os" and vol: "mirror_loaded vol s"
    and stored: "w_files s (journal_path (s_heap s d)) = Some (concat (map jop_bytes ops) @ t)"
    and log: "\<forall>op \<in> set ops. jop_ok op" "torn t" "length (concat (map jop_bytes ops) @ t) \<le> JOURNAL_LIMIT"
    and cut: "fold jop_step ops (False, False, []) = (True, False, rs)"
    and fit: "\<forall>(off, data) \<in> set rs. data \<noteq> [] \<and> off + length data \<le> v_virtual_total_bytes vol"
  shows "\<exists>vol' s'. recover_disk os d vol s = Inr (False, vol', s') \<and> same_mirror vol vol' \<and> mirror_loaded vol' s' \<and> same_drives s s' \<and>
    w_files s' = (w_files s)(journal_path (s_heap s d) \<mapsto> []) \<and>
    w_media s' = (\<lambda>p. if p \<in> member_files (disk_ptrs vol) s then apply_ranges rs (w_media s p) else w_media s p)"
proof -
  let ?raw = "concat (map jop_bytes ops) @ t" and ?s = "tick (tick (tick (tick s)))"
  obtain ranges where r: "map (\<lambda>(off, len, at). (off, take len (drop at ?raw))) ranges = rs"
    "\<forall>(off, len, at) \<in> set ranges. 0 < at \<and> at + len \<le> length ?raw \<and> (\<exists>data. (off, data) \<in> set rs \<and> length data = len)"
    "recover_disk os d vol s = (case replay os ?raw ranges 0 vol ?s of Inl f \<Rightarrow> Inl f
       | Inr (failed, vol1, s1) \<Rightarrow> Inr (False, vol1,
           if failed = 0 then snd (create_always os (journal_path (s_heap s d)) s1) else s1))"
    by (rule recover_cut [OF good stored log cut])
  have fits: "\<forall>(off, len, at) \<in> set ranges. 0 < at \<and> at + len \<le> length ?raw \<and> 0 < len \<and> off + len \<le> v_virtual_total_bytes vol"
    using r(2) fit by fastforce
  have sd: "same_drives s ?s" by (rule same_drives_heap) simp
  obtain vol1 s1 where R: "replay os ?raw ranges 0 vol ?s = Inr (0, vol1, s1)" "same_mirror vol vol1" "mirror_loaded vol1 s1"
    "same_drives ?s s1" "w_files s1 = w_files ?s"
    "w_media s1 = (\<lambda>p. if p \<in> member_files (disk_ptrs vol) ?s then apply_ranges rs (w_media ?s p) else w_media ?s p)"
    using replay_mirror [OF good mirror_loaded_heap [OF vol sd] fits, of 0] unfolding r(1) by blast
  obtain s2 where T: "create_always os (journal_path (s_heap s d)) s1 = (True, s2)"
    "w_files s2 = (w_files s1)(journal_path (s_heap s d) \<mapsto> [])" "s_heap s2 = s_heap s1" "w_media s2 = w_media s1"
    using good by (simp add: create_always_def)
  have "recover_disk os d vol s = Inr (False, vol1, s2)" using r(3) R(1) T(1) by simp
  moreover have "mirror_loaded vol1 s2" "same_drives s s2"
    using mirror_loaded_heap [OF R(3)] same_drives_trans [OF same_drives_trans [OF sd R(4)]] T(3) by (simp_all add: same_drives_heap)
  moreover have "w_media ?s = w_media s" "w_files ?s = w_files s" by simp_all
  ultimately show ?thesis using R(2,5,6) T(2,4) same_drives_files [OF sd]
    by (intro exI [of _ vol1] exI [of _ s2]) (simp only: simp_thms)
qed

lemma recover_mirror_disks:
  assumes good: "all_good os" and "mirror_loaded vol s" "own_drives ds s"
    and "\<forall>d \<in> set ds. w_files s (journal_path (s_heap s d)) = Some (concat (map jop_bytes ops) @ t)"
    and log: "\<forall>op \<in> set ops. jop_ok op" "torn t" "length (concat (map jop_bytes ops) @ t) \<le> JOURNAL_LIMIT"
    and cut: "fold jop_step ops (False, False, []) = (True, False, rs)"
    and "\<forall>(off, data) \<in> set rs. data \<noteq> [] \<and> off + length data \<le> v_virtual_total_bytes vol"
  shows "\<exists>vol' s'. recover_disks os ds vol s = Inr (ds = [], vol', s') \<and> same_mirror vol vol' \<and> mirror_loaded vol' s' \<and> same_drives s s' \<and>
    w_files s' = (\<lambda>p. if \<exists>d \<in> set ds. p = journal_path (s_heap s d) then Some [] else w_files s p) \<and>
    w_media s' = (\<lambda>p. if ds \<noteq> [] \<and> p \<in> member_files (disk_ptrs vol) s then apply_ranges rs (w_media s p) else w_media s p)"
  using assms(2,3,4,9)
proof (induction ds arbitrary: vol s)
  case Nil
  then show ?case by (simp add: same_drives_heap)
next
  case (Cons d ds)
  obtain vol1 s1 where D: "recover_disk os d vol s = Inr (False, vol1, s1)" "same_mirror vol vol1" "mirror_loaded vol1 s1" "same_drives s s1"
    "w_files s1 = (w_files s)(journal_path (s_heap s d) \<mapsto> [])"
    "w_media s1 = (\<lambda>p. if p \<in> member_files (disk_ptrs vol) s then apply_ranges rs (w_media s p) else w_media s p)"
    using recover_mirror_disk [OF good Cons.prems(1) _ log cut Cons.prems(4), of d] Cons.prems(3) by auto
  have jp: "journal_path (s_heap s1 e) = journal_path (s_heap s e)" for e
    using D(4) by (simp add: journal_path_def drive_char_def same_drives_def)
  have ne: "journal_path (s_heap s e) \<noteq> journal_path (s_heap s d)" if "e \<in> set ds" for e
    using Cons.prems(2) imageI [OF that, of "\<lambda>d. drive_char (s_heap s d)"] by (auto simp: own_drives_def journal_path_inject)
  have own: "own_drives ds s1" using Cons.prems(2) D(4) by (simp add: own_drives_def same_drives_def drive_char_def)
  have stored: "\<forall>e \<in> set ds. w_files s1 (journal_path (s_heap s1 e)) = Some (concat (map jop_bytes ops) @ t)"
    using Cons.prems(3) ne by (simp add: D(5) jp)
  have t: "v_virtual_total_bytes vol1 = v_virtual_total_bytes vol" using D(2) by (simp add: same_mirror_def)
  have F: "member_files (disk_ptrs vol1) s1 = member_files (disk_ptrs vol) s"
    using same_mirror_ptrs [OF D(2)] same_drives_files [OF D(4)] by simp
  obtain vol2 s2 where R: "recover_disks os ds vol1 s1 = Inr (ds = [], vol2, s2)" "same_mirror vol1 vol2" "mirror_loaded vol2 s2" "same_drives s1 s2"
    "w_files s2 = (\<lambda>p. if \<exists>d \<in> set ds. p = journal_path (s_heap s d) then Some [] else w_files s1 p)"
    "w_media s2 = (\<lambda>p. if ds \<noteq> [] \<and> p \<in> member_files (disk_ptrs vol) s then apply_ranges rs (w_media s1 p) else w_media s1 p)"
    using Cons.IH [OF D(3) own stored] Cons.prems(4) unfolding t F jp by blast
  have "w_files s2 = (\<lambda>p. if \<exists>d \<in> set (d # ds). p = journal_path (s_heap s d) then Some [] else w_files s p)"
    unfolding R(5) D(5) by (intro ext) auto
  moreover have "w_media s2 = (\<lambda>p. if p \<in> member_files (disk_ptrs vol) s then apply_ranges rs (w_media s p) else w_media s p)"
    unfolding R(6) D(6) by (intro ext) auto
  ultimately show ?case using D(1) R(1,3) same_mirror_trans [OF D(2) R(2)] same_drives_trans [OF D(4) R(4)]
    by (intro exI [of _ vol2] exI [of _ s2]) simp
qed

section \<open>Properties\<close>


text \<open>A cycle cut off in its second range.\<close>

definition cut_log :: "jop list" where
  "cut_log = [JBegin 5 1, JData 6 1 100 [1, 2, 3]]"

definition cut_tail :: "byte list" where
  "cut_tail = seal (je_body (jop_entry (JData 7 1 200 [4, 5])))"

lemma cut_log_ok: "\<forall>op \<in> set cut_log. jop_ok op" "torn cut_tail"
  "length (concat (map jop_bytes cut_log) @ cut_tail) \<le> JOURNAL_LIMIT"
  "fold jop_step cut_log (False, False, []) = (True, False, [(100, [1, 2, 3])])"
proof -
  show "torn cut_tail"
    unfolding torn_def cut_tail_def
    by (intro disjI2 exI [of _ "JData 7 1 200 [4, 5]"]) (simp add: jop_bytes_def strict_prefix_def prefix_def)
qed (simp_all add: cut_log_def cut_tail_def jop_bytes_def const)


text \<open>
  C14. On working disks, on drives of their own, with a payload below 4 GB, the journal calls
  succeed and append, to the journal of every disk of the volume, exactly the begin record, the
  data record with its payload and checksums, and the commit record; no other small file, no byte
  of a pool and no disk record is changed.
\<close>

theorem journal_calls_append:
  assumes "all_good os" "CHECK_DISKS vol" "0 < v_disk_count vol" "own_drives (disk_ptrs vol) s" "length data < 2 ^ 32"
  shows "\<exists>s1 s2 s3.
    journal_begin os now vol s = (True, s1) \<and> journal_data os now vol off data s1 = Inr (True, s2) \<and>
    journal_commit os now vol s2 = (True, s3) \<and> w_media s3 = w_media s \<and> s_heap s3 = s_heap s \<and>
    (\<forall>d \<in> set (disk_ptrs vol). journal_of d s3 = journal_of d s @
       concat (map jop_bytes [JBegin now (v_generation vol), JData now (v_generation vol) off data, JCommit now (v_generation vol)])) \<and>
    (\<forall>p. (\<forall>d \<in> set (disk_ptrs vol). p \<noteq> journal_path (s_heap s d)) \<longrightarrow> w_files s3 p = w_files s p)"
proof -
  have own: "own_drives (disk_ptrs vol) s'" if "s_heap s' = s_heap s" for s' using assms(4) that by (simp add: own_drives_def)
  note calls = journal_calls_good [OF assms(1) own assms(3,2)]
  obtain s1 where 1: "journal_begin os now vol s = (True, s1)" "w_media s1 = w_media s"
    "logged vol [JBegin now (v_generation vol)] s s1" using calls(1) [OF refl] by blast
  then have h1: "s_heap s1 = s_heap s" by (simp add: logged_def)
  obtain s2 where 2: "journal_data os now vol off data s1 = Inr (True, s2)" "w_media s2 = w_media s1"
    "logged vol [JData now (v_generation vol) off data] s1 s2" using calls(3) [OF h1 assms(5)] by blast
  then have h2: "s_heap s2 = s_heap s" using h1 by (simp add: logged_def)
  obtain s3 where 3: "journal_commit os now vol s2 = (True, s3)" "w_media s3 = w_media s2"
    "logged vol [JCommit now (v_generation vol)] s2 s3" using calls(2) [OF h2] by blast
  show ?thesis using 1 2 3 by (auto simp: logged_def)
qed

text \<open>The two disks on drives of their own, with the cut-off journal on the first.\<close>

definition two_drive_system :: sys where
  "two_drive_system = two_disk_system\<lparr>s_heap := (\<lambda>p. (s_heap two_disk_system p)\<lparr>d_drive_letter := (if p = 0 then ''C:'' else ''D:'')\<rparr>),
     w_files := [metadata_path CHR ''C'' ''journal.dat'' \<mapsto> concat (map jop_bytes cut_log) @ cut_tail]\<rparr>"

lemma two_drive_ok: "stripe_good 2048 512 two_disk_volume two_drive_system" "disk_ptrs two_disk_volume = [0, 1]"
  "own_drives [0, 1] two_drive_system" "CHECK_DISKS two_disk_volume"
  "w_files two_drive_system (journal_path (s_heap two_drive_system 0)) = Some (concat (map jop_bytes cut_log) @ cut_tail)"
proof -
  show p: "disk_ptrs two_disk_volume = [0, 1]" by (simp add: disk_ptrs_def vdisk_def upt_rec)
  have "disks_open two_disk_volume two_drive_system"
    using two_disk_open by (simp add: disks_open_def disk_path_def two_drive_system_def)
  then show "stripe_good 2048 512 two_disk_volume two_drive_system"
    using two_disk_good by (simp add: stripe_good_def workers_ready_def)
  show "CHECK_DISKS two_disk_volume" using two_disk_open by (simp add: disks_open_def)
qed (simp_all add: own_drives_def two_drive_system_def drive_char_def journal_path_def two_disk_system_def)

theorem journal_calls_append_witness:
  "\<exists>s1 s2 s3. journal_begin os_good 5 two_disk_volume two_drive_system = (True, s1) \<and>
    journal_data os_good 5 two_disk_volume 100 [1, 2, 3] s1 = Inr (True, s2) \<and>
    journal_commit os_good 5 two_disk_volume s2 = (True, s3) \<and>
    journal_of 1 s3 = journal_of 1 two_drive_system @ concat (map jop_bytes [JBegin 5 (v_generation two_disk_volume),
      JData 5 (v_generation two_disk_volume) 100 [1, 2, 3], JCommit 5 (v_generation two_disk_volume)])"
proof -
  have "own_drives (disk_ptrs two_disk_volume) two_drive_system" using two_drive_ok(2,3) by simp
  moreover have "length [1, 2, 3 :: byte] < 2 ^ 32" "0 < v_disk_count two_disk_volume" "1 \<in> set (disk_ptrs two_disk_volume)"
    using two_drive_ok(2) by simp_all
  ultimately show ?thesis using journal_calls_append [OF all_good_os_good two_drive_ok(4)] by metis
qed

text \<open>
  The recovery of a disk of a striped volume whose workers run. The program recovers a striped volume
  only before its workers are started; then nothing is replayed (\<open>recovery_needs_workers\<close>).
\<close>

theorem striped_recovery_replays:
  assumes good: "all_good os" "stripe_good cap su vol s"
    and stored: "w_files s (journal_path (s_heap s d)) = Some (concat (map jop_bytes ops) @ t)"
    and log: "\<forall>op \<in> set ops. jop_ok op" "torn t" "length (concat (map jop_bytes ops) @ t) \<le> JOURNAL_LIMIT"
    and cut: "fold jop_step ops (False, False, []) = (True, False, rs)"
    and fit: "\<forall>(off, data) \<in> set rs. data \<noteq> [] \<and> length data \<le> unit_bytes su \<and> off + length data \<le> cap"
  shows "\<exists>vol' s'. recover_disk os d vol s = Inr (False, vol', s') \<and> stripe_good cap su vol' s' \<and>
    w_files s' = (w_files s)(journal_path (s_heap s d) \<mapsto> []) \<and> s_heap s' = s_heap s \<and>
    (\<forall>x < cap. volume_byte vol' s' x = apply_ranges rs (volume_byte vol s) x)"
proof -
  let ?raw = "concat (map jop_bytes ops) @ t" and ?s = "tick (tick (tick (tick s)))"
  obtain ranges where r: "map (\<lambda>(off, len, at). (off, take len (drop at ?raw))) ranges = rs"
    "\<forall>(off, len, at) \<in> set ranges. 0 < at \<and> at + len \<le> length ?raw \<and> (\<exists>data. (off, data) \<in> set rs \<and> length data = len)"
    "recover_disk os d vol s = (case replay os ?raw ranges 0 vol ?s of Inl f \<Rightarrow> Inl f
       | Inr (failed, vol1, s1) \<Rightarrow> Inr (False, vol1,
           if failed = 0 then snd (create_always os (journal_path (s_heap s d)) s1) else s1))"
    by (rule recover_cut [OF good(1) stored log cut])
  have "\<forall>(off, len, at) \<in> set ranges. 0 < at \<and> at + len \<le> length ?raw \<and> 0 < len \<and> len \<le> unit_bytes su \<and> off + len \<le> cap"
    using r(2) fit by fastforce
  moreover have "stripe_good cap su vol ?s" by (rule stripe_good_heap [OF good(2)]) simp
  ultimately obtain vol1 s1 where R: "replay os ?raw ranges 0 vol ?s = Inr (0, vol1, s1)" "stripe_good cap su vol1 s1"
    "s_heap s1 = s_heap ?s" "w_files s1 = w_files ?s" "\<forall>x < cap. volume_byte vol1 s1 x = apply_ranges rs (volume_byte vol ?s) x"
    using replay_good [OF good(1), of cap su vol ?s ranges ?raw 0] unfolding r(1) by blast
  obtain s2 where T: "create_always os (journal_path (s_heap s d)) s1 = (True, s2)"
    "w_files s2 = (w_files s1)(journal_path (s_heap s d) \<mapsto> [])" "s_heap s2 = s_heap s1" "w_media s2 = w_media s1"
    using good(1) by (simp add: create_always_def)
  have "recover_disk os d vol s = Inr (False, vol1, s2)" using r(3) R(1) T(1) by simp
  moreover have "stripe_good cap su vol1 s2" by (rule stripe_good_heap [OF R(2) T(3)])
  moreover have "volume_byte vol1 s2 = volume_byte vol1 s1" "volume_byte vol ?s = volume_byte vol s"
    using T(3,4) by (simp_all add: fun_eq_iff volume_byte_def disk_byte_def disk_path_def)
  ultimately show ?thesis using R(3-5) T(2,3) by auto
qed

theorem striped_recovery_replays_witness:
  "\<exists>vol' s'. recover_disk os_good 0 two_disk_volume two_drive_system = Inr (False, vol', s') \<and>
    (\<forall>x < 2048. volume_byte vol' s' x = write_bytes (volume_byte two_disk_volume two_drive_system) 100 [1, 2, 3] x)"
proof -
  have "\<forall>(off, data) \<in> set [(100, [1, 2, 3 :: byte])]. data \<noteq> [] \<and> length data \<le> unit_bytes 512 \<and> off + length data \<le> 2048"
    by (simp add: unit_bytes_def)
  from striped_recovery_replays [OF all_good_os_good two_drive_ok(1,5) cut_log_ok this]
  show ?thesis by (auto simp: apply_ranges_def)
qed


text \<open>Two mirrored members on drives of their own, with the cut-off journal on both.\<close>

definition torn_mirror_system :: sys where
  "torn_mirror_system = two_drive_system\<lparr>s_heap := (\<lambda>p. (s_heap two_drive_system p)\<lparr>d_healthy := 1\<rparr>),
     w_files := (\<lambda>_. Some (concat (map jop_bytes cut_log) @ cut_tail))\<rparr>"

lemma torn_mirror_ok: "mirror_loaded two_mirror torn_mirror_system" "own_drives (disk_ptrs two_mirror) torn_mirror_system"
  "\<forall>d \<in> set (disk_ptrs two_mirror). w_files torn_mirror_system (journal_path (s_heap torn_mirror_system d)) =
     Some (concat (map jop_bytes cut_log) @ cut_tail)"
proof -
  show "mirror_loaded two_mirror torn_mirror_system"
    unfolding mirror_loaded_def in_order_def own_files_def two_mirror_fields
    by (simp add: torn_mirror_system_def two_drive_system_def two_disk_system_def zero_disk_def) (simp add: two_mirror_def)
qed (simp_all add: own_drives_def torn_mirror_system_def two_drive_system_def drive_char_def)


text \<open>
  The bound on a payload wraps at 32 bits: an entry whose length is close to \<open>2 ^ 32\<close> makes the
  scan read far past the file, or, outside a cycle, go back to where it was.
\<close>

definition crafted :: "nat \<Rightarrow> JOURNAL_ENTRY" where
  "crafted len = \<lparr>je_magic = JOURNAL_MAGIC, je_version = JOURNAL_VERSION, je_entry_type = JT_DATA, je_generation = 0,
     je_timestamp = 0, je_virtual_offset = 0, je_length = len, je_data_crc = 0\<rparr>"

lemma crafted_read:
  assumes "len < 2 ^ 32"
  shows "je_fields (take JE_BODY (seal (je_body (crafted len)) @ rest)) = crafted len"
    "seal_ok JE_BODY (seal (je_body (crafted len)) @ rest)"
proof -
  have "je_fits (crafted len)"
    using assms by (simp add: je_fits_def fit_fields_def je_widths_def je_values_def crafted_def const)
  from je.read_back [OF this] je.accepted [OF this]
  show "je_fields (take JE_BODY (seal (je_body (crafted len)) @ rest)) = crafted len"
    "seal_ok JE_BODY (seal (je_body (crafted len)) @ rest)" by auto
qed

text \<open>
  C40. The bound check of the scan wraps at 32 bits: a well-sealed record with one length makes
  the scan read outside its buffer, and one with another makes it loop for ever.
\<close>

theorem crafted_length_escapes:
  "journal_scan (jop_bytes (JBegin 0 0) @ seal (je_body (crafted (2 ^ 32 - 96)))) scan_start = Some (Inl OutOfBounds) \<and>
   journal_scan (seal (je_body (crafted (2 ^ 32 - 48)))) scan_start = None"
proof
  let ?je = "crafted (2 ^ 32 - 96)" and ?raw = "jop_bytes (JBegin 0 0) @ seal (je_body (crafted (2 ^ 32 - 96)))"
  have len: "length ?raw = 96" by (simp add: jop_bytes_def const)
  have "?raw = [] @ jop_bytes (JBegin 0 0) @ seal (je_body ?je)" "jop_ok (JBegin 0 0)" "length ?raw < 2 ^ 32"
    "sc_offset scan_start = length ([] :: byte list)" unfolding len by (simp_all add: scan_start_def)
  from scan_one [OF this] obtain st where st: "scan_step ?raw scan_start = Inr (False, st)"
    "sc_offset st = 48" "scan_view ?raw st = jop_step (JBegin 0 0) (scan_view ?raw scan_start)"
    by (auto simp: jop_bytes_def const)
  have v: "sc_begin st" "\<not> sc_commit st" "sc_ranges st = []" using st(3) by (simp_all add: scan_view_def)
  have d: "drop 48 ?raw = seal (je_body ?je) @ []" by (simp add: jop_bytes_def const)
  have r: "je_fields (take JE_BODY (drop 48 ?raw)) = ?je" "seal_ok JE_BODY (drop 48 ?raw)"
    unfolding d by (rule crafted_read; simp)+
  have w: "u32 (96 + (2 ^ 32 - 96)) = 0" by (simp add: u32_def)
  have "scan_range ?raw ?je 96 st = Inl OutOfBounds"
    unfolding scan_range_def len by (simp add: v crafted_def const) (simp add: u32_def)
  then have e: "scan_entry ?raw ?je (48 + JE_SIZE) st = Inl OutOfBounds"
    using v by (simp add: scan_entry_def const crafted_def)
  have "scan_step ?raw st = Inl OutOfBounds"
    unfolding scan_step_def Let_def st(2) r(1) e using r(2) by (simp add: crafted_def)
  moreover have "journal_scan ?raw scan_start = journal_scan ?raw st"
  proof -
    have "sc_offset scan_start + JE_SIZE \<le> length ?raw" unfolding len by (simp add: scan_start_def const)
    then show ?thesis by (simp only: journal_scan.simps [of ?raw scan_start] st(1)) simp
  qed
  ultimately show "journal_scan ?raw scan_start = Some (Inl OutOfBounds)"
    using len st(2) by (simp add: journal_scan.simps [of _ st] const)
next
  let ?je = "crafted (2 ^ 32 - 48)" and ?raw = "seal (je_body (crafted (2 ^ 32 - 48)))"
  have r: "je_fields (take JE_BODY (drop 0 ?raw)) = ?je" "seal_ok JE_BODY (drop 0 ?raw)"
    using crafted_read [of "2 ^ 32 - 48" "[]"] by simp_all
  have s0: "sc_offset scan_start = 0" by (simp add: scan_start_def)
  have e: "scan_entry ?raw ?je (0 + JE_SIZE) scan_start = Inr scan_start"
    by (simp add: scan_entry_def scan_start_def crafted_def const)
  have "u32 (0 + JE_SIZE + (2 ^ 32 - 48)) = 0" by (simp add: u32_def const)
  then have step: "scan_step ?raw scan_start = Inr (False, scan_start)"
    unfolding scan_step_def Let_def s0 r(1) e using r(2) by (simp add: crafted_def const scan_start_def)
  have "\<not> (raw = ?raw \<and> st = scan_start)" if "journal_scan raw st = Some y" for raw st y
  proof (rule journal_scan.raw_induct [where P = "\<lambda>raw st y. \<not> (raw = ?raw \<and> st = scan_start)", OF _ that])
    fix f raw st y
    assume IH: "\<And>raw st y. f raw st = Some y \<Longrightarrow> \<not> (raw = ?raw \<and> st = scan_start)"
      and run: "(if sc_offset st + JE_SIZE \<le> length raw then
        case scan_step raw st of Inl f \<Rightarrow> Some (Inl f)
        | Inr r \<Rightarrow> if fst r then Some (Inr (snd r)) else f raw (snd r)
      else Some (Inr st)) = Some y"
    show "\<not> (raw = ?raw \<and> st = scan_start)"
    proof
      assume a: "raw = ?raw \<and> st = scan_start"
      then have "f ?raw scan_start = Some y" using run step by (simp add: s0)
      then show False using IH by blast
    qed
  qed
  then show "journal_scan ?raw scan_start = None" by (cases "journal_scan ?raw scan_start") auto
qed

text \<open>
  Loading a volume recovers the journal before any worker is started; then nothing is replayed.
\<close>

lemma write_without_workers:
  assumes "wf_layout vol" "v_worker_state vol = None" "v_raid_level vol \<noteq> RAID_LEVEL_MIRROR" "\<not> v_cache_enabled vol"
    "CHECK_DISKS vol" "0 < n" "n \<le> unit_bytes (v_stripe_unit vol)" "off + n \<le> v_virtual_total_bytes vol"
  shows "stripe_volume_write os vol buf off n s = Inr (False, vol, buf, s)"
proof -
  obtain es where M: "stripe_volume_map_lba vol off n = Some (Inr (True, es))" "es \<noteq> []"
    using map_request [OF assms(1,6,7,8)] by blast
  have "v_virtual_total_bytes vol < 2 ^ 64" using assms(1) by (simp add: wf_layout_def)
  then have "u64 (off + n) = off + n" using assms(8) by (intro u64_id) linarith
  then show ?thesis using assms M
    by (simp add: stripe_volume_write_def direct_io_def count_if_def submit_entries_def)
qed

lemma replay_without_workers:
  assumes "wf_layout vol" "v_worker_state vol = None" "v_raid_level vol \<noteq> RAID_LEVEL_MIRROR" "\<not> v_cache_enabled vol"
    "CHECK_DISKS vol"
    "\<forall>(off, len, at) \<in> set rs. len \<le> unit_bytes (v_stripe_unit vol) \<and> off + len \<le> v_virtual_total_bytes vol"
  shows "replay os raw rs failed vol s = Inr (failed + length rs, vol, s)"
  using assms(6)
proof (induction rs arbitrary: failed)
  case (Cons r rs)
  obtain off len at where r: "r = (off, len, at)" by (metis prod_cases3)
  have "0 < len \<Longrightarrow> stripe_volume_write os vol buf off len s = Inr (False, vol, buf, s)" for buf
    using Cons.prems r by (intro write_without_workers [OF assms(1-5)]) auto
  then show ?case using Cons by (simp add: r)
qed simp

theorem recovery_needs_workers:
  assumes vol: "wf_layout vol" "v_worker_state vol = None" "v_raid_level vol \<noteq> RAID_LEVEL_MIRROR" "\<not> v_cache_enabled vol"
    "CHECK_DISKS vol" and good: "all_good os"
    and stored: "w_files s (journal_path (s_heap s d)) = Some (concat (map jop_bytes ops) @ t)"
    and log: "\<forall>op \<in> set ops. jop_ok op" "torn t" "length (concat (map jop_bytes ops) @ t) \<le> JOURNAL_LIMIT"
    and cut: "fold jop_step ops (False, False, []) = (True, False, rs)" "rs \<noteq> []"
    and fit: "\<forall>(off, data) \<in> set rs. length data \<le> unit_bytes (v_stripe_unit vol) \<and>
      off + length data \<le> v_virtual_total_bytes vol"
  shows "\<exists>s'. recover_disk os d vol s = Inr (False, vol, s') \<and> w_media s' = w_media s \<and> w_files s' = w_files s"
proof -
  let ?raw = "concat (map jop_bytes ops) @ t" and ?s = "tick (tick (tick (tick s)))"
  obtain ranges where r: "map (\<lambda>(off, len, at). (off, take len (drop at ?raw))) ranges = rs"
    "\<forall>(off, len, at) \<in> set ranges. 0 < at \<and> at + len \<le> length ?raw \<and> (\<exists>data. (off, data) \<in> set rs \<and> length data = len)"
    "recover_disk os d vol s = (case replay os ?raw ranges 0 vol ?s of Inl f \<Rightarrow> Inl f
       | Inr (failed, vol1, s1) \<Rightarrow> Inr (False, vol1,
           if failed = 0 then snd (create_always os (journal_path (s_heap s d)) s1) else s1))"
    by (rule recover_cut [OF good stored log cut(1)])
  have "\<forall>(off, len, at) \<in> set ranges. len \<le> unit_bytes (v_stripe_unit vol) \<and> off + len \<le> v_virtual_total_bytes vol"
    using r(2) fit by fastforce
  from replay_without_workers [OF vol this, of os ?raw 0 ?s]
  have R: "replay os ?raw ranges 0 vol ?s = Inr (length ranges, vol, ?s)" by simp
  have "length ranges \<noteq> 0" using r(1) cut(2) by auto
  then have "recover_disk os d vol s = Inr (False, vol, ?s)" using r(3) R by simp
  then show ?thesis by auto
qed

theorem recovery_needs_workers_witness:
  "\<exists>s'. recover_disk os_good 0 (two_disk_volume\<lparr>v_worker_state := None\<rparr>) two_drive_system =
      Inr (False, two_disk_volume\<lparr>v_worker_state := None\<rparr>, s') \<and> w_media s' = w_media two_drive_system"
proof -
  let ?v = "two_disk_volume\<lparr>v_worker_state := None\<rparr>"
  have g: "stripe_good 2048 512 two_disk_volume two_disk_system" by (rule two_disk_good)
  have "wf_layout ?v" using g same_volume_bytes(2) [of two_disk_volume ?v] by (simp add: stripe_good_def)
  moreover have "CHECK_DISKS ?v" using two_drive_ok(4) by (simp add: CHECK_DISKS_def)
  moreover have "\<forall>(off, data) \<in> set [(100, [1, 2, 3 :: byte])]. length data \<le> unit_bytes (v_stripe_unit ?v) \<and>
      off + length data \<le> v_virtual_total_bytes ?v" by (simp add: unit_bytes_def)
  moreover have "v_raid_level ?v \<noteq> RAID_LEVEL_MIRROR" "\<not> v_cache_enabled ?v" using g by (simp_all add: stripe_good_def)
  ultimately show ?thesis
    using recovery_needs_workers [OF _ _ _ _ _ all_good_os_good two_drive_ok(5) cut_log_ok, of ?v] by auto
qed

end
