(* ===== verification/CacheFlush.thy ===== *)
theory CacheFlush
  imports Journal
begin

text \<open>
  Flushing the RAM cache, \<^verbatim>\<open>cache_flush_all\<close> of \<^verbatim>\<open>src/src/ram_cache.c\<close>: runs of dirty blocks are
  copied out, journalled, written to the disks with one overlapped call per mapped entry, and
  marked clean. The volume's cache is the one flushed. The function is given for one thread; the
  flag \<^verbatim>\<open>cache_flush_in_progress\<close>, which redirects the writes of other threads, is part of the
  state, and the last property says what such a write does.
\<close>

section \<open>One run of dirty blocks\<close>

text \<open>How many blocks from \<open>b\<close>, the first of which is dirty, go into one run.\<close>

function run_blocks :: "RAM_CACHE \<Rightarrow> nat \<Rightarrow> nat \<Rightarrow> nat" where
  "run_blocks c b run =
     (if b + run < c_block_count c \<and> run < MAX_FLUSH_BATCH \<and> bit_test (c_dirty_map c) (b + run)
      then run_blocks c b (Suc run) else run)"
  by pat_completeness auto
termination
  by (relation "measure (\<lambda>(c, b, run). MAX_FLUSH_BATCH - run)") auto

declare run_blocks.simps [simp del]

text \<open>Blocks beyond the end of the volume are cut off the run, but one is kept.\<close>

fun trim_run :: "nat \<Rightarrow> nat \<Rightarrow> nat \<Rightarrow> nat \<Rightarrow> nat" where
  "trim_run bs vtotal off 0 = 0"
| "trim_run bs vtotal off (Suc run) =
     (if 1 < Suc run \<and> vtotal < u64 (off + u32 (Suc run * bs)) then trim_run bs vtotal off run else Suc run)"

text \<open>
  The overlapped writes of a run: an event and a call for each entry, and, once all are issued,
  their results. A call that fails at once ends the loop. The number of bytes written is not
  looked at.
\<close>

fun issue_entries :: "os \<Rightarrow> STRIPE_VOLUME \<Rightarrow> byte list \<Rightarrow> nat \<Rightarrow> IO_MAPPING_ENTRY list \<Rightarrow> sys
    \<Rightarrow> fault + bool \<times> bool \<times> sys" where
  "issue_entries os vol data mapped [] s = Inr (True, True, s)"
| "issue_entries os vol data mapped (e # es) s =
     (if length (v_disks vol) \<le> e_disk_index e then Inl OutOfBounds
      else case v_disks vol ! e_disk_index e of
        None \<Rightarrow> Inl NullDeref
      | Some d \<Rightarrow>
          if \<not> sys_ok os s then Inr (False, False, tick s)
          else if \<not> sys_ok os (tick s) then Inr (False, False, tick (tick s))
          else (case dev_write os (d_handle (s_heap s d)) (e_physical_offset e)
                       (take (e_length_bytes e) (drop mapped data)) (tick (tick s)) of
                  (ok, k, s1) \<Rightarrow>
                    (case issue_entries os vol data (u32 (mapped + e_length_bytes e)) es s1 of
                       Inl f \<Rightarrow> Inl f
                     | Inr (issued, done, s2) \<Rightarrow> Inr (issued, ok \<and> done, s2))))"

definition clear_dirty :: "nat \<Rightarrow> nat \<Rightarrow> RAM_CACHE \<Rightarrow> RAM_CACHE" where
  "clear_dirty b run c =
     c\<lparr>c_dirty_map := foldl bit_off (c_dirty_map c) [b ..< min (b + run) (c_block_count c)]\<rparr>"

text \<open>The result says whether the run was flushed.\<close>

definition flush_run :: "os \<Rightarrow> nat \<Rightarrow> nat \<Rightarrow> nat \<Rightarrow> STRIPE_VOLUME \<Rightarrow> sys \<Rightarrow> fault + bool \<times> STRIPE_VOLUME \<times> sys" where
  "flush_run os now b run vol s =
     (let c = v_cache vol;
          block_offset = u64 (b * c_block_size c);
          total_len = u32 (run * c_block_size c)
      in if c_flush_buffer_size c < total_len then Inr (False, vol, s)
         else case c_buffer c of
           None \<Rightarrow> Inl NullDeref
         | Some m \<Rightarrow>
             let data = read_bytes m block_offset total_len in
             (case journal_data os now vol block_offset data s of
                Inl f \<Rightarrow> Inl f
              | Inr (journal_ok, s1) \<Rightarrow>
                  if \<not> journal_ok then Inr (False, vol, s1)
                  else (case stripe_volume_map_lba vol block_offset total_len of
                    None \<Rightarrow> Inl Deadlock
                  | Some (Inl f) \<Rightarrow> Inl f
                  | Some (Inr (mapped, es)) \<Rightarrow>
                      if \<not> mapped then Inr (False, vol, s1)
                      else (case issue_entries os vol data 0 es s1 of
                              Inl f \<Rightarrow> Inl f
                            | Inr (issued, done, s2) \<Rightarrow>
                                if issued \<and> done
                                then Inr (True, vol\<lparr>v_cache := clear_dirty b run c\<rparr>, s2)
                                else Inr (False, vol, s2)))))"

lemma run_blocks_ge: "run \<le> run_blocks c b run"
proof (induction c b run rule: run_blocks.induct)
  case (1 c b run)
  then show ?case by (subst run_blocks.simps) auto
qed

lemma trim_run_pos: "0 < run \<Longrightarrow> 0 < trim_run bs vtotal off run"
  by (induction run) auto

lemma flush_run_count:
  "flush_run os now b run vol s = Inr (ok, vol1, s1) \<Longrightarrow> c_block_count (v_cache vol1) = c_block_count (v_cache vol)"
  by (auto simp: flush_run_def Let_def clear_dirty_def split: if_splits option.splits sum.splits prod.splits)

section \<open>The whole flush\<close>

text \<open>The loop over the blocks, with the number of blocks flushed.\<close>

definition run_at :: "STRIPE_VOLUME \<Rightarrow> nat \<Rightarrow> nat" where
  "run_at vol b =
     (let c = v_cache vol; run = run_blocks c b 1; off = u64 (b * c_block_size c)
      in if v_virtual_total_bytes vol < u64 (off + u32 (run * c_block_size c))
         then trim_run (c_block_size c) (v_virtual_total_bytes vol) off run else run)"

lemma run_at_pos: "0 < run_at vol b"
  using run_blocks_ge [of 1 "v_cache vol" b] trim_run_pos by (simp add: run_at_def Let_def)

function flush_loop :: "os \<Rightarrow> nat \<Rightarrow> nat \<Rightarrow> nat \<Rightarrow> STRIPE_VOLUME \<Rightarrow> sys \<Rightarrow> fault + nat \<times> STRIPE_VOLUME \<times> sys" where
  "flush_loop os now b flushed vol s =
     (if b < c_block_count (v_cache vol) then
        if \<not> bit_test (c_dirty_map (v_cache vol)) b then flush_loop os now (Suc b) flushed vol s
        else case flush_run os now b (run_at vol b) vol s of
          Inl f \<Rightarrow> Inl f
        | Inr (ok, vol1, s1) \<Rightarrow>
            flush_loop os now (b + run_at vol b) (if ok then u32 (flushed + run_at vol b) else flushed) vol1 s1
      else Inr (flushed, vol, s))"
  by pat_completeness auto
termination
proof (relation "measure (\<lambda>(os, now, b, flushed, vol, s). c_block_count (v_cache vol) - b)", goal_cases)
  case (3 os now b flushed vol s r ok rest vol1 s1)
  then have "flush_run os now b (run_at vol b) vol s = Inr (ok, vol1, s1)" by simp
  from flush_run_count [OF this] show ?case using 3 run_at_pos [of vol b] by auto
qed auto

declare flush_loop.simps [simp del]

definition cache_flush_all :: "os \<Rightarrow> nat \<Rightarrow> STRIPE_VOLUME \<Rightarrow> sys \<Rightarrow> fault + STRIPE_VOLUME \<times> sys" where
  "cache_flush_all os now vol s =
     (if v_cache_flush_in_progress vol \<noteq> 0 then Inr (vol, s)
      else
        let vol1 = vol\<lparr>v_cache_flush_in_progress := 1\<rparr>;
            s1 = snd (journal_begin os now vol1 s)
        in case flush_loop os now 0 0 vol1 s1 of
             Inl f \<Rightarrow> Inl f
           | Inr (flushed, vol2, s2) \<Rightarrow>
               Inr (vol2\<lparr>v_cache_flush_in_progress := 0\<rparr>,
                    if 0 < flushed then snd (journal_commit os now vol2 s2) else s2))"

section \<open>What one run does\<close>

text \<open>
  A volume ready to be flushed: layout, disks and cache in order, the cache inside the volume, a
  flush buffer for the longest run, a stripe unit that is a multiple of the cache's block, so that
  no run maps to more than \<open>MAX_IO_ENTRIES\<close> entries, and a drive of its own for each disk's journal.
\<close>

definition flush_ready :: "STRIPE_VOLUME \<Rightarrow> sys \<Rightarrow> bool" where
  "flush_ready vol s \<longleftrightarrow> wf_layout vol \<and> disks_open vol s \<and> own_drives (disk_ptrs vol) s \<and> 0 < v_disk_count vol \<and>
     cache_inv (v_cache vol) \<and> c_cache_size_bytes (v_cache vol) \<le> v_virtual_total_bytes vol \<and>
     c_flush_buffer_size (v_cache vol) = MAX_FLUSH_SIZE \<and> CACHE_BLOCK_SIZE dvd v_stripe_unit vol"

text \<open>The same volume with another dirty map.\<close>

definition with_dirty :: "STRIPE_VOLUME \<Rightarrow> byte list \<Rightarrow> STRIPE_VOLUME" where
  "with_dirty vol dm = vol\<lparr>v_cache := (v_cache vol)\<lparr>c_dirty_map := dm\<rparr>\<rparr>"

lemma with_dirty_fields [simp]:
  "v_cache (with_dirty vol dm) = (v_cache vol)\<lparr>c_dirty_map := dm\<rparr>" "with_dirty (with_dirty vol dm) dn = with_dirty vol dn"
  "with_dirty vol (c_dirty_map (v_cache vol)) = vol" "v_generation (with_dirty vol dm) = v_generation vol"
  "v_virtual_total_bytes (with_dirty vol dm) = v_virtual_total_bytes vol" "v_stripe_unit (with_dirty vol dm) = v_stripe_unit vol"
  "v_disk_count (with_dirty vol dm) = v_disk_count vol" "v_disks (with_dirty vol dm) = v_disks vol"
  "same_layout vol (with_dirty vol dm)" "v_cache_flush_in_progress (with_dirty vol dm) = v_cache_flush_in_progress vol"
  by (simp_all add: with_dirty_def same_layout_def)

lemma flush_ready_same:
  assumes "flush_ready vol s" "s_heap s' = s_heap s" "cache_inv ((v_cache vol)\<lparr>c_dirty_map := dm\<rparr>)"
  shows "flush_ready (with_dirty vol dm) s'"
proof -
  have "disks_open vol s'" using assms(1) disks_open_heap [OF _ assms(2)] by (simp add: flush_ready_def)
  moreover have "own_drives (disk_ptrs vol) s'" using assms(1,2) by (simp add: flush_ready_def own_drives_def)
  ultimately show ?thesis using assms(1,3)
    by (simp add: flush_ready_def same_layout_bytes [OF with_dirty_fields(9)])
qed

text \<open>Writing the entries of a run one by one.\<close>

lemma issue_entries_good:
  assumes "all_good os"
  shows "disks_open vol s \<Longrightarrow> \<forall>e \<in> set es. e_disk_index e < v_disk_count vol \<Longrightarrow>
    at + length (expand es) \<le> length data \<Longrightarrow> length data < 2 ^ 32 \<Longrightarrow> distinct (expand es) \<Longrightarrow>
    \<exists>s'. issue_entries os vol data at es s = Inr (True, True, s') \<and> s_heap s' = s_heap s \<and> w_files s' = w_files s \<and>
      (\<forall>k < length (expand es). disk_byte vol s' (expand es ! k) = data ! (at + k)) \<and>
      (\<forall>c. fst c < v_disk_count vol \<longrightarrow> c \<notin> set (expand es) \<longrightarrow> disk_byte vol s' c = disk_byte vol s c)"
proof (induction es arbitrary: at s)
  case (Cons e es)
  let ?n = "e_length_bytes e" and ?s = "tick (tick s)"
  let ?bs = "take ?n (drop at data)"
  have op: "disks_open vol ?s" and di: "e_disk_index e < v_disk_count vol"
    using Cons.prems(1,2) disks_open_heap [of vol s ?s] by simp_all
  have len: "at + ?n + length (expand es) \<le> length data" using Cons.prems(3) by (simp add: expand_Cons length_expand_entry)
  then have bs: "length ?bs = ?n" by simp
  have ptr: "e_disk_index e < length (v_disks vol)" "v_disks vol ! e_disk_index e = Some (vdisk vol (e_disk_index e))"
  proof -
    have c: "CHECK_DISKS vol" using op by (simp add: disks_open_def)
    show "v_disks vol ! e_disk_index e = Some (vdisk vol (e_disk_index e))" by (rule CHECK_DISKS_vdisk [OF c di])
    show "e_disk_index e < length (v_disks vol)" using c di by (simp add: CHECK_DISKS_def list_all_iff)
  qed
  let ?s1 = "entry_written vol e ?bs ?s"
  have w: "dev_write os (d_handle (s_heap s (vdisk vol (e_disk_index e)))) (e_physical_offset e) ?bs ?s = (True, ?n, ?s1)"
  proof -
    have "?n < 2 ^ 32" using len Cons.prems(4) by linarith
    then have "?n \<le> 2 ^ 64" by simp
    then have m: "moved os ?s (length ?bs) = ?n" unfolding bs by (rule all_good_moved [OF assms])
    have t: "take ?n ?bs = ?bs" by simp
    have h: "d_handle (s_heap s (vdisk vol (e_disk_index e))) = FILE_HANDLE (disk_path vol ?s (e_disk_index e))"
      using open_handle [OF op di] by simp
    show ?thesis unfolding dev_write_def h HANDLE.case Let_def m t entry_written_def
      using all_good_sys_ok [OF assms] by simp
  qed
  note B = entry_written_bytes [OF op di bs]
  have "u32 (at + ?n) = at + ?n" using len Cons.prems(4) by (intro u32_id) linarith
  moreover have "distinct (expand es)" "set (expand_entry e) \<inter> set (expand es) = {}"
    using Cons.prems(5) by (auto simp: expand_Cons)
  moreover obtain s' where R: "issue_entries os vol data (at + ?n) es ?s1 = Inr (True, True, s')" "s_heap s' = s_heap ?s1"
    "w_files s' = w_files ?s1" "\<forall>k < length (expand es). disk_byte vol s' (expand es ! k) = data ! (at + ?n + k)"
    "\<forall>c. fst c < v_disk_count vol \<longrightarrow> c \<notin> set (expand es) \<longrightarrow> disk_byte vol s' c = disk_byte vol ?s1 c"
    using Cons.IH [OF disks_open_heap [OF op B(3)], of "at + ?n"] Cons.prems(2,4) len calculation(2) by auto
  moreover have "issue_entries os vol data at (e # es) s = Inr (True, True, s')"
    using ptr w assms calculation(1) R(1) by simp
  moreover have "disk_byte vol s' (expand (e # es) ! k) = data ! (at + k)" if "k < length (expand (e # es))" for k
  proof (cases "k < ?n")
    case True
    let ?c = "expand_entry e ! k"
    have "?c \<in> set (expand_entry e)" using True by (simp add: length_expand_entry)
    then have "?c \<notin> set (expand es)" using \<open>set (expand_entry e) \<inter> set (expand es) = {}\<close> by blast
    moreover have "fst ?c < v_disk_count vol" using True di by (simp add: expand_entry_def)
    ultimately have "disk_byte vol s' ?c = disk_byte vol ?s1 ?c" using R(5) by blast
    then have "disk_byte vol s' ?c = ?bs ! k" using B(1) [OF True] by simp
    then show ?thesis using True len by (simp add: expand_Cons nth_append length_expand_entry)
  next
    case False
    then show ?thesis using that R(4) by (auto simp: expand_Cons nth_append length_expand_entry)
  qed
  moreover have "disk_byte vol s' c = disk_byte vol s c" if "fst c < v_disk_count vol" "c \<notin> set (expand (e # es))" for c
  proof -
    have "c \<notin> set (expand es)" "c \<notin> set (expand_entry e)" using that(2) by (simp_all add: expand_Cons)
    then show ?thesis using R(5) B(2) [OF that(1)] that(1) unfolding disk_byte_tick by metis
  qed
  ultimately show ?case using B(3,4) by (intro exI [of _ s']) simp
qed (simp add: expand_def)

text \<open>A run within the cache touches one unit per block at most.\<close>

lemma units_touched_blocks:
  assumes "CACHE_BLOCK_SIZE dvd su" "0 < su" "0 < run"
  shows "units_touched su (b * CACHE_BLOCK_SIZE) (run * CACHE_BLOCK_SIZE) \<le> run"
proof -
  obtain k where k: "su = CACHE_BLOCK_SIZE * k" "0 < k" using assms by auto
  have B: "0 < CACHE_BLOCK_SIZE" by (simp add: const)
  have d: "b * CACHE_BLOCK_SIZE div su = b div k" using B by (simp add: k(1) mult.commute)
  have "(b * CACHE_BLOCK_SIZE + run * CACHE_BLOCK_SIZE + su - 1) div su \<le> (b + run + k - 1) div k"
  proof -
    have "b * CACHE_BLOCK_SIZE + run * CACHE_BLOCK_SIZE + su - 1 = (b + run + k - 1) * CACHE_BLOCK_SIZE + (CACHE_BLOCK_SIZE - 1)"
    proof -
      obtain j where j: "k = Suc j" using k(2) by (cases k) auto
      have "b * CACHE_BLOCK_SIZE + run * CACHE_BLOCK_SIZE + su - 1 = (b + run + j) * CACHE_BLOCK_SIZE + CACHE_BLOCK_SIZE - 1"
        by (simp add: k(1) j algebra_simps)
      then show ?thesis using B by (simp add: j)
    qed
    then have "(b * CACHE_BLOCK_SIZE + run * CACHE_BLOCK_SIZE + su - 1) div su =
        ((b + run + k - 1) * CACHE_BLOCK_SIZE + (CACHE_BLOCK_SIZE - 1)) div CACHE_BLOCK_SIZE div k"
      by (simp only: k(1) div_mult2_eq)
    also have "((b + run + k - 1) * CACHE_BLOCK_SIZE + (CACHE_BLOCK_SIZE - 1)) div CACHE_BLOCK_SIZE = b + run + k - 1"
      using B by (intro cell_div_mod) simp
    finally show ?thesis by simp
  qed
  moreover have "(b + run + k - 1) div k \<le> b div k + run"
  proof -
    have "b + run + k - 1 < (b div k + run + 1) * k"
    proof -
      have "b < (b div k + 1) * k" using k(2) by (metis Suc_eq_plus1 dividend_less_div_times mult_Suc)
      moreover have "run + k \<le> run * k + 1"
      proof -
        obtain i j where "run = Suc i" "k = Suc j" using k(2) assms(3) by (cases run; cases k) auto
        then show ?thesis by simp
      qed
      ultimately have "b + run + k - 1 < (b div k + 1) * k + run * k" using k(2) by linarith
      then show ?thesis by (simp add: algebra_simps)
    qed
    then show ?thesis using less_mult_imp_div_less by (metis Suc_eq_plus1 less_Suc_eq_le)
  qed
  ultimately show ?thesis by (simp add: units_touched_def d)
qed

lemma run_blocks_facts:
  assumes "b + run \<le> c_block_count c" "run \<le> MAX_FLUSH_BATCH" "\<forall>i < run. bit_test (c_dirty_map c) (b + i)"
  shows "b + run_blocks c b run \<le> c_block_count c \<and> run_blocks c b run \<le> MAX_FLUSH_BATCH \<and>
    (\<forall>i < run_blocks c b run. bit_test (c_dirty_map c) (b + i))"
  using assms
proof (induction c b run rule: run_blocks.induct)
  case (1 c b run)
  show ?case
  proof (cases "b + run < c_block_count c \<and> run < MAX_FLUSH_BATCH \<and> bit_test (c_dirty_map c) (b + run)")
    case True
    then have "\<forall>i < Suc run. bit_test (c_dirty_map c) (b + i)" using "1.prems"(3) by (auto simp: less_Suc_eq)
    then show ?thesis using "1.IH" [OF True] True by (simp add: run_blocks.simps [of c b run])
  next
    case False
    then have "run_blocks c b run = run" by (subst run_blocks.simps) (simp only: if_False)
    then show ?thesis using "1.prems" by simp
  qed
qed

lemma flush_bounds:
  assumes "flush_ready vol s" "b + run \<le> c_block_count (v_cache vol)" "run \<le> MAX_FLUSH_BATCH"
  shows "u64 (b * c_block_size (v_cache vol)) = b * CACHE_BLOCK_SIZE"
    "u32 (run * c_block_size (v_cache vol)) = run * CACHE_BLOCK_SIZE" "run * CACHE_BLOCK_SIZE < 2 ^ 32"
    "run * CACHE_BLOCK_SIZE \<le> MAX_FLUSH_SIZE"
    "b * CACHE_BLOCK_SIZE + run * CACHE_BLOCK_SIZE \<le> c_cache_size_bytes (v_cache vol)"
    "u64 (b * CACHE_BLOCK_SIZE + run * CACHE_BLOCK_SIZE) = b * CACHE_BLOCK_SIZE + run * CACHE_BLOCK_SIZE"
    "b * CACHE_BLOCK_SIZE + run * CACHE_BLOCK_SIZE \<le> v_virtual_total_bytes vol"
proof -
  have inv: "cache_inv (v_cache vol)" and size: "c_cache_size_bytes (v_cache vol) \<le> v_virtual_total_bytes vol"
    using assms(1) by (simp_all add: flush_ready_def)
  have bs: "c_block_size (v_cache vol) = CACHE_BLOCK_SIZE"
    "c_cache_size_bytes (v_cache vol) = c_block_count (v_cache vol) * CACHE_BLOCK_SIZE"
    "c_block_count (v_cache vol) < 2 ^ 32" using inv by (simp_all add: cache_inv_def)
  show fits: "b * CACHE_BLOCK_SIZE + run * CACHE_BLOCK_SIZE \<le> c_cache_size_bytes (v_cache vol)"
    unfolding bs(2) add_mult_distrib [symmetric] using assms(2) by (rule mult_le_mono1)
  then show "b * CACHE_BLOCK_SIZE + run * CACHE_BLOCK_SIZE \<le> v_virtual_total_bytes vol" using size by simp
  have "b * CACHE_BLOCK_SIZE + run * CACHE_BLOCK_SIZE < 2 ^ 48" using fits cache_inv_size [OF inv] by linarith
  then show "u64 (b * c_block_size (v_cache vol)) = b * CACHE_BLOCK_SIZE"
    "u64 (b * CACHE_BLOCK_SIZE + run * CACHE_BLOCK_SIZE) = b * CACHE_BLOCK_SIZE + run * CACHE_BLOCK_SIZE"
    by (simp_all add: bs(1) u64_def)
  show r: "run * CACHE_BLOCK_SIZE < 2 ^ 32" "run * CACHE_BLOCK_SIZE \<le> MAX_FLUSH_SIZE"
    using assms(3) by (simp_all add: const)
  show "u32 (run * c_block_size (v_cache vol)) = run * CACHE_BLOCK_SIZE" unfolding bs(1) using r(1) by (rule u32_id)
qed

text \<open>With the cache inside the volume no run is cut.\<close>

lemma run_at_facts:
  assumes ready: "flush_ready vol s" and b: "b < c_block_count (v_cache vol)" "bit_test (c_dirty_map (v_cache vol)) b"
  shows "b + run_at vol b \<le> c_block_count (v_cache vol)" "run_at vol b \<le> MAX_FLUSH_BATCH"
    "\<forall>i < run_at vol b. bit_test (c_dirty_map (v_cache vol)) (b + i)"
proof -
  have F: "b + run_blocks (v_cache vol) b 1 \<le> c_block_count (v_cache vol) \<and> run_blocks (v_cache vol) b 1 \<le> MAX_FLUSH_BATCH \<and>
      (\<forall>i < run_blocks (v_cache vol) b 1. bit_test (c_dirty_map (v_cache vol)) (b + i))"
    using b by (intro run_blocks_facts) (simp_all add: const)
  then have "run_at vol b = run_blocks (v_cache vol) b 1"
    using flush_bounds [OF ready, of b "run_blocks (v_cache vol) b 1"] by (simp add: run_at_def Let_def)
  then show "b + run_at vol b \<le> c_block_count (v_cache vol)" "run_at vol b \<le> MAX_FLUSH_BATCH"
    "\<forall>i < run_at vol b. bit_test (c_dirty_map (v_cache vol)) (b + i)" using F by simp_all
qed

text \<open>Flushing a run: its bytes reach the disks and the journals, its blocks become clean.\<close>

lemma flush_run_good:
  assumes good: "all_good os" and ready: "flush_ready vol s" and m: "c_buffer (v_cache vol) = Some m"
    and run: "b + run \<le> c_block_count (v_cache vol)" "run \<le> MAX_FLUSH_BATCH" "0 < run"
  shows "\<exists>s'. flush_run os now b run vol s =
      Inr (True, with_dirty vol (foldl bit_off (c_dirty_map (v_cache vol)) [b ..< b + run]), s') \<and>
    logged vol [JData now (v_generation vol) (b * CACHE_BLOCK_SIZE)
      (read_bytes m (b * CACHE_BLOCK_SIZE) (run * CACHE_BLOCK_SIZE))] s s' \<and>
    (\<forall>x < v_virtual_total_bytes vol. volume_byte vol s' x =
       write_bytes (volume_byte vol s) (b * CACHE_BLOCK_SIZE) (read_bytes m (b * CACHE_BLOCK_SIZE) (run * CACHE_BLOCK_SIZE)) x)"
proof -
  let ?off = "b * CACHE_BLOCK_SIZE" and ?n = "run * CACHE_BLOCK_SIZE"
  let ?data = "read_bytes m ?off ?n"
  note B = flush_bounds [OF ready run(1,2)]
  note R = ready [unfolded flush_ready_def]
  have chk: "CHECK_DISKS vol" and open_: "disks_open vol s" using R by (simp_all add: disks_open_def)
  have n0: "0 < ?n" using run(3) by (simp add: const)
  have su: "0 < v_stripe_unit vol" using R by (simp add: wf_layout_def)
  obtain s1 where J: "journal_data os now vol ?off ?data s = Inr (True, s1)" "w_media s1 = w_media s"
    "logged vol [JData now (v_generation vol) ?off ?data] s s1"
    using journal_calls_good(3) [OF good _ _ chk, of s ?data now ?off] R B(3) by auto
  have u: "units_touched (v_stripe_unit vol) ?off ?n \<le> MAX_IO_ENTRIES"
    using units_touched_blocks [of "v_stripe_unit vol" run b] R su run(2,3) by (simp add: const)
  have wf: "wf_layout vol" using R by simp
  obtain es where E: "stripe_volume_map_lba vol ?off ?n = Some (Inr (True, es))" "es \<noteq> []"
    "expand es = map (byte_addr vol) [?off ..< ?off + ?n]" "distinct (expand es)" "\<forall>e \<in> set es. e_disk_index e < v_disk_count vol"
    using map_units [OF wf n0 B(3,7) u] by blast
  have len: "length (expand es) = ?n" using E(3) by simp
  have h1: "s_heap s1 = s_heap s" using J(3) by (simp add: logged_def)
  have fit: "0 + length (expand es) \<le> length ?data" "length ?data < 2 ^ 32" using len B(3) by simp_all
  obtain s2 where W: "issue_entries os vol ?data 0 es s1 = Inr (True, True, s2)" "s_heap s2 = s_heap s1" "w_files s2 = w_files s1"
    "\<forall>k < length (expand es). disk_byte vol s2 (expand es ! k) = ?data ! (0 + k)"
    "\<forall>c. fst c < v_disk_count vol \<longrightarrow> c \<notin> set (expand es) \<longrightarrow> disk_byte vol s2 c = disk_byte vol s1 c"
    using issue_entries_good [OF good disks_open_heap [OF open_ h1] E(5) fit E(4)] by blast
  have media: "disk_byte vol s1 = disk_byte vol s" by (simp add: fun_eq_iff disk_byte_def J(2) disk_path_heap [OF h1])
  have "volume_byte vol s2 x = write_bytes (volume_byte vol s) ?off ?data x" if "x < v_virtual_total_bytes vol" for x
    by (rule entries_write_range [OF wf E(3) B(7) that]) (use W(4,5) len media in simp_all)
  moreover have "min (b + run) (c_block_count (v_cache vol)) = b + run" using run(1) by simp
  then have "flush_run os now b run vol s = Inr (True, with_dirty vol (foldl bit_off (c_dirty_map (v_cache vol)) [b ..< b + run]), s2)"
    using R B(4) m J(1) E(1) W(1) unfolding flush_run_def Let_def B(1,2)
    by (simp add: clear_dirty_def with_dirty_def)
  ultimately show ?thesis using logged_same [OF J(3) W(2,3)] by blast
qed

section \<open>What the flush does\<close>

text \<open>The ranges \<open>rs\<close> are the data records of the journal, in order.\<close>

definition data_records :: "nat \<Rightarrow> STRIPE_VOLUME \<Rightarrow> (nat \<times> byte list) list \<Rightarrow> jop list" where
  "data_records now vol rs = map (\<lambda>(off, data). JData now (v_generation vol) off data) rs"

text \<open>The dirty map a flush from block \<open>b\<close> on leaves.\<close>

definition clean_from :: "RAM_CACHE \<Rightarrow> nat \<Rightarrow> byte list \<Rightarrow> bool" where
  "clean_from c b dm \<longleftrightarrow> length dm = length (c_dirty_map c) \<and>
     (\<forall>i < c_block_count c. bit_test dm i \<longleftrightarrow> i < b \<and> bit_test (c_dirty_map c) i)"

text \<open>The byte at \<open>x\<close> after the dirty blocks from \<open>b\<close> on reached the disk.\<close>

definition flushed_byte :: "RAM_CACHE \<Rightarrow> nat \<Rightarrow> mem \<Rightarrow> mem" where
  "flushed_byte c b old = (\<lambda>x. if x < c_cache_size_bytes c \<and> b \<le> x div CACHE_BLOCK_SIZE \<and> dirty_block c (x div CACHE_BLOCK_SIZE)
     then the (c_buffer c) x else old x)"

lemma clean_from_inv:
  assumes "cache_inv c" "clean_from c b dm"
  shows "cache_inv (c\<lparr>c_dirty_map := dm\<rparr>)"
  using assms by (simp add: cache_inv_def clean_from_def)

lemma data_records_simps [simp]:
  "data_records now vol [] = []"
  "data_records now vol ((off, data) # rs) = JData now (v_generation vol) off data # data_records now vol rs"
  "data_records now (with_dirty vol dm) rs = data_records now vol rs"
  by (simp_all add: data_records_def)

lemma in_blocks_iff: "b \<le> x div CACHE_BLOCK_SIZE \<and> x div CACHE_BLOCK_SIZE < b + run \<longleftrightarrow>
   b * CACHE_BLOCK_SIZE \<le> x \<and> x < b * CACHE_BLOCK_SIZE + run * CACHE_BLOCK_SIZE"
proof -
  have B: "0 < CACHE_BLOCK_SIZE" by (simp add: const)
  show ?thesis using B by (simp add: less_eq_div_iff_mult_less_eq div_less_iff_less_mult add_mult_distrib)
qed

text \<open>Flushing a dirty run and then the rest is flushing everything from the run on.\<close>

lemma flushed_byte_step:
  assumes inv: "cache_inv c" and m: "c_buffer c = Some m" and run: "b + run \<le> c_block_count c"
    and dirty: "\<forall>i < run. bit_test (c_dirty_map c) (b + i)" and x: "s1 x = write_bytes s0 (b * CACHE_BLOCK_SIZE)
      (read_bytes m (b * CACHE_BLOCK_SIZE) (run * CACHE_BLOCK_SIZE)) x"
  shows "flushed_byte (c\<lparr>c_dirty_map := foldl bit_off (c_dirty_map c) [b ..< b + run]\<rparr>) (b + run) s1 x = flushed_byte c b s0 x"
proof -
  let ?k = "x div CACHE_BLOCK_SIZE" and ?c = "c\<lparr>c_dirty_map := foldl bit_off (c_dirty_map c) [b ..< b + run]\<rparr>"
  have count: "x < c_cache_size_bytes c \<longleftrightarrow> ?k < c_block_count c"
    using inv by (simp add: cache_inv_def div_less_iff_less_mult const)
  have bits: "dirty_block ?c ?k \<longleftrightarrow> \<not> (b \<le> ?k \<and> ?k < b + run) \<and> dirty_block c ?k" if "?k < c_block_count c"
    using foldl_bits(4) [OF inv _ that, of "[b ..< b + run]"] run by (simp add: dirty_block_def)
  consider (before) "?k < b" | (inside) "b \<le> ?k" "?k < b + run" | (after) "b + run \<le> ?k" by linarith
  then show ?thesis
  proof cases
    case inside
    then have "dirty_block c ?k" using dirty [rule_format, of "?k - b"] by (simp add: dirty_block_def)
    then show ?thesis using inside in_blocks_iff [of b x run] x run m count
      by (auto simp: flushed_byte_def write_bytes_def)
  next
    case before
    then show ?thesis using in_blocks_iff [of b x run] x by (auto simp: flushed_byte_def write_bytes_def)
  next
    case after
    then show ?thesis using in_blocks_iff [of b x run] x bits count by (auto simp: flushed_byte_def write_bytes_def)
  qed
qed

lemma clean_from_step:
  assumes inv: "cache_inv c" and run: "b + run \<le> c_block_count c"
    and rest: "clean_from (c\<lparr>c_dirty_map := foldl bit_off (c_dirty_map c) [b ..< b + run]\<rparr>) (b + run) dm"
  shows "clean_from c b dm"
proof -
  have "bit_test (foldl bit_off (c_dirty_map c) [b ..< b + run]) i \<longleftrightarrow> \<not> (b \<le> i \<and> i < b + run) \<and> bit_test (c_dirty_map c) i"
    if "i < c_block_count c" for i
    using foldl_bits(4) [OF inv _ that, of "[b ..< b + run]"] run by (simp add: dirty_block_def)
  then show ?thesis using rest by (auto simp: clean_from_def)
qed

lemma clean_from_run:
  assumes "cache_inv c" "b + run \<le> c_block_count c"
  shows "cache_inv (c\<lparr>c_dirty_map := foldl bit_off (c_dirty_map c) [b ..< b + run]\<rparr>)"
proof -
  have "bit_test (foldl bit_off (c_dirty_map c) [b ..< b + run]) i \<longrightarrow> bit_test (c_dirty_map c) i"
    if "i < c_block_count c" for i
    using foldl_bits(4) [OF assms(1) _ that, of "[b ..< b + run]"] assms(2) by (simp add: dirty_block_def)
  then show ?thesis using assms(1) by (simp add: cache_inv_def)
qed

text \<open>The result of the loop from block \<open>b\<close> on.\<close>

definition flush_result :: "nat \<Rightarrow> nat \<Rightarrow> nat \<Rightarrow> STRIPE_VOLUME \<Rightarrow> sys \<Rightarrow> nat \<Rightarrow> byte list \<Rightarrow> (nat \<times> byte list) list \<Rightarrow> sys \<Rightarrow> bool" where
  "flush_result now b flushed vol s flushed' dm rs s' \<longleftrightarrow>
     clean_from (v_cache vol) b dm \<and> logged vol (data_records now vol rs) s s' \<and>
     (0 < flushed' \<longleftrightarrow> 0 < flushed \<or> rs \<noteq> []) \<and>
     (\<forall>x < v_virtual_total_bytes vol. volume_byte vol s' x = flushed_byte (v_cache vol) b (volume_byte vol s) x \<and>
        volume_byte vol s' x = apply_ranges rs (volume_byte vol s) x)"

lemma flush_result_end:
  assumes "cache_inv (v_cache vol)" "c_block_count (v_cache vol) \<le> b"
  shows "flush_result now b flushed vol s flushed (c_dirty_map (v_cache vol)) [] s"
proof -
  have "x < c_cache_size_bytes (v_cache vol) \<longrightarrow> x div CACHE_BLOCK_SIZE < c_block_count (v_cache vol)" for x
    using assms(1) by (simp add: cache_inv_def div_less_iff_less_mult const)
  then have "\<not> (x < c_cache_size_bytes (v_cache vol) \<and> b \<le> x div CACHE_BLOCK_SIZE)" for x
    using assms(2) by (meson leD le_trans)
  then have "flushed_byte (v_cache vol) b m = m" for m by (simp add: fun_eq_iff flushed_byte_def cong: conj_cong)
  then show ?thesis using assms(2)
    by (auto simp: flush_result_def clean_from_def apply_ranges_def)
qed

lemma flush_result_skip:
  assumes "\<not> bit_test (c_dirty_map (v_cache vol)) b" "flush_result now (Suc b) flushed vol s flushed' dm rs s'"
  shows "flush_result now b flushed vol s flushed' dm rs s'"
proof -
  have eq: "flushed_byte (v_cache vol) (Suc b) = flushed_byte (v_cache vol) b"
    using assms(1) by (auto simp: fun_eq_iff flushed_byte_def dirty_block_def Suc_le_eq le_less)
  have "clean_from (v_cache vol) b dm"
    using assms by (auto simp: flush_result_def clean_from_def less_Suc_eq)
  then show ?thesis using assms(2) unfolding flush_result_def eq by blast
qed

lemma flush_result_step:
  assumes inv: "cache_inv (v_cache vol)" and m: "c_buffer (v_cache vol) = Some m"
    and run: "b + run \<le> c_block_count (v_cache vol)" "0 < run" "0 < flushed1"
    and dirty: "\<forall>i < run. bit_test (c_dirty_map (v_cache vol)) (b + i)"
    and log: "logged vol [JData now (v_generation vol) (b * CACHE_BLOCK_SIZE) data] s s1"
    and data: "data = read_bytes m (b * CACHE_BLOCK_SIZE) (run * CACHE_BLOCK_SIZE)"
    and bytes: "\<forall>x < v_virtual_total_bytes vol. volume_byte vol s1 x = write_bytes (volume_byte vol s) (b * CACHE_BLOCK_SIZE) data x"
    and rest: "flush_result now (b + run) flushed1 (with_dirty vol (foldl bit_off (c_dirty_map (v_cache vol)) [b ..< b + run])) s1 flushed' dm rs s'"
  shows "flush_result now b flushed vol s flushed' dm ((b * CACHE_BLOCK_SIZE, data) # rs) s'"
proof -
  let ?c = "v_cache vol" and ?vol1 = "with_dirty vol (foldl bit_off (c_dirty_map (v_cache vol)) [b ..< b + run])"
  note V = same_layout_bytes [OF with_dirty_fields(9)]
  note R = rest [unfolded flush_result_def V with_dirty_fields data_records_simps]
  have same: "logged ?vol1 ops t t' = logged vol ops t t'" for ops t t' by (simp add: logged_def V)
  have log1: "logged vol (data_records now vol ((b * CACHE_BLOCK_SIZE, data) # rs)) s s'"
    using logged_append [OF log, of "data_records now vol rs" s'] R same by simp
  have clean: "clean_from ?c b dm" using clean_from_step [OF inv run(1)] R by blast
  have "volume_byte vol s' x = flushed_byte ?c b (volume_byte vol s) x" if "x < v_virtual_total_bytes vol" for x
    using R that flushed_byte_step [where ?s1.0 = "volume_byte vol s1" and ?s0.0 = "volume_byte vol s" and x = x,
        OF inv m run(1) dirty] bytes data by (metis (no_types, lifting))
  moreover have "volume_byte vol s' x = apply_ranges ((b * CACHE_BLOCK_SIZE, data) # rs) (volume_byte vol s) x"
    if x: "x < v_virtual_total_bytes vol" for x
  proof -
    have "volume_byte vol s' x = apply_ranges rs (volume_byte vol s1) x" using R x by blast
    also have "\<dots> = apply_ranges rs (write_bytes (volume_byte vol s) (b * CACHE_BLOCK_SIZE) data) x"
      using apply_ranges_cong [OF bytes, of rs] x by blast
    finally show ?thesis by (simp add: apply_ranges_def)
  qed
  ultimately show ?thesis using log1 clean R run(3) unfolding flush_result_def by blast
qed

lemma flush_loop_good:
  assumes "all_good os" "flush_ready vol s" "c_buffer (v_cache vol) = Some m"
    and "flushed \<le> b" "b \<le> c_block_count (v_cache vol)"
  shows "\<exists>flushed' dm rs s'. flush_loop os now b flushed vol s = Inr (flushed', with_dirty vol dm, s') \<and>
    flush_result now b flushed vol s flushed' dm rs s'"
  using assms(2-5)
proof (induction "c_block_count (v_cache vol) - b" arbitrary: b flushed vol s rule: less_induct)
  case less
  let ?c = "v_cache vol" and ?run = "run_at vol b"
  have inv: "cache_inv ?c" using less.prems(1) by (simp add: flush_ready_def)
  show ?case
  proof (cases "b < c_block_count ?c")
    case False
    then show ?thesis using flush_result_end [OF inv, of b now flushed s]
      by (intro exI [of _ flushed] exI [of _ "c_dirty_map ?c"] exI [of _ "[]"] exI [of _ s])
        (simp add: flush_loop.simps [of os now b])
  next
    case here: True
    show ?thesis
    proof (cases "bit_test (c_dirty_map ?c) b")
      case False
      have "flush_loop os now b flushed vol s = flush_loop os now (Suc b) flushed vol s"
        using here False by (simp add: flush_loop.simps [of os now b])
      moreover have "c_block_count ?c - Suc b < c_block_count ?c - b" by (rule diff_less_mono2 [OF lessI here])
      moreover obtain flushed' dm rs s' where
        "flush_loop os now (Suc b) flushed vol s = Inr (flushed', with_dirty vol dm, s')"
        "flush_result now (Suc b) flushed vol s flushed' dm rs s'"
        using less.hyps [OF calculation(2) less.prems(1,2)] less.prems(3) here by (meson Suc_leI le_SucI)
      ultimately show ?thesis using flush_result_skip [OF False] by metis
    next
      case True
      note R = run_at_facts [OF less.prems(1) here True]
      let ?vol1 = "with_dirty vol (foldl bit_off (c_dirty_map ?c) [b ..< b + ?run])"
      let ?data = "read_bytes m (b * CACHE_BLOCK_SIZE) (?run * CACHE_BLOCK_SIZE)"
      obtain s1 where F: "flush_run os now b ?run vol s = Inr (True, ?vol1, s1)"
        "logged vol [JData now (v_generation vol) (b * CACHE_BLOCK_SIZE) ?data] s s1"
        "\<forall>x < v_virtual_total_bytes vol. volume_byte vol s1 x = write_bytes (volume_byte vol s) (b * CACHE_BLOCK_SIZE) ?data x"
        using flush_run_good [OF assms(1) less.prems(1,2) R(1,2) run_at_pos] by blast
      have "c_block_count ?c < 2 ^ 32" using inv by (simp add: cache_inv_def)
      then have n: "u32 (flushed + ?run) = flushed + ?run" using less.prems(3) R(1) by (intro u32_id) linarith
      have "s_heap s1 = s_heap s" using F(2) by (simp add: logged_def)
      from flush_ready_same [OF less.prems(1) this clean_from_run [OF inv R(1)]]
      have "flush_ready ?vol1 s1" .
      moreover have "c_block_count ?c - (b + ?run) < c_block_count ?c - b" using here run_at_pos [of vol b] by linarith
      ultimately obtain flushed' dm rs s' where G:
        "flush_loop os now (b + ?run) (flushed + ?run) ?vol1 s1 = Inr (flushed', with_dirty ?vol1 dm, s')"
        "flush_result now (b + ?run) (flushed + ?run) ?vol1 s1 flushed' dm rs s'"
        using less.hyps [of ?vol1 "b + ?run" s1 "flushed + ?run"] less.prems(2,3) R(1) by auto
      have "flush_loop os now b flushed vol s = Inr (flushed', with_dirty vol dm, s')"
        using here True F(1) G(1) n by (simp add: flush_loop.simps [of os now b])
      moreover have "0 < flushed + ?run" using run_at_pos [of vol b] by simp
      moreover have "flush_result now b flushed vol s flushed' dm ((b * CACHE_BLOCK_SIZE, ?data) # rs) s'"
        using flush_result_step [OF inv less.prems(2) R(1) run_at_pos calculation(2) R(3) F(2) refl F(3) G(2)] .
      ultimately show ?thesis by blast
    qed
  qed
qed

lemma flush_ready_flag:
  "flush_ready (vol\<lparr>v_cache_flush_in_progress := k\<rparr>) s = flush_ready vol s"
  "same_layout vol (vol\<lparr>v_cache_flush_in_progress := k\<rparr>)"
proof -
  show l: "same_layout vol (vol\<lparr>v_cache_flush_in_progress := k\<rparr>)" by (simp add: same_layout_def)
  show "flush_ready (vol\<lparr>v_cache_flush_in_progress := k\<rparr>) s = flush_ready vol s"
    by (simp add: flush_ready_def same_layout_bytes [OF l])
qed

lemma flush_all_good:
  assumes good: "all_good os" and ready: "flush_ready vol s" and idle: "v_cache_flush_in_progress vol = 0"
  shows "\<exists>dm s' rs. cache_flush_all os now vol s = Inr (with_dirty vol dm, s') \<and>
    (\<forall>b < c_block_count (v_cache vol). \<not> bit_test dm b) \<and> cache_inv ((v_cache vol)\<lparr>c_dirty_map := dm\<rparr>) \<and>
    logged vol ([JBegin now (v_generation vol)] @ data_records now vol rs @
      (if rs = [] then [] else [JCommit now (v_generation vol)])) s s' \<and>
    (\<forall>x < v_virtual_total_bytes vol. volume_byte vol s' x = apply_ranges rs (volume_byte vol s) x) \<and>
    (\<forall>x < v_virtual_total_bytes vol. volume_byte vol s' x =
        (if x < c_cache_size_bytes (v_cache vol) \<and> dirty_block (v_cache vol) (x div CACHE_BLOCK_SIZE)
         then the (c_buffer (v_cache vol)) x else volume_byte vol s x))"
proof -
  let ?c = "v_cache vol" and ?vol1 = "vol\<lparr>v_cache_flush_in_progress := 1\<rparr>"
  have inv: "cache_inv ?c" and own: "own_drives (disk_ptrs vol) s" and pos: "0 < v_disk_count vol" and chk: "CHECK_DISKS vol"
    and bs: "cache_inv ?c" using ready by (simp_all add: flush_ready_def disks_open_def)
  note V = same_layout_bytes [OF flush_ready_flag(2)]
  note W = same_layout_bytes [OF with_dirty_fields(9)]
  obtain m where m: "c_buffer (v_cache ?vol1) = Some m" using inv by (auto simp: cache_inv_def)
  obtain s1 where J: "journal_begin os now ?vol1 s = (True, s1)" "w_media s1 = w_media s"
    "logged vol [JBegin now (v_generation vol)] s s1"
    using journal_calls_good(1) [OF good, of ?vol1 s now] own pos chk by (auto simp: V logged_def)
  have h1: "s_heap s1 = s_heap s" using J(3) by (simp add: logged_def)
  have "flush_ready (with_dirty ?vol1 (c_dirty_map ?c)) s1"
    using flush_ready_same [OF _ h1, of ?vol1 "c_dirty_map ?c"] ready inv by (simp add: flush_ready_flag)
  then have "flush_ready ?vol1 s1" by (simp add: with_dirty_def)
  then obtain fl dm rs s2 where
    L: "flush_loop os now 0 0 ?vol1 s1 = Inr (fl, with_dirty ?vol1 dm, s2)" "flush_result now 0 0 ?vol1 s1 fl dm rs s2"
    using flush_loop_good [OF good _ m, of s1 0 0 now] by blast
  have lg: "logged ?vol1 (data_records now ?vol1 rs) s1 s2 = logged vol (data_records now vol rs) s1 s2"
    and F: "v_cache ?vol1 = ?c" "v_virtual_total_bytes ?vol1 = v_virtual_total_bytes vol"
    by (simp_all add: logged_def V data_records_def)
  note R0 = L(2) [unfolded flush_result_def lg V F]
  have R: "clean_from ?c 0 dm" "logged vol (data_records now vol rs) s1 s2" "0 < fl \<longleftrightarrow> rs \<noteq> []"
    "\<forall>x < v_virtual_total_bytes vol. volume_byte vol s2 x = flushed_byte ?c 0 (volume_byte vol s1) x \<and>
       volume_byte vol s2 x = apply_ranges rs (volume_byte vol s1) x"
    using R0 by blast+
  have h2: "s_heap s2 = s_heap s" using R(2) h1 by (simp add: logged_def)
  have own2: "own_drives (disk_ptrs (with_dirty ?vol1 dm)) s2" using own h2 by (simp add: W V own_drives_def)
  obtain s3 where C: "journal_commit os now (with_dirty ?vol1 dm) s2 = (True, s3)" "w_media s3 = w_media s2"
    "logged vol [JCommit now (v_generation vol)] s2 s3"
    using journal_calls_good(2) [OF good own2, of now] pos chk by (auto simp: W V logged_def)
  let ?s' = "if 0 < fl then s3 else s2"
  have run: "cache_flush_all os now vol s = Inr (with_dirty vol dm, ?s')"
    using idle J(1) L(1) C(1) by (simp add: cache_flush_all_def Let_def with_dirty_def)
  have log: "logged vol ([JBegin now (v_generation vol)] @ data_records now vol rs @
      (if rs = [] then [] else [JCommit now (v_generation vol)])) s ?s'"
    using logged_append [OF J(3) R(2)] logged_append [OF logged_append [OF J(3) R(2)] C(3)] R(3) by auto
  have bytes: "volume_byte vol ?s' = volume_byte vol s2" "volume_byte vol s1 = volume_byte vol s"
    using h1 C(2,3) J(2) by (auto simp: fun_eq_iff volume_byte_def disk_byte_def disk_path_def logged_def)
  have dm: "\<forall>b < c_block_count ?c. \<not> bit_test dm b" "cache_inv (?c\<lparr>c_dirty_map := dm\<rparr>)"
    using R(1) by (simp add: clean_from_def) (rule clean_from_inv [OF inv R(1)])
  have fb: "flushed_byte ?c 0 (volume_byte vol s) x = (if x < c_cache_size_bytes ?c \<and> dirty_block ?c (x div CACHE_BLOCK_SIZE)
      then the (c_buffer ?c) x else volume_byte vol s x)" for x by (simp add: flushed_byte_def)
  have R4: "\<forall>x < v_virtual_total_bytes vol. volume_byte vol ?s' x = apply_ranges rs (volume_byte vol s) x"
    "\<forall>x < v_virtual_total_bytes vol. volume_byte vol ?s' x = flushed_byte ?c 0 (volume_byte vol s) x"
    using R(4) unfolding bytes by blast+
  show ?thesis by (intro exI conjI; rule run log dm R4(1) R4(2) [unfolded fb])
qed

text \<open>Two disks with drives of their own and a cache of one block, which holds two written bytes.\<close>

definition cached_pair :: "RAM_CACHE \<Rightarrow> STRIPE_VOLUME" where
  "cached_pair c = (pair_volume 65536 4)\<lparr>v_cache := c\<lparr>c_flush_buffer_size := MAX_FLUSH_SIZE\<rparr>, v_cache_enabled := True\<rparr>"

definition written_cache :: RAM_CACHE where
  "written_cache = snd (cache_write small_cache [1, 2] 7)"

lemma cached_pair_layout: "same_layout (pair_volume 65536 4) (cached_pair c)"
  by (simp add: same_layout_def cached_pair_def)

lemma written_cache_facts: "cache_inv written_cache" "c_buffer written_cache = Some (write_bytes (\<lambda>_. 0) 7 [1, 2])"
  "c_cache_size_bytes written_cache = CACHE_BLOCK_SIZE" "dirty_block written_cache 0" "valid_block written_cache 0"
  "c_block_count written_cache = 1"
proof -
  have m: "c_buffer small_cache = Some (\<lambda>_. 0)" "c_cache_size_bytes small_cache = CACHE_BLOCK_SIZE" "c_block_count small_cache = 1"
    by (simp_all add: small_cache_def)
  have n: "0 < length [1, 2 :: byte]" "7 + length [1, 2 :: byte] \<le> c_cache_size_bytes small_cache"
    by (simp_all add: m const)
  have w: "cache_write small_cache [1, 2] 7 = (True, written_cache)"
    "c_buffer written_cache = Some (write_bytes (\<lambda>_. 0) 7 [1, 2])"
    "c_cache_size_bytes written_cache = CACHE_BLOCK_SIZE" "c_block_count written_cache = 1"
    using cache_write_inside [OF small_cache_inv(1) n m(1)] by (simp_all add: written_cache_def m)
  have "\<exists>x. 7 \<le> x \<and> x < 7 + length [1, 2 :: byte] \<and> x div CACHE_BLOCK_SIZE = 0"
    by (rule exI [of _ 7]) (simp add: const)
  then show "dirty_block written_cache 0" "valid_block written_cache 0"
    using cache_write_valid [OF small_cache_inv(1) n w(1)] by (simp_all add: m(3))
  show "cache_inv written_cache" by (rule cache_write_inv [OF small_cache_inv(1) w(1)])
  show "c_buffer written_cache = Some (write_bytes (\<lambda>_. 0) 7 [1, 2])"
    "c_cache_size_bytes written_cache = CACHE_BLOCK_SIZE" "c_block_count written_cache = 1" using w by simp_all
qed

lemma cached_pair_ready:
  assumes "cache_inv c" "c_cache_size_bytes c \<le> 524288"
  shows "flush_ready (cached_pair c) two_drive_system" "v_cache_flush_in_progress (cached_pair c) = 0"
proof -
  have p: "disk_ptrs (pair_volume 65536 4) = disk_ptrs two_disk_volume"
    by (simp add: disk_ptrs_def vdisk_def pair_volume_def)
  have "disks_open (pair_volume 65536 4) two_drive_system"
    using two_disk_open by (simp add: disks_open_def disk_path_def two_drive_system_def CHECK_DISKS_def vdisk_def pair_volume_def)
  moreover have "wf_layout (pair_volume 65536 4)" using wf_pair [of 65536 4] by simp
  moreover have "cache_inv (v_cache (cached_pair c))" using assms(1) by (simp add: cached_pair_def cache_inv_def)
  moreover have "v_virtual_total_bytes (cached_pair c) = 524288" "v_stripe_unit (cached_pair c) = CACHE_BLOCK_SIZE"
    "v_disk_count (cached_pair c) = 2" by (simp_all add: cached_pair_def const)
  ultimately show "flush_ready (cached_pair c) two_drive_system"
    using assms(2) two_drive_ok(2,3) by (simp add: flush_ready_def same_layout_bytes [OF cached_pair_layout] p) (simp add: cached_pair_def)
  show "v_cache_flush_in_progress (cached_pair c) = 0"
    by (simp add: cached_pair_def pair_volume_def two_disk_volume_def two_disks_def zero_volume_def)
qed

text \<open>
  C8. On a working system, flushing a cache that lies inside its volume and whose block divides
  the stripe unit leaves no block dirty, puts the cached bytes of exactly the dirty blocks on the
  disks, keeps every other byte of the volume, and journals a begin record, the ranges it wrote
  and, when there were any, a commit record; writing the journalled ranges in order has the same
  effect on the volume.
\<close>

theorem cache_flush_correct:
  assumes good: "all_good os" and ready: "flush_ready vol s" and idle: "v_cache_flush_in_progress vol = 0"
  shows "\<exists>dm s' rs. cache_flush_all os now vol s = Inr (with_dirty vol dm, s') \<and>
    (\<forall>b < c_block_count (v_cache vol). \<not> bit_test dm b) \<and> cache_inv ((v_cache vol)\<lparr>c_dirty_map := dm\<rparr>) \<and>
    logged vol ([JBegin now (v_generation vol)] @ data_records now vol rs @
      (if rs = [] then [] else [JCommit now (v_generation vol)])) s s' \<and>
    (\<forall>x < v_virtual_total_bytes vol. volume_byte vol s' x = apply_ranges rs (volume_byte vol s) x) \<and>
    (\<forall>x < v_virtual_total_bytes vol. volume_byte vol s' x =
        (if x < c_cache_size_bytes (v_cache vol) \<and> dirty_block (v_cache vol) (x div CACHE_BLOCK_SIZE)
         then the (c_buffer (v_cache vol)) x else volume_byte vol s x))"
  by (rule flush_all_good [OF good ready idle])

theorem cache_flush_correct_witness:
  "\<exists>dm s'. cache_flush_all os_good 5 (cached_pair written_cache) two_drive_system = Inr (with_dirty (cached_pair written_cache) dm, s') \<and>
     \<not> bit_test dm 0 \<and> volume_byte (cached_pair written_cache) s' 8 = 2"
proof -
  have size: "c_cache_size_bytes written_cache \<le> 524288" by (simp add: written_cache_facts const)
  note R = cached_pair_ready [OF written_cache_facts(1) size]
  have v: "v_virtual_total_bytes (cached_pair written_cache) = 524288" "v_cache (cached_pair written_cache) =
      written_cache\<lparr>c_flush_buffer_size := MAX_FLUSH_SIZE\<rparr>" by (simp_all add: cached_pair_def)
  have b: "8 div CACHE_BLOCK_SIZE = 0" "8 < CACHE_BLOCK_SIZE" by (simp_all add: const)
  obtain dm s' rs where F: "cache_flush_all os_good 5 (cached_pair written_cache) two_drive_system = Inr (with_dirty (cached_pair written_cache) dm, s')"
    "\<not> bit_test dm 0" "volume_byte (cached_pair written_cache) s' 8 = the (c_buffer written_cache) 8"
  proof -
    obtain dm s' rs where F: "cache_flush_all os_good 5 (cached_pair written_cache) two_drive_system = Inr (with_dirty (cached_pair written_cache) dm, s')"
      "\<forall>b < c_block_count (v_cache (cached_pair written_cache)). \<not> bit_test dm b"
      "\<forall>x < 524288. volume_byte (cached_pair written_cache) s' x =
        (if x < c_cache_size_bytes written_cache \<and> dirty_block (v_cache (cached_pair written_cache)) (x div CACHE_BLOCK_SIZE)
         then the (c_buffer written_cache) x else volume_byte (cached_pair written_cache) two_drive_system x)"
      using cache_flush_correct [OF all_good_os_good R, of 5] unfolding v by auto
    have "\<not> bit_test dm 0" using F(2) written_cache_facts(6) by (simp add: v)
    moreover have "volume_byte (cached_pair written_cache) s' 8 = the (c_buffer written_cache) 8"
      using F(3) [rule_format, of 8] written_cache_facts(3,4) b by (simp add: v dirty_block_def)
    ultimately show ?thesis using F(1) that by blast
  qed
  then show ?thesis by (auto simp: written_cache_facts(2) write_bytes_def)
qed

end
