(* ===== verification/CachedIo.thy ===== *)
theory CachedIo
  imports CacheFlush
begin

text \<open>
  A volume with its cache in front of it: what \<^verbatim>\<open>stripe_volume_read\<close> and
  \<^verbatim>\<open>stripe_volume_write\<close> of \<^verbatim>\<open>src/src/stripe_engine.c\<close>, the RAM cache and its flush do
  together. The definitions are those of \<open>StripeIo\<close>, \<open>RamCache\<close> and \<open>CacheFlush\<close>; the
  properties say what a client of a write-back volume reads, and three cases where it is not what
  was written.
\<close>

section \<open>A volume in write-back mode\<close>

definition cached_good :: "STRIPE_VOLUME \<Rightarrow> sys \<Rightarrow> bool" where
  "cached_good vol s \<longleftrightarrow> wf_layout vol \<and> workers_ready vol s \<and> v_raid_level vol \<noteq> RAID_LEVEL_MIRROR \<and>
     v_cache_enabled vol \<and> cache_inv (v_cache vol) \<and> c_write_through (v_cache vol) = 0 \<and>
     c_cache_size_bytes (v_cache vol) \<le> v_virtual_total_bytes vol"

text \<open>The bytes of \<open>[off, off + n)\<close> are all in valid blocks.\<close>

definition all_valid :: "RAM_CACHE \<Rightarrow> nat \<Rightarrow> nat \<Rightarrow> bool" where
  "all_valid c off n \<longleftrightarrow> (\<forall>x. off \<le> x \<and> x < off + n \<longrightarrow> valid_block c (x div CACHE_BLOCK_SIZE))"

lemma cached_request:
  assumes "cached_good vol s" "off + n \<le> c_cache_size_bytes (v_cache vol)"
  shows "u64 (off + n) = off + n" "off + n \<le> v_virtual_total_bytes vol" "CHECK_DISKS vol"
  using assms ready_checked u64_request [of vol off n] by (auto simp: cached_good_def)

text \<open>A write into the cache reaches no disk.\<close>

lemma cached_write:
  assumes good: "cached_good vol s" and idle: "v_cache_flush_in_progress vol = 0"
    and n: "0 < n" "off + n \<le> c_cache_size_bytes (v_cache vol)"
  shows "\<exists>c. cache_write (v_cache vol) (read_bytes buf 0 n) off = (True, c) \<and>
    stripe_volume_write os vol buf off n s = Inr (True, add_bytes_written n (vol\<lparr>v_cache := c\<rparr>), buf, s)"
proof -
  note R = cached_request [OF good n(2)]
  have inv: "cache_inv (v_cache vol)" using good by (simp add: cached_good_def)
  obtain m where m: "c_buffer (v_cache vol) = Some m" using inv by (auto simp: cache_inv_def)
  have "0 < length (read_bytes buf 0 n)" "off + length (read_bytes buf 0 n) \<le> c_cache_size_bytes (v_cache vol)" using n by simp_all
  note W = cache_write_inside [OF inv this m]
  show ?thesis using good idle n R W by (simp add: cached_good_def stripe_volume_write_def Let_def)
qed

lemma same_layout_cache [simp]:
  "same_layout vol (vol\<lparr>v_cache := c\<rparr>)" "same_layout vol (add_bytes_written n (vol\<lparr>v_cache := c\<rparr>))"
  by (simp_all add: same_layout_def add_bytes_written_def)

lemma workers_ready_layout:
  assumes "same_layout v w" "v_worker_state w = v_worker_state v"
  shows "workers_ready w s = workers_ready v s"
proof -
  have "workers_idle w = workers_idle v"
    using assms(1) by (simp add: fun_eq_iff workers_idle_def same_layout_def)
  then show ?thesis by (simp only: workers_ready_def assms(2) same_layout_bytes(3) [OF assms(1)])
qed

lemma workers_ready_cache [simp]: "workers_ready (vol\<lparr>v_cache := c\<rparr>) s = workers_ready vol s"
  by (rule workers_ready_layout) simp_all

lemma cached_good_write:
  assumes "cached_good vol s" "cache_write (v_cache vol) data off = (r, c)"
  shows "cached_good (add_bytes_written n (vol\<lparr>v_cache := c\<rparr>)) s" "cache_inv c"
proof -
  have inv: "cache_inv (v_cache vol)" using assms(1) by (simp add: cached_good_def)
  show c: "cache_inv c" by (rule cache_write_inv [OF inv assms(2)])
  have "c_write_through c = c_write_through (v_cache vol)" "c_cache_size_bytes c = c_cache_size_bytes (v_cache vol)"
    using assms(2) by (auto simp: cache_write_def Let_def split: option.splits if_splits)
  then show "cached_good (add_bytes_written n (vol\<lparr>v_cache := c\<rparr>)) s"
    using assms(1) c same_layout_bytes(2) [OF same_layout_cache(2) [where vol = vol and n = n and c = c]]
    by (simp add: cached_good_def) (simp add: add_bytes_written_def)
qed

text \<open>A read is served from the cache when every block it touches is valid, else from the disks.\<close>

lemma cached_read_hit:
  assumes good: "cached_good vol s" and n: "0 < n" "off + n \<le> c_cache_size_bytes (v_cache vol)"
    and m: "c_buffer (v_cache vol) = Some m" and valid: "all_valid (v_cache vol) off n"
  shows "\<exists>vol'. stripe_volume_read os vol rbuf off n s = Inr (True, vol', write_bytes rbuf 0 (read_bytes m off n), s)"
proof -
  note R = cached_request [OF good n(2)]
  have inv: "cache_inv (v_cache vol)" using good by (simp add: cached_good_def)
  show ?thesis using good n R valid cache_read_inside [OF inv n m]
    by (simp add: cached_good_def stripe_volume_read_def all_valid_def Let_def)
qed

lemma cached_read_miss:
  assumes os: "all_good os" and good: "cached_good vol s" and n: "0 < n" "off + n \<le> c_cache_size_bytes (v_cache vol)"
    and small: "n \<le> unit_bytes (v_stripe_unit vol)" and invalid: "\<not> all_valid (v_cache vol) off n"
  shows "\<exists>vol' s'. stripe_volume_read os vol rbuf off n s =
    Inr (True, vol', write_bytes rbuf 0 (read_bytes (volume_byte vol s) off n), s')"
proof -
  note R = cached_request [OF good n(2)]
  have inv: "cache_inv (v_cache vol)" using good by (simp add: cached_good_def)
  obtain m where m: "c_buffer (v_cache vol) = Some m" using inv by (auto simp: cache_inv_def)
  obtain c where c: "cache_read (v_cache vol) off n = (False, [], c)"
    using cache_read_inside [OF inv n m] invalid unfolding all_valid_def by (metis (no_types, lifting))
  let ?vol = "vol\<lparr>v_cache := c\<rparr>"
  note L = same_layout_bytes [OF same_layout_cache(1) [where vol = vol and c = c]]
  have "wf_layout ?vol" "workers_ready ?vol s" using good L(2) by (simp_all add: cached_good_def)
  from direct_read_good [OF os this n(1), of off rbuf] small R(2)
  obtain ws s' where "direct_io os IO_OP_READ ?vol rbuf off n s =
      Inr (True, ?vol\<lparr>v_worker_state := Some ws\<rparr>, write_bytes rbuf 0 (read_bytes (volume_byte vol s) off n), s')"
    unfolding L(1) by auto
  then show ?thesis using good n R c by (simp add: cached_good_def stripe_volume_read_def count_if_def Let_def)
qed

lemma written_valid:
  assumes "cache_inv c" "0 < n" "off + n \<le> c_cache_size_bytes c" "cache_write c (read_bytes buf 0 n) off = (True, c1)"
  shows "all_valid c1 off n"
  unfolding all_valid_def
proof (intro allI impI)
  fix x assume x: "off \<le> x \<and> x < off + n"
  then have "x div CACHE_BLOCK_SIZE < c_block_count c" using assms(3) by (intro block_of_inside [OF assms(1)]) simp
  then show "valid_block c1 (x div CACHE_BLOCK_SIZE)"
    using cache_write_valid(1) [OF assms(1) _ _ assms(4)] assms(2,3) x by auto
qed

section \<open>Properties\<close>

text \<open>
  C33. On a striped volume in write-back mode, while no flush is in progress, a write inside the
  cache succeeds without touching a disk, and the next read of the same range returns it. (During
  a flush the write bypasses the cache and is hidden from the next read, which is a finding.)
\<close>

theorem cached_write_then_read:
  assumes good: "cached_good vol s" and idle: "v_cache_flush_in_progress vol = 0"
    and n: "0 < n" "off + n \<le> c_cache_size_bytes (v_cache vol)"
  shows "\<exists>vol1 vol2. stripe_volume_write os vol buf off n s = Inr (True, vol1, buf, s) \<and> cached_good vol1 s \<and>
    stripe_volume_read os vol1 rbuf off n s = Inr (True, vol2, write_bytes rbuf 0 (read_bytes buf 0 n), s)"
proof -
  have inv: "cache_inv (v_cache vol)" using good by (simp add: cached_good_def)
  obtain m where m: "c_buffer (v_cache vol) = Some m" using inv by (auto simp: cache_inv_def)
  obtain c where W: "cache_write (v_cache vol) (read_bytes buf 0 n) off = (True, c)"
    "stripe_volume_write os vol buf off n s = Inr (True, add_bytes_written n (vol\<lparr>v_cache := c\<rparr>), buf, s)"
    using cached_write [OF good idle n] by blast
  let ?vol1 = "add_bytes_written n (vol\<lparr>v_cache := c\<rparr>)"
  note G = cached_good_write(1) [OF good W(1), of n]
  have c: "c_buffer c = Some (write_bytes m off (read_bytes buf 0 n))" "c_cache_size_bytes c = c_cache_size_bytes (v_cache vol)"
    using cache_write_inside [OF inv _ _ m, of "read_bytes buf 0 n" off] n W(1) by auto
  have v: "v_cache ?vol1 = c" by (simp add: add_bytes_written_def)
  have "all_valid c off n" by (rule written_valid [OF inv n W(1)])
  from cached_read_hit [OF G n(1), of off "write_bytes m off (read_bytes buf 0 n)" os rbuf] this n(2) c
  have "\<exists>vol'. stripe_volume_read os ?vol1 rbuf off n s = Inr (True, vol', write_bytes rbuf 0 (read_bytes buf 0 n), s)"
    unfolding v by (simp add: mem)
  then show ?thesis using W(2) G by blast
qed

definition empty_cache :: RAM_CACHE where
  "empty_cache = zero_cache\<lparr>c_buffer := Some (\<lambda>_. 0), c_block_size := CACHE_BLOCK_SIZE,
     c_block_count := 2, c_cache_size_bytes := 2 * CACHE_BLOCK_SIZE, c_dirty_map := [0], c_valid_map := [0]\<rparr>"

lemma empty_cache_facts: "cache_inv empty_cache" "\<not> valid_block empty_cache 1" "c_cache_size_bytes empty_cache = 131072"
  "c_write_through empty_cache = 0"
  by (simp_all add: cache_inv_def empty_cache_def const valid_block_def bit_test_def zero_cache_def)

lemma cached_pair_good:
  assumes "cache_inv c" "c_cache_size_bytes c \<le> 524288" "c_write_through c = 0"
  shows "cached_good (cached_pair c) two_drive_system"
proof -
  have "workers_ready (pair_volume 65536 4) two_drive_system"
    using cached_pair_ready(1) [OF assms(1,2)] pair_ready [of 65536 4] same_layout_bytes(3) [OF cached_pair_layout]
    by (simp add: flush_ready_def workers_ready_def)
  then have "workers_ready (cached_pair c) two_drive_system"
    using workers_ready_layout [OF cached_pair_layout, of c two_drive_system] by (simp add: cached_pair_def)
  moreover have "cache_inv (v_cache (cached_pair c))" using assms(1) by (simp add: cached_pair_def cache_inv_def)
  ultimately show ?thesis using cached_pair_ready(1) [OF assms(1,2)] assms(2,3)
    by (simp add: flush_ready_def cached_good_def) (simp add: cached_pair_def const)
qed

lemma cached_pair_fields: "v_cache (cached_pair c) = c\<lparr>c_flush_buffer_size := MAX_FLUSH_SIZE\<rparr>"
  "v_stripe_unit (cached_pair c) = 65536" "v_virtual_total_bytes (cached_pair c) = 524288"
  by (simp_all add: cached_pair_def)

lemma valid_block_buffer [simp]: "valid_block (c\<lparr>c_flush_buffer_size := k\<rparr>) b = valid_block c b"
  by (simp add: valid_block_def)

theorem cached_write_then_read_witness:
  "\<exists>vol1 vol2. stripe_volume_write os_good (cached_pair empty_cache) (\<lambda>i. of_nat i) 5 3 two_drive_system =
      Inr (True, vol1, \<lambda>i. of_nat i, two_drive_system) \<and>
    stripe_volume_read os_good vol1 zero_mem 5 3 two_drive_system =
      Inr (True, vol2, write_bytes zero_mem 0 [0, 1, 2], two_drive_system)"
proof -
  have g: "cached_good (cached_pair empty_cache) two_drive_system"
    by (rule cached_pair_good) (simp_all add: empty_cache_facts)
  have f: "v_cache_flush_in_progress (cached_pair empty_cache) = 0"
    by (rule cached_pair_ready(2)) (simp_all add: empty_cache_facts)
  have n: "(0 :: nat) < 3" "5 + 3 \<le> c_cache_size_bytes (v_cache (cached_pair empty_cache))"
    by (simp_all add: cached_pair_fields empty_cache_facts)
  have "read_bytes (\<lambda>i. of_nat i) 0 3 = [0, 1, 2]" by (simp add: read_bytes_def upt_rec)
  then show ?thesis using cached_write_then_read [OF g f n, of os_good "\<lambda>i. of_nat i" zero_mem] by auto
qed

theorem straddling_read_is_stale:
  assumes os: "all_good os" and good: "cached_good vol s" and idle: "v_cache_flush_in_progress vol = 0"
    and n: "0 < n" "off + n \<le> c_cache_size_bytes (v_cache vol)"
    and k: "0 < k" "o2 + k \<le> c_cache_size_bytes (v_cache vol)" "k \<le> unit_bytes (v_stripe_unit vol)"
    and y: "o2 \<le> y" "y < o2 + k" "\<not> valid_block (v_cache vol) (y div CACHE_BLOCK_SIZE)"
      "\<forall>x. off \<le> x \<and> x < off + n \<longrightarrow> x div CACHE_BLOCK_SIZE \<noteq> y div CACHE_BLOCK_SIZE"
  shows "\<exists>vol1 vol2 s'. stripe_volume_write os vol buf off n s = Inr (True, vol1, buf, s) \<and>
    stripe_volume_read os vol1 rbuf o2 k s = Inr (True, vol2, write_bytes rbuf 0 (read_bytes (volume_byte vol s) o2 k), s')"
proof -
  have inv: "cache_inv (v_cache vol)" using good by (simp add: cached_good_def)
  obtain m where m: "c_buffer (v_cache vol) = Some m" using inv by (auto simp: cache_inv_def)
  obtain c where W: "cache_write (v_cache vol) (read_bytes buf 0 n) off = (True, c)"
    "stripe_volume_write os vol buf off n s = Inr (True, add_bytes_written n (vol\<lparr>v_cache := c\<rparr>), buf, s)"
    using cached_write [OF good idle n] by blast
  let ?vol1 = "add_bytes_written n (vol\<lparr>v_cache := c\<rparr>)"
  note G = cached_good_write(1) [OF good W(1), of n]
  have c: "c_cache_size_bytes c = c_cache_size_bytes (v_cache vol)"
    using cache_write_inside [OF inv _ _ m, of "read_bytes buf 0 n" off] n W(1) by auto
  have v: "v_cache ?vol1 = c" "v_stripe_unit ?vol1 = v_stripe_unit vol" by (simp_all add: add_bytes_written_def)
  have "y div CACHE_BLOCK_SIZE < c_block_count (v_cache vol)" using y(2) k(2) by (intro block_of_inside [OF inv]) simp
  then have "\<not> valid_block c (y div CACHE_BLOCK_SIZE)"
    using cache_write_valid(1) [OF inv _ _ W(1)] n y(3,4) by auto
  then have "\<not> all_valid c o2 k" using y(1,2) by (auto simp: all_valid_def)
  with cached_read_miss [OF os G k(1), of o2 rbuf] k(2,3) c
  obtain vol2 s' where "stripe_volume_read os ?vol1 rbuf o2 k s =
      Inr (True, vol2, write_bytes rbuf 0 (read_bytes (volume_byte ?vol1 s) o2 k), s')" unfolding v by auto
  then show ?thesis using W(2) unfolding same_layout_bytes(1) [OF same_layout_cache(2)] by blast
qed

theorem straddling_read_is_stale_witness:
  "\<exists>vol1 vol2 s'. stripe_volume_write os_good (cached_pair empty_cache) (\<lambda>_. 9) 65535 1 two_drive_system =
      Inr (True, vol1, \<lambda>_. 9, two_drive_system) \<and>
    stripe_volume_read os_good vol1 zero_mem 65535 2 two_drive_system = Inr (True, vol2, write_bytes zero_mem 0
      (read_bytes (volume_byte (cached_pair empty_cache) two_drive_system) 65535 2), s')"
proof -
  have g: "cached_good (cached_pair empty_cache) two_drive_system"
    by (rule cached_pair_good) (simp_all add: empty_cache_facts)
  have f: "v_cache_flush_in_progress (cached_pair empty_cache) = 0"
    by (rule cached_pair_ready(2)) (simp_all add: empty_cache_facts)
  have "\<not> valid_block (v_cache (cached_pair empty_cache)) (65536 div CACHE_BLOCK_SIZE)"
    using empty_cache_facts(2) by (simp add: cached_pair_fields const)
  moreover have "\<forall>x. 65535 \<le> x \<and> x < 65535 + 1 \<longrightarrow> x div CACHE_BLOCK_SIZE \<noteq> 65536 div CACHE_BLOCK_SIZE"
    by (auto simp: const)
  moreover have "(0 :: nat) < 1" "(0 :: nat) < 2" "(65535 :: nat) \<le> 65536" "(65536 :: nat) < 65535 + 2"
    "65535 + 1 \<le> c_cache_size_bytes (v_cache (cached_pair empty_cache))"
    "65535 + 2 \<le> c_cache_size_bytes (v_cache (cached_pair empty_cache))"
    "2 \<le> unit_bytes (v_stripe_unit (cached_pair empty_cache))"
    by (simp_all add: cached_pair_fields empty_cache_facts unit_bytes_def)
  ultimately show ?thesis by (intro straddling_read_is_stale [OF all_good_os_good g f, where y = 65536])
qed

theorem write_during_flush_is_hidden:
  assumes os: "all_good os" and good: "cached_good vol s" and busy: "v_cache_flush_in_progress vol \<noteq> 0"
    and n: "0 < n" "off + n \<le> c_cache_size_bytes (v_cache vol)" "n \<le> unit_bytes (v_stripe_unit vol)"
    and cached: "all_valid (v_cache vol) off n" "c_buffer (v_cache vol) = Some m"
  shows "\<exists>vol1 s1 vol2. stripe_volume_write os vol buf off n s = Inr (True, vol1, buf, s1) \<and>
    (\<forall>x < v_virtual_total_bytes vol. volume_byte vol1 s1 x = write_bytes (volume_byte vol s) off (read_bytes buf 0 n) x) \<and>
    stripe_volume_read os vol1 rbuf off n s1 = Inr (True, vol2, write_bytes rbuf 0 (read_bytes m off n), s1)"
proof -
  note R = cached_request [OF good n(2)]
  have G: "wf_layout vol" "workers_ready vol s" using good by (simp_all add: cached_good_def)
  obtain ws s' where W: "direct_io os IO_OP_WRITE vol buf off n s = Inr (True, vol\<lparr>v_worker_state := Some ws\<rparr>, buf, s')"
    "workers_ready (vol\<lparr>v_worker_state := Some ws\<rparr>) s'"
    "\<forall>x < v_virtual_total_bytes vol. volume_byte vol s' x = write_bytes (volume_byte vol s) off (read_bytes buf 0 n) x"
    using direct_write_good [OF os G n(1,3) R(2), of buf] by blast
  let ?vol1 = "add_bytes_written n (vol\<lparr>v_worker_state := Some ws\<rparr>)"
  have w: "stripe_volume_write os vol buf off n s = Inr (True, ?vol1, buf, s')"
    using good busy n R W(1) by (simp add: cached_good_def stripe_volume_write_def count_if_def)
  have f: "v_cache ?vol1 = v_cache vol" by (simp add: add_bytes_written_def)
  note B = same_volume_bytes [OF same_volume_I(4) [of vol n "Some ws"]]
  have "cached_good ?vol1 s'"
    using good W(2) B(2) by (simp add: cached_good_def) (simp add: add_bytes_written_def)
  then obtain vol2 where "stripe_volume_read os ?vol1 rbuf off n s' = Inr (True, vol2, write_bytes rbuf 0 (read_bytes m off n), s')"
    using cached_read_hit [of ?vol1 s' n off m os rbuf] cached n(1,2) unfolding f by blast
  then show ?thesis using w W(3) unfolding B(1) [symmetric] by blast
qed

theorem write_during_flush_is_hidden_witness:
  "\<exists>vol1 s1 vol2. stripe_volume_write os_good ((cached_pair written_cache)\<lparr>v_cache_flush_in_progress := 1\<rparr>) (\<lambda>_. 9) 7 2 two_drive_system =
      Inr (True, vol1, \<lambda>_. 9, s1) \<and>
    stripe_volume_read os_good vol1 zero_mem 7 2 s1 = Inr (True, vol2, write_bytes zero_mem 0 [1, 2], s1)"
proof -
  let ?v = "(cached_pair written_cache)\<lparr>v_cache_flush_in_progress := 1\<rparr>"
  have wt: "c_write_through written_cache = 0" by (simp add: written_cache_def cache_write_def small_cache_def zero_cache_def Let_def)
  have "cached_good (cached_pair written_cache) two_drive_system"
    by (rule cached_pair_good) (simp_all add: written_cache_facts wt const)
  then have g: "cached_good ?v two_drive_system"
    using same_layout_bytes(2) [OF flush_ready_flag(2)] workers_ready_layout [OF flush_ready_flag(2)]
    by (simp add: cached_good_def)
  have "7 div CACHE_BLOCK_SIZE = 0" "8 div CACHE_BLOCK_SIZE = 0" by (simp_all add: const)
  then have v: "all_valid (v_cache ?v) 7 2"
    using written_cache_facts(5) by (auto simp: all_valid_def cached_pair_fields less_Suc_eq numeral_eq_Suc)
  have m: "c_buffer (v_cache ?v) = Some (write_bytes (\<lambda>_. 0) 7 [1, 2])"
    by (simp add: cached_pair_fields written_cache_facts)
  have n: "(0 :: nat) < 2" "7 + 2 \<le> c_cache_size_bytes (v_cache ?v)" "2 \<le> unit_bytes (v_stripe_unit ?v)" "v_cache_flush_in_progress ?v \<noteq> 0"
    by (simp_all add: cached_pair_fields written_cache_facts const unit_bytes_def)
  show ?thesis using write_during_flush_is_hidden [OF all_good_os_good g n(4,1,2,3) v m, of "\<lambda>_. 9" zero_mem]
    by (auto simp: mem)
qed

theorem flush_overwrites_neighbours:
  assumes os: "all_good os" and ready: "flush_ready vol s" and idle: "v_cache_flush_in_progress vol = 0"
    and n: "data \<noteq> []" "off + length data \<le> c_cache_size_bytes (v_cache vol)" and m: "c_buffer (v_cache vol) = Some m"
    and x: "x div CACHE_BLOCK_SIZE = off div CACHE_BLOCK_SIZE" "x < off \<or> off + length data \<le> x"
  shows "\<exists>c vol' s'. cache_write (v_cache vol) data off = (True, c) \<and>
    cache_flush_all os now (vol\<lparr>v_cache := c\<rparr>) s = Inr (vol', s') \<and> volume_byte vol s' x = m x"
proof -
  have inv: "cache_inv (v_cache vol)" using ready by (simp add: flush_ready_def)
  have n': "0 < length data" using n(1) by simp
  obtain c where W: "cache_write (v_cache vol) data off = (True, c)" "c_buffer c = Some (write_bytes m off data)"
    "c_cache_size_bytes c = c_cache_size_bytes (v_cache vol)" "c_flush_buffer_size c = c_flush_buffer_size (v_cache vol)"
    using cache_write_inside [OF inv n' n(2) m] by auto
  let ?vol = "vol\<lparr>v_cache := c\<rparr>"
  note L = same_layout_bytes [OF same_layout_cache(1) [where vol = vol and c = c]]
  have r: "flush_ready ?vol s" using ready cache_write_inv [OF inv W(1)] W(3,4) by (simp add: flush_ready_def L)
  have inside: "off div CACHE_BLOCK_SIZE < c_block_count (v_cache vol)" using n' n(2) by (intro block_of_inside [OF inv]) linarith
  then have d: "dirty_block c (x div CACHE_BLOCK_SIZE)"
    using cache_write_valid(2) [OF inv n' n(2) W(1), of "x div CACHE_BLOCK_SIZE"] n' unfolding x(1) by auto
  have xs: "x < c_cache_size_bytes c"
  proof -
    have B: "0 < CACHE_BLOCK_SIZE" by (simp add: const)
    have "x < c_block_count (v_cache vol) * CACHE_BLOCK_SIZE"
      using inside unfolding x(1) [symmetric] div_less_iff_less_mult [OF B] .
    then show ?thesis using inv by (simp add: W(3) cache_inv_def)
  qed
  moreover have "c_cache_size_bytes c \<le> v_virtual_total_bytes vol" using ready W(3) by (simp add: flush_ready_def)
  ultimately have "x < v_virtual_total_bytes ?vol" by simp
  then obtain vol' s' where "cache_flush_all os now ?vol s = Inr (vol', s')" "volume_byte ?vol s' x = the (c_buffer c) x"
    using flush_all_good [OF os r, of now] idle xs d by auto
  then show ?thesis using W(1,2) x(2) by (auto simp: L write_bytes_out)
qed

theorem flush_overwrites_neighbours_witness:
  "\<exists>c vol' s'. cache_write (v_cache (cached_pair small_cache)) [1, 2] 7 = (True, c) \<and>
    cache_flush_all os_good 5 ((cached_pair small_cache)\<lparr>v_cache := c\<rparr>) two_drive_system = Inr (vol', s') \<and>
    volume_byte (cached_pair small_cache) s' 100 = 0"
proof -
  have size: "c_cache_size_bytes small_cache \<le> 524288" by (simp add: small_cache_def const)
  note R = cached_pair_ready [OF small_cache_inv(1) size]
  have n: "[1, 2 :: byte] \<noteq> []" "7 + length [1, 2 :: byte] \<le> c_cache_size_bytes (v_cache (cached_pair small_cache))"
    "c_buffer (v_cache (cached_pair small_cache)) = Some (\<lambda>_. 0)"
    "100 div CACHE_BLOCK_SIZE = 7 div CACHE_BLOCK_SIZE" "100 < 7 \<or> 7 + length [1, 2 :: byte] \<le> 100"
    by (simp_all add: cached_pair_fields small_cache_def const)
  show ?thesis by (rule flush_overwrites_neighbours [OF all_good_os_good R n])
qed

end
