(* ===== verification/PoolIo.thy ===== *)
theory PoolIo
  imports RawIo
begin

text \<open>
  The pool file of a disk, \<^verbatim>\<open>src/src/pool_io.c\<close>: creating it at a size rounded to sectors,
  opening it with or without buffering, closing and deleting it. Its bytes are \<open>w_media\<close> at the
  file's path; whether a file exists is not part of the state, so that opening one is decided by
  the outcome of the call. Log lines and the conversion of paths for them are not modelled.
\<close>

definition is_sector_aligned :: "nat \<Rightarrow> nat \<Rightarrow> bool" where
  "is_sector_aligned value sector = (value mod sector = 0)"

definition sector_round :: "nat \<Rightarrow> nat" where
  "sector_round n =
     (if is_sector_aligned n SECTOR_SIZE then n
      else let k = n div SECTOR_SIZE * SECTOR_SIZE in if k = 0 then SECTOR_SIZE else k)"

text \<open>
  \<open>CREATE_ALWAYS\<close> empties the file and \<open>SetEndOfFile\<close> fills it with zeros. The sizing is one
  call of the oracle, made when one of the two ways to create succeeded.
\<close>

definition pool_file_create :: "os \<Rightarrow> ptr \<Rightarrow> nat \<Rightarrow> sys \<Rightarrow> bool \<times> sys" where
  "pool_file_create os d size_bytes s =
     (if d_file_path (s_heap s d) = [] then (False, s)
      else if validate_pool_size size_bytes \<noteq> RC_OK then (False, s)
      else
        let p = d_file_path (s_heap s d);
            s1 = update_disk d (\<lambda>disk. disk\<lparr>d_pool_bytes := sector_round size_bytes\<rparr>) s;
            created = (sys_ok os s1 \<or> sys_ok os (tick s1));
            s2 = (if sys_ok os s1 then tick s1 else tick (tick s1))
        in if \<not> created then (False, s2)
           else
             let s3 = (tick s2)\<lparr>w_media := (w_media s2)(p := (\<lambda>_. 0))\<rparr>
             in (sys_ok os s2, s3))"

definition pool_file_open :: "os \<Rightarrow> ptr \<Rightarrow> sys \<Rightarrow> bool \<times> sys" where
  "pool_file_open os d s =
     (let p = d_file_path (s_heap s d);
          opened = (\<lambda>s. update_disk d (\<lambda>disk. disk\<lparr>d_handle := FILE_HANDLE p\<rparr>) s);
          failed = (\<lambda>s. update_disk d (\<lambda>disk. disk\<lparr>d_handle := INVALID_HANDLE_VALUE\<rparr>) s)
      in if p = [] then (False, s)
         else if sys_ok os s then (True, opened (tick s))
         else if sys_ok os (tick s) then (True, opened (tick (tick s)))
         else (False, failed (tick (tick s))))"

definition pool_file_close :: "ptr \<Rightarrow> sys \<Rightarrow> sys" where
  "pool_file_close d s =
     (if d_handle (s_heap s d) \<noteq> INVALID_HANDLE_VALUE
      then update_disk d (\<lambda>disk. disk\<lparr>d_handle := INVALID_HANDLE_VALUE\<rparr>) s else s)"

definition pool_file_delete :: "os \<Rightarrow> ptr \<Rightarrow> sys \<Rightarrow> bool \<times> sys" where
  "pool_file_delete os d s =
     (if d_file_path (s_heap s d) = [] then (False, s)
      else let s1 = pool_file_close d s in (sys_ok os s1, tick s1))"

text \<open>The directory removed is the drive's root path without its backslash.\<close>

definition pool_dir_path :: "DISK_INFO \<Rightarrow> string" where
  "pool_dir_path disk = (let p = d_drive_letter disk in
     if 1 < length p \<and> last p = CHR 0x5C then butlast p else p)"

definition pool_dir_delete :: "os \<Rightarrow> ptr \<Rightarrow> sys \<Rightarrow> bool \<times> sys" where
  "pool_dir_delete os d s =
     (if d_drive_letter (s_heap s d) = [] then (False, s) else (sys_ok os s, tick s))"

section \<open>What they do\<close>

lemma sector_round_facts:
  "SECTOR_SIZE dvd sector_round n" "SECTOR_SIZE \<le> n \<Longrightarrow> sector_round n \<le> n" "n < sector_round n + SECTOR_SIZE"
  "0 < n \<Longrightarrow> 0 < sector_round n"
  by (auto simp: sector_round_def is_sector_aligned_def Let_def const dvd_def)

lemma pool_file_open_cases:
  assumes "d_file_path (s_heap s d) \<noteq> []" "pool_file_open os d s = (r, s')"
  shows "w_media s' = w_media s" "w_files s' = w_files s" "\<forall>e. e \<noteq> d \<longrightarrow> s_heap s' e = s_heap s e"
    "s_heap s' d = (s_heap s d)\<lparr>d_handle := (if r then FILE_HANDLE (d_file_path (s_heap s d)) else INVALID_HANDLE_VALUE)\<rparr>"
  using assms by (auto simp: pool_file_open_def Let_def update_disk_def tick_def split: if_splits)

lemma pool_file_open_good:
  "all_good os \<Longrightarrow> d_file_path (s_heap s d) \<noteq> [] \<Longrightarrow> fst (pool_file_open os d s)"
  by (simp add: pool_file_open_def Let_def)

text \<open>A pool that was created and opened is a disk full of zeros that reads and writes serve.\<close>

lemma pool_create_open:
  assumes good: "all_good os" and p: "d_file_path (s_heap s d) \<noteq> []" and size: "validate_pool_size n = RC_OK"
    and disk: "d_faulty (s_heap s d) = 0" "d_ram_buffer (s_heap s d) = None"
  shows "\<exists>s1 s2. pool_file_create os d n s = (True, s1) \<and> pool_file_open os d s1 = (True, s2) \<and>
    disk_good d s2 \<and> disk_content d s2 = (\<lambda>_. 0) \<and> d_pool_bytes (s_heap s2 d) = sector_round n"
  using assms by (simp add: pool_file_create_def pool_file_open_def Let_def update_disk_def disk_good_def
      disk_content_def tick_def)

end
