(* ===== verification/Superblock.thy ===== *)
theory Superblock
  imports Codec StripeIo PoolIo "HOL-Library.Product_Lexorder"
begin

text \<open>
  The superblock, \<^verbatim>\<open>src/src/superblock.c\<close>, \<^verbatim>\<open>superblock.h\<close> and \<^verbatim>\<open>uuid.c\<close>: the packed
  structure in its four versions, writing it to every disk through a temporary file and a rename,
  recovering a temporary file that was left behind, reading it with the upgrades of the older
  versions, choosing the best of the drives' superblocks, and restoring a volume from it.

  A structure is the list of its integer fields (\<open>Codec\<close>); \<open>sb_body v\<close> are the bytes of version
  \<open>v\<close> before the checksum. Character arrays are lists of code units of the array's length. Log
  lines are not modelled.
\<close>

section \<open>The structure\<close>

definition SUPERBLOCK_MAGIC :: nat where [const]: "SUPERBLOCK_MAGIC = 0x52414944"
definition SUPERBLOCK_VERSION :: nat where [const]: "SUPERBLOCK_VERSION = 4"
definition SB_FEATURE_CACHE :: nat where [const]: "SB_FEATURE_CACHE = 2"
definition SB_FEATURE_MIRROR :: nat where [const]: "SB_FEATURE_MIRROR = 4"
definition SB_READ_LIMIT :: nat where [const]: "SB_READ_LIMIT = 2048"

record SB_DISK_ENTRY =
  de_drive_letter :: "nat list"
  de_bench_write_mbs :: nat
  de_bench_read_mbs :: nat
  de_pool_bytes :: nat
  de_serial_number :: "nat list"

record SUPERBLOCK =
  sb_magic :: nat
  sb_version :: nat
  sb_disk_count :: nat
  sb_stripe_unit :: nat
  sb_virtual_total_bytes :: nat
  sb_phase_count :: nat
  sb_generation :: nat
  sb_timestamp :: nat
  sb_feature_flags :: nat
  sb_journal_offset :: nat
  sb_volume_uuid :: VOLUME_UUID
  sb_created_time :: nat
  sb_last_mount_time :: nat
  sb_disks :: "SB_DISK_ENTRY list"
  sb_phases :: "MAPPING_PHASE list"
  sb_checksum :: nat

definition zero_entry :: SB_DISK_ENTRY where
  "zero_entry = \<lparr>de_drive_letter = replicate 4 0, de_bench_write_mbs = 0, de_bench_read_mbs = 0,
     de_pool_bytes = 0, de_serial_number = replicate 64 0\<rparr>"

text \<open>The fields of a disk entry; version 2 has no serial number.\<close>

definition entry_widths :: "nat \<Rightarrow> nat list" where
  "entry_widths v = [2, 2, 2, 2, 4, 4, 8] @ (if v = 2 then [] else replicate 64 1)"

definition entry_values :: "nat \<Rightarrow> SB_DISK_ENTRY \<Rightarrow> nat list" where
  "entry_values v e = de_drive_letter e @ [de_bench_write_mbs e, de_bench_read_mbs e, de_pool_bytes e] @
     (if v = 2 then [] else de_serial_number e)"

definition entry_of :: "nat \<Rightarrow> nat list \<Rightarrow> SB_DISK_ENTRY" where
  "entry_of v vs = \<lparr>de_drive_letter = take 4 vs, de_bench_write_mbs = vs ! 4, de_bench_read_mbs = vs ! 5,
     de_pool_bytes = vs ! 6, de_serial_number = (if v = 2 then replicate 64 0 else drop 7 vs)\<rparr>"

definition phase_widths :: "nat list" where
  "phase_widths = [4, 4, 4, 4, 4, 4, 4, 4, 4, 4, 8, 8, 8, 8, 8, 8, 8]"

definition phase_values :: "MAPPING_PHASE \<Rightarrow> nat list" where
  "phase_values ph = ph_active_count ph # ph_active_disk_indices ph @ ph_ratios ph @
     [ph_total_ratio ph, ph_virtual_start_bytes ph, ph_virtual_size_bytes ph] @ ph_physical_starts_bytes ph @
     [ph_cycle_size_bytes ph]"

definition phase_of :: "nat list \<Rightarrow> MAPPING_PHASE" where
  "phase_of vs = \<lparr>ph_active_count = vs ! 0, ph_active_disk_indices = take 4 (drop 1 vs), ph_ratios = take 4 (drop 5 vs),
     ph_total_ratio = vs ! 9, ph_virtual_start_bytes = vs ! 10, ph_virtual_size_bytes = vs ! 11,
     ph_physical_starts_bytes = take 4 (drop 12 vs), ph_cycle_size_bytes = vs ! 16\<rparr>"

text \<open>The header: version 2 adds the generation, version 4 the identity of the volume.\<close>

definition header_widths :: "nat \<Rightarrow> nat list" where
  "header_widths v = [4, 4, 4, 4, 8, 4] @ (if 2 \<le> v then [8, 8, 4, 8] else []) @ (if 4 \<le> v then [8, 8, 8, 8] else [])"

definition header_values :: "nat \<Rightarrow> SUPERBLOCK \<Rightarrow> nat list" where
  "header_values v sb =
     [sb_magic sb, sb_version sb, sb_disk_count sb, sb_stripe_unit sb, sb_virtual_total_bytes sb, sb_phase_count sb] @
     (if 2 \<le> v then [sb_generation sb, sb_timestamp sb, sb_feature_flags sb, sb_journal_offset sb] else []) @
     (if 4 \<le> v then [uu_high (sb_volume_uuid sb), uu_low (sb_volume_uuid sb), sb_created_time sb, sb_last_mount_time sb]
      else [])"

definition sb_widths :: "nat \<Rightarrow> nat list" where
  "sb_widths v = header_widths v @ concat (replicate MAX_DISKS (entry_widths v)) @ concat (replicate MAX_DISKS phase_widths)"

definition sb_values :: "nat \<Rightarrow> SUPERBLOCK \<Rightarrow> nat list" where
  "sb_values v sb = header_values v sb @ concat (map (entry_values v) (sb_disks sb)) @ concat (map phase_values (sb_phases sb))"

definition sb_body_size :: "nat \<Rightarrow> nat" where
  "sb_body_size v = sum_list (sb_widths v)"

definition sb_body :: "nat \<Rightarrow> SUPERBLOCK \<Rightarrow> byte list" where
  "sb_body v sb = put_fields (sb_widths v) (sb_values v sb)"

text \<open>Cutting a list into pieces of one length.\<close>

fun pieces :: "nat \<Rightarrow> nat \<Rightarrow> 'a list \<Rightarrow> 'a list list" where
  "pieces 0 k xs = []"
| "pieces (Suc n) k xs = take k xs # pieces n k (drop k xs)"

text \<open>Fields a version does not have are zero.\<close>

definition sb_of_values :: "nat \<Rightarrow> nat list \<Rightarrow> SUPERBLOCK" where
  "sb_of_values v vs =
     (let h = length (header_widths v); m = length (entry_widths v);
          entries = drop h vs; phases = drop (4 * m) entries
      in \<lparr>sb_magic = vs ! 0, sb_version = vs ! 1, sb_disk_count = vs ! 2, sb_stripe_unit = vs ! 3,
          sb_virtual_total_bytes = vs ! 4, sb_phase_count = vs ! 5,
          sb_generation = (if 2 \<le> v then vs ! 6 else 0), sb_timestamp = (if 2 \<le> v then vs ! 7 else 0),
          sb_feature_flags = (if 2 \<le> v then vs ! 8 else 0), sb_journal_offset = (if 2 \<le> v then vs ! 9 else 0),
          sb_volume_uuid = (if 4 \<le> v then \<lparr>uu_high = vs ! 10, uu_low = vs ! 11\<rparr> else \<lparr>uu_high = 0, uu_low = 0\<rparr>),
          sb_created_time = (if 4 \<le> v then vs ! 12 else 0), sb_last_mount_time = (if 4 \<le> v then vs ! 13 else 0),
          sb_disks = map (entry_of v) (pieces MAX_DISKS m entries),
          sb_phases = map phase_of (pieces MAX_DISKS (length phase_widths) phases), sb_checksum = 0\<rparr>)"

definition sb_parse :: "nat \<Rightarrow> byte list \<Rightarrow> SUPERBLOCK" where
  "sb_parse v raw = sb_of_values v (get_fields (sb_widths v) raw)"

section \<open>Identifiers\<close>

definition uuid_is_zero :: "VOLUME_UUID \<Rightarrow> bool" where
  "uuid_is_zero u \<longleftrightarrow> uu_high u = 0 \<and> uu_low u = 0"

definition uuid_eq :: "VOLUME_UUID \<Rightarrow> VOLUME_UUID \<Rightarrow> bool" where
  "uuid_eq a b \<longleftrightarrow> uu_high a = uu_high b \<and> uu_low a = uu_low b"

text \<open>From the process number, the tick count and the performance counter.\<close>

definition uuid_generate :: "nat \<Rightarrow> nat \<Rightarrow> nat \<Rightarrow> VOLUME_UUID" where
  "uuid_generate pid ticks counter =
     (let hi = u64 (u32 pid * 2 ^ 32 + u32 ticks); lo = u64 counter
      in \<lparr>uu_high = (if hi = 0 then 1 else hi), uu_low = (if lo = 0 then 1 else lo)\<rparr>)"

lemma uuid_generate_nonzero: "\<not> uuid_is_zero (uuid_generate pid ticks counter)"
  by (simp add: uuid_is_zero_def uuid_generate_def Let_def)

section \<open>Writing\<close>

definition sb_name :: string where "sb_name = ''superblock.dat''"
definition sb_tmp_name :: string where "sb_tmp_name = ''superblock.dat.tmp''"

definition sb_path :: "char \<Rightarrow> string" where "sb_path letter = metadata_path letter sb_name"
definition sb_tmp_path :: "char \<Rightarrow> string" where "sb_tmp_path letter = metadata_path letter sb_tmp_name"

text \<open>A C string in an array of \<open>n\<close> units, cut and padded.\<close>

definition c_array :: "nat \<Rightarrow> string \<Rightarrow> nat list" where
  "c_array n str = map of_char (take (n - 1) str) @ replicate (n - length (take (n - 1) str)) 0"

definition c_string :: "nat list \<Rightarrow> string" where
  "c_string us = map char_of (takeWhile (\<lambda>u. u \<noteq> 0) us)"

definition entry_of_disk :: "DISK_INFO \<Rightarrow> SB_DISK_ENTRY" where
  "entry_of_disk disk =
     \<lparr>de_drive_letter = c_array 4 [drive_char disk, CHR '':'', CHR 0x5C], de_bench_write_mbs = d_bench_write_mbs disk,
      de_bench_read_mbs = d_bench_read_mbs disk, de_pool_bytes = d_pool_bytes disk,
      de_serial_number = c_array 64 (d_serial_number disk)\<rparr>"

definition sb_of_volume :: "nat \<Rightarrow> STRIPE_VOLUME \<Rightarrow> sys \<Rightarrow> SUPERBLOCK" where
  "sb_of_volume now vol s =
     \<lparr>sb_magic = SUPERBLOCK_MAGIC, sb_version = SUPERBLOCK_VERSION, sb_disk_count = v_disk_count vol,
      sb_stripe_unit = v_stripe_unit vol, sb_virtual_total_bytes = v_virtual_total_bytes vol,
      sb_phase_count = v_phase_count vol, sb_generation = v_generation vol, sb_timestamp = now,
      sb_feature_flags = (if v_cache_enabled vol then SB_FEATURE_CACHE else 0) +
        (if v_raid_level vol = RAID_LEVEL_MIRROR then SB_FEATURE_MIRROR else 0),
      sb_journal_offset = 0, sb_volume_uuid = v_volume_uuid vol,
      sb_created_time = (if v_created_time vol = 0 then now else v_created_time vol), sb_last_mount_time = now,
      sb_disks = map (\<lambda>i. if i < v_disk_count vol then entry_of_disk (s_heap s (vdisk vol i)) else zero_entry) [0 ..< MAX_DISKS],
      sb_phases = map (\<lambda>p. if p < v_phase_count vol then v_phases vol ! p else zero_phase) [0 ..< MAX_DISKS],
      sb_checksum = 0\<rparr>"

text \<open>One disk: a fresh temporary file, written and flushed, then renamed over the old superblock.\<close>

definition sb_write_disk :: "os \<Rightarrow> byte list \<Rightarrow> ptr \<Rightarrow> sys \<Rightarrow> bool \<times> sys" where
  "sb_write_disk os bytes d s =
     (let tmp = sb_tmp_path (drive_char (s_heap s d)); final = sb_path (drive_char (s_heap s d));
          s1 = delete_file os tmp (tick s)
      in case create_always os tmp s1 of
           (False, s2) \<Rightarrow> (False, s2)
         | (True, s2) \<Rightarrow>
             (case append_file os tmp bytes s2 of (written, s3) \<Rightarrow>
              case (if written then flush_buffers os s3 else (False, s3)) of (ok, s4) \<Rightarrow>
                if \<not> ok then (False, delete_file os tmp s4)
                else (case rename_file os tmp final s4 of
                        (True, s5) \<Rightarrow> (True, s5)
                      | (False, s5) \<Rightarrow> (False, delete_file os tmp s5))))"

fun sb_write_disks :: "os \<Rightarrow> byte list \<Rightarrow> ptr list \<Rightarrow> sys \<Rightarrow> bool \<times> sys" where
  "sb_write_disks os bytes [] s = (False, s)"
| "sb_write_disks os bytes (d # ds) s =
     (case sb_write_disk os bytes d s of (ok, s1) \<Rightarrow>
      case sb_write_disks os bytes ds s1 of (any, s2) \<Rightarrow> (ok \<or> any, s2))"

definition superblock_write :: "os \<Rightarrow> nat \<Rightarrow> STRIPE_VOLUME \<Rightarrow> sys \<Rightarrow> fault + bool \<times> STRIPE_VOLUME \<times> sys" where
  "superblock_write os now vol s =
     (if v_disk_count vol = 0 \<or> MAX_DISKS < v_disk_count vol then Inr (False, vol, s)
      else
        let vol1 = vol\<lparr>v_generation := u64 (v_generation vol + 1)\<rparr>
        in if \<not> CHECK_DISKS vol then Inl NullDeref
           else case sb_write_disks os (seal (sb_body 4 (sb_of_volume now vol1 s))) (disk_ptrs vol) s of
                  (any, s1) \<Rightarrow> Inr (any, vol1, s1))"

section \<open>Reading\<close>

text \<open>A temporary file left behind replaces the superblock if it is complete and newer.\<close>

definition stored_generation :: "byte list \<Rightarrow> nat" where
  "stored_generation raw =
     (if sb_body_size 4 + 4 \<le> length raw \<and> sb_magic (sb_parse 4 raw) = SUPERBLOCK_MAGIC \<and> seal_ok (sb_body_size 4) raw
      then sb_generation (sb_parse 4 raw) else 0)"

definition try_recover_orphan_tmp :: "os \<Rightarrow> char \<Rightarrow> 'a world_scheme \<Rightarrow> 'a world_scheme" where
  "try_recover_orphan_tmp os letter s =
     (let tmp = sb_tmp_path letter; final = sb_path letter in
      case open_existing os tmp s of
        (False, s1) \<Rightarrow> s1
      | (True, s1) \<Rightarrow>
          (case read_file os tmp (sb_body_size 4 + 4) s1 of (ok, raw, s2) \<Rightarrow>
             if \<not> ok \<or> length raw < sb_body_size 4 + 4 then delete_file os tmp s2
             else if sb_magic (sb_parse 4 raw) \<noteq> SUPERBLOCK_MAGIC \<or> sb_version (sb_parse 4 raw) < 4 then delete_file os tmp s2
             else if \<not> seal_ok (sb_body_size 4) raw then delete_file os tmp s2
             else
               let (dat_gen, s4) =
                     (case open_existing os final s2 of
                        (False, s3) \<Rightarrow> (0, s3)
                      | (True, s3) \<Rightarrow>
                          (case read_file os final (sb_body_size 4 + 4) s3 of (ok, dat, s4) \<Rightarrow>
                             (if ok then stored_generation dat else 0, s4)))
               in if dat_gen < sb_generation (sb_parse 4 raw) then snd (rename_file os tmp final s4)
                  else delete_file os tmp s4))"

text \<open>The superblock in the bytes of a file. Versions 1 and 2 are relabelled 2 and 3, version 3 becomes 4.\<close>

definition sb_upgrade :: "nat \<Rightarrow> SUPERBLOCK \<Rightarrow> SUPERBLOCK" where
  "sb_upgrade v sb = sb\<lparr>sb_version := (if v < 4 then v + 1 else v)\<rparr>"

definition sb_decode :: "byte list \<Rightarrow> SUPERBLOCK option" where
  "sb_decode raw =
     (if length raw < 8 then None
      else if unle (take 4 raw) \<noteq> SUPERBLOCK_MAGIC then None
      else
        let v = unle (take 4 (drop 4 raw)); n = sb_body_size v
        in if v \<notin> {1, 2, 3, 4} then None
           else if length raw < n + 4 then None
           else if \<not> seal_ok n raw then None
           else Some (sb_upgrade v (sb_parse v raw)\<lparr>sb_checksum := unle (take 4 (drop n raw))\<rparr>))"

definition superblock_read_raw :: "os \<Rightarrow> char \<Rightarrow> 'a world_scheme \<Rightarrow> SUPERBLOCK option \<times> 'a world_scheme" where
  "superblock_read_raw os letter s =
     (let p = sb_path letter in
      case open_existing os p (try_recover_orphan_tmp os letter s) of
        (False, s1) \<Rightarrow> (None, s1)
      | (True, s1) \<Rightarrow>
          (case read_file os p SB_READ_LIMIT s1 of (ok, raw, s2) \<Rightarrow> (if ok then sb_decode raw else None, s2)))"

text \<open>The best of several: the latest generation, then the latest timestamp, then the largest volume.\<close>

definition sb_better :: "SUPERBLOCK \<Rightarrow> SUPERBLOCK \<Rightarrow> bool" where
  "sb_better a b \<longleftrightarrow> sb_generation b < sb_generation a \<or>
     sb_generation a = sb_generation b \<and> sb_timestamp b < sb_timestamp a \<or>
     sb_generation a = sb_generation b \<and> sb_timestamp a = sb_timestamp b \<and>
       sb_virtual_total_bytes b < sb_virtual_total_bytes a"

definition sb_best :: "SUPERBLOCK list \<Rightarrow> SUPERBLOCK" where
  "sb_best cs = foldl (\<lambda>best c. if sb_better c best then c else best) (hd cs) (tl cs)"

text \<open>
  The drives tried: the named one, if its letter is a capital, then every fixed drive from C to Z
  but that one, until four superblocks are found. \<open>fixed\<close> is what \<^verbatim>\<open>GetDriveTypeW\<close> answers.
\<close>

fun sb_collect :: "os \<Rightarrow> char list \<Rightarrow> SUPERBLOCK list \<Rightarrow> sys \<Rightarrow> SUPERBLOCK list \<times> sys" where
  "sb_collect os [] cs s = (cs, s)"
| "sb_collect os (l # ls) cs s =
     (if MAX_DISKS \<le> length cs then (cs, s)
      else case superblock_read_raw os l s of
             (None, s1) \<Rightarrow> sb_collect os ls cs s1
           | (Some sb, s1) \<Rightarrow> sb_collect os ls (cs @ [sb]) s1)"

definition fixed_letters :: "(char \<Rightarrow> bool) \<Rightarrow> char option \<Rightarrow> char list" where
  "fixed_letters fixed named =
     filter (\<lambda>l. fixed l \<and> named \<noteq> Some l) (map char_of [67 ..< 91])"

definition named_letters :: "char option \<Rightarrow> char list" where
  "named_letters named = (case named of
     Some l \<Rightarrow> if 65 \<le> (of_char l :: nat) \<and> (of_char l :: nat) \<le> 90 then [l] else []
   | None \<Rightarrow> [])"

section \<open>Restoring a volume\<close>

definition match_disk_by_serial :: "string \<Rightarrow> ptr option list \<Rightarrow> sys \<Rightarrow> ptr option" where
  "match_disk_by_serial serial phys s =
     (if serial = [] then None
      else find (\<lambda>p. d_serial_number (s_heap s p) = serial) (map the (filter (\<lambda>p. p \<noteq> None) phys)))"

text \<open>The disk record made from an entry, before its pool file is opened.\<close>

definition pool_path :: "string \<Rightarrow> string" where
  "pool_path letter = letter @ ''RAIDTEST'' @ [CHR 0x5C] @ ''stripe_pool.dat''"

definition restored_disk :: "SB_DISK_ENTRY \<Rightarrow> ptr option \<Rightarrow> sys \<Rightarrow> DISK_INFO" where
  "restored_disk e match s =
     (let (letter, serial) = (case match of
            Some p \<Rightarrow> (d_drive_letter (s_heap s p), take 63 (d_serial_number (s_heap s p)))
          | None \<Rightarrow> (c_string (de_drive_letter e), take 63 (c_string (de_serial_number e))))
      in zero_disk\<lparr>d_drive_letter := letter, d_pool_bytes := de_pool_bytes e,
           d_bench_write_mbs := de_bench_write_mbs e, d_bench_read_mbs := de_bench_read_mbs e,
           d_benchmarked := True, d_serial_number := serial, d_file_path := pool_path letter\<rparr>)"

text \<open>
  The disks one after the other, with those restored so far. A drive letter without a terminator
  is read past its array. A pool that cannot be opened ends the loop; the pools opened before it
  are closed.
\<close>

fun restore_disks :: "os \<Rightarrow> bool \<Rightarrow> ptr option list \<Rightarrow> SB_DISK_ENTRY list \<Rightarrow> ptr list \<Rightarrow> ptr list \<Rightarrow> sys
    \<Rightarrow> fault + bool \<times> ptr list \<times> sys" where
  "restore_disks os mirror phys (e # es) (out # outs) opened s =
     (let s0 = update_disk out (\<lambda>_. zero_disk) s;
          match = match_disk_by_serial (c_string (de_serial_number e)) phys s0
      in if match = None \<and> 0 \<notin> set (de_drive_letter e) then Inl OutOfBounds
         else case pool_file_open os out (update_disk out (\<lambda>_. restored_disk e match s0) s0) of
                (False, s1) \<Rightarrow> Inr (False, opened, foldl (\<lambda>s d. pool_file_close d s) s1 opened)
              | (True, s1) \<Rightarrow>
                  restore_disks os mirror phys es outs (opened @ [out])
                    (if mirror then update_disk out (\<lambda>disk. disk\<lparr>d_healthy := 1\<rparr>) s1 else s1))"
| "restore_disks os mirror phys es outs opened s = Inr (True, opened, s)"

text \<open>
  \<open>outs\<close> are the disk records the caller provides. The volume points to the disks restored, also
  when one of them fails and the rest are closed again.
\<close>

definition restored_volume :: "SUPERBLOCK \<Rightarrow> ptr list \<Rightarrow> STRIPE_VOLUME" where
  "restored_volume sb opened =
     (let base = zero_volume\<lparr>v_disk_count := sb_disk_count sb, v_stripe_unit := sb_stripe_unit sb,
            v_virtual_total_bytes := sb_virtual_total_bytes sb, v_generation := sb_generation sb,
            v_volume_uuid := sb_volume_uuid sb, v_created_time := sb_created_time sb,
            v_last_mount_time := sb_last_mount_time sb,
            v_disks := map Some opened @ replicate (MAX_DISKS - length opened) None\<rparr>
      in if sb_feature_flags sb AND SB_FEATURE_MIRROR \<noteq> 0
         then base\<lparr>v_raid_level := RAID_LEVEL_MIRROR, v_healthy_count := int (length opened)\<rparr>
         else base\<lparr>v_phase_count := sb_phase_count sb,
                v_phases := map (\<lambda>i. if i < sb_phase_count sb then sb_phases sb ! i else zero_phase) [0 ..< MAX_DISKS]\<rparr>)"

definition superblock_restore :: "os \<Rightarrow> nat \<Rightarrow> SUPERBLOCK \<Rightarrow> ptr option list \<Rightarrow> STRIPE_VOLUME \<Rightarrow> ptr list \<Rightarrow> sys
    \<Rightarrow> fault + bool \<times> STRIPE_VOLUME \<times> sys" where
  "superblock_restore os counter sb phys vol outs s =
     (if sb_disk_count sb < MIN_DISKS \<or> MAX_DISKS < sb_disk_count sb then Inr (False, vol, s)
      else case restore_disks os (sb_feature_flags sb AND SB_FEATURE_MIRROR \<noteq> 0) phys
             (take (sb_disk_count sb) (sb_disks sb)) outs [] s of
        Inl f \<Rightarrow> Inl f
      | Inr (False, opened, s1) \<Rightarrow> Inr (False, restored_volume sb opened, s1)
      | Inr (True, opened, s1) \<Rightarrow> Inr (True, (restored_volume sb opened)\<lparr>v_start_time := counter\<rparr>, s1))"

definition superblock_read :: "os \<Rightarrow> nat \<Rightarrow> (char \<Rightarrow> bool) \<Rightarrow> char option \<Rightarrow> STRIPE_VOLUME \<Rightarrow> ptr list
    \<Rightarrow> ptr option list \<Rightarrow> sys \<Rightarrow> fault + bool \<times> STRIPE_VOLUME \<times> sys" where
  "superblock_read os counter fixed named vol outs phys s =
     (case sb_collect os (named_letters named @ fixed_letters fixed named) [] s of (cs, s1) \<Rightarrow>
        if cs = [] then Inr (False, vol, s1)
        else superblock_restore os counter (sb_best cs) phys vol outs s1)"

section \<open>Printing\<close>

definition hex_digit :: "nat \<Rightarrow> char" where
  "hex_digit d = ''0123456789ABCDEF'' ! d"

definition hex_fixed :: "nat \<Rightarrow> nat \<Rightarrow> string" where
  "hex_fixed k n = map (\<lambda>i. hex_digit (n div 16 ^ (k - 1 - i) mod 16)) [0 ..< k]"

definition uuid_to_str :: "VOLUME_UUID \<Rightarrow> string" where
  "uuid_to_str u = hex_fixed 16 (uu_high u) @ ''-'' @ hex_fixed 16 (uu_low u)"

definition filetime_to_unix_sec :: "nat \<Rightarrow> nat" where
  "filetime_to_unix_sec ft = sub64 ft 116444736000000000 div 10000000"

definition unix_or_zero :: "nat \<Rightarrow> nat" where
  "unix_or_zero ft = (if ft = 0 then 0 else filetime_to_unix_sec ft)"

text \<open>The lines, without their ends; the text is cut to the caller's buffer.\<close>

definition format_disk :: "nat \<Rightarrow> SB_DISK_ENTRY \<Rightarrow> string" where
  "format_disk i e = ''  Disk '' @ dec_str i @ '': '' @ c_string (de_drive_letter e) @
     '' (W='' @ dec_str (de_bench_write_mbs e) @ '' R='' @ dec_str (de_bench_read_mbs e) @
     '' pool='' @ dec_str (de_pool_bytes e) @ '' serial='' @ c_string (de_serial_number e) @ '')''"

definition format_lines :: "SUPERBLOCK \<Rightarrow> string list" where
  "format_lines sb =
     [''Superblock v'' @ dec_str (sb_version sb),
      ''  UUID:          '' @ (if 4 \<le> sb_version sb then uuid_to_str (sb_volume_uuid sb)
                                 else ''0000000000000000-0000000000000000''),
      ''  Magic:         0x'' @ hex_fixed 8 (sb_magic sb),
      ''  Version:       '' @ dec_str (sb_version sb),
      ''  Disk Count:    '' @ dec_str (sb_disk_count sb),
      ''  Stripe Unit:   '' @ dec_str (sb_stripe_unit sb) @ '' bytes'',
      ''  Virtual Size:  '' @ dec_str (sb_virtual_total_bytes sb) @ '' bytes ('' @
         dec_str (sb_virtual_total_bytes sb div (1024 * 1024)) @ '' MB)'',
      ''  Phases:        '' @ dec_str (sb_phase_count sb),
      ''  Generation:    '' @ dec_str (sb_generation sb),
      ''  Timestamp:     '' @ dec_str (unix_or_zero (sb_timestamp sb)),
      ''  Created:       '' @ dec_str (unix_or_zero (sb_created_time sb)),
      ''  Last Mount:    '' @ dec_str (unix_or_zero (sb_last_mount_time sb)),
      ''  Features:      0x'' @ hex_fixed 8 (sb_feature_flags sb),
      ''  Journal Off:   '' @ dec_str (sb_journal_offset sb),
      ''  Checksum:      0x'' @ hex_fixed 8 (sb_checksum sb)] @
     map (\<lambda>i. format_disk i (sb_disks sb ! i)) [0 ..< min (sb_disk_count sb) MAX_DISKS]"

definition superblock_format_str :: "SUPERBLOCK \<Rightarrow> nat \<Rightarrow> string" where
  "superblock_format_str sb out_size =
     take (out_size - 1) (concat (map (\<lambda>line. line @ [CHR 0x0A]) (format_lines sb)))"

section \<open>The structure is sealed\<close>

lemma pieces_concat: "\<forall>x \<in> set xss. length x = k \<Longrightarrow> n = length xss \<Longrightarrow> pieces n k (concat xss @ rest) = xss"
  by (induction xss arbitrary: n) auto

definition entry_ok :: "nat \<Rightarrow> SB_DISK_ENTRY \<Rightarrow> bool" where
  "entry_ok v e \<longleftrightarrow> length (de_drive_letter e) = 4 \<and> length (de_serial_number e) = 64 \<and>
     (v = 2 \<longrightarrow> de_serial_number e = replicate 64 0) \<and> fit_fields (entry_widths v) (entry_values v e)"

definition phase_ok :: "MAPPING_PHASE \<Rightarrow> bool" where
  "phase_ok ph \<longleftrightarrow> length (ph_active_disk_indices ph) = 4 \<and> length (ph_ratios ph) = 4 \<and>
     length (ph_physical_starts_bytes ph) = 4 \<and> fit_fields phase_widths (phase_values ph)"

definition sb_fits :: "nat \<Rightarrow> SUPERBLOCK \<Rightarrow> bool" where
  "sb_fits v sb \<longleftrightarrow> length (sb_disks sb) = 4 \<and> length (sb_phases sb) = 4 \<and>
     (\<forall>e \<in> set (sb_disks sb). entry_ok v e) \<and> (\<forall>ph \<in> set (sb_phases sb). phase_ok ph) \<and>
     fit_fields (header_widths v) (header_values v sb) \<and> sb_checksum sb = 0 \<and>
     (v < 2 \<longrightarrow> sb_generation sb = 0 \<and> sb_timestamp sb = 0 \<and> sb_feature_flags sb = 0 \<and> sb_journal_offset sb = 0) \<and>
     (v < 4 \<longrightarrow> sb_volume_uuid sb = \<lparr>uu_high = 0, uu_low = 0\<rparr> \<and> sb_created_time sb = 0 \<and> sb_last_mount_time sb = 0)"

lemma entry_of_values: "entry_ok v e \<Longrightarrow> entry_of v (entry_values v e) = e"
  by (auto simp: entry_ok_def entry_of_def entry_values_def nth_append)

lemma phase_of_values: "phase_ok ph \<Longrightarrow> phase_of (phase_values ph) = ph"
  by (auto simp: phase_ok_def phase_of_def phase_values_def nth_append)

lemma fit_append: "fit_fields xs ys \<Longrightarrow> fit_fields xs' ys' \<Longrightarrow> fit_fields (xs @ xs') (ys @ ys')"
  by (simp add: fit_fields_def list_all2_appendI)

lemma fit_replicate: "\<forall>y \<in> set yss. fit_fields xs (f y) \<Longrightarrow> n = length yss \<Longrightarrow> fit_fields (concat (replicate n xs)) (concat (map f yss))"
  by (induction yss arbitrary: n) (auto simp: fit_append, simp add: fit_fields_def)

lemma sb_values_fit: "sb_fits v sb \<Longrightarrow> fit_fields (sb_widths v) (sb_values v sb)"
  unfolding sb_widths_def sb_values_def
  by (intro fit_append fit_replicate) (auto simp: sb_fits_def entry_ok_def phase_ok_def const)

lemma sb_of_values: "sb_fits v sb \<Longrightarrow> sb_of_values v (sb_values v sb) = sb"
proof -
  assume f: "sb_fits v sb"
  let ?es = "map (entry_values v) (sb_disks sb)" and ?ps = "map phase_values (sb_phases sb)"
  have h: "length (header_widths v) = length (header_values v sb)"
    using f fit_fields_length by (auto simp: sb_fits_def)
  have e: "\<forall>x \<in> set ?es. length x = length (entry_widths v)"
    using f fit_fields_length by (fastforce simp: sb_fits_def entry_ok_def)
  have p: "\<forall>x \<in> set ?ps. length x = length phase_widths"
    using f fit_fields_length by (fastforce simp: sb_fits_def phase_ok_def)
  have len: "length ?es = 4" "length ?ps = 4" using f by (simp_all add: sb_fits_def)
  have ce: "length (concat ?es) = 4 * length (entry_widths v)"
  proof -
    have "length (concat xss) = length xss * k" if "\<forall>x \<in> set xss. length x = k" for xss :: "nat list list" and k
      using that by (induction xss) auto
    from this [OF e] show ?thesis unfolding len(1) .
  qed
  have d: "drop (length (header_widths v)) (sb_values v sb) = concat ?es @ concat ?ps"
    by (simp add: sb_values_def h)
  have pe: "pieces MAX_DISKS (length (entry_widths v)) (concat ?es @ concat ?ps) = ?es"
    using pieces_concat [OF e, of MAX_DISKS] len(1) by (simp add: const)
  have pp: "pieces MAX_DISKS (length phase_widths) (concat ?ps) = ?ps"
    using pieces_concat [OF p, of MAX_DISKS "[]"] len(2) by (simp add: const)
  have "map (entry_of v) ?es = sb_disks sb" "map phase_of ?ps = sb_phases sb"
    using f entry_of_values phase_of_values by (auto simp: sb_fits_def intro!: map_idI)
  then show ?thesis using f pe pp ce
    unfolding sb_of_values_def Let_def d by (auto simp: sb_values_def header_values_def sb_fits_def)
qed

interpretation sb: sealed_record "sb_body v" "sb_parse v" "sb_fits v" "sb_body_size v" for v
proof
  fix r assume f: "sb_fits v r"
  show "length (sb_body v r) = sb_body_size v"
    unfolding sb_body_def sb_body_size_def by (rule length_put_fields) (rule fit_fields_length [OF sb_values_fit [OF f]])
  show "sb_parse v (sb_body v r) = r"
    using get_put_fields [OF sb_values_fit [OF f], of "[]"] sb_of_values [OF f] by (simp add: sb_parse_def sb_body_def)
qed

section \<open>Writing and reading back\<close>

lemma sb_sizes: "sb_body_size 1 = 764" "sb_body_size 2 = 536" "sb_body_size 3 = 792" "sb_body_size 4 = 824"
  by (simp_all add: sb_body_size_def sb_widths_def header_widths_def entry_widths_def phase_widths_def const numeral_eq_Suc)

text \<open>The volume's values fit the fields that hold them.\<close>

definition storable :: "STRIPE_VOLUME \<Rightarrow> sys \<Rightarrow> bool" where
  "storable vol s \<longleftrightarrow> 0 < v_disk_count vol \<and> v_disk_count vol \<le> MAX_DISKS \<and> CHECK_DISKS vol \<and>
     v_stripe_unit vol < 2 ^ 32 \<and> v_virtual_total_bytes vol < 2 ^ 64 \<and> v_phase_count vol \<le> MAX_DISKS \<and>
     length (v_phases vol) = MAX_DISKS \<and> (\<forall>p < v_phase_count vol. phase_ok (v_phases vol ! p)) \<and> v_generation vol + 1 < 2 ^ 64 \<and>
     uu_high (v_volume_uuid vol) < 2 ^ 64 \<and> uu_low (v_volume_uuid vol) < 2 ^ 64 \<and> v_created_time vol < 2 ^ 64 \<and>
     (\<forall>d \<in> set (disk_ptrs vol). d_bench_write_mbs (s_heap s d) < 2 ^ 32 \<and> d_bench_read_mbs (s_heap s d) < 2 ^ 32 \<and>
        d_pool_bytes (s_heap s d) < 2 ^ 64)"

lemma length_c_array [simp]: "0 < n \<Longrightarrow> length (c_array n str) = n"
  by (simp add: c_array_def)

lemma c_array_bytes: "\<forall>u \<in> set (c_array n str). u < 256"
  by (auto simp: c_array_def)

lemma fit_bytes: "\<forall>v \<in> set vs. v < 256 \<Longrightarrow> w \<noteq> 0 \<Longrightarrow> fit_fields (replicate (length vs) w) vs"
proof (induction vs)
  case (Cons v vs)
  have "v < 256 ^ w" using Cons.prems self_le_power [of "256 :: nat" w] by (auto intro: less_le_trans)
  then show ?case using Cons by (simp add: fit_fields_def)
qed (simp add: fit_fields_def)

lemma entry_of_disk_ok:
  assumes "d_bench_write_mbs disk < 2 ^ 32" "d_bench_read_mbs disk < 2 ^ 32" "d_pool_bytes disk < 2 ^ 64"
  shows "entry_ok 4 (entry_of_disk disk)"
proof -
  have "fit_fields [2, 2, 2, 2] (c_array 4 [drive_char disk, CHR '':'', CHR 0x5C])"
    using fit_bytes [of "c_array 4 [drive_char disk, CHR '':'', CHR 0x5C]" 2] c_array_bytes by (simp add: numeral_eq_Suc)
  moreover have "fit_fields (replicate 64 1) (c_array 64 (d_serial_number disk))"
    using fit_bytes [of "c_array 64 (d_serial_number disk)" 1] c_array_bytes by simp
  moreover have "fit_fields [4, 4, 8] [d_bench_write_mbs disk, d_bench_read_mbs disk, d_pool_bytes disk]"
    using assms by (simp add: fit_fields_def)
  ultimately have "fit_fields ([2, 2, 2, 2] @ [4, 4, 8] @ replicate 64 1) (entry_values 4 (entry_of_disk disk))"
    unfolding entry_values_def entry_of_disk_def by (simp only: SB_DISK_ENTRY.simps) (intro fit_append; simp)
  then show ?thesis by (simp add: entry_ok_def entry_widths_def entry_of_disk_def)
qed

lemma zero_entry_ok: "entry_ok 4 zero_entry"
proof -
  have "fit_fields (replicate 64 1) (replicate 64 0)" using fit_bytes [of "replicate 64 0" 1] by simp
  moreover have "fit_fields [2, 2, 2, 2, 4, 4, 8] [0, 0, 0, 0, 0, 0, 0]" by (simp add: fit_fields_def)
  ultimately have "fit_fields ([2, 2, 2, 2, 4, 4, 8] @ replicate 64 1) ([0, 0, 0, 0, 0, 0, 0] @ replicate 64 0)"
    by (rule fit_append [rotated])
  then show ?thesis by (simp add: entry_ok_def entry_widths_def entry_values_def zero_entry_def numeral_eq_Suc)
qed

lemma zero_phase_ok: "phase_ok zero_phase"
proof -
  have "replicate MAX_DISKS (0 :: nat) = [0, 0, 0, 0]" by (simp add: const numeral_eq_Suc)
  then show ?thesis by (simp add: phase_ok_def zero_phase_def phase_values_def phase_widths_def fit_fields_def)
qed

lemma disk_ptrs_mem: "i < v_disk_count vol \<Longrightarrow> vdisk vol i \<in> set (disk_ptrs vol)"
  by (simp add: disk_ptrs_def)

lemma sb_of_volume_fits:
  assumes "storable vol s" "now < 2 ^ 64"
  shows "sb_fits 4 (sb_of_volume now (vol\<lparr>v_generation := u64 (v_generation vol + 1)\<rparr>) s)"
proof -
  let ?sb = "sb_of_volume now (vol\<lparr>v_generation := u64 (v_generation vol + 1)\<rparr>) s"
  note S = assms(1) [unfolded storable_def]
  have g: "u64 (v_generation vol + 1) < 256 ^ 8" using u64_less [of "v_generation vol + 1"] by simp
  have h: "fit_fields (header_widths 4) (header_values 4 ?sb)"
    using S assms(2) g by (simp add: fit_fields_def header_widths_def header_values_def sb_of_volume_def const)
  have "\<forall>i < v_disk_count vol. entry_ok 4 (entry_of_disk (s_heap s (vdisk vol i)))"
    using S disk_ptrs_mem entry_of_disk_ok by blast
  then have "\<forall>e \<in> set (sb_disks ?sb). entry_ok 4 e" using zero_entry_ok by (auto simp: sb_of_volume_def vdisk_def)
  moreover have "\<forall>ph \<in> set (sb_phases ?sb). phase_ok ph" using S zero_phase_ok by (auto simp: sb_of_volume_def)
  ultimately show ?thesis using h by (simp add: sb_fits_def sb_of_volume_def const)
qed

text \<open>The first two fields, and what follows a body.\<close>

lemma sb_parse_head: "sb_magic (sb_parse v raw) = unle (take 4 raw)" "sb_version (sb_parse v raw) = unle (take 4 (drop 4 raw))"
  by (simp_all add: sb_parse_def sb_of_values_def sb_widths_def header_widths_def Let_def)

lemma sb_parse_body: "sb_fits v sb \<Longrightarrow> sb_parse v (sb_body v sb @ rest) = sb"
  using get_put_fields [OF sb_values_fit, of v sb rest] sb_of_values [of v sb] by (simp add: sb_parse_def sb_body_def)

lemma sb_decode_sealed:
  assumes fits: "sb_fits v sb" and v: "v \<in> {1, 2, 3, 4}" "sb_version sb = v" "sb_magic sb = SUPERBLOCK_MAGIC"
  shows "sb_decode (seal (sb_body v sb) @ rest) = Some (sb_upgrade v sb\<lparr>sb_checksum := unat (crc32 (sb_body v sb))\<rparr>)"
proof -
  let ?raw = "seal (sb_body v sb) @ rest"
  have p: "sb_parse v ?raw = sb" using sb_parse_body [OF fits] by (simp add: seal_def)
  have len: "length (sb_body v sb) = sb_body_size v" by (rule sb.body_length [OF fits])
  have n: "sb_body_size v + 4 \<le> length ?raw" using len by (simp add: seal_def)
  have big: "8 \<le> sb_body_size v" using v(1) sb_sizes by auto
  have cs: "unle (take 4 (drop (sb_body_size v) ?raw)) = unat (crc32 (sb_body v sb))"
    using len by (simp add: seal_def unle_le [OF crc_fits])
  have ok: "seal_ok (sb_body_size v) ?raw" by (rule sb.accepted [OF fits])
  have m: "unle (take 4 ?raw) = SUPERBLOCK_MAGIC" using sb_parse_head(1) [of v ?raw] p v(3) by simp
  have ver: "unle (take 4 (drop 4 ?raw)) = v" using sb_parse_head(2) [of v ?raw] p v(2) by simp
  show ?thesis unfolding sb_decode_def Let_def ver m cs p using v(1) n big ok by auto
qed

section \<open>Whatever the calls answer\<close>

lemma sb_paths [simp]: "sb_path a = sb_path b \<longleftrightarrow> a = b" "sb_tmp_path a = sb_tmp_path b \<longleftrightarrow> a = b" "sb_tmp_path a \<noteq> sb_path b"
  "sb_path b \<noteq> sb_tmp_path a"
  by (auto simp: sb_path_def sb_tmp_path_def metadata_path_def sb_name_def sb_tmp_name_def)

text \<open>
  The file calls change only the files they name. A created file is empty, an appended one has a
  prefix of the bytes more.
\<close>

lemma delete_file_facts:
  "w_files (delete_file os p s) q = (if q = p \<and> sys_ok os s then None else w_files s q)"
  "s_heap (delete_file os p s) = s_heap s" "w_media (delete_file os p s) = w_media s"
  by (simp_all add: delete_file_def tick_def)

lemma create_always_facts:
  assumes "create_always os p s = (r, s')"
  shows "w_files s' q = (if r \<and> q = p then Some [] else w_files s q)" "s_heap s' = s_heap s" "w_media s' = w_media s"
  using assms by (auto simp: create_always_def tick_def split: if_splits)

lemma append_file_facts:
  assumes "append_file os p bs s = (r, s')" "w_files s p = Some old"
  shows "\<exists>k \<le> length bs. (r \<longrightarrow> k = length bs) \<and> w_files s' = (w_files s)(p \<mapsto> old @ take k bs)"
    "s_heap s' = s_heap s" "w_media s' = w_media s"
proof -
  have k: "moved os s (length bs) \<le> length bs" by (simp add: moved_def)
  show "\<exists>k \<le> length bs. (r \<longrightarrow> k = length bs) \<and> w_files s' = (w_files s)(p \<mapsto> old @ take k bs)"
    by (rule exI [of _ "moved os s (length bs)"]) (use assms k in \<open>auto simp: append_file_def Let_def tick_def\<close>)
  show "s_heap s' = s_heap s" "w_media s' = w_media s" using assms by (auto simp: append_file_def Let_def tick_def)
qed

lemma rename_file_facts:
  assumes "rename_file os p q s = (r, s')" "w_files s p = Some bs"
  shows "w_files s' = (if r then (w_files s)(q \<mapsto> bs, p := None) else w_files s)" "s_heap s' = s_heap s" "w_media s' = w_media s"
  using assms by (auto simp: rename_file_def tick_def split: if_splits)

text \<open>What may be at the temporary path of a drive while its superblock is being replaced.\<close>

definition tmp_state :: "byte list \<Rightarrow> byte list option \<Rightarrow> bool" where
  "tmp_state bytes f \<longleftrightarrow> f = None \<or> (\<exists>k \<le> length bytes. f = Some (take k bytes))"

lemma tmp_state_simps [simp]: "tmp_state bytes None" "tmp_state bytes (Some (take k bytes))" "tmp_state bytes (Some bytes)"
proof -
  show "tmp_state bytes (Some (take k bytes))" unfolding tmp_state_def
    by (rule disjI2, rule exI [of _ "min k (length bytes)"]) (simp add: min_def)
  show "tmp_state bytes (Some bytes)" unfolding tmp_state_def by (rule disjI2, rule exI [of _ "length bytes"]) simp
qed (simp add: tmp_state_def)

lemma tmp_state_delete: "tmp_state bytes (w_files (s :: sys) p) \<Longrightarrow> tmp_state bytes (w_files (delete_file os p s) p)"
  by (simp add: delete_file_facts)

lemma sb_write_disk_any:
  assumes run: "sb_write_disk os bytes d s = (r, s')" and tmp: "tmp_state bytes (w_files s (sb_tmp_path (drive_char (s_heap s d))))"
  shows "s_heap s' = s_heap s" "w_media s' = w_media s"
    "w_files s' (sb_path (drive_char (s_heap s d))) = (if r then Some bytes else w_files s (sb_path (drive_char (s_heap s d))))"
    "p \<noteq> sb_path (drive_char (s_heap s d)) \<Longrightarrow> p \<noteq> sb_tmp_path (drive_char (s_heap s d)) \<Longrightarrow> w_files s' p = w_files s p"
    "tmp_state bytes (w_files s' (sb_tmp_path (drive_char (s_heap s d))))"
proof -
  let ?t = "sb_tmp_path (drive_char (s_heap s d))" and ?f = "sb_path (drive_char (s_heap s d))"
  let ?s1 = "delete_file os ?t (tick s)"
  have s1: "s_heap ?s1 = s_heap s" "w_media ?s1 = w_media s" "\<forall>p. p \<noteq> ?t \<longrightarrow> w_files ?s1 p = w_files s p"
    "tmp_state bytes (w_files ?s1 ?t)"
    using tmp by (simp_all add: delete_file_facts tmp_state_def)
  obtain created s2 where C: "create_always os ?t ?s1 = (created, s2)" by fastforce
  note c = create_always_facts [OF C]
  have "s_heap s' = s_heap s \<and> w_media s' = w_media s \<and> w_files s' ?f = (if r then Some bytes else w_files s ?f) \<and>
    (\<forall>p. p \<noteq> ?f \<longrightarrow> p \<noteq> ?t \<longrightarrow> w_files s' p = w_files s p) \<and> tmp_state bytes (w_files s' ?t)"
  proof (cases created)
    case False
    then show ?thesis using run C c s1 by (simp add: sb_write_disk_def Let_def)
  next
    case True
    then have "w_files s2 ?t = Some []" using c(1) by simp
    obtain written s3 where A: "append_file os ?t bytes s2 = (written, s3)" by fastforce
    note a = append_file_facts [OF A \<open>w_files s2 ?t = Some []\<close>]
    obtain k where k: "k \<le> length bytes" "written \<longrightarrow> k = length bytes" "w_files s3 = (w_files s2)(?t \<mapsto> take k bytes)"
      using a(1) by auto
    obtain ok s4 where F: "(if written then flush_buffers os s3 else (False, s3)) = (ok, s4)" by fastforce
    have f: "s_heap s4 = s_heap s3" "w_media s4 = w_media s3" "w_files s4 = w_files s3" "ok \<longrightarrow> written"
      using F by (auto simp: flush_buffers_def tick_def split: if_splits)
    have s4: "s_heap s4 = s_heap s" "w_media s4 = w_media s" "\<forall>p. p \<noteq> ?t \<longrightarrow> w_files s4 p = w_files s p"
      "w_files s4 ?t = Some (take k bytes)"
      using f(1-3) a(2,3) c(1-3) s1 k(3) by simp_all
    show ?thesis
    proof (cases ok)
      case False
      then have "\<not> r" "s' = delete_file os ?t s4" using run C A F \<open>created\<close> by (simp_all add: sb_write_disk_def Let_def)
      then show ?thesis using s4 tmp_state_delete [of bytes s4 ?t os] by (simp add: delete_file_facts(2,3)) (simp add: delete_file_facts)
    next
      case True
      then have full: "w_files s4 ?t = Some bytes" using s4(4) f(4) k(2) by simp
      obtain renamed s5 where R: "rename_file os ?t ?f s4 = (renamed, s5)" by fastforce
      note r = rename_file_facts [OF R full]
      show ?thesis
      proof (cases renamed)
        case True
        then have "r" "s' = s5" using run C A F R \<open>created\<close> \<open>ok\<close> by (simp_all add: sb_write_disk_def Let_def)
        then show ?thesis using r s4 True by simp
      next
        case False
        then have "\<not> r" "s' = delete_file os ?t s5" using run C A F R \<open>created\<close> \<open>ok\<close> by (simp_all add: sb_write_disk_def Let_def)
        then show ?thesis using r s4 False full tmp_state_delete [of bytes s5 ?t os]
          by (simp add: delete_file_facts(2,3)) (simp add: delete_file_facts)
      qed
    qed
  qed
  then show "s_heap s' = s_heap s" "w_media s' = w_media s" "w_files s' ?f = (if r then Some bytes else w_files s ?f)"
    "p \<noteq> ?f \<Longrightarrow> p \<noteq> ?t \<Longrightarrow> w_files s' p = w_files s p" "tmp_state bytes (w_files s' ?t)" by blast+
qed

lemma sb_write_disks_any:
  assumes "sb_write_disks os bytes ds s = (r, s')" "\<forall>d \<in> set ds. tmp_state bytes (w_files s (sb_tmp_path (drive_char (s_heap s d))))"
  shows "s_heap s' = s_heap s \<and> w_media s' = w_media s \<and>
    (\<forall>p. (\<forall>d \<in> set ds. p \<noteq> sb_path (drive_char (s_heap s d)) \<and> p \<noteq> sb_tmp_path (drive_char (s_heap s d))) \<longrightarrow> w_files s' p = w_files s p) \<and>
    (\<forall>l. w_files s' (sb_path l) = w_files s (sb_path l) \<or> w_files s' (sb_path l) = Some bytes) \<and>
    (\<forall>l. tmp_state bytes (w_files s (sb_tmp_path l)) \<longrightarrow> tmp_state bytes (w_files s' (sb_tmp_path l))) \<and>
    (r \<longrightarrow> (\<exists>d \<in> set ds. w_files s' (sb_path (drive_char (s_heap s d))) = Some bytes))"
  using assms
proof (induction ds arbitrary: s r)
  case (Cons d ds)
  obtain ok s1 where D: "sb_write_disk os bytes d s = (ok, s1)" by fastforce
  obtain any where R: "sb_write_disks os bytes ds s1 = (any, s')" "r \<longleftrightarrow> ok \<or> any"
    using Cons.prems(1) D by (auto split: prod.splits)
  let ?l = "drive_char (s_heap s d)"
  have t: "tmp_state bytes (w_files s (sb_tmp_path ?l))" using Cons.prems(2) by simp
  note d = sb_write_disk_any [OF D t]
  have tmp1: "tmp_state bytes (w_files s1 (sb_tmp_path l))" if "tmp_state bytes (w_files s (sb_tmp_path l))" for l
    using d(4,5) that by (cases "l = ?l") simp_all
  have one: "w_files s1 (sb_path l) = w_files s (sb_path l) \<or> w_files s1 (sb_path l) = Some bytes" for l
    using d(3,4) by (cases "l = ?l") simp_all
  have "\<forall>e \<in> set ds. tmp_state bytes (w_files s1 (sb_tmp_path (drive_char (s_heap s1 e))))"
    using Cons.prems(2) tmp1 d(1) by simp
  note I = Cons.IH [OF R(1) this, unfolded d(1,2)]
  have last: "w_files s' (sb_path l) = w_files s (sb_path l) \<or> w_files s' (sb_path l) = Some bytes" for l
    using I one [of l] by metis
  have "\<exists>e \<in> set (d # ds). w_files s' (sb_path (drive_char (s_heap s e))) = Some bytes" if r
  proof (cases any)
    case False
    then have "w_files s1 (sb_path ?l) = Some bytes" using R(2) \<open>r\<close> d(3) by simp
    then have "w_files s' (sb_path ?l) = Some bytes" using I by metis
    then show ?thesis by simp
  qed (use I in auto)
  moreover have "w_files s' p = w_files s p"
    if "\<forall>e \<in> set (d # ds). p \<noteq> sb_path (drive_char (s_heap s e)) \<and> p \<noteq> sb_tmp_path (drive_char (s_heap s e))" for p
    using I d(4) [of p] that by simp
  moreover have "tmp_state bytes (w_files s' (sb_tmp_path l))" if "tmp_state bytes (w_files s (sb_tmp_path l))" for l
    using I tmp1 [OF that] by blast
  ultimately show ?case using I last by blast
qed simp

section \<open>Reading after writing\<close>

lemma sb_write_disk_good:
  assumes "all_good os" "length bytes \<le> 2 ^ 64"
  shows "\<exists>s'. sb_write_disk os bytes d s = (True, s') \<and> w_files s' (sb_tmp_path (drive_char (s_heap s d))) = None"
  using assms
  by (simp add: sb_write_disk_def Let_def create_always_def append_file_def flush_buffers_def rename_file_def delete_file_def tick_def)

lemma sb_write_disks_good:
  assumes good: "all_good os" "length bytes \<le> 2 ^ 64" and none: "\<forall>d \<in> set ds. w_files s (sb_tmp_path (drive_char (s_heap s d))) = None"
  shows "\<exists>s'. sb_write_disks os bytes ds s = (ds \<noteq> [], s') \<and> s_heap s' = s_heap s \<and>
    (\<forall>d \<in> set ds. w_files s' (sb_path (drive_char (s_heap s d))) = Some bytes) \<and>
    (\<forall>l. w_files s (sb_tmp_path l) = None \<longrightarrow> w_files s' (sb_tmp_path l) = None) \<and>
    (\<forall>l. w_files s (sb_path l) = Some bytes \<longrightarrow> w_files s' (sb_path l) = Some bytes)"
  using none
proof (induction ds arbitrary: s)
  case (Cons d ds)
  let ?l = "drive_char (s_heap s d)"
  obtain s1 where D: "sb_write_disk os bytes d s = (True, s1)" "w_files s1 (sb_tmp_path ?l) = None"
    using sb_write_disk_good [OF good] by blast
  have t: "tmp_state bytes (w_files s (sb_tmp_path ?l))" using Cons.prems by simp
  note d = sb_write_disk_any [OF D(1) t]
  have n1: "w_files s1 (sb_tmp_path l) = None" if "w_files s (sb_tmp_path l) = None" for l
    using d(4) D(2) that by (cases "l = ?l") simp_all
  have p1: "w_files s1 (sb_path l) = Some bytes" if "w_files s (sb_path l) = Some bytes \<or> l = ?l" for l
    using d(3,4) that by (cases "l = ?l") simp_all
  have "\<forall>e \<in> set ds. w_files s1 (sb_tmp_path (drive_char (s_heap s1 e))) = None"
    using Cons.prems n1 d(1) by simp
  from Cons.IH [OF this] obtain s2 where R: "sb_write_disks os bytes ds s1 = (ds \<noteq> [], s2)" "s_heap s2 = s_heap s"
    "\<forall>e \<in> set ds. w_files s2 (sb_path (drive_char (s_heap s e))) = Some bytes"
    "\<forall>l. w_files s1 (sb_tmp_path l) = None \<longrightarrow> w_files s2 (sb_tmp_path l) = None"
    "\<forall>l. w_files s1 (sb_path l) = Some bytes \<longrightarrow> w_files s2 (sb_path l) = Some bytes" unfolding d(1) by blast
  then show ?case using D(1) p1 n1 by (intro exI [of _ s2]) auto
qed simp

text \<open>Reading a drive with no temporary file is decoding the start of its superblock.\<close>

lemma read_raw_plain:
  assumes "all_good os" "w_files s (sb_tmp_path l) = None" "w_files s (sb_path l) = Some bytes"
  shows "fst (superblock_read_raw os l s) = sb_decode (take SB_READ_LIMIT bytes)"
  using assms
  by (simp add: superblock_read_raw_def try_recover_orphan_tmp_def open_existing_def read_file_def Let_def tick_def const)

lemma new_superblock:
  assumes "storable vol s" "now < 2 ^ 64"
  defines "sb \<equiv> sb_of_volume now (vol\<lparr>v_generation := u64 (v_generation vol + 1)\<rparr>) s"
  shows "length (seal (sb_body 4 sb)) = 828" "sb_decode (seal (sb_body 4 sb)) = Some (sb\<lparr>sb_checksum := unat (crc32 (sb_body 4 sb))\<rparr>)"
    "sb_parse 4 (seal (sb_body 4 sb)) = sb" "seal_ok 824 (seal (sb_body 4 sb))" "sb_generation sb = v_generation vol + 1"
    "sb_magic sb = SUPERBLOCK_MAGIC" "sb_version sb = 4"
proof -
  have f: "sb_fits 4 sb" unfolding sb_def by (rule sb_of_volume_fits [OF assms(1,2)])
  show m: "sb_magic sb = SUPERBLOCK_MAGIC" and v: "sb_version sb = 4" by (simp_all add: sb_def sb_of_volume_def const)
  show "length (seal (sb_body 4 sb)) = 828" using sb.seal_length [OF f] sb_sizes(4) by simp
  show "sb_decode (seal (sb_body 4 sb)) = Some (sb\<lparr>sb_checksum := unat (crc32 (sb_body 4 sb))\<rparr>)"
    using sb_decode_sealed [OF f, of "[]"] m v by (simp add: sb_upgrade_def)
  show "sb_parse 4 (seal (sb_body 4 sb)) = sb" using sb_parse_body [OF f] by (simp add: seal_def)
  show "seal_ok 824 (seal (sb_body 4 sb))" using sb.accepted [OF f, of "[]"] sb_sizes(4) by simp
  have "v_generation vol + 1 < 2 ^ 64" using assms(1) by (simp add: storable_def)
  then have "u64 (v_generation vol + 1) = v_generation vol + 1" by (rule u64_id)
  then show "sb_generation sb = v_generation vol + 1" by (simp add: sb_def sb_of_volume_def)
qed

text \<open>
  C10. Writing the superblock of a volume on working disks succeeds, counts the generation up, and
  reading it from any of the volume's drives gives back every field of it.
\<close>

theorem superblock_write_read:
  assumes good: "all_good os" and vol: "storable vol s" "now < 2 ^ 64" and d: "d \<in> set (disk_ptrs vol)"
    and none: "\<forall>d \<in> set (disk_ptrs vol). w_files s (sb_tmp_path (drive_char (s_heap s d))) = None"
  shows "\<exists>vol' s' sb. superblock_write os now vol s = Inr (True, vol', s') \<and>
    vol' = vol\<lparr>v_generation := v_generation vol + 1\<rparr> \<and>
    fst (superblock_read_raw os (drive_char (s_heap s d)) s') = Some sb \<and>
    sb\<lparr>sb_checksum := 0\<rparr> = sb_of_volume now vol' s"
proof -
  let ?sb = "sb_of_volume now (vol\<lparr>v_generation := u64 (v_generation vol + 1)\<rparr>) s"
  note N = new_superblock [OF vol]
  have "length (seal (sb_body 4 ?sb)) \<le> 2 ^ 64" unfolding N(1) by simp
  from sb_write_disks_good [OF good this none]
  obtain s' where W: "sb_write_disks os (seal (sb_body 4 ?sb)) (disk_ptrs vol) s = (disk_ptrs vol \<noteq> [], s')"
    "w_files s' (sb_path (drive_char (s_heap s d))) = Some (seal (sb_body 4 ?sb))"
    "w_files s' (sb_tmp_path (drive_char (s_heap s d))) = None" using d none by blast
  have "take SB_READ_LIMIT (seal (sb_body 4 ?sb)) = seal (sb_body 4 ?sb)" using N(1) by (simp add: const)
  then have R: "fst (superblock_read_raw os (drive_char (s_heap s d)) s') = Some (?sb\<lparr>sb_checksum := unat (crc32 (sb_body 4 ?sb))\<rparr>)"
    using read_raw_plain [OF good W(3,2)] N(2) by simp
  have "disk_ptrs vol \<noteq> []" using d by auto
  then have "superblock_write os now vol s = Inr (True, vol\<lparr>v_generation := u64 (v_generation vol + 1)\<rparr>, s')"
    using vol(1) W(1) by (simp add: superblock_write_def storable_def)
  moreover have "u64 (v_generation vol + 1) = v_generation vol + 1" using vol(1) by (intro u64_id) (simp add: storable_def)
  moreover have "?sb\<lparr>sb_checksum := k, sb_checksum := 0\<rparr> = ?sb" for k by (simp add: sb_of_volume_def)
  ultimately show ?thesis using R
    by (intro exI [of _ "vol\<lparr>v_generation := u64 (v_generation vol + 1)\<rparr>"] exI [of _ s'] exI conjI) (assumption | simp only:)+
qed

text \<open>
  C9. Whatever the system calls of a superblock write answer, and so also when the machine stops
  in the middle of it, a later read of any drive that had a superblock returns either what that
  drive's old superblock decodes to or the complete new one: never a mixture and never less than
  the old one.
\<close>

theorem superblock_crash_safe:
  assumes vol: "storable vol s" "now < 2 ^ 64"
    and none: "\<forall>l. w_files s (sb_tmp_path l) = None" and old: "w_files s (sb_path l) = Some old"
    and run: "superblock_write crash now vol s = Inr (r, vol', s1)" and good: "all_good os"
  shows "fst (superblock_read_raw os l s1) = sb_decode (take SB_READ_LIMIT old) \<or>
    (\<exists>sb. fst (superblock_read_raw os l s1) = Some sb \<and> sb\<lparr>sb_checksum := 0\<rparr> = sb_of_volume now vol' s)"
proof -
  let ?sb = "sb_of_volume now (vol\<lparr>v_generation := u64 (v_generation vol + 1)\<rparr>) s"
  let ?bytes = "seal (sb_body 4 ?sb)" and ?t = "sb_tmp_path l" and ?f = "sb_path l"
  note N = new_superblock [OF vol]
  have vol': "vol' = vol\<lparr>v_generation := u64 (v_generation vol + 1)\<rparr>" and W: "sb_write_disks crash ?bytes (disk_ptrs vol) s = (r, s1)"
    using run vol(1) by (auto simp: superblock_write_def storable_def Let_def split: prod.splits if_splits)
  note A = sb_write_disks_any [OF W]
  have files: "w_files s1 ?f = Some old \<or> w_files s1 ?f = Some ?bytes" and tmp: "tmp_state ?bytes (w_files s1 ?t)"
  proof -
    have "tmp_state ?bytes (w_files s (sb_tmp_path m))" for m using none by simp
    then have "(w_files s1 ?f = w_files s ?f \<or> w_files s1 ?f = Some ?bytes) \<and> tmp_state ?bytes (w_files s1 ?t)" using A by blast
    then show "w_files s1 ?f = Some old \<or> w_files s1 ?f = Some ?bytes" "tmp_state ?bytes (w_files s1 ?t)" unfolding old by blast+
  qed
  have long: "take SB_READ_LIMIT ?bytes = ?bytes" "take 828 ?bytes = ?bytes" using N(1) by (simp_all add: const)
  have new: "sb_decode ?bytes = Some sb \<Longrightarrow> sb\<lparr>sb_checksum := 0\<rparr> = sb_of_volume now vol' s" for sb
    using N(2) by (auto simp: vol' sb_of_volume_def)
  have either: "sb_decode (take SB_READ_LIMIT f) = sb_decode (take SB_READ_LIMIT old) \<or>
      (\<exists>sb. sb_decode (take SB_READ_LIMIT f) = Some sb \<and> sb\<lparr>sb_checksum := 0\<rparr> = sb_of_volume now vol' s)"
    if "f = old \<or> f = ?bytes" for f using that new N(2) long by auto
  obtain f where f: "w_files s1 ?f = Some f" "f = old \<or> f = ?bytes" using files by auto
  let ?s2 = "try_recover_orphan_tmp os l s1"
  have "w_files ?s2 ?f = Some f \<or> w_files ?s2 ?f = Some ?bytes"
  proof (cases "w_files s1 ?t")
    case None
    then show ?thesis using f(1) by (simp add: try_recover_orphan_tmp_def open_existing_def tick_def)
  next
    case (Some t)
    then obtain k where k: "k \<le> length ?bytes" "t = take k ?bytes" using tmp by (auto simp: tmp_state_def)
    show ?thesis
    proof (cases "k = 828")
      case False
      then have "length t < 828" using k N(1) by simp
      then show ?thesis using good Some f(1)
        by (simp add: try_recover_orphan_tmp_def open_existing_def read_file_def delete_file_facts tick_def sb_sizes)
    next
      case True
      then have t: "t = ?bytes" using k N(1) by simp
      show ?thesis using good Some f(1) N(3-7) N(1) unfolding t
        by (simp add: try_recover_orphan_tmp_def open_existing_def read_file_def delete_file_facts rename_file_def tick_def
            sb_sizes Let_def split: if_splits)
    qed
  qed
  then obtain g where g: "w_files ?s2 ?f = Some g" "g = old \<or> g = ?bytes" using f(2) by auto
  have "fst (superblock_read_raw os l s1) = sb_decode (take SB_READ_LIMIT g)"
    using good g(1) by (simp add: superblock_read_raw_def open_existing_def read_file_def tick_def const)
  then show ?thesis using either [OF g(2)] by simp
qed

section \<open>Choosing and restoring\<close>

definition sb_rank :: "SUPERBLOCK \<Rightarrow> nat \<times> nat \<times> nat" where
  "sb_rank sb = (sb_generation sb, sb_timestamp sb, sb_virtual_total_bytes sb)"

lemma sb_better_rank: "sb_better a b \<longleftrightarrow> sb_rank b < sb_rank a"
  by (auto simp: sb_better_def sb_rank_def less_prod_def')

lemma foldl_best:
  "foldl (\<lambda>best c. if sb_better c best then c else best) b xs \<in> insert b (set xs) \<and>
   (\<forall>c \<in> insert b (set xs). sb_rank c \<le> sb_rank (foldl (\<lambda>best c. if sb_better c best then c else best) b xs))"
proof (induction xs arbitrary: b)
  case (Cons x xs)
  let ?b = "if sb_better x b then x else b"
  let ?f = "foldl (\<lambda>best c. if sb_better c best then c else best) ?b xs"
  have I: "?f \<in> insert ?b (set xs)" "sb_rank ?b \<le> sb_rank ?f" "\<forall>c \<in> set xs. sb_rank c \<le> sb_rank ?f"
    using Cons.IH [of ?b] by blast+
  have "sb_rank b \<le> sb_rank ?b" "sb_rank x \<le> sb_rank ?b" unfolding sb_better_rank by auto
  then have "sb_rank b \<le> sb_rank ?f" "sb_rank x \<le> sb_rank ?f" using I(2) by (blast intro: order_trans)+
  moreover have "?f \<in> insert b (set (x # xs))" using I(1) by (cases "sb_better x b") auto
  ultimately show ?case using I(3) by (simp only: foldl_Cons list.set(2)) blast
qed simp

theorem superblock_best_is_best:
  assumes "cs \<noteq> []"
  shows "sb_best cs \<in> set cs \<and> (\<forall>c \<in> set cs. \<not> sb_better c (sb_best cs))"
proof -
  obtain x xs where cs: "cs = x # xs" using assms by (cases cs) auto
  show ?thesis using foldl_best [of x xs] unfolding sb_best_def cs list.sel list.set(2) sb_better_rank not_less .
qed

lemma sb_decode_unsealed:
  "unle (take 4 (drop 4 raw)) = v \<Longrightarrow> \<not> seal_ok (sb_body_size v) raw \<Longrightarrow> sb_decode raw = None"
  unfolding sb_decode_def Let_def by (simp only: simp_thms if_True if_cancel)

theorem superblock_burst_refused:
  assumes fits: "sb_fits v sb" and v: "v \<in> {1, 2, 3, 4}" "sb_version sb = v" "sb_magic sb = SUPERBLOCK_MAGIC"
    and body: "sb_body v sb = before @ xs @ after" "8 \<le> length before" "length xs = length ys" "length ys \<le> 4" "xs \<noteq> ys"
  shows "sb_decode (seal (sb_body v sb) @ rest) \<noteq> None \<and>
    sb_decode ((before @ ys @ after) @ drop (sb_body_size v) (seal (sb_body v sb)) @ rest) = None"
proof -
  let ?bad = "(before @ ys @ after) @ drop (sb_body_size v) (seal (sb_body v sb)) @ rest"
  have h: "take 4 (before @ r) = take 4 before" "take 4 (drop 4 (before @ r)) = take 4 (drop 4 before)" for r
    using body(2) by simp_all
  have "take 4 (drop 4 ?bad) = take 4 (drop 4 (sb_body v sb))" by (simp only: body(1) append_assoc h)
  then have "unle (take 4 (drop 4 ?bad)) = v"
    using sb_parse_head(2) [of v "sb_body v sb"] sb_parse_body [OF fits, of "[]"] v(2) by simp
  moreover have "\<not> seal_ok (sb_body_size v) ?bad" by (rule sb.burst_refused [OF fits body(1,3,4,5)])
  ultimately have "sb_decode ?bad = None" by (rule sb_decode_unsealed)
  then show ?thesis using sb_decode_sealed [OF fits v] by blast
qed

text \<open>The record of a disk that was restored, from what the drives at hand say.\<close>

definition reopened :: "bool \<Rightarrow> ptr option list \<Rightarrow> sys \<Rightarrow> SB_DISK_ENTRY \<Rightarrow> DISK_INFO" where
  "reopened mirror phys s e =
     (let d = restored_disk e (match_disk_by_serial (c_string (de_serial_number e)) phys s) s
      in d\<lparr>d_handle := FILE_HANDLE (d_file_path d), d_healthy := (if mirror then 1 else 0)\<rparr>)"

lemma match_in_phys: "match_disk_by_serial serial phys s = Some p \<Longrightarrow> Some p \<in> set phys"
proof -
  assume "match_disk_by_serial serial phys s = Some p"
  then have "find (\<lambda>p. d_serial_number (s_heap s p) = serial) (map the (filter (\<lambda>p. p \<noteq> None) phys)) = Some p"
    by (simp add: match_disk_by_serial_def split: if_splits)
  then have "p \<in> set (map the (filter (\<lambda>p. p \<noteq> None) phys))" by (metis find_Some_iff nth_mem)
  then show ?thesis by auto
qed

lemma reopened_cong:
  assumes "\<And>p. Some p \<in> set phys \<Longrightarrow> s_heap s p = s_heap s' p"
  shows "reopened mirror phys s e = reopened mirror phys s' e"
proof -
  let ?m = "match_disk_by_serial (c_string (de_serial_number e)) phys s"
  have "?m = match_disk_by_serial (c_string (de_serial_number e)) phys s'"
    unfolding match_disk_by_serial_def using assms by (auto intro!: find_cong)
  moreover have "restored_disk e ?m s = restored_disk e ?m s'"
    using assms [OF match_in_phys, of "c_string (de_serial_number e)" s] by (auto simp: restored_disk_def split: option.split)
  ultimately show ?thesis by (simp add: reopened_def)
qed

lemma restore_disks_good:
  assumes good: "all_good os" and es: "\<forall>e \<in> set es. 0 \<in> set (de_drive_letter e)" "length es \<le> length outs"
    and outs: "distinct outs"
  shows "\<exists>s'. restore_disks os mirror phys es outs opened s = Inr (True, opened @ take (length es) outs, s') \<and>
    (\<forall>p. p \<notin> set outs \<longrightarrow> s_heap s' p = s_heap s p) \<and>
    (\<forall>i < length es. d_pool_bytes (s_heap s' (outs ! i)) = de_pool_bytes (es ! i) \<and>
       d_handle (s_heap s' (outs ! i)) = FILE_HANDLE (pool_path (d_drive_letter (s_heap s' (outs ! i)))) \<and>
       d_healthy (s_heap s' (outs ! i)) = (if mirror then 1 else 0)) \<and>
    ((\<forall>p. Some p \<in> set phys \<longrightarrow> p \<notin> set outs) \<longrightarrow> (\<forall>i < length es. s_heap s' (outs ! i) = reopened mirror phys s (es ! i)))"
  using es outs
proof (induction es arbitrary: outs opened s)
  case (Cons e es)
  then obtain out outs' where o: "outs = out # outs'" by (cases outs) auto
  let ?s0 = "update_disk out (\<lambda>_. zero_disk) s"
  let ?match = "match_disk_by_serial (c_string (de_serial_number e)) phys ?s0"
  let ?d = "restored_disk e ?match ?s0"
  let ?sd = "update_disk out (\<lambda>_. ?d) ?s0"
  have d: "d_pool_bytes ?d = de_pool_bytes e" "d_healthy ?d = 0" "d_file_path ?d = pool_path (d_drive_letter ?d)" "d_file_path ?d \<noteq> []"
    by (simp_all add: restored_disk_def Let_def zero_disk_def pool_path_def split: option.split)
  have p: "d_file_path (s_heap ?sd out) \<noteq> []" using d(4) by (simp add: update_disk_def)
  obtain s1 where P: "pool_file_open os out ?sd = (True, s1)"
    using pool_file_open_good [OF good p] by (cases "pool_file_open os out ?sd") auto
  note f = pool_file_open_cases [OF p P]
  let ?s2 = "if mirror then update_disk out (\<lambda>disk. disk\<lparr>d_healthy := 1\<rparr>) s1 else s1"
  have h2: "s_heap ?s2 q = s_heap s q" if "q \<noteq> out" for q using f(3) that by (simp add: update_disk_def)
  have o2: "d_pool_bytes (s_heap ?s2 out) = de_pool_bytes e" "d_healthy (s_heap ?s2 out) = (if mirror then 1 else 0)"
    "d_handle (s_heap ?s2 out) = FILE_HANDLE (pool_path (d_drive_letter (s_heap ?s2 out)))"
    using f(4) d by (simp_all add: update_disk_def)
  have "\<forall>e \<in> set es. 0 \<in> set (de_drive_letter e)" "length es \<le> length outs'" "distinct outs'" "out \<notin> set outs'"
    using Cons.prems o by auto
  from Cons.IH [OF this(1-3), of "opened @ [out]" ?s2] \<open>out \<notin> set outs'\<close>
  obtain s' where R: "restore_disks os mirror phys es outs' (opened @ [out]) ?s2 = Inr (True, (opened @ [out]) @ take (length es) outs', s')"
    "\<forall>p. p \<notin> set outs' \<longrightarrow> s_heap s' p = s_heap ?s2 p"
    "\<forall>i < length es. d_pool_bytes (s_heap s' (outs' ! i)) = de_pool_bytes (es ! i) \<and>
       d_handle (s_heap s' (outs' ! i)) = FILE_HANDLE (pool_path (d_drive_letter (s_heap s' (outs' ! i)))) \<and>
       d_healthy (s_heap s' (outs' ! i)) = (if mirror then 1 else 0)"
    "(\<forall>p. Some p \<in> set phys \<longrightarrow> p \<notin> set outs') \<longrightarrow> (\<forall>i < length es. s_heap s' (outs' ! i) = reopened mirror phys ?s2 (es ! i))" by blast
  have "restore_disks os mirror phys (e # es) outs opened s = Inr (True, opened @ take (length (e # es)) outs, s')"
    using Cons.prems(1) R(1) P unfolding o restore_disks.simps Let_def by (simp add: P)
  moreover have "s_heap s' q = s_heap s q" if "q \<notin> set outs" for q using that R(2) h2 o by simp
  moreover have keep: "s_heap s' out = s_heap ?s2 out" using R(2) \<open>out \<notin> set outs'\<close> by blast
  then have "d_pool_bytes (s_heap s' (outs ! i)) = de_pool_bytes ((e # es) ! i) \<and>
       d_handle (s_heap s' (outs ! i)) = FILE_HANDLE (pool_path (d_drive_letter (s_heap s' (outs ! i)))) \<and>
       d_healthy (s_heap s' (outs ! i)) = (if mirror then 1 else 0)" if "i < length (e # es)" for i
    using that R(3) o o2 by (cases i) simp_all
  moreover have "s_heap s' (outs ! i) = reopened mirror phys s ((e # es) ! i)"
    if ph: "\<forall>p. Some p \<in> set phys \<longrightarrow> p \<notin> set outs" and i: "i < length (e # es)" for i
  proof (cases i)
    case 0
    have "reopened mirror phys ?s0 e = reopened mirror phys s e"
      by (rule reopened_cong) (use ph o in \<open>auto simp: update_disk_def\<close>)
    moreover have "s_heap ?s2 out = reopened mirror phys ?s0 e"
      using f(4) d by (simp add: reopened_def Let_def update_disk_def)
    ultimately show ?thesis using 0 o keep by simp
  next
    case (Suc k)
    have "reopened mirror phys ?s2 (es ! k) = reopened mirror phys s (es ! k)"
      by (rule reopened_cong) (use ph o h2 in auto)
    then show ?thesis using Suc i R(4) ph o by simp
  qed
  ultimately show ?case by (intro exI [of _ s']) blast
qed simp

text \<open>The address map looks at the phases in use only.\<close>

lemma map_single_byte_phases:
  assumes "v_phase_count w = v_phase_count v" "v_stripe_unit w = v_stripe_unit v" "v_virtual_total_bytes w = v_virtual_total_bytes v"
    and "length (v_phases w) = length (v_phases v)" "\<forall>p < v_phase_count v. v_phases w ! p = v_phases v ! p"
  shows "map_single_byte w vo = map_single_byte v vo"
proof -
  have "map_phases w vo p = map_phases v vo p" for p
  proof (induction "v_phase_count v - p" arbitrary: p)
    case 0
    then show ?case by (simp add: map_phases.simps [of _ _ p] assms(1))
  next
    case (Suc k)
    then have p: "p < v_phase_count v" and IH: "map_phases w vo (Suc p) = map_phases v vo (Suc p)" by simp_all
    show ?case by (simp only: map_phases.simps [of w vo p] map_phases.simps [of v vo p] IH assms(1,2,4) assms(5) [rule_format, OF p])
  qed
  then show ?thesis by (simp add: map_single_byte_def assms(3))
qed

lemma mirror_flag: "((if c then SB_FEATURE_CACHE else 0) + (if m then SB_FEATURE_MIRROR else 0)) AND SB_FEATURE_MIRROR \<noteq> 0 \<longleftrightarrow> m"
  by (cases c; cases m) (simp_all add: const)

lemma superblock_restore_run:
  assumes good: "all_good os" and vol: "storable vol s" "MIN_DISKS \<le> v_disk_count vol"
    and sb: "sb\<lparr>sb_checksum := 0\<rparr> = sb_of_volume now vol s"
    and outs: "distinct outs" "v_disk_count vol \<le> length outs"
  shows "\<exists>vol' s'. superblock_restore os counter sb phys vol0 outs s0 = Inr (True, vol', s') \<and>
    v_disk_count vol' = v_disk_count vol \<and> v_virtual_total_bytes vol' = v_virtual_total_bytes vol \<and>
    v_generation vol' = v_generation vol \<and> v_volume_uuid vol' = v_volume_uuid vol \<and>
    (v_raid_level vol' = RAID_LEVEL_MIRROR \<longleftrightarrow> v_raid_level vol = RAID_LEVEL_MIRROR) \<and>
    (v_raid_level vol \<noteq> RAID_LEVEL_MIRROR \<longrightarrow> (\<forall>vo. map_single_byte vol' vo = map_single_byte vol vo)) \<and>
    (\<forall>i < v_disk_count vol. vdisk vol' i = outs ! i \<and> d_pool_bytes (s_heap s' (outs ! i)) = d_pool_bytes (s_heap s (vdisk vol i)) \<and>
       d_handle (s_heap s' (outs ! i)) = FILE_HANDLE (pool_path (d_drive_letter (s_heap s' (outs ! i))))) \<and>
    (v_raid_level vol = RAID_LEVEL_MIRROR \<longrightarrow> v_healthy_count vol' = int (v_disk_count vol) \<and>
       (\<forall>i < v_disk_count vol. d_healthy (s_heap s' (outs ! i)) = 1)) \<and>
    v_worker_state vol' = None \<and> \<not> v_cache_enabled vol' \<and>
    ((\<forall>p. Some p \<in> set phys \<longrightarrow> p \<notin> set outs) \<longrightarrow> (\<forall>i < v_disk_count vol. s_heap s' (outs ! i) =
       reopened (v_raid_level vol = RAID_LEVEL_MIRROR) phys s0 (entry_of_disk (s_heap s (vdisk vol i)))))"
proof -
  let ?n = "v_disk_count vol" and ?sv = "sb_of_volume now vol s"
  note S = vol(1) [unfolded storable_def]
  have eq: "sb = ?sv\<lparr>sb_checksum := sb_checksum sb\<rparr>" using sb by (metis SUPERBLOCK.surjective SUPERBLOCK.update_convs(16))
  have f: "sb_disk_count sb = ?n" "sb_stripe_unit sb = v_stripe_unit vol" "sb_virtual_total_bytes sb = v_virtual_total_bytes vol"
    "sb_phase_count sb = v_phase_count vol" "sb_generation sb = v_generation vol" "sb_volume_uuid sb = v_volume_uuid vol"
    "sb_phases sb = sb_phases ?sv" "sb_disks sb = sb_disks ?sv" "sb_feature_flags sb = sb_feature_flags ?sv"
    by (subst eq, simp add: sb_of_volume_def)+
  have m: "sb_feature_flags sb AND SB_FEATURE_MIRROR \<noteq> 0 \<longleftrightarrow> v_raid_level vol = RAID_LEVEL_MIRROR"
    unfolding f(9) by (simp only: sb_of_volume_def SUPERBLOCK.simps mirror_flag)
  let ?es = "take ?n (sb_disks sb)"
  have n4: "?n \<le> 4" using S by (simp add: const)
  have es: "length ?es = ?n" "\<forall>i < ?n. ?es ! i = entry_of_disk (s_heap s (vdisk vol i))"
    using n4 by (simp_all add: f(8) sb_of_volume_def const)
  have z: "0 \<in> set (de_drive_letter (entry_of_disk disk))" for disk by (simp add: entry_of_disk_def c_array_def)
  then have "\<forall>e \<in> set ?es. 0 \<in> set (de_drive_letter e)" using es by (metis in_set_conv_nth)
  moreover have "length ?es \<le> length outs" using es outs by simp
  ultimately obtain s' where R: "restore_disks os (v_raid_level vol = RAID_LEVEL_MIRROR) phys ?es outs [] s0 =
      Inr (True, take ?n outs, s')"
    "\<forall>i < ?n. d_pool_bytes (s_heap s' (outs ! i)) = de_pool_bytes (?es ! i) \<and>
       d_handle (s_heap s' (outs ! i)) = FILE_HANDLE (pool_path (d_drive_letter (s_heap s' (outs ! i)))) \<and>
       d_healthy (s_heap s' (outs ! i)) = (if v_raid_level vol = RAID_LEVEL_MIRROR then 1 else 0)"
    "(\<forall>p. Some p \<in> set phys \<longrightarrow> p \<notin> set outs) \<longrightarrow> (\<forall>i < ?n. s_heap s' (outs ! i) =
       reopened (v_raid_level vol = RAID_LEVEL_MIRROR) phys s0 (?es ! i))"
    using restore_disks_good [OF good _ _ outs(1), of ?es "v_raid_level vol = RAID_LEVEL_MIRROR" phys "[]" s0]
    unfolding es(1) append_Nil by blast
  let ?vol' = "(restored_volume sb (take ?n outs))\<lparr>v_start_time := counter\<rparr>"
  have run: "superblock_restore os counter sb phys vol0 outs s0 = Inr (True, ?vol', s')"
  proof -
    have "\<not> (sb_disk_count sb < MIN_DISKS \<or> MAX_DISKS < sb_disk_count sb)" using vol(2) n4 by (simp add: f(1) const)
    then show ?thesis using R(1) unfolding superblock_restore_def m f(1) by simp
  qed
  have len: "length (take ?n outs) = ?n" using outs(2) by simp
  have g: "v_disk_count ?vol' = ?n" "v_virtual_total_bytes ?vol' = v_virtual_total_bytes vol" "v_stripe_unit ?vol' = v_stripe_unit vol"
    "v_generation ?vol' = v_generation vol" "v_volume_uuid ?vol' = v_volume_uuid vol" "v_worker_state ?vol' = None"
    "\<not> v_cache_enabled ?vol'" "v_raid_level ?vol' = RAID_LEVEL_MIRROR \<longleftrightarrow> v_raid_level vol = RAID_LEVEL_MIRROR"
    "v_disks ?vol' = map Some (take ?n outs) @ replicate (MAX_DISKS - ?n) None"
    "v_raid_level vol = RAID_LEVEL_MIRROR \<longrightarrow> v_healthy_count ?vol' = int ?n"
    using len m by (auto simp: restored_volume_def Let_def f zero_volume_def const)
  have map: "map_single_byte ?vol' vo = map_single_byte vol vo" if "v_raid_level vol \<noteq> RAID_LEVEL_MIRROR" for vo
  proof (rule map_single_byte_phases)
    have "v_phases ?vol' = map (\<lambda>i. if i < v_phase_count vol then sb_phases ?sv ! i else zero_phase) [0 ..< MAX_DISKS]"
      "v_phase_count ?vol' = v_phase_count vol"
      using that m by (simp_all add: restored_volume_def Let_def f)
    then show "v_phase_count ?vol' = v_phase_count vol" "length (v_phases ?vol') = length (v_phases vol)"
      "\<forall>p < v_phase_count vol. v_phases ?vol' ! p = v_phases vol ! p"
      using S by (simp_all add: sb_of_volume_def)
  qed (use g in simp_all)
  have disks: "vdisk ?vol' i = outs ! i" if "i < ?n" for i
    using that outs(2) unfolding vdisk_def g(9) by (simp add: nth_append)
  have pool: "de_pool_bytes (?es ! i) = d_pool_bytes (s_heap s (vdisk vol i))" if "i < ?n" for i
    using that es(2) by (simp add: entry_of_disk_def)
  show ?thesis using run g map disks pool R(2,3) es(2) by (intro exI [of _ ?vol'] exI [of _ s']) simp
qed

text \<open>
  C11. Restoring a volume from its superblock gives a volume of the same disks' sizes, generation
  and identity whose pools are open and, when striped, whose address map is the old one at every
  address. When mirrored, every disk is healthy, whatever its state was. The workers are not
  started and the cache is off. When the caller's records are not among the drives at hand, each
  of them is exactly the record made from the disk's entry and the drive that reports its serial
  number.
\<close>

theorem superblock_restore_correct:
  assumes good: "all_good os" and vol: "storable vol s" "MIN_DISKS \<le> v_disk_count vol"
    and sb: "sb\<lparr>sb_checksum := 0\<rparr> = sb_of_volume now vol s"
    and outs: "distinct outs" "v_disk_count vol \<le> length outs"
  shows "\<exists>vol' s'. superblock_restore os counter sb phys vol0 outs s0 = Inr (True, vol', s') \<and>
    v_disk_count vol' = v_disk_count vol \<and> v_virtual_total_bytes vol' = v_virtual_total_bytes vol \<and>
    v_generation vol' = v_generation vol \<and> v_volume_uuid vol' = v_volume_uuid vol \<and>
    (v_raid_level vol' = RAID_LEVEL_MIRROR \<longleftrightarrow> v_raid_level vol = RAID_LEVEL_MIRROR) \<and>
    (v_raid_level vol \<noteq> RAID_LEVEL_MIRROR \<longrightarrow> (\<forall>vo. map_single_byte vol' vo = map_single_byte vol vo)) \<and>
    (\<forall>i < v_disk_count vol. vdisk vol' i = outs ! i \<and> d_pool_bytes (s_heap s' (outs ! i)) = d_pool_bytes (s_heap s (vdisk vol i)) \<and>
       d_handle (s_heap s' (outs ! i)) = FILE_HANDLE (pool_path (d_drive_letter (s_heap s' (outs ! i))))) \<and>
    (v_raid_level vol = RAID_LEVEL_MIRROR \<longrightarrow> v_healthy_count vol' = int (v_disk_count vol) \<and>
       (\<forall>i < v_disk_count vol. d_healthy (s_heap s' (outs ! i)) = 1)) \<and>
    v_worker_state vol' = None \<and> \<not> v_cache_enabled vol' \<and>
    ((\<forall>p. Some p \<in> set phys \<longrightarrow> p \<notin> set outs) \<longrightarrow> (\<forall>i < v_disk_count vol. s_heap s' (outs ! i) =
       reopened (v_raid_level vol = RAID_LEVEL_MIRROR) phys s0 (entry_of_disk (s_heap s (vdisk vol i)))))"
  by (rule superblock_restore_run [OF assms])

section \<open>Witnesses\<close>

definition lettered_system :: sys where
  "lettered_system = two_disk_system\<lparr>s_heap := (\<lambda>p. (s_heap two_disk_system p)\<lparr>d_drive_letter := (if p = 0 then ''C:'' else ''D:'')\<rparr>)\<rparr>"

lemma lettered_storable: "storable two_disk_volume lettered_system" "disk_ptrs two_disk_volume = [0, 1]"
  "\<forall>l. w_files lettered_system (sb_tmp_path l) = None"
proof -
  have r: "replicate MAX_DISKS (0 :: nat) = [0, 0, 0, 0]" "MAX_DISKS = 4" "replicate 4 (0 :: nat) = [0, 0, 0, 0]"
    by (simp_all add: const numeral_eq_Suc)
  show p: "disk_ptrs two_disk_volume = [0, 1]" by (simp add: disk_ptrs_def vdisk_def upt_rec)
  have "phase_ok (v_phases two_disk_volume ! p)" if "p < v_phase_count two_disk_volume" for p
    using that by (simp add: phase_ok_def phase_values_def phase_widths_def fit_fields_def two_disk_volume_def two_disks_def
        zero_phase_def less_Suc_eq r)
  moreover have "length (v_phases two_disk_volume) = 4" "v_generation two_disk_volume = 0" "v_created_time two_disk_volume = 0"
    "v_volume_uuid two_disk_volume = \<lparr>uu_high = 0, uu_low = 0\<rparr>"
    by (simp_all add: two_disk_volume_def two_disks_def zero_volume_def)
  ultimately show "storable two_disk_volume lettered_system"
    using two_disk_open by (simp add: storable_def p disks_open_def) (simp add: two_disk_volume_def two_disks_def zero_volume_def
        lettered_system_def two_disk_system_def zero_disk_def const)
  show "\<forall>l. w_files lettered_system (sb_tmp_path l) = None"
    by (simp add: lettered_system_def two_disk_system_def)
qed

theorem superblock_write_read_witness:
  "\<exists>vol' s' sb. superblock_write os_good 7 two_disk_volume lettered_system = Inr (True, vol', s') \<and>
    fst (superblock_read_raw os_good CHR ''D'' s') = Some sb \<and> sb_generation sb = 1"
proof -
  have d: "1 \<in> set (disk_ptrs two_disk_volume)" by (simp add: lettered_storable(2))
  have l: "drive_char (s_heap lettered_system 1) = CHR ''D''" by (simp add: lettered_system_def drive_char_def)
  have n: "\<forall>d \<in> set (disk_ptrs two_disk_volume). w_files lettered_system (sb_tmp_path (drive_char (s_heap lettered_system d))) = None"
    using lettered_storable(3) by blast
  obtain vol' s' sb where W: "superblock_write os_good 7 two_disk_volume lettered_system = Inr (True, vol', s')"
    "vol' = two_disk_volume\<lparr>v_generation := v_generation two_disk_volume + 1\<rparr>"
    "fst (superblock_read_raw os_good CHR ''D'' s') = Some sb" "sb\<lparr>sb_checksum := 0\<rparr> = sb_of_volume 7 vol' lettered_system"
    using superblock_write_read [OF all_good_os_good lettered_storable(1) _ d n, of 7] unfolding l by auto
  have "sb_generation (sb\<lparr>sb_checksum := 0\<rparr>) = 1"
    unfolding W(4,2) by (simp add: sb_of_volume_def two_disk_volume_def two_disks_def zero_volume_def)
  then have "sb_generation sb = 1" by simp
  then show ?thesis using W(1,3) by blast
qed

text \<open>A machine that stops after eight calls, in the middle of the second disk's superblock.\<close>

definition os_crash :: os where
  "os_crash n = (if n < 8 then Done (2 ^ 64) else Fail 100)"

theorem superblock_crash_safe_witness:
  "\<exists>r vol' s1. superblock_write os_crash 7 two_disk_volume
      (lettered_system\<lparr>w_files := (w_files lettered_system)(sb_path CHR ''D'' \<mapsto> [1, 2])\<rparr>) = Inr (r, vol', s1) \<and>
    (fst (superblock_read_raw os_good CHR ''D'' s1) = sb_decode [1, 2] \<or>
     (\<exists>sb. fst (superblock_read_raw os_good CHR ''D'' s1) = Some sb))"
proof -
  let ?s = "lettered_system\<lparr>w_files := (w_files lettered_system)(sb_path CHR ''D'' \<mapsto> [1, 2])\<rparr>"
  have st: "storable two_disk_volume ?s" using lettered_storable(1) by (simp add: storable_def)
  have n: "\<forall>l. w_files ?s (sb_tmp_path l) = None" using lettered_storable(3) by simp
  have o: "w_files ?s (sb_path CHR ''D'') = Some [1, 2]" by simp
  obtain r vol' s1 where run: "superblock_write os_crash 7 two_disk_volume ?s = Inr (r, vol', s1)"
  proof -
    have "\<not> (v_disk_count two_disk_volume = 0 \<or> MAX_DISKS < v_disk_count two_disk_volume)" "CHECK_DISKS two_disk_volume"
      using st by (simp_all add: storable_def)
    then have "\<exists>r vol' s1. superblock_write os_crash 7 two_disk_volume ?s = Inr (r, vol', s1)"
      unfolding superblock_write_def Let_def by (simp only: if_False simp_thms split: prod.split) blast
    then show ?thesis using that by blast
  qed
  have "take SB_READ_LIMIT [1, 2 :: byte] = [1, 2]" by (simp add: const)
  then show ?thesis using superblock_crash_safe [OF st _ n o run all_good_os_good] run by auto
qed

theorem superblock_best_is_best_witness:
  "sb_best [sb_of_volume 5 two_disk_volume lettered_system, sb_of_volume 9 two_disk_volume lettered_system]
     \<in> {sb_of_volume 5 two_disk_volume lettered_system, sb_of_volume 9 two_disk_volume lettered_system}"
  using superblock_best_is_best [of "[sb_of_volume 5 two_disk_volume lettered_system, sb_of_volume 9 two_disk_volume lettered_system]"]
  by simp

theorem superblock_burst_refused_witness:
  "\<exists>sb before xs after. sb_decode (seal (sb_body 4 sb)) \<noteq> None \<and> sb_body 4 sb = before @ xs @ after \<and>
     sb_decode ((before @ (1 + hd xs) # tl xs @ after) @ drop (sb_body_size 4) (seal (sb_body 4 sb))) = None"
proof -
  let ?sb = "sb_of_volume 7 (two_disk_volume\<lparr>v_generation := u64 (v_generation two_disk_volume + 1)\<rparr>) lettered_system"
  have f: "sb_fits 4 ?sb" by (rule sb_of_volume_fits [OF lettered_storable(1)]) simp
  have h: "4 \<in> {1, 2, 3, 4 :: nat}" "sb_version ?sb = 4" "sb_magic ?sb = SUPERBLOCK_MAGIC" by (simp_all add: sb_of_volume_def const)
  let ?b = "sb_body 4 ?sb"
  have len: "length ?b = 824" using sb.body_length [OF f] sb_sizes(4) by simp
  let ?xs = "take 1 (drop 100 ?b)"
  have xs: "length ?xs = 1" using len by simp
  then obtain x where x: "?xs = [x]" by (metis One_nat_def length_0_conv length_Suc_conv)
  have "?b = take 100 ?b @ drop 100 ?b" "drop 100 ?b = ?xs @ drop 1 (drop 100 ?b)" by (simp_all only: append_take_drop_id)
  then have b: "?b = take 100 ?b @ [x] @ drop 1 (drop 100 ?b)" unfolding x [symmetric] by argo
  have l: "8 \<le> length (take 100 ?b)" "length [x] = length [1 + x]" "length [1 + x] \<le> 4" "[x] \<noteq> [1 + x]" using len by simp_all
  from superblock_burst_refused [OF f h b l, of "[]"] show ?thesis
    using b by (intro exI [of _ ?sb] exI [of _ "take 100 ?b"] exI [of _ "[x]"] exI [of _ "drop 1 (drop 100 ?b)"]) simp
qed

theorem superblock_restore_correct_witness:
  "\<exists>vol' s'. superblock_restore os_good 3 (sb_of_volume 7 two_disk_volume lettered_system) [] zero_volume [10, 11] lettered_system =
      Inr (True, vol', s') \<and> (\<forall>vo. map_single_byte vol' vo = map_single_byte two_disk_volume vo)"
proof -
  have c: "(sb_of_volume 7 two_disk_volume lettered_system)\<lparr>sb_checksum := 0\<rparr> = sb_of_volume 7 two_disk_volume lettered_system"
    by (simp add: sb_of_volume_def)
  have n: "MIN_DISKS \<le> v_disk_count two_disk_volume" "distinct [10, 11 :: ptr]" "v_disk_count two_disk_volume \<le> length [10, 11 :: ptr]"
    "v_raid_level two_disk_volume \<noteq> RAID_LEVEL_MIRROR"
    by (simp_all add: two_disk_volume_def two_disks_def zero_volume_def const)
  from superblock_restore_correct [OF all_good_os_good lettered_storable(1) n(1) c n(2,3), of 3 "[]" zero_volume lettered_system]
  show ?thesis using n(4) by blast
qed

end
