(* ===== verification/FileTable.thy ===== *)
theory FileTable
  imports Common "HOL-Library.Multiset"
begin

text \<open>
  The directory of the mounted file system, \<^verbatim>\<open>src/src/fuse_bridge.c\<close>: a table of at most 64
  entries with the full path of each file and directory, and the operations on names: creating,
  removing, renaming and listing. \<open>dir_of\<close> is its abstraction, a finite map from paths; the
  operations are shown to be the map's operations.

  A path is the string of its bytes: in the C locale, which the program never leaves,
  \<open>mbstowcs\<close> maps each byte to one wide character and fails on none. The lock of the table is
  held around each group of calls below, so the groups are atomic.
\<close>

section \<open>Error numbers\<close>

definition ENOENT :: int where [const]: "ENOENT = 2"
definition EIO :: int where [const]: "EIO = 5"
definition EFAULT :: int where [const]: "EFAULT = 14"
definition EBUSY :: int where [const]: "EBUSY = 16"
definition EEXIST :: int where [const]: "EEXIST = 17"
definition ENODEV :: int where [const]: "ENODEV = 19"
definition ENOTDIR :: int where [const]: "ENOTDIR = 20"
definition EINVAL :: int where [const]: "EINVAL = 22"
definition ENOSPC :: int where [const]: "ENOSPC = 28"
definition ENAMETOOLONG :: int where [const]: "ENAMETOOLONG = 38"
definition ENOSYS :: int where [const]: "ENOSYS = 40"
definition ENOTEMPTY :: int where [const]: "ENOTEMPTY = 41"

section \<open>The table\<close>

record FILE_ENTRY =
  fe_path :: string
  fe_is_dir :: bool
  fe_size :: nat

type_synonym file_table = "FILE_ENTRY list"

abbreviation slash :: char where
  "slash \<equiv> CHR ''/''"

fun strip_path :: "string \<Rightarrow> string" where
  "strip_path [] = []"
| "strip_path (c # cs) = (if c = slash then cs else c # cs)"

text \<open>The index of the first entry with the name.\<close>

fun find_from :: "nat \<Rightarrow> string \<Rightarrow> file_table \<Rightarrow> nat option" where
  "find_from i name [] = None"
| "find_from i name (e # es) = (if fe_path e = name then Some i else find_from (Suc i) name es)"

definition find_open_file :: "string \<Rightarrow> file_table \<Rightarrow> nat option" where
  "find_open_file name t = find_from 0 name t"

definition add_open_file :: "string \<Rightarrow> bool \<Rightarrow> file_table \<Rightarrow> nat option \<times> file_table" where
  "add_open_file name is_dir t =
     (if 64 \<le> length t then (None, t)
      else (Some (length t), t @ [\<lparr>fe_path = name, fe_is_dir = is_dir, fe_size = 0\<rparr>]))"

definition find_or_add_file :: "string \<Rightarrow> bool \<Rightarrow> file_table \<Rightarrow> nat option \<times> file_table" where
  "find_or_add_file name is_dir t = (case find_open_file name t of
     Some i \<Rightarrow> (Some i, t)
   | None \<Rightarrow> add_open_file name is_dir t)"

text \<open>\<^verbatim>\<open>g_open_files[idx] = g_open_files[--g_open_count]\<close>.\<close>

definition swap_remove :: "nat \<Rightarrow> file_table \<Rightarrow> file_table" where
  "swap_remove i t = butlast (t[i := last t])"

definition remove_open_file_get_size :: "string \<Rightarrow> file_table \<Rightarrow> nat \<times> file_table" where
  "remove_open_file_get_size name t = (case find_open_file name t of
     None \<Rightarrow> (0, t)
   | Some i \<Rightarrow> (fe_size (t ! i), swap_remove i t))"

definition is_dir_by_path :: "string \<Rightarrow> file_table \<Rightarrow> bool" where
  "is_dir_by_path name t = (case find_open_file name t of
     None \<Rightarrow> False
   | Some i \<Rightarrow> fe_is_dir (t ! i))"

text \<open>The part before the last slash (\<open>strrchr\<close>), if there is one.\<close>

definition parent_of :: "string \<Rightarrow> string option" where
  "parent_of path =
     (if slash \<in> set path then Some (rev (tl (dropWhile (\<lambda>c. c \<noteq> slash) (rev path)))) else None)"

definition parent_dir_exists :: "string \<Rightarrow> file_table \<Rightarrow> bool" where
  "parent_dir_exists path t = (case parent_of path of
     None \<Rightarrow> True
   | Some parent \<Rightarrow>
       if length parent = 0 then True
       else if 256 \<le> length parent then False
       else is_dir_by_path parent t)"

definition is_direct_child :: "string \<Rightarrow> string \<Rightarrow> bool" where
  "is_direct_child full_path parent =
     (let plen = length parent; flen = length full_path
      in if plen = 0 then slash \<notin> set full_path
         else if flen \<le> plen + 1 then False
         else if take plen full_path \<noteq> parent then False
         else if full_path ! plen \<noteq> slash then False
         else slash \<notin> set (drop (plen + 1) full_path))"

definition is_dir_empty :: "string \<Rightarrow> file_table \<Rightarrow> bool" where
  "is_dir_empty dir t =
     list_all (\<lambda>e. \<not> (take (length dir) (fe_path e) = dir \<and> length dir < length (fe_path e) \<and>
       fe_path e ! length dir = slash)) t"

section \<open>The operations on names\<close>

text \<open>The buffer of \<open>filler\<close> is the list of the names handed to it, in order.\<close>

definition child_name :: "string \<Rightarrow> string \<Rightarrow> string" where
  "child_name parent full_path = (if parent \<noteq> [] then drop (length parent + 1) full_path else full_path)"

text \<open>
  A parent path of 256 bytes or more fills \<open>wparent\<close> without its terminator and
  \<^verbatim>\<open>is_direct_child\<close> runs off it, when there is an entry to look at.
\<close>

definition raid_readdir :: "string \<Rightarrow> file_table \<Rightarrow> fault + int \<times> string list" where
  "raid_readdir path t =
     (let p = strip_path path
      in if 256 \<le> length p \<and> t \<noteq> [] then Inl OutOfBounds
         else Inr (0, [''.'', ''..''] @
           map (child_name p) (filter (\<lambda>f. is_direct_child f p) (map fe_path t))))"

definition O_CREAT :: nat where [const]: "O_CREAT = 0x100"
definition O_RDWR :: nat where [const]: "O_RDWR = 2"

text \<open>
  The file handle \<open>fi->fh\<close> is a copy of the path; the result is the new flags and handle. The
  bitwise tests are those of the C code.
\<close>

definition raid_open :: "string \<Rightarrow> nat \<Rightarrow> file_table \<Rightarrow> int \<times> (nat \<times> string) option \<times> file_table" where
  "raid_open path flags t =
     (let p = strip_path path;
          opened = (if flags AND 3 \<noteq> 0 then flags OR O_RDWR else flags, p)
      in if p = [] then (- ENOENT, None, t)
         else if 255 < length p then (- ENAMETOOLONG, None, t)
         else if flags AND O_CREAT \<noteq> 0 then
           if \<not> parent_dir_exists p t then (- ENOENT, None, t)
           else (case find_or_add_file p False t of
                   (None, t1) \<Rightarrow> (- ENOSPC, None, t1)
                 | (Some i, t1) \<Rightarrow> (0, Some opened, t1))
         else (case find_open_file p t of
                 None \<Rightarrow> (- ENOENT, None, t)
               | Some i \<Rightarrow> (0, Some opened, t)))"

definition new_entry :: "bool \<Rightarrow> string \<Rightarrow> file_table \<Rightarrow> int \<times> file_table" where
  "new_entry is_dir p t =
     (if 255 < length p then (- ENAMETOOLONG, t)
      else if \<not> parent_dir_exists p t then (- ENOENT, t)
      else if find_open_file p t \<noteq> None then (- EEXIST, t)
      else case add_open_file p is_dir t of
             (None, t1) \<Rightarrow> (- ENOSPC, t1)
           | (Some i, t1) \<Rightarrow> (0, t1))"

definition raid_create_entry :: "string \<Rightarrow> file_table \<Rightarrow> int \<times> file_table" where
  "raid_create_entry path t =
     (let p = strip_path path in if p = [] then (- ENOENT, t) else new_entry False p t)"

definition raid_mkdir :: "string \<Rightarrow> file_table \<Rightarrow> int \<times> file_table" where
  "raid_mkdir path t =
     (let p = strip_path path in if p = [] then (- EEXIST, t) else new_entry True p t)"

definition raid_rmdir :: "string \<Rightarrow> file_table \<Rightarrow> int \<times> file_table" where
  "raid_rmdir path t =
     (let p = strip_path path
      in if p = [] then (- EBUSY, t)
         else case find_open_file p t of
           None \<Rightarrow> (- ENOENT, t)
         | Some i \<Rightarrow>
             if \<not> fe_is_dir (t ! i) then (- ENOTDIR, t)
             else if \<not> is_dir_empty (fe_path (t ! i)) t then (- ENOTEMPTY, t)
             else (0, swap_remove i t))"

text \<open>The new path of an entry below the renamed directory; one that does not fit is kept.\<close>

definition moved_path :: "string \<Rightarrow> string \<Rightarrow> string \<Rightarrow> string" where
  "moved_path src dst p =
     (if take (length src + 1) p = src @ [slash]
      then let suffix = drop (length src + 1) p
        in if 256 \<le> length dst + 1 + length suffix then p else dst @ [slash] @ suffix
      else p)"

definition rename_entries :: "nat \<Rightarrow> string \<Rightarrow> string \<Rightarrow> file_table \<Rightarrow> file_table" where
  "rename_entries idx src dst t =
     map (\<lambda>i. if i = idx then (t ! i)\<lparr>fe_path := dst\<rparr>
              else if fe_is_dir (t ! idx) then (t ! i)\<lparr>fe_path := moved_path src dst (fe_path (t ! i))\<rparr>
              else t ! i) [0 ..< length t]"

definition raid_rename :: "string \<Rightarrow> string \<Rightarrow> file_table \<Rightarrow> int \<times> file_table" where
  "raid_rename from to t =
     (let src = strip_path from; dst = strip_path to
      in if src = [] \<or> dst = [] then (- ENOENT, t)
         else if 254 < length src \<or> 254 < length dst then (- ENAMETOOLONG, t)
         else if \<not> parent_dir_exists dst t then (- ENOENT, t)
         else case find_open_file src t of
           None \<Rightarrow> (- ENOENT, t)
         | Some idx \<Rightarrow>
             if find_open_file dst t \<noteq> None then (- EEXIST, t)
             else (0, rename_entries idx src dst t))"

section \<open>The table as a finite map\<close>

definition dir_of :: "file_table \<Rightarrow> string \<rightharpoonup> bool \<times> nat" where
  "dir_of t = map_of (map (\<lambda>e. (fe_path e, (fe_is_dir e, fe_size e))) t)"

definition table_ok :: "file_table \<Rightarrow> bool" where
  "table_ok t \<longleftrightarrow> length t \<le> 64 \<and> distinct (map fe_path t) \<and>
     list_all (\<lambda>e. fe_path e \<noteq> [] \<and> length (fe_path e) \<le> 255) t"

text \<open>Every entry's parent is a directory of the table: the entries form a tree.\<close>

definition tree_ok :: "file_table \<Rightarrow> bool" where
  "tree_ok t \<longleftrightarrow> table_ok t \<and> list_all (\<lambda>e. parent_dir_exists (fe_path e) t) t"

text \<open>\<open>below d p\<close>: the path \<open>p\<close> lies in the subtree of \<open>d\<close>.\<close>

definition below :: "string \<Rightarrow> string \<Rightarrow> bool" where
  "below d p \<longleftrightarrow> take (length d + 1) p = d @ [slash]"

lemma below_iff: "below d p \<longleftrightarrow> (\<exists>r. p = d @ slash # r)"
proof
  assume "below d p"
  then have "p = (d @ [slash]) @ drop (length d + 1) p" unfolding below_def by (metis append_take_drop_id)
  then show "\<exists>r. p = d @ slash # r" by (metis append.assoc append_Cons append_Nil)
qed (auto simp: below_def)

lemma find_from_None: "find_from i name t = None \<longleftrightarrow> name \<notin> fe_path ` set t"
  by (induction t arbitrary: i) auto

lemma find_from_Some:
  "find_from i name t = Some j \<Longrightarrow> i \<le> j \<and> j - i < length t \<and> fe_path (t ! (j - i)) = name"
proof (induction t arbitrary: i)
  case (Cons e es)
  show ?case
  proof (cases "fe_path e = name")
    case False
    with Cons have "Suc i \<le> j \<and> j - Suc i < length es \<and> fe_path (es ! (j - Suc i)) = name" by simp
    moreover from this have "j - i = Suc (j - Suc i)" by linarith
    ultimately show ?thesis by simp
  qed (use Cons in simp)
qed simp

lemma find_None: "find_open_file name t = None \<longleftrightarrow> name \<notin> dom (dir_of t)"
  by (auto simp: find_open_file_def find_from_None dir_of_def dom_map_of_conv_image_fst image_image)

lemma find_Some: "find_open_file name t = Some i \<Longrightarrow> i < length t \<and> fe_path (t ! i) = name"
  using find_from_Some [of 0 name t i] by (simp add: find_open_file_def)

lemma dir_of_dom: "dom (dir_of t) = fe_path ` set t"
  by (auto simp: dir_of_def dom_map_of_conv_image_fst image_image)

lemma dir_of_nth:
  "table_ok t \<Longrightarrow> i < length t \<Longrightarrow> dir_of t (fe_path (t ! i)) = Some (fe_is_dir (t ! i), fe_size (t ! i))"
  unfolding dir_of_def table_ok_def
  by (rule map_of_is_SomeI) (auto simp: comp_def intro: image_eqI [OF _ nth_mem])

lemma dir_of_Some:
  "dir_of t p = Some (d, n) \<Longrightarrow> \<exists>e \<in> set t. fe_path e = p \<and> fe_is_dir e = d \<and> fe_size e = n"
  unfolding dir_of_def by (drule map_of_SomeD) auto

lemma find_dir_of:
  "table_ok t \<Longrightarrow> find_open_file p t = Some i \<Longrightarrow> dir_of t p = Some (fe_is_dir (t ! i), fe_size (t ! i))"
  using find_Some dir_of_nth by metis

lemma is_dir_by_path_iff: "table_ok t \<Longrightarrow> is_dir_by_path p t \<longleftrightarrow> (\<exists>n. dir_of t p = Some (True, n))"
  using find_None [of p t] by (auto simp: is_dir_by_path_def find_dir_of split: option.split)

text \<open>The table is determined by its map up to the order of the entries.\<close>

lemma dir_of_eqI:
  assumes "table_ok t" "\<And>p v. m p = Some v \<longleftrightarrow> (\<exists>i < length t. p = fe_path (t ! i) \<and> v = (fe_is_dir (t ! i), fe_size (t ! i)))"
  shows "dir_of t = m"
proof (rule ext)
  fix p
  show "dir_of t p = m p"
  proof (cases "p \<in> dom (dir_of t)")
    case True
    then obtain i where i: "i < length t" "p = fe_path (t ! i)" by (auto simp: dir_of_dom in_set_conv_nth)
    show ?thesis using dir_of_nth [OF assms(1) i(1)] assms(2) [of p "(fe_is_dir (t ! i), fe_size (t ! i))"] i by auto
  next
    case False
    then have "m p \<noteq> Some v" for v using assms(2) [of p v] by (auto simp: dir_of_dom)
    then show ?thesis using False by (cases "m p") auto
  qed
qed

section \<open>Adding and removing\<close>

lemma add_entry_dir:
  assumes "table_ok t" "dir_of t p = None" "length t < 64" "p \<noteq> []" "length p \<le> 255"
  shows "\<exists>t1. add_open_file p d t = (Some (length t), t1) \<and> table_ok t1 \<and> dir_of t1 = (dir_of t)(p \<mapsto> (d, 0)) \<and>
    length t1 = Suc (length t)"
proof -
  have "p \<notin> fe_path ` set t" using assms(2) dir_of_dom [of t] by (metis domIff)
  then show ?thesis using assms
    by (auto simp: add_open_file_def table_ok_def dir_of_def map_add_def fun_eq_iff split: option.split)
qed

lemma set_swap_remove:
  assumes "i < length t" shows "mset (swap_remove i t) = mset t - {#t ! i#}"
proof -
  have ne: "t \<noteq> []" using assms by auto
  show ?thesis
  proof (cases "i = length t - 1")
    case True
    then have "t[i := last t] = t" using ne by (simp add: last_conv_nth list_update_id)
    then show ?thesis using ne True
      by (metis add_diff_cancel_right' append_butlast_last_id last_conv_nth mset.simps mset_append swap_remove_def union_code)
  next
    case False
    then have i: "i < length (butlast t)" using assms by simp
    have t: "t = butlast t @ [last t]" using ne by simp
    have "swap_remove i t = (butlast t)[i := last t]"
      unfolding swap_remove_def using i by (subst t) (simp only: list_update_append butlast_append, simp)
    moreover have "t ! i = butlast t ! i" using i by (simp add: nth_butlast)
    moreover have "mset t = add_mset (last t) (mset (butlast t))" by (subst t) simp
    ultimately show ?thesis using i by (simp add: mset_update)
  qed
qed

lemma dir_of_mem: "table_ok t \<Longrightarrow> e \<in> set t \<Longrightarrow> dir_of t (fe_path e) = Some (fe_is_dir e, fe_size e)"
  using dir_of_nth by (metis in_set_conv_nth)

lemma swap_remove_dir:
  assumes ok: "table_ok t" and i: "i < length t"
  shows "table_ok (swap_remove i t)" "dir_of (swap_remove i t) = (dir_of t)(fe_path (t ! i) := None)"
    "length (swap_remove i t) = length t - 1"
proof -
  note M = set_swap_remove [OF i]
  have "mset t = add_mset (t ! i) (mset (swap_remove i t))" using M i by simp
  then have "mset (map fe_path t) = mset (fe_path (t ! i) # map fe_path (swap_remove i t))" by simp
  then have "distinct (fe_path (t ! i) # map fe_path (swap_remove i t))"
    using ok mset_eq_imp_distinct_iff unfolding table_ok_def by blast
  then have d: "distinct (map fe_path (swap_remove i t))" and p: "fe_path (t ! i) \<notin> fe_path ` set (swap_remove i t)" by simp_all
  show len: "length (swap_remove i t) = length t - 1" by (simp add: swap_remove_def)
  have sub: "set (swap_remove i t) \<subseteq> set t" using M by (metis in_diffD set_mset_mset subsetI)
  show ok1: "table_ok (swap_remove i t)" using ok d len sub by (auto simp: table_ok_def list_all_iff)
  show "dir_of (swap_remove i t) = (dir_of t)(fe_path (t ! i) := None)"
  proof (rule ext)
    fix q
    show "dir_of (swap_remove i t) q = ((dir_of t)(fe_path (t ! i) := None)) q"
    proof (cases "q \<in> fe_path ` set (swap_remove i t)")
      case True
      then obtain e where e: "e \<in> set (swap_remove i t)" "q = fe_path e" by blast
      then have "q \<noteq> fe_path (t ! i)" using p by blast
      moreover have "e \<in> set t" using e(1) sub by blast
      ultimately show ?thesis using dir_of_mem [OF ok1 e(1)] dir_of_mem [OF ok] e(2) by simp
    next
      case False
      have "q \<notin> fe_path ` set t" if "q \<noteq> fe_path (t ! i)"
      proof
        assume "q \<in> fe_path ` set t"
        then obtain e where e: "e \<in># mset t" "q = fe_path e" by auto
        then have "e \<in># mset (swap_remove i t)" using that M by (auto simp: in_diff_count count_eq_zero_iff)
        then show False using False e by auto
      qed
      then show ?thesis using False dir_of_dom by (metis domIff fun_upd_apply)
    qed
  qed
qed

section \<open>The tree\<close>

lemma parent_of_iff: "parent_of p = Some q \<longleftrightarrow> (\<exists>n. p = q @ slash # n \<and> slash \<notin> set n)"
proof
  assume q: "parent_of p = Some q"
  then have "slash \<in> set (rev p)" by (simp add: parent_of_def split: if_splits)
  then have "dropWhile (\<lambda>c. c \<noteq> slash) (rev p) \<noteq> []" by (auto simp: dropWhile_eq_Nil_conv)
  then obtain r where r: "dropWhile (\<lambda>c. c \<noteq> slash) (rev p) = slash # r"
    using hd_dropWhile [of "\<lambda>c. c \<noteq> slash" "rev p"] by (cases "dropWhile (\<lambda>c. c \<noteq> slash) (rev p)") simp_all
  let ?n = "takeWhile (\<lambda>c. c \<noteq> slash) (rev p)"
  have "rev p = ?n @ slash # r" using r by (metis takeWhile_dropWhile_id)
  then have "rev (rev p) = rev (?n @ slash # r)" by (rule arg_cong)
  then have "p = rev r @ slash # rev ?n" by simp
  moreover have "q = rev r" using q r by (simp add: parent_of_def split: if_splits)
  moreover have "slash \<notin> set (rev ?n)" by (auto dest: set_takeWhileD)
  ultimately show "\<exists>n. p = q @ slash # n \<and> slash \<notin> set n" by blast
next
  assume "\<exists>n. p = q @ slash # n \<and> slash \<notin> set n"
  then obtain n where n: "p = q @ slash # n" "slash \<notin> set n" by blast
  have "dropWhile (\<lambda>c. c \<noteq> slash) (rev n @ slash # rev q) = slash # rev q"
    using n(2) by (subst dropWhile_append2) auto
  then show "parent_of p = Some q" using n(1) by (simp add: parent_of_def)
qed

lemma parent_of_length: "parent_of p = Some q \<Longrightarrow> length q < length p"
  by (auto simp: parent_of_iff)

lemma dir_of_length: "table_ok t \<Longrightarrow> p \<in> dom (dir_of t) \<Longrightarrow> p \<noteq> [] \<and> length p \<le> 255"
  by (auto simp: dir_of_dom table_ok_def list_all_iff)

lemma parent_dir_exists_iff:
  "table_ok t \<Longrightarrow> parent_dir_exists p t \<longleftrightarrow>
    (\<forall>q. parent_of p = Some q \<longrightarrow> q = [] \<or> (\<exists>n. dir_of t q = Some (True, n)))"
  using dir_of_length [of t] by (force simp: parent_dir_exists_def is_dir_by_path_iff split: option.split)

lemma tree_ok_iff:
  "tree_ok t \<longleftrightarrow> table_ok t \<and> (\<forall>p \<in> dom (dir_of t). parent_dir_exists p t)"
  by (auto simp: tree_ok_def list_all_iff dir_of_dom)

lemma tree_ancestor:
  assumes tree: "tree_ok t" and q: "q \<in> dom (dir_of t)" and b: "below d q" and d: "d \<noteq> []"
  shows "\<exists>n. dir_of t d = Some (True, n)"
  using q b
proof (induction "length q" arbitrary: q rule: less_induct)
  case less
  have ok: "table_ok t" using tree by (simp add: tree_ok_iff)
  obtain r where r: "q = d @ slash # r" using less.prems(2) by (auto simp: below_iff)
  then obtain par where par: "parent_of q = Some par" by (cases "parent_of q") (simp_all add: parent_of_def)
  then obtain n where n: "q = par @ slash # n" "slash \<notin> set n" by (auto simp: parent_of_iff)
  have "par = d \<or> below d par"
    using r n by (auto simp: below_iff append_eq_append_conv2 Cons_eq_append_conv append_eq_Cons_conv)
  moreover from this have "par \<noteq> []" using d by (auto simp: below_iff)
  then have dir: "\<exists>n. dir_of t par = Some (True, n)"
    using tree less.prems(1) par parent_dir_exists_iff [OF ok] by (auto simp: tree_ok_iff)
  ultimately show ?case using less.hyps [of par] parent_of_length [OF par] by blast
qed

text \<open>Adding an entry whose parent exists, and removing one with nothing below, keep the tree.\<close>

lemma tree_add:
  assumes tree: "tree_ok t" and p: "dir_of t p = None" "length t < 64" "p \<noteq> []" "length p \<le> 255" "parent_dir_exists p t"
  shows "\<exists>t1. add_open_file p d t = (Some (length t), t1) \<and> tree_ok t1 \<and> dir_of t1 = (dir_of t)(p \<mapsto> (d, 0))"
proof -
  have ok: "table_ok t" using tree by (simp add: tree_ok_iff)
  obtain t1 where t1: "add_open_file p d t = (Some (length t), t1)" "table_ok t1" "dir_of t1 = (dir_of t)(p \<mapsto> (d, 0))"
    using add_entry_dir [OF ok p(1-4)] by blast
  have "\<exists>n. dir_of t1 q = Some (True, n)" if "\<exists>n. dir_of t q = Some (True, n)" for q
    using that p(1) t1(3) by auto
  then have "parent_dir_exists q t1" if "parent_dir_exists q t" for q
    using that parent_dir_exists_iff [OF ok] parent_dir_exists_iff [OF t1(2)] by blast
  then have "tree_ok t1" using tree p(5) t1(2,3) by (auto simp: tree_ok_iff)
  then show ?thesis using t1 by blast
qed

lemma tree_remove:
  assumes tree: "tree_ok t" and i: "i < length t" and leaf: "\<forall>q \<in> dom (dir_of t). \<not> below (fe_path (t ! i)) q"
  shows "tree_ok (swap_remove i t)"
proof -
  have ok: "table_ok t" using tree by (simp add: tree_ok_iff)
  note R = swap_remove_dir [OF ok i]
  have "parent_dir_exists q (swap_remove i t)" if q: "q \<in> dom (dir_of t)" for q
  proof -
    have "par \<noteq> fe_path (t ! i)" if "parent_of q = Some par" for par
      using that leaf q by (auto simp: parent_of_iff below_iff)
    then show ?thesis using tree q parent_dir_exists_iff [OF ok, of q] parent_dir_exists_iff [OF R(1), of q] R(2)
      by (auto simp: tree_ok_iff)
  qed
  then show ?thesis using R by (auto simp: tree_ok_iff)
qed

lemma is_dir_empty_iff:
  "is_dir_empty d t \<longleftrightarrow> (\<forall>q \<in> dom (dir_of t). \<not> below d q)"
proof -
  have "take (length d) p = d \<and> length d < length p \<and> p ! length d = slash \<longleftrightarrow> below d p" for p
  proof -
    have "take (length d) p = d \<and> p ! length d = slash \<longleftrightarrow> take (length d + 1) p = d @ [slash]"
      if "length d < length p" using that by (simp add: take_Suc_conv_app_nth)
    moreover have "length d < length p" if "take (length d + 1) p = d @ [slash]"
      using arg_cong [OF that, of length] by simp
    ultimately show ?thesis by (auto simp: below_def)
  qed
  then show ?thesis by (simp add: is_dir_empty_def list_all_iff dir_of_dom)
qed

section \<open>Renaming\<close>

text \<open>Where a path goes when \<open>src\<close> is renamed to \<open>dst\<close>.\<close>

definition rekey :: "string \<Rightarrow> string \<Rightarrow> string \<Rightarrow> string" where
  "rekey src dst p = (if p = src \<or> below src p then dst @ drop (length src) p else p)"

text \<open>A rename that keeps the tree: the target is not inside the source and every moved path fits.\<close>

definition can_rename :: "string \<Rightarrow> string \<Rightarrow> file_table \<Rightarrow> bool" where
  "can_rename src dst t \<longleftrightarrow> \<not> below src dst \<and>
     (\<forall>p \<in> dom (dir_of t). below src p \<longrightarrow> length dst + (length p - length src) < 256)"

lemma below_self [simp]: "\<not> below d d"
  by (simp add: below_def)

lemma below_trans: "below a b \<Longrightarrow> below b c \<Longrightarrow> below a c"
  by (auto simp: below_iff)

lemma rekey_src [simp]: "rekey src dst src = dst"
  by (simp add: rekey_def)

lemma rekey_below: "rekey src dst (src @ slash # r) = dst @ slash # r"
  by (simp add: rekey_def below_iff)

lemma rekey_other: "p \<noteq> src \<Longrightarrow> \<not> below src p \<Longrightarrow> rekey src dst p = p"
  by (simp add: rekey_def)

lemma rekey_cases:
  obtains (top) "p = src" "rekey src dst p = dst" | (inner) r where "p = src @ slash # r" "rekey src dst p = dst @ slash # r"
  | (outer) "p \<noteq> src" "\<not> below src p" "rekey src dst p = p"
  using rekey_src rekey_below rekey_other below_iff by metis

lemma rename_entries_rekey:
  assumes tree: "tree_ok t" and idx: "find_open_file src t = Some idx" and ne: "src \<noteq> []" and can: "can_rename src dst t"
  shows "rename_entries idx src dst t = map (\<lambda>e. e\<lparr>fe_path := rekey src dst (fe_path e)\<rparr>) t"
proof (rule nth_equalityI)
  have ok: "table_ok t" using tree by (simp add: tree_ok_iff)
  have I: "idx < length t" "fe_path (t ! idx) = src" using find_Some [OF idx] by simp_all
  fix i assume "i < length (rename_entries idx src dst t)"
  then have i: "i < length t" by (simp add: rename_entries_def)
  let ?p = "fe_path (t ! i)"
  have p: "?p \<in> dom (dir_of t)" using i by (simp add: dir_of_dom)
  show "rename_entries idx src dst t ! i = map (\<lambda>e. e\<lparr>fe_path := rekey src dst (fe_path e)\<rparr>) t ! i"
  proof (cases rule: rekey_cases [of ?p src dst])
    case top
    have "distinct (map fe_path t)" using ok by (simp add: table_ok_def)
    then have "i = idx" using nth_eq_iff_index_eq [of "map fe_path t" i idx] i I top(1) by simp
    then show ?thesis using top i by (simp add: rename_entries_def)
  next
    case (inner r)
    then have b: "below src ?p" by (auto simp: below_iff)
    then have "i \<noteq> idx" using I by auto
    moreover have "fe_is_dir (t ! idx)" using tree_ancestor [OF tree p b ne] find_dir_of [OF ok idx] by auto
    moreover have "moved_path src dst ?p = dst @ slash # r"
    proof -
      have "length dst + (length ?p - length src) < 256" using can p b by (simp add: can_rename_def)
      then show ?thesis using inner(1) by (simp add: moved_path_def Let_def)
    qed
    ultimately show ?thesis using inner i by (simp add: rename_entries_def)
  next
    case outer
    then have "i \<noteq> idx" using I by auto
    moreover have "moved_path src dst ?p = ?p" using outer(2) by (simp add: moved_path_def below_def)
    ultimately show ?thesis using outer i by (simp add: rename_entries_def)
  qed
qed (simp add: rename_entries_def)

lemma rekey_back:
  assumes "p \<noteq> dst" "\<not> below dst p" shows "rekey dst src (rekey src dst p) = p"
  by (cases rule: rekey_cases [of p src dst]) (simp_all add: rekey_below rekey_other assms)

lemma rekey_inj:
  assumes tree: "tree_ok t" and dst: "dst \<notin> dom (dir_of t)" "dst \<noteq> []"
  shows "inj_on (rekey src dst) (dom (dir_of t))"
proof (rule inj_on_inverseI [of _ "rekey dst src"], rule rekey_back)
  fix p assume p: "p \<in> dom (dir_of t)"
  then show "p \<noteq> dst" using dst(1) by blast
  show "\<not> below dst p" using tree_ancestor [OF tree p _ dst(2)] dst(1) by blast
qed

lemma rename_dir:
  assumes tree: "tree_ok t" and idx: "find_open_file src t = Some idx" and ne: "src \<noteq> []" and can: "can_rename src dst t"
    and dst: "dst \<notin> dom (dir_of t)" "dst \<noteq> []" "length dst \<le> 254"
  shows "table_ok (rename_entries idx src dst t)"
    "p \<in> dom (dir_of t) \<Longrightarrow> dir_of (rename_entries idx src dst t) (rekey src dst p) = dir_of t p"
    "dom (dir_of (rename_entries idx src dst t)) = rekey src dst ` dom (dir_of t)"
proof -
  let ?t = "rename_entries idx src dst t"
  have ok: "table_ok t" using tree by (simp add: tree_ok_iff)
  note E = rename_entries_rekey [OF tree idx ne can]
  have "map fe_path ?t = map (rekey src dst) (map fe_path t)" by (simp add: E)
  then have d: "distinct (map fe_path ?t)"
    using ok rekey_inj [OF tree dst(1,2), of src]
    by (simp only: table_ok_def distinct_map [of "rekey src dst"] dir_of_dom list.set_map)
  have "rekey src dst q \<noteq> [] \<and> length (rekey src dst q) \<le> 255" if q: "q \<in> dom (dir_of t)" for q
  proof (cases rule: rekey_cases [of q src dst])
    case (inner r)
    then have "length dst + (length q - length src) < 256" using can q by (auto simp: can_rename_def below_iff)
    then show ?thesis using inner by simp
  qed (use dst dir_of_length [OF ok q] in auto)
  then show ok1: "table_ok ?t" using ok d by (auto simp: table_ok_def list_all_iff E dir_of_dom)
  show "dom (dir_of ?t) = rekey src dst ` dom (dir_of t)" by (simp add: dir_of_dom E image_image)
  assume "p \<in> dom (dir_of t)"
  then obtain e where e: "e \<in> set t" "p = fe_path e" by (auto simp: dir_of_dom)
  then have "e\<lparr>fe_path := rekey src dst p\<rparr> \<in> set ?t" by (auto simp: E)
  from dir_of_mem [OF ok1 this] dir_of_mem [OF ok e(1)] e(2) show "dir_of ?t (rekey src dst p) = dir_of t p" by simp
qed

lemma rename_tree:
  assumes tree: "tree_ok t" and idx: "find_open_file src t = Some idx" and ne: "src \<noteq> []" and can: "can_rename src dst t"
    and dst: "dst \<notin> dom (dir_of t)" "dst \<noteq> []" "length dst \<le> 254" "parent_dir_exists dst t"
  shows "tree_ok (rename_entries idx src dst t)"
proof -
  let ?t = "rename_entries idx src dst t"
  have ok: "table_ok t" using tree by (simp add: tree_ok_iff)
  note R = rename_dir [OF tree idx ne can dst(1-3)]
  have keep: "\<exists>n. dir_of ?t (rekey src dst q) = Some (True, n)" if "\<exists>n. dir_of t q = Some (True, n)" for q
    using that R(2) by (metis domI)
  have "parent_dir_exists (rekey src dst p) ?t" if p: "p \<in> dom (dir_of t)" for p
    unfolding parent_dir_exists_iff [OF R(1)]
  proof (intro allI impI)
    fix q assume q: "parent_of (rekey src dst p) = Some q"
    have par: "\<exists>n. dir_of t a = Some (True, n)" if "parent_of p = Some a" "a \<noteq> []" for a
      using that p tree parent_dir_exists_iff [OF ok] by (auto simp: tree_ok_iff)
    have out: "rekey src dst q = q" if "\<not> below src (q @ slash # n)" for n
      using that by (intro rekey_other) (auto simp: below_iff)
    show "q = [] \<or> (\<exists>n. dir_of ?t q = Some (True, n))"
    proof (cases rule: rekey_cases [of p src dst])
      case top
      then have "rekey src dst q = q" using out q can by (auto simp: parent_of_iff can_rename_def)
      moreover have "q = [] \<or> (\<exists>n. dir_of t q = Some (True, n))"
        using dst(4) q top parent_dir_exists_iff [OF ok] by auto
      ultimately show ?thesis using keep [of q] by auto
    next
      case (inner r)
      obtain n where n: "dst @ slash # r = q @ slash # n" "slash \<notin> set n" using q inner(2) by (auto simp: parent_of_iff)
      have "\<exists>b. q = dst @ b \<and> b @ slash # n = slash # r"
        using n by (auto simp: append_eq_append_conv2 append_eq_Cons_conv Cons_eq_append_conv)
      then obtain b where b: "q = dst @ b" "b @ slash # n = slash # r" by blast
      have "p = (src @ b) @ slash # n" using inner(1) b(2) by simp
      then have "parent_of p = Some (src @ b)" using n(2) parent_of_iff by blast
      moreover have "rekey src dst (src @ b) = q"
        using b by (cases b) (auto simp: rekey_below)
      ultimately show ?thesis using par [of "src @ b"] keep [of "src @ b"] ne by auto
    next
      case outer
      then have "rekey src dst q = q" using out q by (auto simp: parent_of_iff)
      then show ?thesis using par [of q] keep [of q] q outer(3) by auto
    qed
  qed
  then show ?thesis using R by (auto simp: tree_ok_iff)
qed

section \<open>Listing\<close>

lemma is_direct_child_iff:
  "is_direct_child f p \<longleftrightarrow> (if p = [] then slash \<notin> set f else \<exists>n. f = p @ slash # n \<and> n \<noteq> [] \<and> slash \<notin> set n)"
proof (cases "p = []")
  case False
  have "is_direct_child f p \<longleftrightarrow> below p f \<and> length p + 1 < length f \<and> slash \<notin> set (drop (length p + 1) f)"
  proof -
    have "take (length p) f = p \<and> f ! length p = slash \<longleftrightarrow> below p f" if "length p < length f"
      using that by (simp add: below_def take_Suc_conv_app_nth)
    then show ?thesis using False by (auto simp: is_direct_child_def Let_def)
  qed
  also have "\<dots> \<longleftrightarrow> (\<exists>n. f = p @ slash # n \<and> n \<noteq> [] \<and> slash \<notin> set n)" by (auto simp: below_iff)
  finally show ?thesis using False by simp
qed (simp add: is_direct_child_def Let_def)

definition join :: "string \<Rightarrow> string \<Rightarrow> string" where
  "join p n = (if p = [] then n else p @ slash # n)"

lemma join_inj: "join p a = join p b \<longleftrightarrow> a = b"
  by (simp add: join_def)

lemma child_join: "is_direct_child f p \<Longrightarrow> join p (child_name p f) = f \<and> slash \<notin> set (child_name p f)"
  by (auto simp: is_direct_child_iff join_def child_name_def split: if_splits)

lemma join_child:
  "n \<noteq> [] \<Longrightarrow> slash \<notin> set n \<Longrightarrow> is_direct_child (join p n) p \<and> child_name p (join p n) = n"
  by (simp add: is_direct_child_iff join_def child_name_def)

lemma readdir_names:
  assumes ok: "table_ok t" and p: "length (strip_path path) < 256"
  shows "\<exists>ns. raid_readdir path t = Inr (0, [''.'', ''..''] @ ns) \<and> distinct ns \<and>
    set ns = {n. n \<noteq> [] \<and> slash \<notin> set n \<and> join (strip_path path) n \<in> dom (dir_of t)}"
proof -
  let ?p = "strip_path path"
  let ?fs = "filter (\<lambda>f. is_direct_child f ?p) (map fe_path t)"
  have "distinct ?fs" using ok by (simp add: table_ok_def)
  moreover have "inj_on (child_name ?p) (set ?fs)"
    by (rule inj_on_inverseI [of _ "join ?p"]) (use child_join in auto)
  ultimately have "distinct (map (child_name ?p) ?fs)" by (simp only: distinct_map)
  moreover have "set (map (child_name ?p) ?fs) = {n. n \<noteq> [] \<and> slash \<notin> set n \<and> join ?p n \<in> dom (dir_of t)}"
  proof (rule set_eqI, rule iffI)
    fix n assume "n \<in> set (map (child_name ?p) ?fs)"
    then obtain f where f: "f \<in> dom (dir_of t)" "is_direct_child f ?p" "n = child_name ?p f" by (auto simp: dir_of_dom)
    moreover have "n \<noteq> []" using f dir_of_length [OF ok f(1)]
      by (auto simp: is_direct_child_iff child_name_def split: if_splits)
    ultimately show "n \<in> {n. n \<noteq> [] \<and> slash \<notin> set n \<and> join ?p n \<in> dom (dir_of t)}" using child_join [OF f(2)] by simp
  next
    fix n assume "n \<in> {n. n \<noteq> [] \<and> slash \<notin> set n \<and> join ?p n \<in> dom (dir_of t)}"
    then have n: "n \<noteq> []" "slash \<notin> set n" "join ?p n \<in> fe_path ` set t" by (simp_all add: dir_of_dom)
    then have "join ?p n \<in> set ?fs" using join_child by auto
    then show "n \<in> set (map (child_name ?p) ?fs)" using join_child [OF n(1,2)] by force
  qed
  ultimately show ?thesis using p by (auto simp: raid_readdir_def Let_def)
qed

section \<open>What the operations do to the tree\<close>

lemma new_entry_spec:
  assumes tree: "tree_ok t" and p: "p \<noteq> []" and run: "new_entry d p t = (r, t')"
  shows "tree_ok t'" "dir_of t' = (if r = 0 then (dir_of t)(p \<mapsto> (d, 0)) else dir_of t)"
    "r = 0 \<longleftrightarrow> length p \<le> 255 \<and> parent_dir_exists p t \<and> dir_of t p = None \<and> length t < 64"
proof -
  have "tree_ok t' \<and> dir_of t' = (if r = 0 then (dir_of t)(p \<mapsto> (d, 0)) else dir_of t) \<and>
    (r = 0 \<longleftrightarrow> length p \<le> 255 \<and> parent_dir_exists p t \<and> dir_of t p = None \<and> length t < 64)"
  proof (cases "length p \<le> 255 \<and> parent_dir_exists p t \<and> dir_of t p = None \<and> length t < 64")
    case True
    then obtain t1 where t1: "add_open_file p d t = (Some (length t), t1)" "tree_ok t1" "dir_of t1 = (dir_of t)(p \<mapsto> (d, 0))"
      using tree_add [OF tree _ _ p] by blast
    have "find_open_file p t = None" using True by (simp add: find_None domIff)
    then have "new_entry d p t = (0, t1)" using True t1(1) by (simp add: new_entry_def)
    then show ?thesis using run t1 True by simp
  next
    case False
    then show ?thesis using run tree find_None [of p t]
      by (auto simp: new_entry_def add_open_file_def const domIff split: if_splits)
  qed
  then show "tree_ok t'" "dir_of t' = (if r = 0 then (dir_of t)(p \<mapsto> (d, 0)) else dir_of t)"
    "r = 0 \<longleftrightarrow> length p \<le> 255 \<and> parent_dir_exists p t \<and> dir_of t p = None \<and> length t < 64" by blast+
qed

lemma raid_rmdir_spec:
  assumes tree: "tree_ok t" and run: "raid_rmdir path t = (r, t')"
  shows "tree_ok t'" "dir_of t' = (if r = 0 then (dir_of t)(strip_path path := None) else dir_of t)"
    "r = 0 \<longleftrightarrow> strip_path path \<noteq> [] \<and> (\<exists>n. dir_of t (strip_path path) = Some (True, n)) \<and>
       (\<forall>q \<in> dom (dir_of t). \<not> below (strip_path path) q)"
proof -
  let ?p = "strip_path path"
  have ok: "table_ok t" using tree by (simp add: tree_ok_iff)
  have "tree_ok t' \<and> dir_of t' = (if r = 0 then (dir_of t)(?p := None) else dir_of t) \<and>
    (r = 0 \<longleftrightarrow> ?p \<noteq> [] \<and> (\<exists>n. dir_of t ?p = Some (True, n)) \<and> (\<forall>q \<in> dom (dir_of t). \<not> below ?p q))"
  proof (cases "find_open_file ?p t")
    case None
    then have "dir_of t ?p = None" using find_None domIff by metis
    then show ?thesis using run tree None by (auto simp: raid_rmdir_def Let_def const split: if_splits)
  next
    case (Some i)
    note I = find_Some [OF Some] and D = find_dir_of [OF ok Some]
    show ?thesis
    proof (cases "?p \<noteq> [] \<and> fe_is_dir (t ! i) \<and> (\<forall>q \<in> dom (dir_of t). \<not> below ?p q)")
      case True
      then have "raid_rmdir path t = (0, swap_remove i t)" using Some I by (simp add: raid_rmdir_def is_dir_empty_iff)
      then show ?thesis using run tree_remove [OF tree, of i] swap_remove_dir(2) [OF ok, of i] True I D by auto
    next
      case False
      then show ?thesis using run tree Some I D by (auto simp: raid_rmdir_def is_dir_empty_iff Let_def const split: if_splits)
    qed
  qed
  then show "tree_ok t'" "dir_of t' = (if r = 0 then (dir_of t)(?p := None) else dir_of t)"
    "r = 0 \<longleftrightarrow> ?p \<noteq> [] \<and> (\<exists>n. dir_of t ?p = Some (True, n)) \<and> (\<forall>q \<in> dom (dir_of t). \<not> below ?p q)" by blast+
qed

section \<open>The interface of a directory\<close>

text \<open>What a client of the directory relies on: entering a name and taking it out again.\<close>

locale directory =
  fixes look :: "'t \<Rightarrow> string \<rightharpoonup> bool \<times> nat" and ok :: "'t \<Rightarrow> bool"
    and enter :: "bool \<Rightarrow> string \<Rightarrow> 't \<Rightarrow> int \<times> 't" and leave :: "string \<Rightarrow> 't \<Rightarrow> int \<times> 't"
  assumes enter_law: "ok t \<Longrightarrow> enter d p t = (r, t') \<Longrightarrow>
      ok t' \<and> look t' = (if r = 0 then (look t)(p \<mapsto> (d, 0)) else look t) \<and> (r = 0 \<longrightarrow> look t p = None)"
    and leave_law: "ok t \<Longrightarrow> leave p t = (r, t') \<Longrightarrow>
      ok t' \<and> look t' = (if r = 0 then (look t)(p := None) else look t)"
begin

lemma enter_once:
  assumes "ok t" "enter d p t = (0, t1)" "enter d' p t1 = (r, t2)" shows "r \<noteq> 0"
proof
  assume "r = 0"
  moreover have "look t1 p = Some (d, 0)" "ok t1" using enter_law [OF assms(1,2)] by simp_all
  ultimately show False using enter_law [OF _ assms(3)] by simp
qed

lemma enter_leave:
  assumes "ok t" "enter d p t = (0, t1)" "leave p t1 = (0, t2)" shows "look t2 = look t"
proof -
  have 1: "look t1 = (look t)(p \<mapsto> (d, 0))" "ok t1" "look t p = None" using enter_law [OF assms(1,2)] by simp_all
  have "look t2 = (look t1)(p := None)" using leave_law [OF 1(2) assms(3)] by simp
  then show ?thesis using 1 by (simp add: fun_upd_idem)
qed

end

definition enter_name :: "bool \<Rightarrow> string \<Rightarrow> file_table \<Rightarrow> int \<times> file_table" where
  "enter_name d p t = (if d then raid_mkdir (slash # p) t else raid_create_entry (slash # p) t)"

definition leave_name :: "string \<Rightarrow> file_table \<Rightarrow> int \<times> file_table" where
  "leave_name p t = raid_rmdir (slash # p) t"

lemma enter_name_new: "enter_name d p t = (if p = [] then (if d then - EEXIST else - ENOENT, t) else new_entry d p t)"
  by (simp add: enter_name_def raid_mkdir_def raid_create_entry_def Let_def)

interpretation names: directory dir_of tree_ok enter_name leave_name
proof
  fix t d p r t' assume t: "tree_ok t" "enter_name d p t = (r, t')"
  then show "tree_ok t' \<and> dir_of t' = (if r = 0 then (dir_of t)(p \<mapsto> (d, 0)) else dir_of t) \<and> (r = 0 \<longrightarrow> dir_of t p = None)"
    using new_entry_spec [OF t(1), of p d r t'] by (cases "p = []") (auto simp: enter_name_new const split: if_splits)
next
  fix t p r t' assume "tree_ok t" "leave_name p t = (r, t')"
  then show "tree_ok t' \<and> dir_of t' = (if r = 0 then (dir_of t)(p := None) else dir_of t)"
    using raid_rmdir_spec [of t "slash # p" r t'] by (simp add: leave_name_def)
qed

end
