(* ===== verification/FuseBridge.thy ===== *)
theory FuseBridge
  imports FileTable CachedIo
begin

text \<open>
  The file system seen by the users of a mounted volume, \<^verbatim>\<open>src/src/fuse_bridge.c\<close>: the
  mount context with its counters, the attribute calls, and the calls that move data between
  files and the volume. The calls on names are in \<open>FileTable\<close>. WinFsp itself (\<open>fuse_mount\<close>,
  \<open>fuse_new\<close>, the loop that dispatches requests) is outside: mounting takes the outcome of its calls
  from the oracle, and a run of the mounted system is a sequence of calls.
\<close>

section \<open>The mount context\<close>

definition MAX_CHUNK :: nat where [const]: "MAX_CHUNK = 64 * 1024 * 1024"

text \<open>\<open>mc_vol\<close>: the context's volume pointer is set; the volume itself is passed along.\<close>

record MOUNT_CTX =
  mc_vol :: bool
  mc_mount_point :: string
  mc_highest_byte_written :: int
  mc_total_bytes_freed :: int
  mc_total_bytes_consumed :: int
  mc_flush_in_progress :: int
  mc_thread :: bool
  mc_lock_init :: bool
  mc_table :: file_table

definition zero_ctx :: MOUNT_CTX where
  "zero_ctx = \<lparr>mc_vol = False, mc_mount_point = [], mc_highest_byte_written = 0, mc_total_bytes_freed = 0,
     mc_total_bytes_consumed = 0, mc_flush_in_progress = 0, mc_thread = False, mc_lock_init = False, mc_table = []\<rparr>"

text \<open>The casts to \<open>LONG64\<close> and to \<open>int\<close>.\<close>

definition long64 :: "int \<Rightarrow> int" where
  "long64 k = (k + 2 ^ 63) mod 2 ^ 64 - 2 ^ 63"

definition c_int :: "nat \<Rightarrow> int" where
  "c_int n = (int n + 2 ^ 31) mod 2 ^ 32 - 2 ^ 31"

definition add_freed :: "nat \<Rightarrow> MOUNT_CTX \<Rightarrow> MOUNT_CTX" where
  "add_freed n ctx = ctx\<lparr>mc_total_bytes_freed := long64 (mc_total_bytes_freed ctx + int n)\<rparr>"

definition add_consumed :: "nat \<Rightarrow> MOUNT_CTX \<Rightarrow> MOUNT_CTX" where
  "add_consumed n ctx = ctx\<lparr>mc_total_bytes_consumed := long64 (mc_total_bytes_consumed ctx + int n)\<rparr>"

text \<open>The compare-and-exchange loop of a run without other writers succeeds in its first round.\<close>

definition update_highest_written :: "int \<Rightarrow> MOUNT_CTX \<Rightarrow> MOUNT_CTX" where
  "update_highest_written we ctx =
     (if mc_highest_byte_written ctx < we then ctx\<lparr>mc_highest_byte_written := we\<rparr> else ctx)"

definition set_file_size :: "nat \<Rightarrow> nat \<Rightarrow> MOUNT_CTX \<Rightarrow> MOUNT_CTX" where
  "set_file_size i n ctx = ctx\<lparr>mc_table := (mc_table ctx)[i := (mc_table ctx ! i)\<lparr>fe_size := n\<rparr>]\<rparr>"

section \<open>Attributes\<close>

record fuse_stat =
  st_mode :: nat
  st_nlink :: nat
  st_size :: nat

definition S_IFDIR :: nat where [const]: "S_IFDIR = 0x4000"
definition S_IFREG :: nat where [const]: "S_IFREG = 0x8000"

definition raid_getattr :: "string \<Rightarrow> MOUNT_CTX \<Rightarrow> int \<times> fuse_stat" where
  "raid_getattr path ctx =
     (let none = \<lparr>st_mode = 0, st_nlink = 0, st_size = 0\<rparr>;
          p = strip_path path
      in if path = ''/'' then (0, \<lparr>st_mode = S_IFDIR OR 0x1ED, st_nlink = 2, st_size = 0\<rparr>)
         else if p = [] then (- ENOENT, none)
         else case find_open_file p (mc_table ctx) of
           None \<Rightarrow> (- ENOENT, none)
         | Some i \<Rightarrow>
             let e = mc_table ctx ! i
             in (0, \<lparr>st_mode = (if fe_is_dir e then S_IFDIR OR 0x1FF else S_IFREG OR 0x1B6), st_nlink = 1,
                     st_size = fe_size e\<rparr>))"

definition raid_fgetattr :: "string \<Rightarrow> MOUNT_CTX \<Rightarrow> int \<times> fuse_stat" where
  "raid_fgetattr path ctx = raid_getattr path ctx"

record fuse_statvfs =
  f_bsize :: nat
  f_frsize :: nat
  f_blocks :: nat
  f_bfree :: nat
  f_bavail :: nat
  f_files :: nat
  f_ffree :: nat
  f_namemax :: nat

definition raid_statfs :: "MOUNT_CTX \<Rightarrow> STRIPE_VOLUME \<Rightarrow> int \<times> fuse_statvfs option" where
  "raid_statfs ctx vol =
     (if \<not> mc_vol ctx then (- ENOENT, None)
      else
        let blocks = v_virtual_total_bytes vol div SECTOR_SIZE;
            consumed = nat (mc_total_bytes_consumed ctx mod 2 ^ 64);
            freed = nat (mc_total_bytes_freed ctx mod 2 ^ 64);
            used0 = (if freed < consumed then consumed - freed else 0);
            used_bytes = (if v_virtual_total_bytes vol < used0 then v_virtual_total_bytes vol else used0);
            used_blocks = used_bytes div SECTOR_SIZE + (if used_bytes mod SECTOR_SIZE \<noteq> 0 then 1 else 0);
            free = blocks - (if blocks < used_blocks then blocks else used_blocks)
        in (0, Some \<lparr>f_bsize = SECTOR_SIZE, f_frsize = SECTOR_SIZE, f_blocks = blocks, f_bfree = free,
              f_bavail = free, f_files = 64, f_ffree = sub64 64 (length (mc_table ctx)), f_namemax = 255\<rparr>))"

text \<open>
  The two control codes the file system answers. \<open>arg\<close> is the property asked for and \<open>data\<close> the
  capacity of the reply buffer, \<open>None\<close> for a null pointer; the reply is its kind and its value.
\<close>

datatype ioctl_reply = NoReply | LengthInfo nat | DeviceDescriptor nat

definition StorageDeviceProperty :: nat where [const]: "StorageDeviceProperty = 0"
definition DESCRIPTOR_SIZE :: nat where [const]: "DESCRIPTOR_SIZE = 40"

definition raid_ioctl :: "nat \<Rightarrow> nat option \<Rightarrow> nat option \<Rightarrow> MOUNT_CTX \<Rightarrow> STRIPE_VOLUME
    \<Rightarrow> fault + int \<times> ioctl_reply" where
  "raid_ioctl cmd arg data ctx vol =
     (let func = drop_bit 2 (u32 cmd) AND 0xFFF;
          out_size = drop_bit 16 (u32 cmd) AND 0x3FFF
      in if \<not> mc_vol ctx then Inr (- ENODEV, NoReply)
         else if func = 0x17 then
           (case data of
              None \<Rightarrow> Inr (- EFAULT, NoReply)
            | Some cap \<Rightarrow> if cap < 8 then Inl BufferOverflow else Inr (0, LengthInfo (v_virtual_total_bytes vol)))
         else if func = 0x500 then
           (case (arg, data) of
              (Some property, Some cap) \<Rightarrow>
                if property \<noteq> StorageDeviceProperty then Inr (- ENOSYS, NoReply)
                else if cap < 32 \<or> cap < min out_size DESCRIPTOR_SIZE then Inl BufferOverflow
                else Inr (0, DeviceDescriptor (min out_size DESCRIPTOR_SIZE))
            | _ \<Rightarrow> Inr (- EFAULT, NoReply))
         else Inr (- ENOSYS, NoReply))"

section \<open>Removing and resizing files\<close>

definition raid_unlink :: "string \<Rightarrow> MOUNT_CTX \<Rightarrow> int \<times> MOUNT_CTX" where
  "raid_unlink path ctx =
     (let p = strip_path path
      in if p = [] then (- ENOENT, ctx)
         else case remove_open_file_get_size p (mc_table ctx) of
           (sz, t) \<Rightarrow> let ctx1 = ctx\<lparr>mc_table := t\<rparr> in (0, if 0 < sz then add_freed sz ctx1 else ctx1))"

text \<open>The size is a signed 64-bit offset; the file's size is its cast to \<open>uint64_t\<close>.\<close>

definition raid_truncate :: "string \<Rightarrow> int \<Rightarrow> MOUNT_CTX \<Rightarrow> int \<times> MOUNT_CTX" where
  "raid_truncate path new_size ctx =
     (let p = strip_path path; n = nat (new_size mod 2 ^ 64)
      in if p = [] then (- ENOENT, ctx)
         else case find_open_file p (mc_table ctx) of
           None \<Rightarrow> (0, ctx)
         | Some i \<Rightarrow>
             let old_size = fe_size (mc_table ctx ! i); ctx1 = set_file_size i n ctx
             in (0, if n < old_size then add_freed (old_size - n) ctx1
                    else if old_size < n then
                      update_highest_written (long64 new_size) (add_consumed (n - old_size) ctx1)
                    else ctx1))"

section \<open>Reading\<close>

text \<open>The buffer from an offset on, and the buffer with that part replaced.\<close>

definition mem_from :: "nat \<Rightarrow> mem \<Rightarrow> mem" where
  "mem_from k m = (\<lambda>i. m (k + i))"

definition mem_onto :: "nat \<Rightarrow> mem \<Rightarrow> mem \<Rightarrow> mem" where
  "mem_onto k m m' = (\<lambda>i. if i < k then m i else m' (i - k))"

function read_chunks :: "os \<Rightarrow> nat \<Rightarrow> nat \<Rightarrow> nat \<Rightarrow> STRIPE_VOLUME \<Rightarrow> mem \<Rightarrow> sys
    \<Rightarrow> fault + int \<times> STRIPE_VOLUME \<times> mem \<times> sys" where
  "read_chunks os remaining total_read curr_off vol buf s =
     (if remaining = 0 then Inr (c_int total_read, vol, buf, s)
      else
        let chunk = min_u64 remaining MAX_CHUNK
        in case stripe_volume_read os vol (mem_from total_read buf) curr_off chunk s of
             Inl f \<Rightarrow> Inl f
           | Inr (False, vol1, buf1, s1) \<Rightarrow>
               Inr (if 0 < c_int total_read then c_int total_read else - EIO, vol1,
                    mem_onto total_read buf buf1, s1)
           | Inr (True, vol1, buf1, s1) \<Rightarrow>
               read_chunks os (remaining - chunk) (u64 (total_read + chunk)) (u64 (curr_off + chunk)) vol1
                 (mem_onto total_read buf buf1) s1)"
  by pat_completeness auto
termination
  by (relation "measure (\<lambda>(os, remaining, _). remaining)") (auto simp: MAX_CHUNK_def)

declare read_chunks.simps [simp del]

definition raid_read :: "os \<Rightarrow> string \<Rightarrow> nat \<Rightarrow> nat \<Rightarrow> MOUNT_CTX \<Rightarrow> STRIPE_VOLUME \<Rightarrow> mem \<Rightarrow> sys
    \<Rightarrow> fault + int \<times> STRIPE_VOLUME \<times> mem \<times> sys" where
  "raid_read os path n off ctx vol buf s =
     (if \<not> mc_vol ctx then Inr (- EIO, vol, buf, s)
      else
        let file_size = (case find_open_file (strip_path path) (mc_table ctx) of
              None \<Rightarrow> 0 | Some i \<Rightarrow> fe_size (mc_table ctx ! i))
        in if file_size \<le> off then Inr (0, vol, buf, s)
           else
             let end = min_u64 (u64 (off + n)) file_size
             in read_chunks os (sub64 end off) 0 off vol buf s)"

section \<open>Writing\<close>

text \<open>\<^verbatim>\<open>cache_flush_all\<close> under the guard \<^verbatim>\<open>g_flush_in_progress\<close>.\<close>

definition guarded_flush :: "os \<Rightarrow> nat \<Rightarrow> MOUNT_CTX \<Rightarrow> STRIPE_VOLUME \<Rightarrow> sys \<Rightarrow> fault + MOUNT_CTX \<times> STRIPE_VOLUME \<times> sys" where
  "guarded_flush os now ctx vol s =
     (if mc_flush_in_progress ctx \<noteq> 0 then Inr (ctx\<lparr>mc_flush_in_progress := 1\<rparr>, vol, s)
      else case cache_flush_all os now vol s of
        Inl f \<Rightarrow> Inl f
      | Inr (vol1, s1) \<Rightarrow> Inr (ctx\<lparr>mc_flush_in_progress := 0\<rparr>, vol1, s1))"

definition cache_backpressure :: "os \<Rightarrow> nat \<Rightarrow> MOUNT_CTX \<Rightarrow> STRIPE_VOLUME \<Rightarrow> sys \<Rightarrow> fault + MOUNT_CTX \<times> STRIPE_VOLUME \<times> sys" where
  "cache_backpressure os now ctx vol s =
     (if \<not> v_cache_enabled vol \<or> c_block_count (v_cache vol) = 0 then Inr (ctx, vol, s)
      else if u32 (c_block_count (v_cache vol) * 9) div 10 < dirty_count (v_cache vol)
      then guarded_flush os now ctx vol s
      else Inr (ctx, vol, s))"

text \<open>
  One attempt to put the next piece into the cache: the length it has, and the volume when the
  cache took it.
\<close>

definition cache_piece :: "nat \<Rightarrow> nat \<Rightarrow> STRIPE_VOLUME \<Rightarrow> nat" where
  "cache_piece end curr_off vol =
     min_u64 (sub64 end curr_off) (min_u64 MAX_CHUNK (sub64 (c_cache_size_bytes (v_cache vol)) curr_off))"

definition wrote :: "nat \<Rightarrow> nat \<Rightarrow> MOUNT_CTX \<Rightarrow> MOUNT_CTX" where
  "wrote curr_off n ctx = update_highest_written (long64 (int (u64 (curr_off + n)))) (add_consumed n ctx)"

definition try_cache :: "os \<Rightarrow> nat \<Rightarrow> nat \<Rightarrow> nat \<Rightarrow> mem \<Rightarrow> MOUNT_CTX \<Rightarrow> STRIPE_VOLUME \<Rightarrow> sys
    \<Rightarrow> fault + nat \<times> MOUNT_CTX \<times> STRIPE_VOLUME \<times> sys" where
  "try_cache os now end curr_off buf ctx vol s =
     (if \<not> (v_cache_enabled vol \<and> curr_off < c_cache_size_bytes (v_cache vol)) then Inr (0, ctx, vol, s)
      else case cache_backpressure os now ctx vol s of
        Inl f \<Rightarrow> Inl f
      | Inr (ctx1, vol1, s1) \<Rightarrow>
          let n = cache_piece end curr_off vol1
          in if n = 0 then Inr (0, ctx1, vol1, s1)
             else case cache_write (v_cache vol1) (read_bytes buf 0 n) curr_off of
               (False, c) \<Rightarrow> Inr (0, ctx1, vol1\<lparr>v_cache := c\<rparr>, s1)
             | (True, c) \<Rightarrow> Inr (n, wrote curr_off n ctx1, add_bytes_written n (vol1\<lparr>v_cache := c\<rparr>), s1))"

text \<open>
  The loop of a write. \<open>remaining\<close> never falls below a piece: a piece is at most \<open>end - curr_off\<close>,
  which is what remains.
\<close>

function write_chunks :: "os \<Rightarrow> nat \<Rightarrow> nat \<Rightarrow> nat \<Rightarrow> nat \<Rightarrow> nat \<Rightarrow> mem \<Rightarrow> MOUNT_CTX \<Rightarrow> STRIPE_VOLUME \<Rightarrow> sys
    \<Rightarrow> fault + bool \<times> nat \<times> MOUNT_CTX \<times> STRIPE_VOLUME \<times> sys" where
  "write_chunks os now end remaining total_written curr_off buf ctx vol s =
     (if remaining = 0 then Inr (True, total_written, ctx, vol, s)
      else case try_cache os now end curr_off (mem_from total_written buf) ctx vol s of
        Inl f \<Rightarrow> Inl f
      | Inr (n, ctx1, vol1, s1) \<Rightarrow>
          if 0 < n
          then write_chunks os now end (remaining - n) (u64 (total_written + n)) (u64 (curr_off + n)) buf ctx1 vol1 s1
          else
            let to_write = min_u64 remaining MAX_CHUNK
            in case stripe_volume_write os vol1 (mem_from total_written buf) curr_off to_write s1 of
                 Inl f \<Rightarrow> Inl f
               | Inr (False, vol2, _, s2) \<Rightarrow> Inr (False, total_written, ctx1, vol2, s2)
               | Inr (True, vol2, _, s2) \<Rightarrow>
                   write_chunks os now end (remaining - to_write) (u64 (total_written + to_write))
                     (u64 (curr_off + to_write)) buf (wrote curr_off to_write ctx1) vol2 s2)"
  by pat_completeness auto
termination
  by (relation "measure (\<lambda>(os, now, end, remaining, _). remaining)") (auto simp: MAX_CHUNK_def)

declare write_chunks.simps [simp del]

definition grow_file :: "string \<Rightarrow> nat \<Rightarrow> MOUNT_CTX \<Rightarrow> MOUNT_CTX" where
  "grow_file p write_end ctx = (case find_open_file p (mc_table ctx) of
     None \<Rightarrow> ctx
   | Some i \<Rightarrow> if fe_size (mc_table ctx ! i) < write_end then set_file_size i write_end ctx else ctx)"

definition raid_write :: "os \<Rightarrow> nat \<Rightarrow> string \<Rightarrow> mem \<Rightarrow> nat \<Rightarrow> nat \<Rightarrow> MOUNT_CTX \<Rightarrow> STRIPE_VOLUME \<Rightarrow> sys
    \<Rightarrow> fault + int \<times> MOUNT_CTX \<times> STRIPE_VOLUME \<times> sys" where
  "raid_write os now path buf n off ctx vol s =
     (if \<not> mc_vol ctx then Inr (- EIO, ctx, vol, s)
      else if v_virtual_total_bytes vol \<le> off then Inr (0, ctx, vol, s)
      else
        let end = min_u64 (u64 (off + n)) (v_virtual_total_bytes vol); p = strip_path path
        in case write_chunks os now end (sub64 end off) 0 off buf ctx vol s of
             Inl f \<Rightarrow> Inl f
           | Inr (False, done_bytes, ctx1, vol1, s1) \<Rightarrow>
               Inr (if 0 < c_int done_bytes then c_int done_bytes else - EIO, ctx1, vol1, s1)
           | Inr (True, done_bytes, ctx1, vol1, s1) \<Rightarrow>
               Inr (c_int done_bytes,
                    if p \<noteq> [] \<and> 0 < done_bytes then grow_file p (u64 (off + done_bytes)) ctx1 else ctx1, vol1, s1))"

text \<open>\<^verbatim>\<open>raid_flush\<close>, and \<^verbatim>\<open>raid_fsync\<close> with the same body; both return 0.\<close>

definition raid_flush :: "os \<Rightarrow> nat \<Rightarrow> MOUNT_CTX \<Rightarrow> STRIPE_VOLUME \<Rightarrow> sys \<Rightarrow> fault + MOUNT_CTX \<times> STRIPE_VOLUME \<times> sys" where
  "raid_flush os now ctx vol s =
     (if mc_vol ctx \<and> v_cache_enabled vol then guarded_flush os now ctx vol s else Inr (ctx, vol, s))"

definition raid_fsync :: "os \<Rightarrow> nat \<Rightarrow> MOUNT_CTX \<Rightarrow> STRIPE_VOLUME \<Rightarrow> sys \<Rightarrow> fault + MOUNT_CTX \<times> STRIPE_VOLUME \<times> sys" where
  "raid_fsync os now ctx vol s =
     (if mc_vol ctx \<and> v_cache_enabled vol then guarded_flush os now ctx vol s else Inr (ctx, vol, s))"

text \<open>Releasing a file drops the handle's copy of the path.\<close>

definition raid_release :: "(nat \<times> string) option \<Rightarrow> int \<times> (nat \<times> string) option" where
  "raid_release fi = (0, None)"

section \<open>Mounting\<close>

text \<open>
  The three calls are \<open>fuse_mount\<close>, \<open>fuse_new\<close> and the start of the thread. The table of files of
  an earlier mount stays.
\<close>

definition fuse_mount_volume :: "os \<Rightarrow> char \<Rightarrow> MOUNT_CTX \<Rightarrow> STRIPE_VOLUME \<Rightarrow> 'a world_scheme
    \<Rightarrow> bool \<times> MOUNT_CTX \<times> STRIPE_VOLUME \<times> 'a world_scheme" where
  "fuse_mount_volume os letter ctx vol w =
     (let mp = [letter, CHR '':''];
          ctx1 = ctx\<lparr>mc_vol := True, mc_highest_byte_written := 0, mc_total_bytes_freed := 0,
                     mc_total_bytes_consumed := 0, mc_mount_point := mp\<rparr>;
          vol1 = vol\<lparr>v_mount_point := mp\<rparr>
      in if \<not> sys_ok os w then (False, ctx1, vol1, tick w)
         else if \<not> sys_ok os (tick w) then (False, ctx1, vol1, tick (tick w))
         else if \<not> sys_ok os (tick (tick w)) then (False, ctx1, vol1, tick (tick (tick w)))
         else (True, ctx1\<lparr>mc_thread := True\<rparr>, vol1, tick (tick (tick w))))"

text \<open>
  Unmounting forgets the thread and marks the table's lock as not initialised. The drive letter goes only to
  the call of WinFsp, whose answer is not looked at, and to the log, so it is no argument here.
\<close>

definition fuse_unmount_volume :: "MOUNT_CTX \<Rightarrow> bool \<times> MOUNT_CTX" where
  "fuse_unmount_volume ctx = (True, ctx\<lparr>mc_thread := False, mc_lock_init := False\<rparr>)"

section \<open>Data through a file\<close>

lemma mem_from_0 [simp]: "mem_from 0 m = m"
  by (simp add: mem_from_def)

lemma mem_onto_0 [simp]: "mem_onto 0 m m' = m'"
  by (simp add: mem_onto_def)

lemma c_int_small: "n < 2 ^ 31 \<Longrightarrow> c_int n = int n"
  by (simp add: c_int_def)

text \<open>On an uncached volume a short request is one call of the engine.\<close>

lemma write_chunks_direct:
  assumes good: "all_good os" "stripe_good cap su vol s"
    and n: "0 < n" "n \<le> MAX_CHUNK" "n \<le> unit_bytes su" "off + n \<le> cap"
  shows "\<exists>vol' s'. write_chunks os now end n 0 off buf ctx vol s = Inr (True, n, wrote off n ctx, vol', s') \<and>
    stripe_good cap su vol' s' \<and>
    (\<forall>x < cap. volume_byte vol' s' x = write_bytes (volume_byte vol s) off (read_bytes buf 0 n) x)"
proof -
  obtain vol' s' where W: "stripe_volume_write os vol buf off n s = Inr (True, vol', buf, s')" "stripe_good cap su vol' s'"
    "\<forall>x < cap. volume_byte vol' s' x = write_bytes (volume_byte vol s) off (read_bytes buf 0 n) x"
    using stripe_write_good [OF good n(1,3,4)] by blast
  have "\<not> v_cache_enabled vol" using good(2) by (simp add: stripe_good_def)
  then have "try_cache os now end off buf ctx vol s = Inr (0, ctx, vol, s)" by (simp add: try_cache_def)
  then have "write_chunks os now end n 0 off buf ctx vol s = Inr (True, n, wrote off n ctx, vol', s')"
    using W(1) n(1,2) by (simp add: write_chunks.simps [of os now "end" n] write_chunks.simps [of os now "end" 0]
        MAX_CHUNK_def wrap)
  then show ?thesis using W by blast
qed

lemma read_chunks_direct:
  assumes good: "all_good os" "stripe_good cap su vol s"
    and n: "0 < n" "n \<le> MAX_CHUNK" "n \<le> unit_bytes su" "off + n \<le> cap"
  shows "\<exists>vol' s'. read_chunks os n 0 off vol buf s =
      Inr (int n, vol', write_bytes buf 0 (read_bytes (volume_byte vol s) off n), s') \<and>
    stripe_good cap su vol' s' \<and> volume_byte vol' s' = volume_byte vol s"
proof -
  obtain vol' s' where R: "stripe_volume_read os vol buf off n s =
      Inr (True, vol', write_bytes buf 0 (read_bytes (volume_byte vol s) off n), s')"
    "stripe_good cap su vol' s'" "volume_byte vol' s' = volume_byte vol s"
    using stripe_read_good [OF good n(1,3,4), of buf] by blast
  then have "read_chunks os n 0 off vol buf s = Inr (int n, vol', write_bytes buf 0 (read_bytes (volume_byte vol s) off n), s')"
    using n(1,2) by (simp add: read_chunks.simps [of os n] read_chunks.simps [of os 0] MAX_CHUNK_def wrap c_int_small)
  then show ?thesis using R by blast
qed

definition file_size_of :: "string \<Rightarrow> MOUNT_CTX \<Rightarrow> nat" where
  "file_size_of path ctx = (case find_open_file (strip_path path) (mc_table ctx) of
     None \<Rightarrow> 0 | Some i \<Rightarrow> fe_size (mc_table ctx ! i))"

lemma raid_write_direct:
  assumes good: "all_good os" "stripe_good cap su vol s" and m: "mc_vol ctx"
    and n: "0 < n" "n \<le> MAX_CHUNK" "n \<le> unit_bytes su" "off + n \<le> cap"
  shows "\<exists>vol' s'. raid_write os now path buf n off ctx vol s =
      Inr (int n, if strip_path path \<noteq> [] then grow_file (strip_path path) (off + n) (wrote off n ctx) else wrote off n ctx,
           vol', s') \<and> stripe_good cap su vol' s' \<and>
    (\<forall>x < cap. volume_byte vol' s' x = write_bytes (volume_byte vol s) off (read_bytes buf 0 n) x)"
proof -
  have cap: "v_virtual_total_bytes vol = cap" "cap < 2 ^ 64" using good(2) by (auto simp: stripe_good_def wf_layout_def)
  have u: "u64 (off + n) = off + n" using n(4) cap(2) by (intro u64_id) linarith
  have "min (off + n) cap = off + n" using n(4) by simp
  moreover have "sub64 (off + n) off = n" using n(4) cap(2) by (subst sub64_id) simp_all
  moreover obtain vol' s' where "write_chunks os now (off + n) n 0 off buf ctx vol s = Inr (True, n, wrote off n ctx, vol', s')"
    "stripe_good cap su vol' s'" "\<forall>x < cap. volume_byte vol' s' x = write_bytes (volume_byte vol s) off (read_bytes buf 0 n) x"
    using write_chunks_direct [OF good n] by blast
  ultimately show ?thesis using m n u cap(1) by (simp add: raid_write_def Let_def c_int_small MAX_CHUNK_def)
qed

lemma raid_read_direct:
  assumes good: "all_good os" "stripe_good cap su vol s" and m: "mc_vol ctx"
    and n: "0 < n" "n \<le> MAX_CHUNK" "n \<le> unit_bytes su" "off + n \<le> cap" "off + n \<le> file_size_of path ctx"
  shows "\<exists>vol' s'. raid_read os path n off ctx vol buf s =
      Inr (int n, vol', write_bytes buf 0 (read_bytes (volume_byte vol s) off n), s') \<and>
    stripe_good cap su vol' s' \<and> volume_byte vol' s' = volume_byte vol s"
proof -
  have cap: "cap < 2 ^ 64" using good(2) by (auto simp: stripe_good_def wf_layout_def)
  have u: "u64 (off + n) = off + n" using n(4) cap by (intro u64_id) linarith
  have "min (off + n) (file_size_of path ctx) = off + n" using n(5) by simp
  moreover have "sub64 (off + n) off = n" using n(4) cap by (subst sub64_id) simp_all
  moreover have "\<not> file_size_of path ctx \<le> off" using n by linarith
  ultimately have "raid_read os path n off ctx vol buf s = read_chunks os n 0 off vol buf s"
    using m u unfolding raid_read_def file_size_of_def Let_def by simp
  then show ?thesis using read_chunks_direct [OF good n(1-4)] by simp
qed

section \<open>The table under every call\<close>

lemma table_ok_paths:
  "table_ok t \<longleftrightarrow> length (map fe_path t) \<le> 64 \<and> distinct (map fe_path t) \<and>
     list_all (\<lambda>p. p \<noteq> [] \<and> length p \<le> 255) (map fe_path t)"
  by (simp add: table_ok_def list.pred_map comp_def)

lemma set_file_size_table:
  assumes "table_ok (mc_table ctx)" "i < length (mc_table ctx)"
  shows "table_ok (mc_table (set_file_size i n ctx))"
    "dir_of (mc_table (set_file_size i n ctx)) = (dir_of (mc_table ctx))(fe_path (mc_table ctx ! i) \<mapsto> (fe_is_dir (mc_table ctx ! i), n))"
proof -
  let ?t = "mc_table ctx" and ?t' = "mc_table (set_file_size i n ctx)"
  have t': "?t' = ?t[i := (?t ! i)\<lparr>fe_size := n\<rparr>]" by (simp add: set_file_size_def)
  have paths: "map fe_path ?t' = map fe_path ?t"
    unfolding t' by (simp add: map_update) (metis assms(2) length_map list_update_id nth_map)
  have same: "fe_path ` set ?t' = fe_path ` set ?t" using arg_cong [OF paths, of set] by simp
  show ok: "table_ok ?t'" using assms(1) unfolding table_ok_paths paths .
  show "dir_of ?t' = (dir_of ?t)(fe_path (?t ! i) \<mapsto> (fe_is_dir (?t ! i), n))"
  proof (rule ext)
    fix q
    show "dir_of ?t' q = ((dir_of ?t)(fe_path (?t ! i) \<mapsto> (fe_is_dir (?t ! i), n))) q"
    proof (cases "q \<in> fe_path ` set ?t")
      case True
      then obtain j where j: "j < length ?t" "q = fe_path (?t ! j)" by (auto simp: in_set_conv_nth)
      have "q = fe_path (?t' ! j)" "j < length ?t'" using j paths by (metis length_map nth_map)+
      then have "dir_of ?t' q = Some (fe_is_dir (?t' ! j), fe_size (?t' ! j))" using dir_of_nth [OF ok] by blast
      moreover have "q = fe_path (?t ! i) \<longleftrightarrow> j = i"
        using assms j nth_eq_iff_index_eq [of "map fe_path ?t" j i] by (simp add: table_ok_def)
      moreover have "dir_of ?t q = Some (fe_is_dir (?t ! j), fe_size (?t ! j))" using dir_of_nth [OF assms(1)] j by blast
      ultimately show ?thesis using j assms(2) by (auto simp: t' nth_list_update)
    next
      case False
      then have "q \<notin> dom (dir_of ?t')" "q \<notin> dom (dir_of ?t)" "q \<noteq> fe_path (?t ! i)"
        using same assms(2) by (auto simp: dir_of_dom)
      then show ?thesis by (metis domIff fun_upd_apply)
    qed
  qed
qed

lemma set_file_size_tree:
  assumes "tree_ok (mc_table ctx)" "i < length (mc_table ctx)"
  shows "tree_ok (mc_table (set_file_size i n ctx))"
proof -
  have ok: "table_ok (mc_table ctx)" using assms(1) by (simp add: tree_ok_iff)
  note S = set_file_size_table [OF ok assms(2), of n]
  have D: "dir_of (mc_table ctx) (fe_path (mc_table ctx ! i)) = Some (fe_is_dir (mc_table ctx ! i), fe_size (mc_table ctx ! i))"
    by (rule dir_of_nth [OF ok assms(2)])
  have "(\<exists>k. dir_of (mc_table (set_file_size i n ctx)) q = Some (True, k)) \<longleftrightarrow> (\<exists>k. dir_of (mc_table ctx) q = Some (True, k))" for q
    using D by (cases "q = fe_path (mc_table ctx ! i)") (auto simp: S(2))
  then have "parent_dir_exists p (mc_table (set_file_size i n ctx)) = parent_dir_exists p (mc_table ctx)" for p
    by (simp add: parent_dir_exists_iff [OF ok] parent_dir_exists_iff [OF S(1)])
  moreover have "dom (dir_of (mc_table (set_file_size i n ctx))) = dom (dir_of (mc_table ctx))"
    using D by (auto simp: S(2))
  ultimately show ?thesis using assms(1) S(1) by (simp add: tree_ok_iff)
qed

lemma ctx_tables [simp]:
  "mc_table (add_freed n ctx) = mc_table ctx" "mc_table (add_consumed n ctx) = mc_table ctx"
  "mc_table (update_highest_written k ctx) = mc_table ctx" "mc_table (wrote off n ctx) = mc_table ctx"
  by (simp_all add: add_freed_def add_consumed_def update_highest_written_def wrote_def)

lemma try_cache_table:
  "try_cache os now end off buf ctx vol s = Inr (n, ctx1, vol1, s1) \<Longrightarrow> mc_table ctx1 = mc_table ctx"
  by (auto simp: try_cache_def cache_backpressure_def guarded_flush_def Let_def
      split: if_splits sum.splits prod.splits bool.splits)

lemma write_chunks_table:
  "write_chunks os now end rest w off buf ctx vol s = Inr (ok, k, ctx', vol', s') \<Longrightarrow> mc_table ctx' = mc_table ctx"
proof (induction os now "end" rest w off buf ctx vol s rule: write_chunks.induct)
  case (1 os now "end" rest w off buf ctx vol s)
  show ?case
  proof (cases "rest = 0")
    case True
    then show ?thesis using "1.prems" by (simp add: write_chunks.simps)
  next
    case False
    obtain n ctx1 vol1 s1 where T: "try_cache os now end off (mem_from w buf) ctx vol s = Inr (n, ctx1, vol1, s1)"
      using "1.prems" False by (subst (asm) write_chunks.simps) (auto split: sum.splits)
    note K = try_cache_table [OF T]
    show ?thesis
    proof (cases "0 < n")
      case True
      then have "write_chunks os now end (rest - n) (u64 (w + n)) (u64 (off + n)) buf ctx1 vol1 s1 = Inr (ok, k, ctx', vol', s')"
        using "1.prems" False T by (subst (asm) write_chunks.simps) simp
      from "1.IH"(1) [OF False T refl refl refl True this] K show ?thesis by simp
    next
      case n: False
      let ?m = "min_u64 rest MAX_CHUNK"
      obtain ok2 vol2 b2 s2 where W: "stripe_volume_write os vol1 (mem_from w buf) off ?m s1 = Inr (ok2, vol2, b2, s2)"
        using "1.prems" False T n by (subst (asm) write_chunks.simps) (auto simp: Let_def split: sum.splits)
      show ?thesis
      proof (cases ok2)
        case True
        then have "write_chunks os now end (rest - ?m) (u64 (w + ?m)) (u64 (off + ?m)) buf (wrote off ?m ctx1) vol2 s2 =
            Inr (ok, k, ctx', vol', s')"
          using "1.prems" False T n W by (subst (asm) write_chunks.simps) (simp add: Let_def)
        from "1.IH"(2) [OF False T refl refl refl n refl W refl _ refl _ this] True K show ?thesis by simp
      next
        case False2: False
        then have "ctx' = ctx1" using "1.prems" False T n W by (subst (asm) write_chunks.simps) (simp add: Let_def)
        then show ?thesis using K by simp
      qed
    qed
  qed
qed

lemma grow_file_tree: "tree_ok (mc_table ctx) \<Longrightarrow> tree_ok (mc_table (grow_file p n ctx))"
  using find_Some [of p "mc_table ctx"] set_file_size_tree by (auto simp: grow_file_def split: option.split)

text \<open>
  The calls that change the table, with two exceptions that \<open>raid_rename\<close> and \<open>raid_unlink\<close> do not
  check themselves: a rename of a directory into its own subtree, or that makes a path too long,
  and an unlink of a directory.
\<close>

inductive fs_step :: "MOUNT_CTX \<Rightarrow> MOUNT_CTX \<Rightarrow> bool" where
  open_file: "raid_open path flags (mc_table ctx) = (r, h, t) \<Longrightarrow> fs_step ctx (ctx\<lparr>mc_table := t\<rparr>)"
| create: "raid_create_entry path (mc_table ctx) = (r, t) \<Longrightarrow> fs_step ctx (ctx\<lparr>mc_table := t\<rparr>)"
| mkdir: "raid_mkdir path (mc_table ctx) = (r, t) \<Longrightarrow> fs_step ctx (ctx\<lparr>mc_table := t\<rparr>)"
| rmdir: "raid_rmdir path (mc_table ctx) = (r, t) \<Longrightarrow> fs_step ctx (ctx\<lparr>mc_table := t\<rparr>)"
| rename: "can_rename (strip_path old) (strip_path new) (mc_table ctx) \<Longrightarrow> raid_rename old new (mc_table ctx) = (r, t) \<Longrightarrow>
    fs_step ctx (ctx\<lparr>mc_table := t\<rparr>)"
| unlink: "\<not> is_dir_by_path (strip_path path) (mc_table ctx) \<Longrightarrow> raid_unlink path ctx = (r, ctx') \<Longrightarrow> fs_step ctx ctx'"
| truncate: "raid_truncate path n ctx = (r, ctx') \<Longrightarrow> fs_step ctx ctx'"
| put: "raid_write os now path buf n off ctx vol s = Inr (r, ctx', vol', s') \<Longrightarrow> fs_step ctx ctx'"

lemma raid_open_tree:
  assumes tree: "tree_ok t" and run: "raid_open path flags t = (r, h, t')"
  shows "tree_ok t'"
proof (cases "t' = t")
  case False
  let ?p = "strip_path path"
  have p: "?p \<noteq> []" "length ?p \<le> 255" "parent_dir_exists ?p t" "find_open_file ?p t = None" "length t < 64"
    "t' = snd (add_open_file ?p False t)"
    using run False by (auto simp: raid_open_def find_or_add_file_def add_open_file_def Let_def
        split: if_splits option.splits prod.splits)
  then show ?thesis using tree_add [OF tree, of ?p False] find_None domIff by (metis snd_conv)
qed (use tree in simp)

lemma raid_rename_spec:
  assumes tree: "tree_ok t" and can: "can_rename (strip_path old) (strip_path new) t" and run: "raid_rename old new t = (r, t')"
  shows "tree_ok t'"
    "r = 0 \<Longrightarrow> dom (dir_of t') = rekey (strip_path old) (strip_path new) ` dom (dir_of t) \<and>
       (\<forall>p \<in> dom (dir_of t). dir_of t' (rekey (strip_path old) (strip_path new) p) = dir_of t p)"
    "r \<noteq> 0 \<Longrightarrow> t' = t"
proof -
  let ?src = "strip_path old" and ?dst = "strip_path new"
  have ok: "table_ok t" using tree by (simp add: tree_ok_iff)
  have "(r \<noteq> 0 \<and> t' = t) \<or> (\<exists>idx. r = 0 \<and> find_open_file ?src t = Some idx \<and> t' = rename_entries idx ?src ?dst t \<and> ?src \<noteq> [] \<and>
      ?dst \<noteq> [] \<and> length ?dst \<le> 254 \<and> parent_dir_exists ?dst t \<and> find_open_file ?dst t = None)"
    using run by (auto simp: raid_rename_def Let_def const split: if_splits option.splits)
  then consider "r \<noteq> 0" "t' = t" | idx where "r = 0" "find_open_file ?src t = Some idx" "t' = rename_entries idx ?src ?dst t"
    "?src \<noteq> []" "?dst \<noteq> []" "length ?dst \<le> 254" "parent_dir_exists ?dst t" "?dst \<notin> dom (dir_of t)"
    using find_None by blast
  note C = this
  show "tree_ok t'"
    using C by cases (use tree rename_tree [OF tree _ _ can] in auto)
  show "r = 0 \<Longrightarrow> dom (dir_of t') = rekey ?src ?dst ` dom (dir_of t) \<and>
       (\<forall>p \<in> dom (dir_of t). dir_of t' (rekey ?src ?dst p) = dir_of t p)"
    using C by cases (use rename_dir [OF tree _ _ can] in auto)
  show "r \<noteq> 0 \<Longrightarrow> t' = t" using C by cases auto
qed

lemma raid_unlink_tree:
  assumes tree: "tree_ok (mc_table ctx)" and nodir: "\<not> is_dir_by_path (strip_path path) (mc_table ctx)"
    and run: "raid_unlink path ctx = (r, ctx')"
  shows "tree_ok (mc_table ctx')"
    "strip_path path \<noteq> [] \<Longrightarrow> dir_of (mc_table ctx') = (dir_of (mc_table ctx))(strip_path path := None)"
proof -
  let ?p = "strip_path path" and ?t = "mc_table ctx"
  have ok: "table_ok ?t" using tree by (simp add: tree_ok_iff)
  have t': "mc_table ctx' = (if ?p = [] then ?t else case find_open_file ?p ?t of None \<Rightarrow> ?t | Some i \<Rightarrow> swap_remove i ?t)"
    using run by (auto simp: raid_unlink_def remove_open_file_get_size_def Let_def split: if_splits option.splits)
  show "tree_ok (mc_table ctx')"
  proof (cases "find_open_file ?p ?t")
    case (Some i)
    note I = find_Some [OF Some]
    have "\<not> below ?p q" if q: "q \<in> dom (dir_of ?t)" "?p \<noteq> []" for q
      using tree_ancestor [OF tree q(1) _ q(2)] nodir is_dir_by_path_iff [OF ok] by blast
    then show ?thesis using t' Some tree tree_remove [OF tree, of i] I by auto
  qed (use t' tree in auto)
  assume "?p \<noteq> []"
  then show "dir_of (mc_table ctx') = (dir_of ?t)(?p := None)"
    using t' find_None [of ?p ?t] find_Some [of ?p ?t] swap_remove_dir(2) [OF ok]
    by (cases "find_open_file ?p ?t") (auto simp: fun_upd_idem_iff domIff)
qed

lemma fs_step_tree: "fs_step ctx ctx' \<Longrightarrow> tree_ok (mc_table ctx) \<Longrightarrow> tree_ok (mc_table ctx')"
proof (induction rule: fs_step.induct)
  case (create path ctx r t)
  then show ?case using new_entry_spec(1) [of "mc_table ctx" "strip_path path" False r t]
    by (auto simp: raid_create_entry_def Let_def split: if_splits)
next
  case (mkdir path ctx r t)
  then show ?case using new_entry_spec(1) [of "mc_table ctx" "strip_path path" True r t]
    by (auto simp: raid_mkdir_def Let_def split: if_splits)
next
  case (truncate path n ctx r ctx')
  then show ?case using find_Some [of "strip_path path" "mc_table ctx"] set_file_size_tree [of ctx]
    by (auto simp: raid_truncate_def Let_def split: if_splits option.splits)
next
  case (put os now path buf n off ctx vol s r ctx' vol' s')
  from put(1) obtain ctx1 where
    "mc_table ctx' = mc_table ctx \<or> (\<exists>p n. ctx' = grow_file p n ctx1 \<or> ctx' = ctx1) \<and> mc_table ctx1 = mc_table ctx"
    by (auto simp: raid_write_def Let_def dest!: write_chunks_table split: if_splits sum.splits bool.splits prod.splits)
  then show ?case using put(2) grow_file_tree by metis
qed (auto intro: raid_open_tree raid_rmdir_spec(1) raid_rename_spec(1) raid_unlink_tree(1))

inductive fs_reach :: "MOUNT_CTX \<Rightarrow> MOUNT_CTX \<Rightarrow> bool" where
  start: "fs_reach ctx ctx"
| step: "fs_reach ctx ctx1 \<Longrightarrow> fs_step ctx1 ctx2 \<Longrightarrow> fs_reach ctx ctx2"

lemma fs_reach_tree: "fs_reach ctx ctx' \<Longrightarrow> tree_ok (mc_table ctx) \<Longrightarrow> tree_ok (mc_table ctx')"
  by (induction rule: fs_reach.induct) (use fs_step_tree in auto)

lemma tree_ok_Nil [simp]: "tree_ok []"
  by (simp add: tree_ok_def table_ok_def)

section \<open>A flush of a mirror\<close>

text \<open>
  A mirror has no phases, so no cached run of it maps to a disk: a flush logs the blocks in the
  journal and writes none.
\<close>

lemma snd_append_media: "w_media (snd (append_chunks os p cs w)) = w_media w"
proof (induction cs arbitrary: w)
  case (Cons c cs)
  then show ?case using file_ops_keep(3) [of os p c w] by (auto split: prod.split bool.split)
qed simp

lemma journal_append_media: "w_media (snd (journal_append os cs d s)) = w_media s"
proof -
  let ?p = "journal_path (s_heap s d)"
  obtain o1 s1 where 1: "open_always os ?p s = (o1, s1)" by force
  obtain o2 s2 where 2: "append_chunks os ?p cs s1 = (o2, s2)" by force
  have "w_media s1 = w_media s" "w_media s2 = w_media s1"
    using file_ops_keep(1) [of os ?p s] snd_append_media [of os ?p cs s1] 1 2 by simp_all
  then show ?thesis using 1 2 by (simp add: journal_append_def Let_def file_ops_keep(5) split: bool.split)
qed

lemma journal_append_all_media: "w_media (snd (journal_append_all os cs ds s)) = w_media s"
proof (induction ds arbitrary: s)
  case (Cons d ds)
  then show ?case using journal_append_media [of os cs d s] by (auto split: prod.split) (metis snd_conv)+
qed simp

lemma journal_media:
  "w_media (snd (journal_begin os now vol s)) = w_media s" "w_media (snd (journal_commit os now vol s)) = w_media s"
  "journal_data os now vol off data s = Inr (ok, s') \<Longrightarrow> w_media s' = w_media s"
  using journal_append_all_media
  by (auto simp: journal_begin_def journal_commit_def journal_write_entry_def journal_data_def Let_def split: if_splits)
    (metis snd_conv)+

lemma no_phases_unmapped:
  assumes "v_phase_count vol = 0" shows "stripe_volume_map_lba vol off n = Some (Inr (False, []))"
proof (cases "n = 0 \<or> v_virtual_total_bytes vol \<le> off")
  case False
  have none: "map_single_byte vol off = Inr None" using assms False by (simp add: map_single_byte_def map_phases.simps)
  let ?r = "if v_virtual_total_bytes vol < u64 (off + n) then v_virtual_total_bytes vol - off else n"
  have "0 < ?r" using False by auto
  then have "map_lba_loop vol off ?r [] = Some (Inr (False, []))" by (subst map_lba_loop.simps) (simp add: none const)
  then show ?thesis using False by (simp add: stripe_volume_map_lba_def Let_def)
qed (auto simp: stripe_volume_map_lba_def)

lemma mirror_run:
  assumes "v_phase_count vol = 0" "CHECK_DISKS vol" "c_buffer (v_cache vol) = Some m"
  shows "\<exists>s'. flush_run os now b run vol s = Inr (False, vol, s') \<and> w_media s' = w_media s"
proof -
  have "\<exists>ok s1. journal_data os now vol off data s = Inr (ok, s1) \<and> w_media s1 = w_media s" for off data
  proof -
    obtain r where r: "journal_data os now vol off data s = Inr r" using assms(2) by (simp add: journal_data_def Let_def)
    obtain ok s1 where "r = (ok, s1)" by force
    then show ?thesis using r journal_media(3) by blast
  qed
  then obtain ok s1 where "journal_data os now vol (u64 (b * c_block_size (v_cache vol)))
      (read_bytes m (u64 (b * c_block_size (v_cache vol))) (u32 (run * c_block_size (v_cache vol)))) s = Inr (ok, s1)"
    "w_media s1 = w_media s" by blast
  then show ?thesis using assms(3) by (simp add: flush_run_def Let_def no_phases_unmapped [OF assms(1)])
qed

lemma mirror_loop:
  "v_phase_count vol = 0 \<Longrightarrow> CHECK_DISKS vol \<Longrightarrow> c_buffer (v_cache vol) = Some m \<Longrightarrow>
    \<exists>s'. flush_loop os now b k vol s = Inr (k, vol, s') \<and> w_media s' = w_media s"
proof (induction os now b k vol s rule: flush_loop.induct)
  case (1 os now b k vol s)
  note IH = "1.IH" and pre = "1.prems"
  show ?case
  proof (cases "b < c_block_count (v_cache vol)")
    case b: True
    show ?thesis
    proof (cases "bit_test (c_dirty_map (v_cache vol)) b")
      case False
      then show ?thesis using IH(1) [OF b False pre] b by (subst flush_loop.simps) simp
    next
      case True
      obtain s1 where R: "flush_run os now b (run_at vol b) vol s = Inr (False, vol, s1)" "w_media s1 = w_media s"
        using mirror_run [OF pre] by blast
      have "\<exists>s'. flush_loop os now (b + run_at vol b) k vol s1 = Inr (k, vol, s') \<and> w_media s' = w_media s1"
        using IH(2) [OF b _ R(1) refl refl] True pre by simp
      then show ?thesis using b True R by (subst flush_loop.simps) auto
    qed
  qed (simp add: flush_loop.simps)
qed

section \<open>Properties\<close>

text \<open>
  C25. From an empty table, any sequence of file-system calls (a rename into the renamed
  directory's own subtree or one that makes a path too long, and an unlink of a directory,
  excepted) keeps at most 64 entries with distinct paths of 1 to 255 bytes, and every entry's
  directories exist.
\<close>

theorem reachable_table_is_a_tree:
  assumes "fs_reach ctx ctx'" "mc_table ctx = []"
  shows "length (mc_table ctx') \<le> 64 \<and> distinct (map fe_path (mc_table ctx')) \<and>
    (\<forall>p \<in> dom (dir_of (mc_table ctx')). p \<noteq> [] \<and> length p \<le> 255 \<and>
       (\<forall>d. d \<noteq> [] \<longrightarrow> below d p \<longrightarrow> (\<exists>n. dir_of (mc_table ctx') d = Some (True, n))))"
proof -
  have tree: "tree_ok (mc_table ctx')" using fs_reach_tree [OF assms(1)] assms(2) by simp
  then have ok: "table_ok (mc_table ctx')" by (simp add: tree_ok_iff)
  then show ?thesis using dir_of_length [OF ok] tree_ancestor [OF tree] unfolding table_ok_def by blast
qed

definition made :: MOUNT_CTX where
  "made = zero_ctx\<lparr>mc_table := snd (raid_mkdir ''/a'' (mc_table zero_ctx))\<rparr>"

theorem reachable_table_is_a_tree_witness:
  "length (mc_table made) \<le> 64 \<and> distinct (map fe_path (mc_table made)) \<and> ''a'' \<in> dom (dir_of (mc_table made))"
proof -
  have "fs_step zero_ctx (zero_ctx\<lparr>mc_table := snd (raid_mkdir ''/a'' (mc_table zero_ctx))\<rparr>)"
    by (rule fs_step.mkdir [of "''/a''" _ "fst (raid_mkdir ''/a'' (mc_table zero_ctx))"]) simp
  then have "fs_reach zero_ctx made" unfolding made_def by (rule fs_reach.step [OF fs_reach.start])
  from reachable_table_is_a_tree [OF this] have "length (mc_table made) \<le> 64 \<and> distinct (map fe_path (mc_table made))"
    by (simp add: zero_ctx_def)
  moreover have "mc_table made = [\<lparr>fe_path = ''a'', fe_is_dir = True, fe_size = 0\<rparr>]"
    by (simp add: made_def zero_ctx_def raid_mkdir_def new_entry_def parent_dir_exists_def parent_of_def
        find_open_file_def add_open_file_def)
  ultimately show ?thesis by (simp add: dir_of_def)
qed

text \<open>
  C26. When the target is not inside the source and no moved path reaches 256 bytes, a successful
  rename of a file or directory moves exactly its subtree: seen as a map from paths to attributes,
  the table afterwards is the table before with the paths rekeyed; a failed one changes nothing.
  (Without the condition on the lengths a child is left behind, which is a finding.)
\<close>

theorem rename_moves_the_subtree:
  assumes "tree_ok t" "can_rename (strip_path old) (strip_path new) t" "raid_rename old new t = (r, t')"
  shows "tree_ok t' \<and>
    (if r = 0
     then dom (dir_of t') = rekey (strip_path old) (strip_path new) ` dom (dir_of t) \<and>
       (\<forall>p \<in> dom (dir_of t). dir_of t' (rekey (strip_path old) (strip_path new) p) = dir_of t p)
     else t' = t)"
  using raid_rename_spec [OF assms] by simp

definition two_names :: file_table where
  "two_names = [\<lparr>fe_path = ''a'', fe_is_dir = True, fe_size = 0\<rparr>, \<lparr>fe_path = ''a/x'', fe_is_dir = False, fe_size = 7\<rparr>]"

lemma two_names_tree: "tree_ok two_names"
  by (simp add: two_names_def tree_ok_def table_ok_def parent_dir_exists_def parent_of_def is_dir_by_path_def
      find_open_file_def)

lemma rename_two_names: "raid_rename ''/a'' ''/b'' two_names =
    (0, [\<lparr>fe_path = ''b'', fe_is_dir = True, fe_size = 0\<rparr>, \<lparr>fe_path = ''b/x'', fe_is_dir = False, fe_size = 7\<rparr>])"
  by (simp add: two_names_def raid_rename_def parent_dir_exists_def parent_of_def find_open_file_def
      rename_entries_def moved_path_def upt_rec)

theorem rename_moves_the_subtree_witness:
  "tree_ok [\<lparr>fe_path = ''b'', fe_is_dir = True, fe_size = 0\<rparr>, \<lparr>fe_path = ''b/x'', fe_is_dir = False, fe_size = 7\<rparr>]"
proof -
  have "can_rename (strip_path ''/a'') (strip_path ''/b'') two_names"
    by (simp add: can_rename_def below_def two_names_def dir_of_def)
  from rename_moves_the_subtree [OF two_names_tree this rename_two_names] show ?thesis by simp
qed

text \<open>
  C28. Listing a directory gives the dot entries and then the name of each of its direct children,
  each once, and nothing else.
\<close>

theorem readdir_lists_children:
  assumes "table_ok t" "length (strip_path path) < 256"
  shows "\<exists>ns. raid_readdir path t = Inr (0, [''.'', ''..''] @ ns) \<and> distinct ns \<and>
    set ns = {n. n \<noteq> [] \<and> slash \<notin> set n \<and> join (strip_path path) n \<in> dom (dir_of t)}"
  by (rule readdir_names [OF assms])

theorem readdir_lists_children_witness:
  "\<exists>ns. raid_readdir ''/a'' two_names = Inr (0, [''.'', ''..''] @ ns) \<and> ''x'' \<in> set ns"
proof -
  have "table_ok two_names" using two_names_tree by (simp add: tree_ok_iff)
  then obtain ns where ns: "raid_readdir ''/a'' two_names = Inr (0, [''.'', ''..''] @ ns)"
    "set ns = {n. n \<noteq> [] \<and> slash \<notin> set n \<and> join (strip_path ''/a'') n \<in> dom (dir_of two_names)}"
    using readdir_lists_children [of two_names "''/a''"] by auto
  have "join (strip_path ''/a'') ''x'' \<in> dom (dir_of two_names)" by (simp add: join_def dir_of_dom two_names_def)
  then have "''x'' \<in> set ns" unfolding ns(2) by simp
  then show ?thesis using ns(1) by blast
qed

theorem mkdir_rmdir_restores:
  assumes "tree_ok t" "raid_mkdir (slash # p) t = (0, t1)" "raid_rmdir (slash # p) t1 = (0, t2)"
  shows "dir_of t2 = dir_of t"
  using names.enter_leave [OF assms(1), of True p t1 t2] assms(2,3) by (simp add: enter_name_def leave_name_def)

theorem mkdir_rmdir_restores_witness:
  "dir_of (snd (raid_rmdir ''/c'' (snd (raid_mkdir ''/c'' two_names)))) = dir_of two_names"
proof -
  let ?t1 = "two_names @ [\<lparr>fe_path = ''c'', fe_is_dir = True, fe_size = 0\<rparr>]"
  have 1: "raid_mkdir ''/c'' two_names = (0, ?t1)"
    by (simp add: raid_mkdir_def new_entry_def parent_dir_exists_def parent_of_def find_open_file_def add_open_file_def two_names_def)
  have 2: "raid_rmdir ''/c'' ?t1 = (0, two_names)"
    by (simp add: raid_rmdir_def find_open_file_def is_dir_empty_def swap_remove_def two_names_def)
  show ?thesis using mkdir_rmdir_restores [OF two_names_tree 1 2] 1 2 by simp
qed

theorem rename_into_itself_loses_the_tree:
  "raid_rename ''/a'' ''/a/b'' two_names =
     (0, [\<lparr>fe_path = ''a/b'', fe_is_dir = True, fe_size = 0\<rparr>, \<lparr>fe_path = ''a/b/x'', fe_is_dir = False, fe_size = 7\<rparr>]) \<and>
   raid_readdir ''/'' (snd (raid_rename ''/a'' ''/a/b'' two_names)) = Inr (0, [''.'', ''..''])"
proof -
  have "raid_rename ''/a'' ''/a/b'' two_names =
     (0, [\<lparr>fe_path = ''a/b'', fe_is_dir = True, fe_size = 0\<rparr>, \<lparr>fe_path = ''a/b/x'', fe_is_dir = False, fe_size = 7\<rparr>])"
    by (simp add: two_names_def raid_rename_def parent_dir_exists_def parent_of_def is_dir_by_path_def find_open_file_def
        rename_entries_def moved_path_def upt_rec)
  then show ?thesis by (simp add: raid_readdir_def is_direct_child_def)
qed

text \<open>
  C27. On a working system with an uncached striped volume mounted whose workers run, a write to
  one file of at most 63 stripe units and at most one chunk (64 MB), inside the volume, succeeds
  and is what a read of the same range of any other file returns, when that file is long enough:
  all files share the bytes of the volume.
\<close>

theorem files_share_the_volume:
  assumes "all_good os" "stripe_good cap su vol s" "mc_vol ctx"
    and "0 < n" "n \<le> MAX_CHUNK" "n \<le> unit_bytes su" "off + n \<le> cap"
  shows "\<exists>ctx1 vol1 s1. raid_write os now path buf n off ctx vol s = Inr (int n, ctx1, vol1, s1) \<and>
    (\<forall>q. off + n \<le> file_size_of q ctx1 \<longrightarrow>
       (\<exists>vol2 s2. raid_read os q n off ctx1 vol1 rbuf s1 = Inr (int n, vol2, write_bytes rbuf 0 (read_bytes buf 0 n), s2)))"
proof -
  obtain ctx1 vol1 s1 where W: "raid_write os now path buf n off ctx vol s = Inr (int n, ctx1, vol1, s1)"
    "stripe_good cap su vol1 s1" "\<forall>x < cap. volume_byte vol1 s1 x = write_bytes (volume_byte vol s) off (read_bytes buf 0 n) x"
    "mc_vol ctx1"
    using raid_write_direct [OF assms, of now path buf] assms(3)
    by (auto simp: wrote_def grow_file_def set_file_size_def update_highest_written_def add_consumed_def
        split: option.splits if_splits)
  have "read_bytes (volume_byte vol1 s1) off n = read_bytes buf 0 n"
    using W(3) assms(7) by (intro nth_equalityI) (simp_all add: write_bytes_def)
  then have "\<exists>vol2 s2. raid_read os q n off ctx1 vol1 rbuf s1 = Inr (int n, vol2, write_bytes rbuf 0 (read_bytes buf 0 n), s2)"
    if "off + n \<le> file_size_of q ctx1" for q
    using raid_read_direct [OF assms(1) W(2,4) assms(4-7) that, of rbuf] by auto
  then show ?thesis using W(1) by blast
qed

text \<open>The file just written is one of them when it is in the table.\<close>

lemma file_size_grown:
  assumes "find_open_file (strip_path path) (mc_table ctx) = Some i"
  shows "n \<le> file_size_of path (grow_file (strip_path path) n ctx)"
proof -
  note I = find_Some [OF assms]
  have "find_from k p (t[i := (t ! i)\<lparr>fe_size := n\<rparr>]) = find_from k p t" if "i < length t" for k p and t :: file_table
    using that
  proof (induction t arbitrary: i k)
    case (Cons e es)
    then show ?case by (cases i) auto
  qed simp
  then show ?thesis using assms I
    by (auto simp: file_size_of_def grow_file_def set_file_size_def find_open_file_def split: option.split)
qed

definition two_files :: MOUNT_CTX where
  "two_files = zero_ctx\<lparr>mc_vol := True, mc_table := [\<lparr>fe_path = ''f'', fe_is_dir = False, fe_size = 0\<rparr>,
     \<lparr>fe_path = ''g'', fe_is_dir = False, fe_size = 100\<rparr>]\<rparr>"

theorem files_share_the_volume_witness:
  "\<exists>ctx1 vol1 s1. raid_write os_good 0 ''/f'' (\<lambda>_. 9) 2 5 two_files two_disk_volume two_disk_system = Inr (2, ctx1, vol1, s1) \<and>
    (\<exists>vol2 s2. raid_read os_good ''/g'' 2 5 ctx1 vol1 zero_mem s1 = Inr (2, vol2, write_bytes zero_mem 0 [9, 9], s2))"
proof -
  have b: "(0 :: nat) < 2" "2 \<le> MAX_CHUNK" "2 \<le> unit_bytes 512" "5 + 2 \<le> (2048 :: nat)" "mc_vol two_files"
    by (simp_all add: MAX_CHUNK_def unit_bytes_def two_files_def)
  obtain ctx1 vol1 s1 where W: "raid_write os_good 0 ''/f'' (\<lambda>_. 9) 2 5 two_files two_disk_volume two_disk_system = Inr (int 2, ctx1, vol1, s1)"
    "\<forall>q. 5 + 2 \<le> file_size_of q ctx1 \<longrightarrow>
       (\<exists>vol2 s2. raid_read os_good q 2 5 ctx1 vol1 zero_mem s1 =
         Inr (int 2, vol2, write_bytes zero_mem 0 (read_bytes (\<lambda>_. 9) 0 2), s2))"
    using files_share_the_volume [OF all_good_os_good two_disk_good b(5,1-4), of 0 "''/f''" "\<lambda>_. 9" zero_mem] by blast
  have "ctx1 = grow_file ''f'' 7 (wrote 5 2 two_files)"
    using W(1) raid_write_direct [OF all_good_os_good two_disk_good b(5,1-4), of 0 "''/f''" "\<lambda>_. 9"] by auto
  then have "mc_table ctx1 = [\<lparr>fe_path = ''f'', fe_is_dir = False, fe_size = 7\<rparr>, \<lparr>fe_path = ''g'', fe_is_dir = False, fe_size = 100\<rparr>]"
    by (simp add: grow_file_def set_file_size_def find_open_file_def two_files_def)
  then have "5 + 2 \<le> file_size_of ''/g'' ctx1" by (simp add: file_size_of_def find_open_file_def)
  from W(2) [rule_format, OF this] W(1) show ?thesis by (simp add: read_bytes_def upt_rec)
qed

theorem mirror_flush_writes_nothing:
  assumes "v_phase_count vol = 0" "CHECK_DISKS vol" "c_buffer (v_cache vol) = Some m"
  shows "\<exists>vol' s'. cache_flush_all os now vol s = Inr (vol', s') \<and> w_media s' = w_media s \<and> v_cache vol' = v_cache vol"
proof (cases "v_cache_flush_in_progress vol = 0")
  case True
  let ?vol1 = "vol\<lparr>v_cache_flush_in_progress := 1\<rparr>"
  have "CHECK_DISKS ?vol1" using assms(2) by (simp add: CHECK_DISKS_def)
  then obtain s' where "flush_loop os now 0 0 ?vol1 (snd (journal_begin os now ?vol1 s)) = Inr (0, ?vol1, s')"
    "w_media s' = w_media s"
    using mirror_loop [of ?vol1 m os now 0 0 "snd (journal_begin os now ?vol1 s)"] assms journal_media(1) by auto
  then show ?thesis using True by (simp add: cache_flush_all_def Let_def)
qed (simp add: cache_flush_all_def)

definition dirty_mirror :: STRIPE_VOLUME where
  "dirty_mirror = two_mirror\<lparr>v_phase_count := 0, v_cache_enabled := True, v_cache := empty_cache\<lparr>c_dirty_map := [1]\<rparr>\<rparr>"

theorem mirror_flush_writes_nothing_witness:
  "\<exists>vol' s'. cache_flush_all os_good 0 dirty_mirror two_disk_system = Inr (vol', s') \<and>
    w_media s' = w_media two_disk_system \<and> dirty_block (v_cache vol') 0"
proof -
  have "v_phase_count dirty_mirror = 0" "c_buffer (v_cache dirty_mirror) = Some (\<lambda>_. 0)" "dirty_block (v_cache dirty_mirror) 0"
    by (simp_all add: dirty_mirror_def empty_cache_def dirty_block_def bit_test_def)
  moreover have "CHECK_DISKS dirty_mirror" using two_mirror_fields(5) by (simp add: dirty_mirror_def CHECK_DISKS_def)
  ultimately show ?thesis using mirror_flush_writes_nothing [of dirty_mirror _ os_good 0 two_disk_system] by metis
qed

end
