(* ===== verification/EventBus.thy ===== *)
theory EventBus
  imports Common "HOL-Library.Multiset"
begin

text \<open>
  The event bus, \<^verbatim>\<open>src/src/event_bus.c\<close>: a table of 16 subscriber slots for each of the 13 kinds of
  event. A callback is a number, a null pointer \<open>None\<close>; what a callback does is an argument of
  \<open>event_bus_publish\<close>. The callbacks of the program (the event log and the one of the window) do
  not call the bus, so the table is the same throughout a publication.
\<close>

section \<open>The kinds of event\<close>

datatype EVENT_TYPE =
    EVENT_DISK_FOUND
  | EVENT_DISK_REMOVED
  | EVENT_DISK_BENCHED
  | EVENT_VOLUME_CREATED
  | EVENT_VOLUME_LOADED
  | EVENT_VOLUME_DESTROYED
  | EVENT_MOUNT
  | EVENT_UNMOUNT
  | EVENT_REBUILD
  | EVENT_EXPAND
  | EVENT_METADATA_UPDATED
  | EVENT_CACHE_CHANGED
  | EVENT_ERROR

fun event_code :: "EVENT_TYPE \<Rightarrow> nat" where
  "event_code EVENT_DISK_FOUND = 0"
| "event_code EVENT_DISK_REMOVED = 1"
| "event_code EVENT_DISK_BENCHED = 2"
| "event_code EVENT_VOLUME_CREATED = 3"
| "event_code EVENT_VOLUME_LOADED = 4"
| "event_code EVENT_VOLUME_DESTROYED = 5"
| "event_code EVENT_MOUNT = 6"
| "event_code EVENT_UNMOUNT = 7"
| "event_code EVENT_REBUILD = 8"
| "event_code EVENT_EXPAND = 9"
| "event_code EVENT_METADATA_UPDATED = 10"
| "event_code EVENT_CACHE_CHANGED = 11"
| "event_code EVENT_ERROR = 12"

definition EVENT_COUNT :: nat where [const]: "EVENT_COUNT = 13"
definition MAX_SUBSCRIBERS_PER_EVENT :: nat where [const]: "MAX_SUBSCRIBERS_PER_EVENT = 16"

definition event_names :: "string list" where
  "event_names = [''DISK_FOUND'', ''DISK_REMOVED'', ''DISK_BENCHED'',
     ''VOLUME_CREATED'', ''VOLUME_LOADED'', ''VOLUME_DESTROYED'',
     ''MOUNT'', ''UNMOUNT'', ''REBUILD'', ''EXPAND'',
     ''METADATA_UPDATED'', ''CACHE_CHANGED'', ''ERROR'']"

text \<open>The argument is the number of the C enumeration, which a caller may cast from any integer.\<close>

definition event_type_str :: "nat \<Rightarrow> string" where
  "event_type_str n = (if n < EVENT_COUNT then event_names ! n else ''UNKNOWN'')"

lemma event_code_less: "event_code t < EVENT_COUNT"
  by (cases t) (simp_all add: const)

lemma event_code_inject: "event_code a = event_code b \<longleftrightarrow> a = b"
  by (cases a; cases b) simp_all

lemma event_type_str_inject: "event_type_str (event_code a) = event_type_str (event_code b) \<longleftrightarrow> a = b"
proof -
  have d: "distinct event_names" "length event_names = EVENT_COUNT" by (simp_all add: event_names_def const)
  have "event_type_str (event_code a) = event_type_str (event_code b) \<longleftrightarrow> event_code a = event_code b"
    using d event_code_less [of a] event_code_less [of b] by (simp add: event_type_str_def nth_eq_iff_index_eq)
  then show ?thesis by (simp add: event_code_inject)
qed

section \<open>The table\<close>

record Subscriber =
  sb_cb :: "nat option"
  sb_userdata :: nat
  sb_active :: bool

definition no_subscriber :: Subscriber where
  "no_subscriber = \<lparr>sb_cb = None, sb_userdata = 0, sb_active = False\<rparr>"

record event_bus =
  eb_inited :: bool
  eb_subs :: "Subscriber list list"

text \<open>The static table starts zeroed too.\<close>

definition empty_table :: "Subscriber list list" where
  "empty_table = replicate EVENT_COUNT (replicate MAX_SUBSCRIBERS_PER_EVENT no_subscriber)"

definition start_bus :: event_bus where
  "start_bus = \<lparr>eb_inited = False, eb_subs = empty_table\<rparr>"

definition event_bus_init :: "event_bus \<Rightarrow> event_bus" where
  "event_bus_init bus = (if eb_inited bus then bus else \<lparr>eb_inited = True, eb_subs = empty_table\<rparr>)"

text \<open>The loops over the slots of one event: the first free one, the first with the callback.\<close>

fun fill_slot :: "nat \<Rightarrow> nat \<Rightarrow> Subscriber list \<Rightarrow> Subscriber list" where
  "fill_slot cb ud [] = []"
| "fill_slot cb ud (x # xs) =
     (if \<not> sb_active x then \<lparr>sb_cb = Some cb, sb_userdata = ud, sb_active = True\<rparr> # xs else x # fill_slot cb ud xs)"

fun clear_slot :: "nat \<Rightarrow> Subscriber list \<Rightarrow> Subscriber list" where
  "clear_slot cb [] = []"
| "clear_slot cb (x # xs) =
     (if sb_active x \<and> sb_cb x = Some cb then no_subscriber # xs else x # clear_slot cb xs)"

definition event_bus_subscribe :: "nat \<Rightarrow> nat option \<Rightarrow> nat \<Rightarrow> event_bus \<Rightarrow> event_bus" where
  "event_bus_subscribe type cb ud bus = (case cb of
     None \<Rightarrow> bus
   | Some f \<Rightarrow>
       if \<not> eb_inited bus \<or> EVENT_COUNT \<le> type then bus
       else bus\<lparr>eb_subs := (eb_subs bus)[type := fill_slot f ud (eb_subs bus ! type)]\<rparr>)"

definition event_bus_unsubscribe :: "nat \<Rightarrow> nat option \<Rightarrow> event_bus \<Rightarrow> event_bus" where
  "event_bus_unsubscribe type cb bus = (case cb of
     None \<Rightarrow> bus
   | Some f \<Rightarrow>
       if \<not> eb_inited bus \<or> EVENT_COUNT \<le> type then bus
       else bus\<lparr>eb_subs := (eb_subs bus)[type := clear_slot f (eb_subs bus ! type)]\<rparr>)"

text \<open>\<open>call f type data ud w\<close> is what the callback \<open>f\<close> does to the rest of the program.\<close>

definition event_bus_publish :: "(nat \<Rightarrow> nat \<Rightarrow> string \<Rightarrow> nat \<Rightarrow> 'w \<Rightarrow> 'w) \<Rightarrow> nat \<Rightarrow> string \<Rightarrow> event_bus \<Rightarrow> 'w \<Rightarrow> 'w" where
  "event_bus_publish call type data bus w =
     (if \<not> eb_inited bus \<or> EVENT_COUNT \<le> type then w
      else foldl (\<lambda>w x. if sb_active x then call (the (sb_cb x)) type data (sb_userdata x) w else w) w (eb_subs bus ! type))"

section \<open>The subscriptions a bus holds\<close>

text \<open>The abstract state of a bus: the callbacks, with their data, of each event, in slot order.\<close>

definition slots_of :: "Subscriber list \<Rightarrow> (nat \<times> nat) list" where
  "slots_of xs = map (\<lambda>x. (the (sb_cb x), sb_userdata x)) (filter sb_active xs)"

definition subs_of :: "nat \<Rightarrow> event_bus \<Rightarrow> (nat \<times> nat) list" where
  "subs_of type bus = (if type < EVENT_COUNT then slots_of (eb_subs bus ! type) else [])"

definition bus_ok :: "event_bus \<Rightarrow> bool" where
  "bus_ok bus \<longleftrightarrow> eb_inited bus \<and> length (eb_subs bus) = EVENT_COUNT \<and>
     list_all (\<lambda>xs. length xs = MAX_SUBSCRIBERS_PER_EVENT \<and> list_all (\<lambda>x. sb_active x \<longrightarrow> sb_cb x \<noteq> None) xs) (eb_subs bus)"

lemma bus_ok_row:
  assumes "bus_ok bus" "type < EVENT_COUNT"
  shows "length (eb_subs bus ! type) = MAX_SUBSCRIBERS_PER_EVENT"
    "list_all (\<lambda>x. sb_active x \<longrightarrow> sb_cb x \<noteq> None) (eb_subs bus ! type)"
  using assms by (simp_all add: bus_ok_def list_all_length)

lemma length_slots_of: "length (slots_of xs) \<le> length xs"
  by (simp add: slots_of_def)

lemma fill_slot_slots:
  "length (fill_slot f ud xs) = length xs"
  "list_all (\<lambda>x. sb_active x \<longrightarrow> sb_cb x \<noteq> None) xs \<Longrightarrow> list_all (\<lambda>x. sb_active x \<longrightarrow> sb_cb x \<noteq> None) (fill_slot f ud xs)"
  "length (slots_of xs) < length xs \<Longrightarrow> mset (slots_of (fill_slot f ud xs)) = add_mset (f, ud) (mset (slots_of xs))"
  "length (slots_of xs) = length xs \<Longrightarrow> fill_slot f ud xs = xs"
proof -
  show "length (fill_slot f ud xs) = length xs" by (induction xs) auto
  show "list_all (\<lambda>x. sb_active x \<longrightarrow> sb_cb x \<noteq> None) xs \<Longrightarrow> list_all (\<lambda>x. sb_active x \<longrightarrow> sb_cb x \<noteq> None) (fill_slot f ud xs)"
    by (induction xs) auto
  show "length (slots_of xs) < length xs \<Longrightarrow> mset (slots_of (fill_slot f ud xs)) = add_mset (f, ud) (mset (slots_of xs))"
    by (induction xs) (auto simp: slots_of_def)
  show "length (slots_of xs) = length xs \<Longrightarrow> fill_slot f ud xs = xs"
  proof (induction xs)
    case (Cons x xs)
    have "length (filter sb_active xs) \<le> length xs" by simp
    then have "length (filter sb_active xs) \<noteq> Suc (length xs)" by linarith
    with Cons.prems have "sb_active x" "length (slots_of xs) = length xs" by (auto simp: slots_of_def split: if_splits)
    then show ?case using Cons.IH by simp
  qed simp
qed

text \<open>Unsubscribing takes out the first entry of the callback, whatever its data.\<close>

fun drop_first :: "nat \<Rightarrow> (nat \<times> nat) list \<Rightarrow> (nat \<times> nat) list" where
  "drop_first f [] = []"
| "drop_first f (x # xs) = (if fst x = f then xs else x # drop_first f xs)"

lemma clear_slot_slots:
  "length (clear_slot f xs) = length xs"
  "list_all (\<lambda>x. sb_active x \<longrightarrow> sb_cb x \<noteq> None) xs \<Longrightarrow> list_all (\<lambda>x. sb_active x \<longrightarrow> sb_cb x \<noteq> None) (clear_slot f xs)"
  "list_all (\<lambda>x. sb_active x \<longrightarrow> sb_cb x \<noteq> None) xs \<Longrightarrow> slots_of (clear_slot f xs) = drop_first f (slots_of xs)"
proof -
  show "length (clear_slot f xs) = length xs" by (induction xs) auto
  show "list_all (\<lambda>x. sb_active x \<longrightarrow> sb_cb x \<noteq> None) xs \<Longrightarrow> list_all (\<lambda>x. sb_active x \<longrightarrow> sb_cb x \<noteq> None) (clear_slot f xs)"
    by (induction xs) (auto simp: no_subscriber_def)
  show "list_all (\<lambda>x. sb_active x \<longrightarrow> sb_cb x \<noteq> None) xs \<Longrightarrow> slots_of (clear_slot f xs) = drop_first f (slots_of xs)"
    by (induction xs) (auto simp: slots_of_def no_subscriber_def)
qed

lemma update_row:
  assumes ok: "bus_ok bus" and t: "type < EVENT_COUNT" and row: "length xs = MAX_SUBSCRIBERS_PER_EVENT"
    "list_all (\<lambda>x. sb_active x \<longrightarrow> sb_cb x \<noteq> None) xs"
  shows "bus_ok (bus\<lparr>eb_subs := (eb_subs bus)[type := xs]\<rparr>)"
    "subs_of k (bus\<lparr>eb_subs := (eb_subs bus)[type := xs]\<rparr>) = (if k = type then slots_of xs else subs_of k bus)"
  using assms by (auto simp: bus_ok_def subs_of_def nth_list_update list_all_length)

lemma event_bus_init_ok: "bus_ok (event_bus_init start_bus)" "subs_of type (event_bus_init start_bus) = []"
  by (auto simp: event_bus_init_def start_bus_def bus_ok_def empty_table_def subs_of_def slots_of_def no_subscriber_def
      list_all_length)

lemma subscribe_subs:
  assumes ok: "bus_ok bus" and t: "type < EVENT_COUNT"
  shows "bus_ok (event_bus_subscribe type (Some f) ud bus)"
    "mset (subs_of type (event_bus_subscribe type (Some f) ud bus)) =
      (if length (subs_of type bus) < MAX_SUBSCRIBERS_PER_EVENT then add_mset (f, ud) (mset (subs_of type bus))
       else mset (subs_of type bus))"
    "k \<noteq> type \<Longrightarrow> subs_of k (event_bus_subscribe type (Some f) ud bus) = subs_of k bus"
proof -
  let ?row = "eb_subs bus ! type"
  note R = bus_ok_row [OF ok t]
  note F = fill_slot_slots [where f = f and ud = ud and xs = ?row]
  have e: "event_bus_subscribe type (Some f) ud bus = bus\<lparr>eb_subs := (eb_subs bus)[type := fill_slot f ud ?row]\<rparr>"
    using ok t by (simp add: event_bus_subscribe_def bus_ok_def)
  have row: "length (fill_slot f ud ?row) = MAX_SUBSCRIBERS_PER_EVENT"
    "list_all (\<lambda>x. sb_active x \<longrightarrow> sb_cb x \<noteq> None) (fill_slot f ud ?row)" using F(1,2) R by simp_all
  note U = update_row [OF ok t row]
  show "bus_ok (event_bus_subscribe type (Some f) ud bus)" unfolding e by (rule U(1))
  have s: "subs_of type bus = slots_of ?row" using t by (simp add: subs_of_def)
  show "mset (subs_of type (event_bus_subscribe type (Some f) ud bus)) =
      (if length (subs_of type bus) < MAX_SUBSCRIBERS_PER_EVENT then add_mset (f, ud) (mset (subs_of type bus))
       else mset (subs_of type bus))"
    unfolding e U(2) s using F(3,4) length_slots_of [of ?row] R(1) by auto
  show "k \<noteq> type \<Longrightarrow> subs_of k (event_bus_subscribe type (Some f) ud bus) = subs_of k bus" unfolding e U(2) by simp
qed

lemma unsubscribe_subs:
  assumes ok: "bus_ok bus" and t: "type < EVENT_COUNT"
  shows "bus_ok (event_bus_unsubscribe type (Some f) bus)"
    "subs_of type (event_bus_unsubscribe type (Some f) bus) = drop_first f (subs_of type bus)"
    "k \<noteq> type \<Longrightarrow> subs_of k (event_bus_unsubscribe type (Some f) bus) = subs_of k bus"
proof -
  let ?row = "eb_subs bus ! type"
  note R = bus_ok_row [OF ok t]
  note C = clear_slot_slots [where f = f and xs = ?row]
  have e: "event_bus_unsubscribe type (Some f) bus = bus\<lparr>eb_subs := (eb_subs bus)[type := clear_slot f ?row]\<rparr>"
    using ok t by (simp add: event_bus_unsubscribe_def bus_ok_def)
  have row: "length (clear_slot f ?row) = MAX_SUBSCRIBERS_PER_EVENT"
    "list_all (\<lambda>x. sb_active x \<longrightarrow> sb_cb x \<noteq> None) (clear_slot f ?row)" using C(1) C(2) [OF R(2)] R(1) by simp_all
  note U = update_row [OF ok t row]
  show "bus_ok (event_bus_unsubscribe type (Some f) bus)" unfolding e by (rule U(1))
  show "subs_of type (event_bus_unsubscribe type (Some f) bus) = drop_first f (subs_of type bus)"
    unfolding e U(2) using C(3) [OF R(2)] t by (simp add: subs_of_def)
  show "k \<noteq> type \<Longrightarrow> subs_of k (event_bus_unsubscribe type (Some f) bus) = subs_of k bus" unfolding e U(2) by simp
qed

lemma publish_subs:
  assumes "bus_ok bus" "type < EVENT_COUNT"
  shows "event_bus_publish call type data bus w = foldl (\<lambda>w s. call (fst s) type data (snd s) w) w (subs_of type bus)"
proof -
  have "foldl (\<lambda>w x. if sb_active x then call (the (sb_cb x)) type data (sb_userdata x) w else w) w xs =
      foldl (\<lambda>w s. call (fst s) type data (snd s) w) w (slots_of xs)" for xs
    by (induction xs arbitrary: w) (auto simp: slots_of_def)
  then show ?thesis using assms by (simp add: event_bus_publish_def subs_of_def bus_ok_def)
qed

section \<open>The interface of the bus\<close>

text \<open>What publishers and subscribers rely on.\<close>

locale bus =
  fixes ok :: "'b \<Rightarrow> bool" and subs :: "'k \<Rightarrow> 'b \<Rightarrow> (nat \<times> nat) list" and kinds :: "'k set" and room :: nat
    and sub :: "'k \<Rightarrow> nat \<Rightarrow> nat \<Rightarrow> 'b \<Rightarrow> 'b" and unsub :: "'k \<Rightarrow> nat \<Rightarrow> 'b \<Rightarrow> 'b"
  assumes sub_law: "ok b \<Longrightarrow> k \<in> kinds \<Longrightarrow> ok (sub k f ud b) \<and>
      mset (subs k (sub k f ud b)) = (if length (subs k b) < room then add_mset (f, ud) (mset (subs k b)) else mset (subs k b)) \<and>
      (\<forall>j. j \<noteq> k \<longrightarrow> subs j (sub k f ud b) = subs j b)"
    and unsub_law: "ok b \<Longrightarrow> k \<in> kinds \<Longrightarrow> ok (unsub k f b) \<and> subs k (unsub k f b) = drop_first f (subs k b) \<and>
      (\<forall>j. j \<noteq> k \<longrightarrow> subs j (unsub k f b) = subs j b)"
begin

lemma many_subs:
  "ok b \<Longrightarrow> k \<in> kinds \<Longrightarrow> length (subs k b) + length fs \<le> room \<Longrightarrow>
    ok (fold (\<lambda>s b. sub k (fst s) (snd s) b) fs b) \<and>
    mset (subs k (fold (\<lambda>s b. sub k (fst s) (snd s) b) fs b)) = mset (subs k b) + mset fs"
proof (induction fs arbitrary: b)
  case (Cons f fs)
  let ?b = "sub k (fst f) (snd f) b"
  note L = sub_law [OF Cons.prems(1,2), of "fst f" "snd f"]
  have "length (subs k b) < room" using Cons.prems(3) by simp
  then have m: "mset (subs k ?b) = add_mset f (mset (subs k b))" using L by simp
  then have "length (subs k ?b) = Suc (length (subs k b))" by (metis size_add_mset size_mset)
  then show ?case using Cons.IH [of ?b] Cons.prems L m by simp
qed simp

end

interpretation events: bus bus_ok subs_of "{..< EVENT_COUNT}" MAX_SUBSCRIBERS_PER_EVENT
  "\<lambda>k f ud. event_bus_subscribe k (Some f) ud" "\<lambda>k f. event_bus_unsubscribe k (Some f)"
  by unfold_locales (simp_all add: subscribe_subs unsubscribe_subs)

section \<open>Properties\<close>

theorem event_bus_delivers:
  assumes "type < EVENT_COUNT" "length fs \<le> MAX_SUBSCRIBERS_PER_EVENT"
  shows "\<exists>gs. mset gs = mset fs \<and>
    event_bus_publish call type data (fold (\<lambda>s b. event_bus_subscribe type (Some (fst s)) (snd s) b) fs (event_bus_init start_bus)) w =
      foldl (\<lambda>w s. call (fst s) type data (snd s) w) w gs"
proof -
  let ?b = "fold (\<lambda>s b. event_bus_subscribe type (Some (fst s)) (snd s) b) fs (event_bus_init start_bus)"
  have "bus_ok ?b \<and> mset (subs_of type ?b) = mset fs"
    using events.many_subs [of "event_bus_init start_bus" type fs] event_bus_init_ok assms by simp
  then show ?thesis using publish_subs [OF _ assms(1), of ?b call data w] by blast
qed

theorem event_bus_delivers_witness:
  "\<exists>gs. mset gs = mset [(7 :: nat, 0 :: nat), (8, 0)] \<and>
    event_bus_publish (\<lambda>f t d u w. w + f) 12 ''x'' (fold (\<lambda>s b. event_bus_subscribe 12 (Some (fst s)) (snd s) b)
      [(7, 0), (8, 0)] (event_bus_init start_bus)) (0 :: nat) = foldl (\<lambda>w s. w + fst s) 0 gs"
  using event_bus_delivers [of 12 "[(7, 0), (8, 0)]" "\<lambda>f t d u w. w + f" "''x''" 0] by (simp add: const)

end
