(* ===== verification/Planner.thy ===== *)
theory Planner
  imports Complex_Main Common
begin

text \<open>
  The capacity planner, \<^verbatim>\<open>src/src/planner_engine.c\<close>: what a striped, a mirrored and a striped-mirror
  volume would hold on the selected disks. An efficiency is a \<open>double\<close> in the code; here it is the exact
  quotient, \<open>None\<close> for the division of zero by zero. Printing is not modelled.
\<close>

section \<open>The calculation\<close>

record PLANNER_DISK =
  pd_disk_index :: nat
  pd_capacity_bytes :: nat
  pd_speed_mbs :: nat
  pd_serial :: string
  pd_selected :: bool

record PLANNER_RESULT =
  pr_disk_count :: nat
  pr_total_raw_mb :: nat
  pr_raid0_capacity_mb :: nat
  pr_raid1_capacity_mb :: nat
  pr_raid10_capacity_mb :: nat
  pr_selected_count :: nat
  pr_efficiency_raid0 :: rat
  pr_efficiency_raid1 :: "rat option"

definition zero_result :: PLANNER_RESULT where
  "zero_result = \<lparr>pr_disk_count = 0, pr_total_raw_mb = 0, pr_raid0_capacity_mb = 0, pr_raid1_capacity_mb = 0,
     pr_raid10_capacity_mb = 0, pr_selected_count = 0, pr_efficiency_raid0 = 0, pr_efficiency_raid1 = Some 0\<rparr>"

text \<open>The loop over the disks: the count, the sum, the minimum and the first four capacities, in megabytes.\<close>

record planner_sums =
  ps_sel :: nat
  ps_total_mb :: nat
  ps_min_mb :: nat
  ps_capacities :: "nat list"

definition planner_add :: "PLANNER_DISK \<Rightarrow> planner_sums \<Rightarrow> planner_sums" where
  "planner_add d p =
     (if \<not> pd_selected d then p
      else let mb = pd_capacity_bytes d div (1024 * 1024) in
        \<lparr>ps_sel = u32 (ps_sel p + 1), ps_total_mb = u64 (ps_total_mb p + mb),
         ps_min_mb = (if mb < ps_min_mb p then mb else ps_min_mb p),
         ps_capacities = (if length (ps_capacities p) < MAX_DISKS then ps_capacities p @ [mb] else ps_capacities p)\<rparr>)"

definition planner_scan :: "PLANNER_DISK list \<Rightarrow> planner_sums" where
  "planner_scan disks = fold planner_add disks \<lparr>ps_sel = 0, ps_total_mb = 0, ps_min_mb = 2 ^ 64 - 1, ps_capacities = []\<rparr>"

text \<open>The exchange sort, largest first, and the sum of the smaller of each pair.\<close>

definition exchange :: "nat \<Rightarrow> nat \<Rightarrow> nat list \<Rightarrow> nat list" where
  "exchange i j c = (if c ! i < c ! j then c[i := c ! j, j := c ! i] else c)"

definition sort_capacities :: "nat list \<Rightarrow> nat list" where
  "sort_capacities c = fold (\<lambda>i. fold (exchange i) [i + 1 ..< length c]) [0 ..< length c] c"

fun pair_minima :: "nat list \<Rightarrow> nat" where
  "pair_minima (a # b # c) = (if a < b then a else b) + pair_minima c"
| "pair_minima _ = 0"

definition planner_calculate :: "PLANNER_DISK list \<Rightarrow> PLANNER_RESULT" where
  "planner_calculate disks =
     (if disks = [] then zero_result
      else
        let p = planner_scan disks;
            out1 = zero_result\<lparr>pr_selected_count := ps_sel p, pr_total_raw_mb := ps_total_mb p\<rparr>
        in if ps_sel p < 2 then out1
           else
             let out2 = out1\<lparr>pr_disk_count := ps_sel p, pr_raid0_capacity_mb := ps_total_mb p,
                   pr_efficiency_raid0 := 100, pr_raid1_capacity_mb := ps_min_mb p,
                   pr_efficiency_raid1 := (if ps_total_mb p = 0 then None
                     else Some (of_nat (ps_min_mb p) / of_nat (ps_total_mb p) * 100))\<rparr>
             in if 4 \<le> ps_sel p
                then out2\<lparr>pr_raid10_capacity_mb := u64 (pair_minima (sort_capacities (ps_capacities p)))\<rparr>
                else out2)"

section \<open>The sums\<close>

definition selected_mb :: "PLANNER_DISK list \<Rightarrow> nat list" where
  "selected_mb disks = map (\<lambda>d. pd_capacity_bytes d div (1024 * 1024)) (filter pd_selected disks)"

text \<open>Capacities and counts that the sums hold without wrapping.\<close>

definition plannable :: "PLANNER_DISK list \<Rightarrow> bool" where
  "plannable disks \<longleftrightarrow> length disks < 2 ^ 20 \<and> (\<forall>d \<in> set disks. pd_capacity_bytes d < 2 ^ 64)"

lemma planner_fold:
  "length ms < 2 ^ 32 \<Longrightarrow> sum_list ms < 2 ^ 64 \<Longrightarrow> map (\<lambda>d. pd_capacity_bytes d div (1024 * 1024)) (filter pd_selected disks) = ns \<Longrightarrow>
    length ms + length ns < 2 ^ 32 \<Longrightarrow> sum_list ms + sum_list ns < 2 ^ 64 \<Longrightarrow>
    fold planner_add disks \<lparr>ps_sel = length ms, ps_total_mb = sum_list ms, ps_min_mb = fold min ms (2 ^ 64 - 1), ps_capacities = take 4 ms\<rparr> =
    \<lparr>ps_sel = length (ms @ ns), ps_total_mb = sum_list (ms @ ns), ps_min_mb = fold min (ms @ ns) (2 ^ 64 - 1), ps_capacities = take 4 (ms @ ns)\<rparr>"
proof (induction disks arbitrary: ms ns)
  case (Cons d disks)
  show ?case
  proof (cases "pd_selected d")
    case True
    let ?m = "pd_capacity_bytes d div (1024 * 1024)"
    let ?ns = "map (\<lambda>d. pd_capacity_bytes d div (1024 * 1024)) (filter pd_selected disks)"
    have ns: "ns = ?m # ?ns" using Cons.prems(3) True by simp
    have b: "length (ms @ [?m]) + length ?ns < 2 ^ 32" "sum_list (ms @ [?m]) + sum_list ?ns < 2 ^ 64"
      using Cons.prems(4,5) by (simp_all add: ns)
    then have b2: "length (ms @ [?m]) < 2 ^ 32" "sum_list (ms @ [?m]) < 2 ^ 64" by linarith+
    have "(if ?m < fold min ms (2 ^ 64 - 1) then ?m else fold min ms (2 ^ 64 - 1)) = fold min (ms @ [?m]) (2 ^ 64 - 1)"
      by (simp add: min_def)
    moreover have "(if length (take 4 ms) < MAX_DISKS then take 4 ms @ [?m] else take 4 ms) = take 4 (ms @ [?m])"
      by (simp add: const min_def)
    ultimately have "planner_add d \<lparr>ps_sel = length ms, ps_total_mb = sum_list ms, ps_min_mb = fold min ms (2 ^ 64 - 1), ps_capacities = take 4 ms\<rparr> =
      \<lparr>ps_sel = length (ms @ [?m]), ps_total_mb = sum_list (ms @ [?m]), ps_min_mb = fold min (ms @ [?m]) (2 ^ 64 - 1),
       ps_capacities = take 4 (ms @ [?m])\<rparr>"
      using True b2 by (simp only: planner_add_def Let_def simp_thms if_False if_True planner_sums.simps) (simp add: u32_id u64_id)
    then show ?thesis using Cons.IH [OF b2 refl b] by (simp add: ns)
  next
    case False
    then have "ns = map (\<lambda>d. pd_capacity_bytes d div (1024 * 1024)) (filter pd_selected disks)" using Cons.prems(3) by simp
    then show ?thesis using Cons.IH [OF Cons.prems(1,2) refl] Cons.prems(4,5) False by (simp add: planner_add_def)
  qed
qed simp

lemma planner_scan_sums:
  assumes "plannable disks"
  shows "planner_scan disks = \<lparr>ps_sel = length (selected_mb disks), ps_total_mb = sum_list (selected_mb disks),
    ps_min_mb = fold min (selected_mb disks) (2 ^ 64 - 1), ps_capacities = take 4 (selected_mb disks)\<rparr>"
proof -
  let ?ns = "selected_mb disks"
  have len: "length ?ns < 2 ^ 20"
    using assms le_less_trans [OF length_filter_le [of pd_selected disks]] by (simp add: selected_mb_def plannable_def)
  have "\<forall>r \<in> set ?ns. r \<le> 2 ^ 44 - 1"
    using assms by (auto simp: selected_mb_def plannable_def)
  then have "sum_list ?ns \<le> length ?ns * (2 ^ 44 - 1)" by (rule sum_list_bound)
  also have "\<dots> \<le> 2 ^ 20 * (2 ^ 44 - 1)" using len by (intro mult_right_mono) simp_all
  also have "\<dots> < (2 :: nat) ^ 64" by simp
  finally have s: "sum_list ?ns < 2 ^ 64" .
  have l: "length ?ns < 2 ^ 32" using len by simp
  show ?thesis using planner_fold [of "[]" disks ?ns] s l unfolding planner_scan_def selected_mb_def by simp
qed

lemma fold_min_le: "fold min ms k \<le> (k :: nat)" "m \<in> set ms \<Longrightarrow> fold min ms k \<le> m"
proof -
  show le: "fold min ms k \<le> k" for ms and k :: nat
  proof (induction ms arbitrary: k)
    case (Cons a ms)
    show ?case using Cons [of "min a k"] by simp
  qed simp
  show "m \<in> set ms \<Longrightarrow> fold min ms k \<le> m"
  proof (induction ms arbitrary: k)
    case (Cons a ms)
    then show ?case using le [of ms "min m k"] by auto
  qed simp
qed

lemma fold_min_mem: "fold min ms k \<in> insert k (set ms)" for k :: nat
  by (induction ms arbitrary: k) (auto simp: min_def split: if_splits)

section \<open>The sort of four capacities\<close>

lemma sort_four:
  "sort_capacities [a, b, c, d] = fold (\<lambda>(i, j). exchange i j) [(0, 1), (0, 2), (0, 3), (1, 2), (1, 3), (2, 3)] [a, b, c, d]"
  by (simp add: sort_capacities_def upt_rec numeral_eq_Suc)

lemma exchange_step:
  "exchange 0 (Suc 0) [a, b, c, d] = [max a b, min a b, c, d]" "exchange 0 2 [a, b, c, d] = [max a c, b, min a c, d]"
  "exchange 0 3 [a, b, c, d] = [max a d, b, c, min a d]" "exchange (Suc 0) 2 [a, b, c, d] = [a, max b c, min b c, d]"
  "exchange (Suc 0) 3 [a, b, c, d] = [a, max b d, c, min b d]" "exchange 2 3 [a, b, c, d] = [a, b, max c d, min c d]"
  by (simp_all add: exchange_def max_def min_def numeral_eq_Suc)

text \<open>Pairing the largest two and the smallest two is the best of the three pairings.\<close>

definition best_pairing :: "nat \<Rightarrow> nat \<Rightarrow> nat \<Rightarrow> nat \<Rightarrow> nat" where
  "best_pairing a b c d = max (min a b + min c d) (max (min a c + min b d) (min a d + min b c))"

lemma best_pairing_swap:
  "best_pairing b a c d = best_pairing a b c d" "best_pairing c b a d = best_pairing a b c d"
  "best_pairing d b c a = best_pairing a b c d" "best_pairing a c b d = best_pairing a b c d"
  "best_pairing a d c b = best_pairing a b c d" "best_pairing a b d c = best_pairing a b c d"
  by (simp_all only: best_pairing_def min.commute max.commute max.left_commute add.commute)

lemma best_pairing_exchange:
  "best_pairing (max a b) (min a b) c d = best_pairing a b c d" "best_pairing (max a c) b (min a c) d = best_pairing a b c d"
  "best_pairing (max a d) b c (min a d) = best_pairing a b c d" "best_pairing a (max b c) (min b c) d = best_pairing a b c d"
  "best_pairing a (max b d) c (min b d) = best_pairing a b c d" "best_pairing a b (max c d) (min c d) = best_pairing a b c d"
  by (auto simp: max_def min_def best_pairing_swap)

lemma best_pairing_sorted: "d \<le> c \<Longrightarrow> c \<le> b \<Longrightarrow> b \<le> a \<Longrightarrow> best_pairing a b c d = b + d"
  by (simp add: best_pairing_def min_def)

lemma pair_minima_best: "pair_minima (sort_capacities [a, b, c, d]) = best_pairing a b c d"
proof -
  define a1 b1 where 1: "a1 = max a b" "b1 = min a b"
  define a2 c2 where 2: "a2 = max a1 c" "c2 = min a1 c"
  define a3 d3 where 3: "a3 = max a2 d" "d3 = min a2 d"
  define b4 c4 where 4: "b4 = max b1 c2" "c4 = min b1 c2"
  define b5 d5 where 5: "b5 = max b4 d3" "d5 = min b4 d3"
  define c6 d6 where 6: "c6 = max c4 d5" "d6 = min c4 d5"
  have "sort_capacities [a, b, c, d] = [a3, b5, c6, d6]"
    unfolding sort_four by (simp add: exchange_step 1 [symmetric] 2 [symmetric] 3 [symmetric] 4 [symmetric] 5 [symmetric] 6 [symmetric])
  moreover have "d6 \<le> c6" by (simp add: 6)
  moreover have "c4 \<le> b4" "d5 \<le> b4" "b4 \<le> b5" by (simp_all add: 4 5 min.coboundedI1 max.coboundedI1)
  then have "c6 \<le> b5" by (simp add: 6)
  moreover have "b1 \<le> a1" "a1 \<le> a2" "c2 \<le> a1" "a2 \<le> a3" "d3 \<le> a2"
    by (simp_all add: 1 2 3 min.coboundedI1 max.coboundedI1)
  then have "b5 \<le> a3" by (simp add: 4 5)
  ultimately have "pair_minima (sort_capacities [a, b, c, d]) = best_pairing a3 b5 c6 d6"
    by (simp add: best_pairing_sorted)
  also have "\<dots> = best_pairing a b c d"
    by (simp only: 1 2 3 4 5 6 best_pairing_exchange)
  finally show ?thesis .
qed

section \<open>Properties\<close>

theorem planner_correct:
  assumes "plannable disks" "2 \<le> length (selected_mb disks)"
  shows "pr_selected_count (planner_calculate disks) = length (selected_mb disks) \<and>
    pr_raid0_capacity_mb (planner_calculate disks) = sum_list (selected_mb disks) \<and>
    pr_raid1_capacity_mb (planner_calculate disks) = Min (set (selected_mb disks)) \<and>
    (\<forall>a b c d. selected_mb disks = [a, b, c, d] \<longrightarrow> pr_raid10_capacity_mb (planner_calculate disks) = best_pairing a b c d)"
proof -
  let ?ms = "selected_mb disks"
  note S = planner_scan_sums [OF assms(1)]
  have ne: "disks \<noteq> []" "?ms \<noteq> []" using assms(2) by (auto simp: selected_mb_def)
  have small: "m < 2 ^ 44" if "m \<in> set ?ms" for m using that assms(1) by (auto simp: selected_mb_def plannable_def)
  have "fold min ?ms (2 ^ 64 - 1) = Min (set ?ms)"
  proof (rule Min_eqI [symmetric])
    show "fold min ?ms (2 ^ 64 - 1) \<le> m" if "m \<in> set ?ms" for m using fold_min_le(2) [OF that] .
    obtain m where m: "m \<in> set ?ms" using ne(2) by (cases ?ms) auto
    have "fold min ?ms (2 ^ 64 - 1) < 2 ^ 44" by (rule le_less_trans [OF fold_min_le(2) [OF m] small [OF m]])
    then have "fold min ?ms (2 ^ 64 - 1) < 2 ^ 64 - 1" by simp
    then show "fold min ?ms (2 ^ 64 - 1) \<in> set ?ms" using fold_min_mem [of ?ms "2 ^ 64 - 1"] by auto
  qed simp
  moreover have "pr_raid10_capacity_mb (planner_calculate disks) = best_pairing a b c d" if q: "?ms = [a, b, c, d]" for a b c d
  proof -
    have "best_pairing a b c d < 2 ^ 64" using small [of a] small [of b] small [of c] small [of d] q
      by (auto simp: best_pairing_def max_def min_def)
    then show ?thesis using S q ne(1) by (simp add: planner_calculate_def Let_def pair_minima_best u64_id)
  qed
  ultimately show ?thesis using S ne(1) assms(2) by (simp add: planner_calculate_def Let_def zero_result_def)
qed

definition mb_disk :: "nat \<Rightarrow> PLANNER_DISK" where
  "mb_disk mb = \<lparr>pd_disk_index = 0, pd_capacity_bytes = mb * 1048576, pd_speed_mbs = 0, pd_serial = [], pd_selected = True\<rparr>"

theorem planner_correct_witness:
  "pr_raid10_capacity_mb (planner_calculate (map mb_disk [10, 40, 20, 30])) = 40"
proof -
  have "selected_mb (map mb_disk [10, 40, 20, 30]) = [10, 40, 20, 30]" by (simp add: selected_mb_def mb_disk_def)
  moreover have "plannable (map mb_disk [10, 40, 20, 30])" by (simp add: plannable_def mb_disk_def)
  ultimately show ?thesis using planner_correct [of "map mb_disk [10, 40, 20, 30]"] by (simp add: best_pairing_def)
qed

end
