(* ===== verification/VolumeManager.thy ===== *)
theory VolumeManager
  imports FuseBridge PoolIo Superblock EventBus
begin

text \<open>
  Volumes as a whole: \<^verbatim>\<open>src/src/volume_manager.c\<close>, \<^verbatim>\<open>src/src/metadata_manager.c\<close> and
  \<^verbatim>\<open>cleanup_volume_cache\<close> of \<^verbatim>\<open>src/src/cleanup.c\<close>. An operation takes the volume and the system and
  returns them with the events it published, in order, as pairs of kind and text (what becomes of an
  event is \<open>EventBus\<close>). The clock and the counters a run reads are the fields of \<open>env\<close>.
\<close>

section \<open>Sequencing\<close>

text \<open>The rest of a function after a call that may not return.\<close>

definition and_then :: "fault + 'a \<Rightarrow> ('a \<Rightarrow> fault + 'b) \<Rightarrow> fault + 'b" where
  "and_then r f = (case r of Inl e \<Rightarrow> Inl e | Inr x \<Rightarrow> f x)"

lemma and_then_simps [simp]: "and_then (Inl e) f = Inl e" "and_then (Inr x) f = f x"
  by (simp_all add: and_then_def)

lemma and_then_Inr: "and_then r f = Inr y \<Longrightarrow> \<exists>x. r = Inr x \<and> f x = Inr y"
  by (cases r) simp_all

type_synonym events = "(EVENT_TYPE \<times> string) list"

record env =
  en_now :: nat
  en_counter :: nat
  en_pid :: nat
  en_ticks :: nat

section \<open>Metadata\<close>

definition metadata_read :: "os \<Rightarrow> char \<Rightarrow> 'a world_scheme \<Rightarrow> SUPERBLOCK option \<times> 'a world_scheme" where
  "metadata_read os letter w = superblock_read_raw os letter w"

definition metadata_write :: "os \<Rightarrow> env \<Rightarrow> STRIPE_VOLUME \<Rightarrow> sys \<Rightarrow> fault + bool \<times> STRIPE_VOLUME \<times> sys \<times> events" where
  "metadata_write os env vol s = and_then (superblock_write os (en_now env) vol s) (\<lambda>(ok, vol1, s1).
     Inr (ok, vol1, s1, if ok then [(EVENT_METADATA_UPDATED, ''superblock written'')] else []))"

definition metadata_dump :: "SUPERBLOCK \<Rightarrow> nat \<Rightarrow> string" where
  "metadata_dump sb out_size = superblock_format_str sb out_size"

text \<open>\<open>fixed\<close> says which drive letters are fixed drives, \<open>named\<close> is the letter of the given root.\<close>

definition metadata_load_volume :: "os \<Rightarrow> env \<Rightarrow> (char \<Rightarrow> bool) \<Rightarrow> char option \<Rightarrow> ptr option list \<Rightarrow> STRIPE_VOLUME \<Rightarrow> ptr list \<Rightarrow> sys
    \<Rightarrow> fault + bool \<times> STRIPE_VOLUME \<times> sys" where
  "metadata_load_volume os env fixed named phys vol outs s =
     superblock_read os (en_counter env) fixed named vol outs phys s"

section \<open>Ending a cache\<close>

text \<open>\<^verbatim>\<open>cache_flush_wait\<close>: without another thread to end the flush the wait would not end.\<close>

definition cache_flush_wait :: "STRIPE_VOLUME \<Rightarrow> fault + STRIPE_VOLUME" where
  "cache_flush_wait vol = (if v_cache_flush_in_progress vol \<noteq> 0 then Inl Deadlock else Inr vol)"

definition cleanup_volume_cache :: "os \<Rightarrow> env \<Rightarrow> STRIPE_VOLUME \<Rightarrow> sys \<Rightarrow> fault + STRIPE_VOLUME \<times> sys" where
  "cleanup_volume_cache os env vol s =
     (if \<not> v_cache_enabled vol then Inr (vol, s)
      else
        let vol1 = vol\<lparr>v_cache := (v_cache vol)\<lparr>c_thread_stop := 1, c_flush_thread := False\<rparr>\<rparr>
        in and_then (cache_flush_all os (en_now env) vol1 s) (\<lambda>(vol2, s2).
           and_then (cache_flush_wait vol2) (\<lambda>vol3.
             Inr (vol3\<lparr>v_cache := cache_destroy (v_cache vol3), v_cache_enabled := False\<rparr>, s2))))"

section \<open>Creating\<close>

definition volume_gen_uuid :: "env \<Rightarrow> STRIPE_VOLUME \<Rightarrow> STRIPE_VOLUME" where
  "volume_gen_uuid env vol =
     vol\<lparr>v_volume_uuid := uuid_generate (en_pid env) (en_ticks env) (en_counter env), v_created_time := u64 (en_now env)\<rparr>"

definition close_pools :: "ptr list \<Rightarrow> sys \<Rightarrow> sys" where
  "close_pools ds s = foldl (\<lambda>s d. pool_file_close d s) s ds"

text \<open>The pools are opened in turn; when one fails those opened before it are closed.\<close>

fun open_pools :: "os \<Rightarrow> ptr list \<Rightarrow> ptr list \<Rightarrow> sys \<Rightarrow> bool \<times> sys" where
  "open_pools os opened [] s = (True, s)"
| "open_pools os opened (d # ds) s =
     (case pool_file_open os d s of
        (False, s1) \<Rightarrow> (False, close_pools opened s1)
      | (True, s1) \<Rightarrow> open_pools os (opened @ [d]) ds s1)"

text \<open>The two functions passed as \<open>volume_create_fn\<close>.\<close>

datatype create_fn = StripeFn | MirrorFn

fun create_with :: "create_fn \<Rightarrow> env \<Rightarrow> STRIPE_VOLUME \<Rightarrow> ptr list \<Rightarrow> sys \<Rightarrow> fault + bool \<times> STRIPE_VOLUME \<times> sys" where
  "create_with StripeFn env vol disks s =
     and_then (stripe_volume_create (s_heap s) (en_counter env) vol disks DEFAULT_STRIPE_UNIT) (\<lambda>(ok, vol1). Inr (ok, vol1, s))"
| "create_with MirrorFn env vol disks s = Inr (mirror_volume_create (en_counter env) vol disks s)"

definition volume_create_internal :: "os \<Rightarrow> env \<Rightarrow> create_fn \<Rightarrow> string \<Rightarrow> STRIPE_VOLUME \<Rightarrow> ptr list \<Rightarrow> sys
    \<Rightarrow> fault + bool \<times> STRIPE_VOLUME \<times> sys \<times> events" where
  "volume_create_internal os env fn raid_label vol disks s =
     and_then (cleanup_volume_cache os env vol s) (\<lambda>(vol1, s1).
     and_then (stripe_volume_destroy vol1 s1) (\<lambda>(vol2, s2).
       case open_pools os [] disks s2 of
         (False, s3) \<Rightarrow> Inr (False, vol2, s3, [])
       | (True, s3) \<Rightarrow>
           and_then (create_with fn env vol2 disks s3) (\<lambda>(created, vol3, s4).
             if \<not> created then Inr (False, vol3, close_pools disks s4, [])
             else and_then (if v_raid_level vol3 = RAID_LEVEL_STRIPE then stripe_volume_workers_init os vol3 s4
                            else Inr (True, vol3, s4)) (\<lambda>(started, vol4, s5).
               if \<not> started then Inr (False, vol4, close_pools disks s5, [])
               else and_then (metadata_write os env (volume_gen_uuid env vol4) s5) (\<lambda>(_, vol5, s6, evs).
                 Inr (True, vol5, s6, evs @ [(EVENT_VOLUME_CREATED, raid_label)]))))))"

definition volume_create :: "os \<Rightarrow> env \<Rightarrow> STRIPE_VOLUME \<Rightarrow> ptr list \<Rightarrow> sys \<Rightarrow> fault + bool \<times> STRIPE_VOLUME \<times> sys \<times> events" where
  "volume_create os env vol disks s = volume_create_internal os env StripeFn ''RAID0'' vol disks s"

definition volume_mirror :: "os \<Rightarrow> env \<Rightarrow> STRIPE_VOLUME \<Rightarrow> ptr list \<Rightarrow> sys \<Rightarrow> fault + bool \<times> STRIPE_VOLUME \<times> sys \<times> events" where
  "volume_mirror os env vol disks s = volume_create_internal os env MirrorFn ''RAID1'' vol disks s"

section \<open>Loading, mounting, unmounting\<close>

definition volume_load :: "os \<Rightarrow> env \<Rightarrow> (char \<Rightarrow> bool) \<Rightarrow> char option \<Rightarrow> ptr option list \<Rightarrow> STRIPE_VOLUME \<Rightarrow> ptr list \<Rightarrow> sys
    \<Rightarrow> fault + bool \<times> STRIPE_VOLUME \<times> sys \<times> events" where
  "volume_load os env fixed named phys vol outs s =
     and_then (metadata_load_volume os env fixed named phys vol outs s) (\<lambda>(ok, vol1, s1).
       if \<not> ok then Inr (False, vol1, s1, [])
       else and_then (journal_recover_all os vol1 s1) (\<lambda>(_, vol2, s2).
         Inr (True, vol2, s2, [(EVENT_VOLUME_LOADED, [])])))"

definition volume_mount :: "os \<Rightarrow> char \<Rightarrow> MOUNT_CTX \<Rightarrow> STRIPE_VOLUME \<Rightarrow> sys \<Rightarrow> bool \<times> MOUNT_CTX \<times> STRIPE_VOLUME \<times> sys \<times> events" where
  "volume_mount os letter ctx vol s =
     (case fuse_mount_volume os letter ctx vol s of
        (ok, ctx1, vol1, s1) \<Rightarrow> (ok, ctx1, vol1, s1, if ok then [(EVENT_MOUNT, [])] else []))"

text \<open>\<open>flush_thread\<close> and \<open>mounted\<close> are the caller's variables; both are cleared, as is \<open>cache_on\<close>.\<close>

definition volume_unmount :: "os \<Rightarrow> env \<Rightarrow> bool \<Rightarrow> bool \<Rightarrow> MOUNT_CTX \<Rightarrow> STRIPE_VOLUME \<Rightarrow> sys
    \<Rightarrow> fault + MOUNT_CTX \<times> STRIPE_VOLUME \<times> sys \<times> events" where
  "volume_unmount os env flush_thread mounted ctx vol s =
     and_then (if flush_thread then cleanup_volume_cache os env vol s else Inr (vol, s)) (\<lambda>(vol1, s1).
       let ctx1 = (if mounted then snd (fuse_unmount_volume ctx) else ctx)
       in and_then (stripe_volume_destroy vol1 s1) (\<lambda>(vol2, s2).
         Inr (ctx1, vol2, s2, [(EVENT_UNMOUNT, [])])))"

section \<open>Destroying\<close>

text \<open>One disk: the pool file, the superblock and the directory, which goes only when it is empty.\<close>

definition destroy_disk :: "os \<Rightarrow> ptr \<Rightarrow> sys \<Rightarrow> sys" where
  "destroy_disk os d s =
     (let s1 = snd (pool_file_delete os d (pool_file_close d s));
          s2 = delete_file os (sb_path (drive_char (s_heap s1 d))) s1
      in tick s2)"

definition volume_destroy :: "os \<Rightarrow> env \<Rightarrow> bool \<Rightarrow> bool \<Rightarrow> MOUNT_CTX \<Rightarrow> STRIPE_VOLUME \<Rightarrow> ptr list \<Rightarrow> sys
    \<Rightarrow> fault + MOUNT_CTX \<times> STRIPE_VOLUME \<times> sys \<times> events" where
  "volume_destroy os env flush_thread mounted ctx vol disks s =
     and_then (volume_unmount os env flush_thread mounted ctx vol s) (\<lambda>(ctx1, vol1, s1, evs).
       Inr (ctx1, vol1, foldl (\<lambda>s d. destroy_disk os d s) s1 disks, evs @ [(EVENT_VOLUME_DESTROYED, [])]))"

section \<open>The cache of a volume\<close>

text \<open>The thread starts when the allocations succeeded; its start is one more call.\<close>

definition volume_cache_enable :: "os \<Rightarrow> nat \<Rightarrow> STRIPE_VOLUME \<Rightarrow> sys \<Rightarrow> (bool \<times> nat \<times> bool) option \<times> STRIPE_VOLUME \<times> sys" where
  "volume_cache_enable os cache_size vol s =
     (case cache_init os (v_cache vol) cache_size s of
        (False, c, s1) \<Rightarrow> (None, vol\<lparr>v_cache := c\<rparr>, s1)
      | (True, c, s1) \<Rightarrow>
          let thread = sys_ok os s1
          in (Some (True, u32 (cache_size div (1024 * 1024)), thread),
              vol\<lparr>v_cache := c\<lparr>c_flush_thread := thread\<rparr>, v_cache_enabled := True\<rparr>, tick s1))"

section \<open>Pool files\<close>

definition volume_close_pool_file :: "ptr \<Rightarrow> sys \<Rightarrow> sys" where
  "volume_close_pool_file d s = pool_file_close d s"

definition volume_delete_pool_file :: "os \<Rightarrow> ptr \<Rightarrow> sys \<Rightarrow> sys" where
  "volume_delete_pool_file os d s = snd (pool_file_delete os d s)"

definition volume_create_pool_file :: "os \<Rightarrow> ptr \<Rightarrow> nat \<Rightarrow> sys \<Rightarrow> bool \<times> sys" where
  "volume_create_pool_file os d size_mb s =
     (let size_bytes = u64 (u64 (size_mb * 1024) * 1024)
      in if validate_pool_size size_bytes \<noteq> RC_OK then (False, s) else pool_file_create os d size_bytes s)"

section \<open>Expanding\<close>

text \<open>
  \<open>sscanf\<close> with \<open>%u:%u\<close>: white space, a sign and digits, the colon, and again. A number too large
  for 32 bits is taken modulo its width; what follows the second number is not looked at.
\<close>

definition scan_unsigned :: "string \<Rightarrow> (nat \<times> string) option" where
  "scan_unsigned s =
     (let s1 = dropWhile is_space s;
          neg = (case s1 of c # _ \<Rightarrow> c = CHR ''-'' | [] \<Rightarrow> False);
          s2 = (case s1 of c # r \<Rightarrow> if c = CHR ''-'' \<or> c = CHR ''+'' then r else s1 | [] \<Rightarrow> []);
          ds = takeWhile is_digit s2
      in if ds = [] then None
         else Some (if neg then sub32 0 (u32 (dec_value ds)) else u32 (dec_value ds), dropWhile is_digit s2))"

definition scan_pair :: "string \<Rightarrow> (nat \<times> nat) option" where
  "scan_pair s = (case scan_unsigned s of
     Some (a, c # r) \<Rightarrow>
       if c = CHR '':'' then (case scan_unsigned r of Some (b, _) \<Rightarrow> Some (a, b) | None \<Rightarrow> None) else None
   | _ \<Rightarrow> None)"

text \<open>The disks of the arguments that are there and selected, 16 at most.\<close>

fun expand_args :: "ptr list \<Rightarrow> sys \<Rightarrow> string list \<Rightarrow> (ptr \<times> nat) list \<Rightarrow> (ptr \<times> nat) list" where
  "expand_args phys s [] acc = acc"
| "expand_args phys s (a # as) acc =
     (if 16 \<le> length acc then acc
      else expand_args phys s as (case scan_pair a of
        Some (i, mb) \<Rightarrow>
          if i < length phys \<and> d_selected (s_heap s (phys ! i)) then acc @ [(phys ! i, mb)] else acc
      | None \<Rightarrow> acc))"

definition rollback_pools :: "os \<Rightarrow> ptr list \<Rightarrow> sys \<Rightarrow> sys" where
  "rollback_pools os ds s = foldl (\<lambda>s d. snd (pool_file_delete os d (pool_file_close d s))) s ds"

fun expand_pools :: "os \<Rightarrow> ptr list \<Rightarrow> (ptr \<times> nat) list \<Rightarrow> sys \<Rightarrow> bool \<times> ptr list \<times> sys" where
  "expand_pools os created [] s = (True, created, s)"
| "expand_pools os created ((d, mb) # rest) s =
     (let size_bytes = u64 (mb * 1024 * 1024)
      in if d_drive_letter (s_heap s d) = [] then (False, created, s)
         else if validate_pool_size size_bytes \<noteq> RC_OK then (False, created, s)
         else case pool_file_create os d size_bytes s of
           (False, s1) \<Rightarrow> (False, created, s1)
         | (True, s1) \<Rightarrow>
             (case pool_file_open os d s1 of
                (False, s2) \<Rightarrow> (False, created, snd (pool_file_delete os d s2))
              | (True, s2) \<Rightarrow> expand_pools os (created @ [d]) rest s2))"

definition volume_expand :: "os \<Rightarrow> env \<Rightarrow> ptr list \<Rightarrow> string list \<Rightarrow> STRIPE_VOLUME \<Rightarrow> sys
    \<Rightarrow> fault + bool \<times> STRIPE_VOLUME \<times> sys \<times> events" where
  "volume_expand os env phys argv vol s =
     (if v_raid_level vol \<noteq> RAID_LEVEL_STRIPE then Inr (False, vol, s, [])
      else if expand_args phys s argv [] = [] then Inr (False, vol, s, [])
      else case expand_pools os [] (expand_args phys s argv []) s of
        (False, created, s1) \<Rightarrow> Inr (False, vol, rollback_pools os created s1, [])
      | (True, created, s1) \<Rightarrow>
          and_then (stripe_volume_expand (s_heap s1) vol created) (\<lambda>(ok, vol1).
            if \<not> ok then Inr (False, vol1, rollback_pools os created s1, [])
            else and_then (metadata_write os env vol1 s1) (\<lambda>(_, vol2, s2, evs).
              Inr (True, vol2, s2, evs @ [(EVENT_EXPAND, [])]))))"

section \<open>Rebuilding\<close>

definition volume_rebuild :: "os \<Rightarrow> env \<Rightarrow> ptr list \<Rightarrow> nat \<Rightarrow> nat \<Rightarrow> nat \<Rightarrow> STRIPE_VOLUME \<Rightarrow> sys
    \<Rightarrow> fault + bool \<times> STRIPE_VOLUME \<times> sys \<times> events" where
  "volume_rebuild os env phys replace_idx new_disk_id pool_mb vol s =
     (if v_raid_level vol \<noteq> RAID_LEVEL_MIRROR then Inr (False, vol, s, [])
      else if v_disk_count vol \<le> replace_idx then Inr (False, vol, s, [])
      else if length phys \<le> new_disk_id then Inr (False, vol, s, [])
      else
        let d = phys ! new_disk_id; size_bytes = u64 (u64 (pool_mb * 1024) * 1024)
        in if d_drive_letter (s_heap s d) = [] then Inr (False, vol, s, [])
           else if validate_pool_size size_bytes \<noteq> RC_OK then Inr (False, vol, s, [])
           else case pool_file_create os d size_bytes s of
             (False, s1) \<Rightarrow> Inr (False, vol, s1, [])
           | (True, s1) \<Rightarrow>
               (case pool_file_open os d s1 of
                  (False, s2) \<Rightarrow> Inr (False, vol, snd (pool_file_delete os d s2), [])
                | (True, s2) \<Rightarrow>
                    (case mirror_volume_rebuild os vol d replace_idx s2 of
                       (False, vol1, s3) \<Rightarrow>
                         Inr (False, vol1, snd (pool_file_delete os d (pool_file_close d s3)), [])
                     | (True, vol1, s3) \<Rightarrow>
                         and_then (metadata_write os env vol1 s3) (\<lambda>(_, vol2, s4, evs).
                           Inr (True, vol2, s4, evs @ [(EVENT_REBUILD, [])])))))"

section \<open>What the calls below keep\<close>

lemma sb_write_disk_keep:
  "s_heap (snd (sb_write_disk os bytes d s)) = s_heap s" "w_media (snd (sb_write_disk os bytes d s)) = w_media s"
  by (auto simp: sb_write_disk_def Let_def create_always_def append_file_def flush_buffers_def rename_file_def
      delete_file_def tick_def split: if_splits option.splits prod.splits bool.splits)

lemma sb_write_disks_keep:
  "s_heap (snd (sb_write_disks os bytes ds s)) = s_heap s \<and> w_media (snd (sb_write_disks os bytes ds s)) = w_media s"
proof (induction ds arbitrary: s)
  case (Cons d ds)
  obtain ok s1 where 1: "sb_write_disk os bytes d s = (ok, s1)" by force
  obtain any s2 where 2: "sb_write_disks os bytes ds s1 = (any, s2)" by force
  show ?case using Cons.IH [of s1] sb_write_disk_keep [of os bytes d s] 1 2 by simp
qed simp

lemma metadata_write_keep:
  assumes "metadata_write os env vol s = Inr (ok, vol', s', evs)"
  shows "vol' = vol \<or> vol' = vol\<lparr>v_generation := u64 (v_generation vol + 1)\<rparr>" "s_heap s' = s_heap s" "w_media s' = w_media s"
  using assms sb_write_disks_keep
  by (auto simp: metadata_write_def superblock_write_def Let_def split: if_splits prod.splits) (metis snd_conv)+

lemma metadata_write_returns: "CHECK_DISKS vol \<Longrightarrow> \<exists>r. metadata_write os env vol s = Inr r"
  by (auto simp: metadata_write_def superblock_write_def Let_def split: prod.split)

text \<open>Opening pools touches the handles only.\<close>

definition handle_only :: "ptr set \<Rightarrow> sys \<Rightarrow> sys \<Rightarrow> bool" where
  "handle_only ds s s' \<longleftrightarrow> w_media s' = w_media s \<and> w_files s' = w_files s \<and>
     (\<forall>d. \<exists>h. s_heap s' d = (s_heap s d)\<lparr>d_handle := h\<rparr>) \<and> (\<forall>d. d \<notin> ds \<longrightarrow> s_heap s' d = s_heap s d)"

lemma own_handle: "\<exists>h. r = r\<lparr>d_handle := h\<rparr>"
  by (rule exI [of _ "d_handle r"]) simp

lemma handle_only_refl: "handle_only ds s s"
  unfolding handle_only_def using own_handle by blast

lemma handle_only_trans:
  assumes "handle_only ds s s1" "handle_only ds s1 s2" shows "handle_only ds s s2"
proof -
  have "\<exists>h. s_heap s2 d = (s_heap s d)\<lparr>d_handle := h\<rparr>" for d
  proof -
    obtain g where g: "s_heap s1 d = (s_heap s d)\<lparr>d_handle := g\<rparr>" using assms(1) unfolding handle_only_def by blast
    obtain h where "s_heap s2 d = (s_heap s1 d)\<lparr>d_handle := h\<rparr>" using assms(2) unfolding handle_only_def by blast
    then show ?thesis using g by auto
  qed
  then show ?thesis using assms unfolding handle_only_def by metis
qed

lemma handle_only_fields:
  assumes "handle_only ds s s'"
  shows "d_file_path (s_heap s' d) = d_file_path (s_heap s d)" "d_pool_bytes (s_heap s' d) = d_pool_bytes (s_heap s d)"
    "disk_speed (s_heap s' d) = disk_speed (s_heap s d)" "d_drive_letter (s_heap s' d) = d_drive_letter (s_heap s d)"
proof -
  obtain h where "s_heap s' d = (s_heap s d)\<lparr>d_handle := h\<rparr>" using assms unfolding handle_only_def by blast
  then show "d_file_path (s_heap s' d) = d_file_path (s_heap s d)" "d_pool_bytes (s_heap s' d) = d_pool_bytes (s_heap s d)"
    "disk_speed (s_heap s' d) = disk_speed (s_heap s d)" "d_drive_letter (s_heap s' d) = d_drive_letter (s_heap s d)"
    by (simp_all add: disk_speed_def)
qed

lemma handle_only_set: "d \<in> ds \<Longrightarrow> handle_only ds s (update_disk d (\<lambda>disk. disk\<lparr>d_handle := h\<rparr>) s)"
  unfolding handle_only_def update_disk_def using own_handle by auto

lemma handle_only_tick: "handle_only ds (tick s) s' = handle_only ds s s'"
  by (simp add: handle_only_def tick_def)

lemma pool_file_open_keep:
  assumes "d \<in> ds" shows "handle_only ds s (snd (pool_file_open os d s))"
proof -
  note F = handle_only_set [OF assms, where h = "FILE_HANDLE (d_file_path (s_heap s d))"]
  note I = handle_only_set [OF assms, where h = INVALID_HANDLE_VALUE]
  show ?thesis
    using F [of "tick s"] F [of "tick (tick s)"] I [of "tick (tick s)"] handle_only_refl [of ds s]
    by (simp add: pool_file_open_def Let_def handle_only_tick)
qed

lemma pool_file_close_keep: "d \<in> ds \<Longrightarrow> handle_only ds s (pool_file_close d s)"
  by (simp add: pool_file_close_def handle_only_refl handle_only_set)

lemma close_pools_keep: "set xs \<subseteq> ds \<Longrightarrow> handle_only ds s (close_pools xs s)"
proof (induction xs arbitrary: s)
  case (Cons x xs)
  then have "handle_only ds s (pool_file_close x s)" by (intro pool_file_close_keep) simp
  moreover have "handle_only ds (pool_file_close x s) (close_pools xs (pool_file_close x s))" using Cons by simp
  ultimately show ?case using handle_only_trans by (fastforce simp: close_pools_def)
qed (simp add: close_pools_def handle_only_refl)

lemma close_pools_closed: "d \<in> set xs \<Longrightarrow> d_handle (s_heap (close_pools xs s) d) = INVALID_HANDLE_VALUE"
proof (induction xs arbitrary: s)
  case (Cons x xs)
  have keep: "d_handle (s_heap s d) = INVALID_HANDLE_VALUE \<Longrightarrow> d_handle (s_heap (close_pools ys s) d) = INVALID_HANDLE_VALUE" for ys s
    by (induction ys arbitrary: s) (simp_all add: close_pools_def pool_file_close_def update_disk_def)
  have c: "close_pools (x # xs) s = close_pools xs (pool_file_close x s)" by (simp add: close_pools_def)
  have "d_handle (s_heap (pool_file_close x s) x) = INVALID_HANDLE_VALUE" by (simp add: pool_file_close_def update_disk_def)
  then show ?case using Cons keep c by (cases "d = x") simp_all
qed simp

lemma open_pools_keep:
  "set ds \<union> set opened \<subseteq> D \<Longrightarrow> handle_only D s (snd (open_pools os opened ds s))"
proof (induction ds arbitrary: opened s)
  case (Cons d ds)
  obtain ok s1 where O: "pool_file_open os d s = (ok, s1)" by force
  have 1: "handle_only D s s1" using pool_file_open_keep [of d D s os] Cons.prems O by simp
  show ?case
  proof (cases ok)
    case True
    have "handle_only D s1 (snd (open_pools os (opened @ [d]) ds s1))" using Cons.prems by (intro Cons.IH) simp
    then show ?thesis using handle_only_trans [OF 1] True O by simp
  next
    case False
    have "handle_only D s1 (close_pools opened s1)" using Cons.prems by (intro close_pools_keep) simp
    then show ?thesis using handle_only_trans [OF 1] False O by simp
  qed
qed (simp add: handle_only_refl)

lemma open_pools_good:
  "all_good os \<Longrightarrow> \<forall>d \<in> set ds. d_file_path (s_heap s d) \<noteq> [] \<Longrightarrow> distinct ds \<Longrightarrow>
    \<exists>s'. open_pools os opened ds s = (True, s') \<and> (\<forall>d. d \<notin> set ds \<longrightarrow> s_heap s' d = s_heap s d) \<and>
      (\<forall>d \<in> set ds. s_heap s' d = (s_heap s d)\<lparr>d_handle := FILE_HANDLE (d_file_path (s_heap s d))\<rparr>)"
proof (induction ds arbitrary: opened s)
  case (Cons d ds)
  obtain ok s1 where O: "pool_file_open os d s = (ok, s1)" by force
  then have ok: ok using pool_file_open_good [of os s d] Cons.prems by simp
  note C = pool_file_open_cases [OF _ O]
  have d: "d_file_path (s_heap s d) \<noteq> []" using Cons.prems by simp
  have h: "s_heap s1 d = (s_heap s d)\<lparr>d_handle := FILE_HANDLE (d_file_path (s_heap s d))\<rparr>" "\<forall>e. e \<noteq> d \<longrightarrow> s_heap s1 e = s_heap s e"
    using C [OF d] ok by simp_all
  have "\<forall>e \<in> set ds. d_file_path (s_heap s1 e) \<noteq> []" using Cons.prems h by auto
  from Cons.IH [OF Cons.prems(1) this, of "opened @ [d]"] Cons.prems(3)
  obtain s2 where R: "open_pools os (opened @ [d]) ds s1 = (True, s2)" "\<forall>e. e \<notin> set ds \<longrightarrow> s_heap s2 e = s_heap s1 e"
    "\<forall>e \<in> set ds. s_heap s2 e = (s_heap s1 e)\<lparr>d_handle := FILE_HANDLE (d_file_path (s_heap s1 e))\<rparr>" by auto
  show ?case using O ok R h Cons.prems(3) by (intro exI [of _ s2]) auto
qed simp

end
