(* ===== verification/VolumeLife.thy ===== *)
theory VolumeLife
  imports VolumeManager LayoutLoop
begin

text \<open>
  What the calls of \<open>VolumeManager\<close> amount to over the life of a volume: a created volume serves
  requests, its superblock loads it back with the same address map, a loaded volume has no workers and
  serves nothing, an expanded one cannot be stopped, a failed creation leaves no pool open, and
  destruction leaves the journals behind.
\<close>

section \<open>A created volume serves requests\<close>

lemma stripe_volume_create_shape:
  assumes "stripe_volume_create heap now vol disks su = Inr (True, vol')"
  shows "v_raid_level vol' = RAID_LEVEL_STRIPE" "v_disk_count vol' = length disks" "v_disks vol' = fill (map Some disks) (v_disks zero_volume)"
    "\<not> v_cache_enabled vol'" "v_worker_state vol' = None" "v_generation vol' = 0" "length disks \<le> MAX_DISKS" "MIN_DISKS \<le> length disks"
  using assms by (auto simp: stripe_volume_create_def Let_def zero_volume_def split: if_splits)

lemma created_disks:
  assumes "v_disks vol = fill (map Some disks) (v_disks zero_volume)" "v_disk_count vol = length disks" "length disks \<le> MAX_DISKS"
  shows "CHECK_DISKS vol" "i < length disks \<Longrightarrow> vdisk vol i = disks ! i" "disk_ptrs vol = disks"
proof -
  have n: "v_disks vol ! i = Some (disks ! i) \<and> i < length (v_disks vol)" if "i < length disks" for i
    using that assms by (simp add: fill_def zero_volume_def nth_append)
  then show "CHECK_DISKS vol" using assms(2) by (simp add: CHECK_DISKS_def list_all_iff)
  show v: "vdisk vol i = disks ! i" if "i < length disks" for i using n [OF that] by (simp add: vdisk_def)
  then show "disk_ptrs vol = disks" using assms(2) by (intro nth_equalityI) (simp_all add: disk_ptrs_def)
qed

lemma disks_open_distinct:
  assumes "CHECK_DISKS vol" "v_disk_count vol = length disks" "\<And>i. i < length disks \<Longrightarrow> vdisk vol i = disks ! i"
    and "\<forall>d \<in> set disks. d_handle (s_heap s d) = FILE_HANDLE (f d)" "distinct (map f disks)"
  shows "disks_open vol s"
proof -
  have p: "disk_path vol s i = f (disks ! i)" if "i < length disks" for i
    using assms(3,4) that by (simp add: disk_path_def)
  have "i = j" if "i < length disks" "j < length disks" "f (disks ! i) = f (disks ! j)" for i j
    using assms(5) that by (metis length_map nth_eq_iff_index_eq nth_map)
  then show ?thesis using assms p by (simp add: disks_open_def)
qed

text \<open>A volume that was not set up yet: no cache, no workers, no disks.\<close>

definition blank :: "STRIPE_VOLUME \<Rightarrow> bool" where
  "blank vol \<longleftrightarrow> \<not> v_cache_enabled vol \<and> v_worker_state vol = None \<and> v_disk_count vol = 0"

lemma blank_released: "blank vol \<Longrightarrow> cleanup_volume_cache os env vol s = Inr (vol, s) \<and> stripe_volume_destroy vol s = Inr (vol, s)"
  by (simp add: blank_def cleanup_volume_cache_def stripe_volume_destroy_def stripe_volume_workers_stop_def)

text \<open>The disks of a new volume: present, on files of their own, of a size the layout can take.\<close>

definition usable :: "ptr list \<Rightarrow> sys \<Rightarrow> bool" where
  "usable disks s \<longleftrightarrow> MIN_DISKS \<le> length disks \<and> length disks \<le> MAX_DISKS \<and> distinct disks \<and>
     distinct (map (\<lambda>d. d_file_path (s_heap s d)) disks) \<and> (\<forall>d \<in> set disks. d_file_path (s_heap s d) \<noteq> []) \<and>
     disks_ok (s_heap s) disks"

lemma handles_ratios:
  assumes "\<forall>d \<in> set ds. \<exists>h. heap' d = (heap d)\<lparr>d_handle := h\<rparr>"
  shows "call_ratios heap' ds = call_ratios heap ds" "disks_ok heap' ds = disks_ok heap ds"
    "\<forall>d \<in> set ds. d_pool_bytes (heap' d) = d_pool_bytes (heap d)"
proof -
  have "disk_speed (heap' d) = disk_speed (heap d) \<and> d_pool_bytes (heap' d) = d_pool_bytes (heap d)" if "d \<in> set ds" for d
    using assms that by (auto simp: disk_speed_def)
  then show "call_ratios heap' ds = call_ratios heap ds" "disks_ok heap' ds = disks_ok heap ds"
    "\<forall>d \<in> set ds. d_pool_bytes (heap' d) = d_pool_bytes (heap d)"
    by (simp_all add: call_ratios_def disks_ok_def cong: map_cong)
qed

lemma start_workers_keeps:
  "start_workers os ds i n s = (r, s') \<Longrightarrow> s_heap s' = s_heap s \<and> w_media s' = w_media s \<and> w_files s' = w_files s"
proof (induction os ds i n s arbitrary: r s' rule: start_workers.induct)
  case (2 os ds i n s)
  from 2(2) show ?case using 2(1) [OF refl refl refl refl refl refl]
    by (auto simp: Let_def tick_def split: if_splits prod.splits option.splits)
qed simp

lemma workers_init_keeps:
  "stripe_volume_workers_init os vol s = Inr (r, vol', s') \<Longrightarrow>
     s_heap s' = s_heap s \<and> w_media s' = w_media s \<and> w_files s' = w_files s"
  by (auto simp: stripe_volume_workers_init_def tick_def dest!: start_workers_keeps split: if_splits prod.splits option.splits)

lemma volume_create_run:
  assumes good: "all_good os" and blank: "blank vol" and use: "usable disks s"
  shows "\<exists>vol3 vol4 s5 used. volume_create os env vol disks s =
      and_then (metadata_write os env (volume_gen_uuid env vol4) s5) (\<lambda>(_, vol5, s6, evs).
        Inr (True, vol5, s6, evs @ [(EVENT_VOLUME_CREATED, ''RAID0'')])) \<and>
    stripe_volume_create (s_heap s5) (en_counter env) vol disks DEFAULT_STRIPE_UNIT = Inr (True, vol3) \<and> same_volume vol3 vol4 \<and>
    wf_layout vol3 \<and> c_arrays vol3 \<and> disk_ptrs vol4 = disks \<and> v_generation vol4 = 0 \<and>
    stripe_good (sum_list used) DEFAULT_STRIPE_UNIT vol4 s5 \<and> cells vol4 = used_cells 0 used \<and> length used = length disks \<and>
    (\<forall>d < length disks. used ! d \<le> d_pool_bytes (s_heap s (disks ! d)) \<and>
       d_pool_bytes (s_heap s (disks ! d)) < used ! d + call_ratios (s_heap s) disks ! d * DEFAULT_STRIPE_UNIT) \<and>
    handle_only (set disks) s s5 \<and> (\<forall>d \<in> set disks. d_handle (s_heap s5 d) = FILE_HANDLE (d_file_path (s_heap s d)))"
proof -
  note use = use [unfolded usable_def]
  obtain s3 where O: "open_pools os [] disks s = (True, s3)" "\<forall>d. d \<notin> set disks \<longrightarrow> s_heap s3 d = s_heap s d"
    "\<forall>d \<in> set disks. s_heap s3 d = (s_heap s d)\<lparr>d_handle := FILE_HANDLE (d_file_path (s_heap s d))\<rparr>"
    using open_pools_good [OF good, of disks s "[]"] use by blast
  have "\<forall>d \<in> set disks. \<exists>h. s_heap s3 d = (s_heap s d)\<lparr>d_handle := h\<rparr>" using O(3) by blast
  note H = handles_ratios [OF this]
  have ok: "disks_ok (s_heap s3) disks" using H(2) use by blast
  obtain vol3 used where C: "stripe_volume_create (s_heap s3) (en_counter env) vol disks DEFAULT_STRIPE_UNIT = Inr (True, vol3)"
    "wf_layout vol3" "c_arrays vol3" "v_disk_count vol3 = length disks" "v_stripe_unit vol3 = DEFAULT_STRIPE_UNIT" "length used = length disks"
    "v_virtual_total_bytes vol3 = sum_list used" "cells vol3 = used_cells 0 used"
    "\<forall>d < length disks. used ! d \<le> d_pool_bytes (s_heap s3 (disks ! d)) \<and>
       d_pool_bytes (s_heap s3 (disks ! d)) < used ! d + call_ratios (s_heap s3) disks ! d * DEFAULT_STRIPE_UNIT"
    using stripe_volume_create_layout [OF _ _ _ _ ok, of DEFAULT_STRIPE_UNIT "en_counter env" vol] use by (auto simp: const)
  note S = stripe_volume_create_shape [OF C(1)]
  note D = created_disks [OF S(3,2,7)]
  have open3: "disks_open vol3 s3"
    by (rule disks_open_distinct [OF D(1) S(2) D(2), where f = "\<lambda>d. d_file_path (s_heap s d)"]) (use O(3) use in auto)
  have "0 < v_disk_count vol3" using C(4) use by (cases disks) (auto simp: const)
  from workers_init_ready [OF good this open3]
  obtain ws s5 where W: "stripe_volume_workers_init os vol3 s3 = Inr (True, vol3\<lparr>v_worker_state := Some ws\<rparr>, s5)"
    "workers_ready (vol3\<lparr>v_worker_state := Some ws\<rparr>) s5" by blast
  let ?vol4 = "vol3\<lparr>v_worker_state := Some ws\<rparr>"
  note K = workers_init_keeps [OF W(1)]
  have same: "same_volume vol3 ?vol4"
    unfolding same_volume_def by (intro exI [of _ "Some ws"] exI [of _ "v_bytes_read vol3"] exI [of _ "v_bytes_written vol3"]) simp
  have good4: "stripe_good (sum_list used) DEFAULT_STRIPE_UNIT ?vol4 s5"
    using C W(2) S same_volume_bytes(2) [OF same] by (simp add: stripe_good_def const)
  have cells: "cells ?vol4 = used_cells 0 used" using C(8) by (simp add: cells_def)
  have ptrs: "disk_ptrs ?vol4 = disks" using D(3) same_layout_bytes(5) [OF same_volume_layout [OF same]] by simp
  have h3: "handle_only (set disks) s s3" using open_pools_keep [of disks "[]" "set disks" s os] O(1) by simp
  then have h5: "handle_only (set disks) s s5" using K by (simp add: handle_only_def)
  have run: "volume_create os env vol disks s =
      and_then (metadata_write os env (volume_gen_uuid env ?vol4) s5) (\<lambda>(_, vol5, s6, evs).
        Inr (True, vol5, s6, evs @ [(EVENT_VOLUME_CREATED, ''RAID0'')]))"
    using blank_released [OF blank] O(1) C(1) S(1) W(1) by (simp add: volume_create_def volume_create_internal_def)
  have size: "\<forall>d < length disks. used ! d \<le> d_pool_bytes (s_heap s (disks ! d)) \<and>
       d_pool_bytes (s_heap s (disks ! d)) < used ! d + call_ratios (s_heap s) disks ! d * DEFAULT_STRIPE_UNIT"
    using C(9) H(3) unfolding H(1) by simp
  have C5: "stripe_volume_create (s_heap s5) (en_counter env) vol disks DEFAULT_STRIPE_UNIT = Inr (True, vol3)" using C(1) K by simp
  have gen: "v_generation ?vol4 = 0" using S(6) by simp
  have handles: "\<forall>d \<in> set disks. d_handle (s_heap s5 d) = FILE_HANDLE (d_file_path (s_heap s d))" using O(3) K by simp
  show ?thesis
    by (intro exI [of _ vol3] exI [of _ ?vol4] exI [of _ s5] exI [of _ used] conjI run C5 same C(2,3,6) ptrs gen good4 cells size h5 handles)
qed

lemma stripe_good_layout:
  assumes "stripe_good cap su vol s" "same_layout vol vol'" "v_worker_state vol' = v_worker_state vol"
    "v_raid_level vol' = v_raid_level vol" "v_cache_enabled vol' = v_cache_enabled vol" "s_heap s' = s_heap s"
  shows "stripe_good cap su vol' s'"
  using stripe_good_heap [OF assms(1,6)] same_layout_bytes(2) [OF assms(2)] workers_ready_layout [OF assms(2,3)] assms(2,4,5)
  by (simp add: stripe_good_def same_layout_def)

lemma named_volume [simp]:
  "same_layout vol (volume_gen_uuid env vol)" "v_worker_state (volume_gen_uuid env vol) = v_worker_state vol"
  "v_raid_level (volume_gen_uuid env vol) = v_raid_level vol" "v_cache_enabled (volume_gen_uuid env vol) = v_cache_enabled vol"
  "v_generation (volume_gen_uuid env vol) = v_generation vol"
  by (simp_all add: volume_gen_uuid_def same_layout_def)

lemma counted_volume [simp]: "same_layout vol (vol\<lparr>v_generation := g\<rparr>)"
  by (simp add: same_layout_def)

lemma same_layout_trans: "same_layout u v \<Longrightarrow> same_layout v w \<Longrightarrow> same_layout u w"
  by (simp add: same_layout_def)

lemma same_layout_cells: "same_layout v w \<Longrightarrow> cells w = cells v"
  by (simp add: cells_def phase_extent_def same_layout_def)

lemma stripe_good_check: "stripe_good cap su vol s \<Longrightarrow> CHECK_DISKS vol"
  by (simp add: stripe_good_def workers_ready_def disks_open_def)

lemma volume_create_good:
  assumes good: "all_good os" and blank: "blank vol" and use: "usable disks s"
  shows "\<exists>vol' s' evs used. volume_create os env vol disks s = Inr (True, vol', s', evs) \<and>
    last evs = (EVENT_VOLUME_CREATED, ''RAID0'') \<and> disk_ptrs vol' = disks \<and>
    stripe_good (sum_list used) DEFAULT_STRIPE_UNIT vol' s' \<and> cells vol' = used_cells 0 used \<and> length used = length disks \<and>
    (\<forall>d < length disks. used ! d \<le> d_pool_bytes (s_heap s (disks ! d)) \<and>
       d_pool_bytes (s_heap s (disks ! d)) < used ! d + call_ratios (s_heap s) disks ! d * DEFAULT_STRIPE_UNIT) \<and>
    w_media s' = w_media s"
proof -
  obtain vol4 s5 used where R: "volume_create os env vol disks s =
      and_then (metadata_write os env (volume_gen_uuid env vol4) s5) (\<lambda>(_, vol5, s6, evs).
        Inr (True, vol5, s6, evs @ [(EVENT_VOLUME_CREATED, ''RAID0'')]))"
    "disk_ptrs vol4 = disks" "stripe_good (sum_list used) DEFAULT_STRIPE_UNIT vol4 s5" "cells vol4 = used_cells 0 used" "length used = length disks"
    "\<forall>d < length disks. used ! d \<le> d_pool_bytes (s_heap s (disks ! d)) \<and>
       d_pool_bytes (s_heap s (disks ! d)) < used ! d + call_ratios (s_heap s) disks ! d * DEFAULT_STRIPE_UNIT" "handle_only (set disks) s s5"
    using volume_create_run [OF assms, of env] by blast
  let ?v = "volume_gen_uuid env vol4"
  have g: "stripe_good (sum_list used) DEFAULT_STRIPE_UNIT ?v s5" by (rule stripe_good_layout [OF R(3)]) simp_all
  obtain ok vol5 s6 evs where M: "metadata_write os env ?v s5 = Inr (ok, vol5, s6, evs)"
    using metadata_write_returns [OF stripe_good_check [OF g], of os env s5] by auto
  note K = metadata_write_keep [OF M]
  have l: "same_layout ?v vol5 \<and> v_worker_state vol5 = v_worker_state ?v \<and> v_raid_level vol5 = v_raid_level ?v \<and>
      v_cache_enabled vol5 = v_cache_enabled ?v"
    using K(1) by (auto simp: same_layout_def)
  then have "stripe_good (sum_list used) DEFAULT_STRIPE_UNIT vol5 s6" using K(2) by (intro stripe_good_layout [OF g]) simp_all
  moreover have l4: "same_layout vol4 vol5" using l same_layout_trans [OF named_volume(1)] by blast
  have "disk_ptrs vol5 = disks" "cells vol5 = used_cells 0 used"
    using same_layout_bytes(5) [OF l4] same_layout_cells [OF l4] R(2,4) by simp_all
  moreover have "w_media s6 = w_media s" using K(3) R(7) by (simp add: handle_only_def)
  ultimately show ?thesis using R(1,5,6) M by (intro exI [of _ vol5] exI [of _ s6] exI [of _ "evs @ [(EVENT_VOLUME_CREATED, ''RAID0'')]"] exI [of _ used]) simp
qed

text \<open>What it leaves of the disks: their letters and paths, with their pools open.\<close>

lemma volume_create_keeps:
  assumes "all_good os" "blank vol" "usable disks s" "volume_create os env vol disks s = Inr (ok, vol', s', evs)"
  shows "(\<forall>d. d_drive_letter (s_heap s' d) = d_drive_letter (s_heap s d)) \<and>
    (\<forall>d \<in> set disks. d_handle (s_heap s' d) = FILE_HANDLE (d_file_path (s_heap s d)))"
proof -
  obtain vol4 s5 where R: "volume_create os env vol disks s =
      and_then (metadata_write os env (volume_gen_uuid env vol4) s5) (\<lambda>(_, vol5, s6, evs).
        Inr (True, vol5, s6, evs @ [(EVENT_VOLUME_CREATED, ''RAID0'')]))"
    "handle_only (set disks) s s5" "\<forall>d \<in> set disks. d_handle (s_heap s5 d) = FILE_HANDLE (d_file_path (s_heap s d))"
    using volume_create_run [OF assms(1-3), of env] by blast
  obtain ok2 vol5 s6 evs2 where M: "metadata_write os env (volume_gen_uuid env vol4) s5 = Inr (ok2, vol5, s6, evs2)" "s' = s6"
    using assms(4) unfolding R(1) by (cases "metadata_write os env (volume_gen_uuid env vol4) s5") auto
  have "s_heap s' = s_heap s5" using metadata_write_keep(2) [OF M(1)] M(2) by simp
  then show ?thesis using R(2,3) handle_only_fields(4) [OF R(2)] by simp
qed

text \<open>
  C20. On a working system, creating a striped volume of two to four distinct disks with pool
  files of their own succeeds, publishes its event last, and gives a volume of exactly those disks
  whose workers run, whose layout is a prefix of each pool, and to which the read and write
  theorems apply; no byte of a pool is changed.
\<close>

theorem volume_create_serves:
  assumes good: "all_good os" and blank: "blank vol" and use: "usable disks s"
  shows "\<exists>vol' s' evs used. volume_create os env vol disks s = Inr (True, vol', s', evs) \<and>
    last evs = (EVENT_VOLUME_CREATED, ''RAID0'') \<and> disk_ptrs vol' = disks \<and>
    stripe_good (sum_list used) DEFAULT_STRIPE_UNIT vol' s' \<and> cells vol' = used_cells 0 used \<and> length used = length disks \<and>
    (\<forall>d < length disks. used ! d \<le> d_pool_bytes (s_heap s (disks ! d)) \<and>
       d_pool_bytes (s_heap s (disks ! d)) < used ! d + call_ratios (s_heap s) disks ! d * DEFAULT_STRIPE_UNIT) \<and>
    w_media s' = w_media s"
  by (rule volume_create_good [OF assms])

text \<open>Two disks with room for a pool each, on drives C and D.\<close>

definition ready_system :: sys where
  "ready_system = \<lparr>w_clock = 0, w_media = (\<lambda>_ _. 0), w_files = Map.empty,
     s_heap = (\<lambda>p. zero_disk\<lparr>d_drive_letter := (if p = 0 then ''C:'' else ''D:''), d_pool_bytes := 2 ^ 30,
       d_file_path := pool_path (if p = 0 then ''C:'' else ''D:'')\<rparr>)\<rparr>"

definition start_env :: env where
  "start_env = \<lparr>en_now = 7, en_counter = 3, en_pid = 5, en_ticks = 9\<rparr>"

lemma ready_usable: "usable [0, 1] ready_system"
  by (simp add: usable_def ready_system_def pool_path_def disks_ok_def disk_speed_def zero_disk_def const)

lemma zero_blank: "blank zero_volume"
  by (simp add: blank_def zero_volume_def)

theorem volume_create_serves_witness:
  "\<exists>vol' s' evs used. volume_create os_good start_env zero_volume [0, 1] ready_system = Inr (True, vol', s', evs) \<and>
    stripe_good (sum_list used) DEFAULT_STRIPE_UNIT vol' s'"
  using volume_create_serves [OF all_good_os_good zero_blank ready_usable, of start_env] by blast

section \<open>A created volume fits its superblock\<close>

definition pads :: "MAPPING_PHASE \<Rightarrow> bool" where
  "pads ph \<longleftrightarrow> phase_arrays ph \<and> (\<forall>v \<in> set (ph_active_disk_indices ph). v < 2 ^ 32) \<and>
     (\<forall>v \<in> set (ph_ratios ph). v < 2 ^ 32) \<and> (\<forall>v \<in> set (ph_physical_starts_bytes ph). v < 2 ^ 64)"

definition pads_inv :: "nat \<Rightarrow> layout \<Rightarrow> bool" where
  "pads_inv base st \<longleftrightarrow> length (l_phases st) = MAX_DISKS \<and> (\<forall>ph \<in> set (l_phases st). pads ph) \<and> length (l_remaining st) \<le> MAX_DISKS \<and>
     (\<forall>(d, r) \<in> set (l_remaining st). base + d < 2 ^ 32 \<and> r < 2 ^ 32 \<and> d < length (l_used_phys st)) \<and>
     (\<forall>u \<in> set (l_used_phys st). u < 2 ^ 64)"

lemma set_fill: "set (fill xs arr) \<subseteq> set xs \<union> set arr"
  by (auto simp: fill_def dest: in_set_dropD)

lemma pads_fill:
  assumes "pads_inv base st" "pads ph"
  shows "pads (fill_phase base su st ph)"
proof -
  let ?r = "l_remaining st"
  have a: "phase_arrays (fill_phase base su st ph)"
    using assms by (simp add: pads_def pads_inv_def phase_arrays_def fill_phase_def Let_def length_fill)
  have "\<forall>v \<in> set (map (\<lambda>(d, r). base + d) ?r) \<union> set (ph_active_disk_indices ph). v < 2 ^ 32"
    "\<forall>v \<in> set (map snd ?r) \<union> set (ph_ratios ph). v < 2 ^ 32"
    "\<forall>v \<in> set (map (\<lambda>(d, r). l_used_phys st ! d) ?r) \<union> set (ph_physical_starts_bytes ph). v < 2 ^ 64"
    using assms by (auto simp: pads_def pads_inv_def)
  then have "\<forall>v \<in> set (fill (map (\<lambda>(d, r). base + d) ?r) (ph_active_disk_indices ph)). v < 2 ^ 32"
    "\<forall>v \<in> set (fill (map snd ?r) (ph_ratios ph)). v < 2 ^ 32"
    "\<forall>v \<in> set (fill (map (\<lambda>(d, r). l_used_phys st ! d) ?r) (ph_physical_starts_bytes ph)). v < 2 ^ 64"
    using set_fill subsetD by meson+
  then show ?thesis using a by (simp add: pads_def fill_phase_def Let_def)
qed

lemma pads_size [simp]: "pads (ph\<lparr>ph_virtual_size_bytes := n\<rparr>) = pads ph"
  by (simp add: pads_def phase_arrays_def)

lemma charge_pads:
  "charge su c xs rp up = (ks, rp', up') \<Longrightarrow> (\<forall>u \<in> set up. u < 2 ^ 64) \<Longrightarrow>
    set ks \<subseteq> set xs \<and> length up' = length up \<and> (\<forall>u \<in> set up'. u < 2 ^ 64)"
proof (induction su c xs rp up arbitrary: ks rp' up' rule: charge.induct)
  case (2 su c d r xs rp up)
  let ?used = "u64 (u64 (c * r) * su)"
  let ?up = "up[d := u64 (up ! d + ?used)]" and ?rp = "rp[d := sub64 (rp ! d) ?used]"
  obtain ks1 rp1 up1 where C: "charge su c xs ?rp ?up = (ks1, rp1, up1)" by (metis prod_cases3)
  have "\<forall>u \<in> set ?up. u < 2 ^ 64" using "2.prems"(2) u64_less by (auto dest: set_update_subset_insert [THEN subsetD])
  from "2.IH" [OF refl refl refl C this] show ?case using "2.prems"(1) C by (auto simp: Let_def split: if_splits)
qed simp

lemma remove_at_subset: "set (remove_at i xs) \<subseteq> set xs"
  by (auto simp: remove_at_def dest: in_set_takeD in_set_dropD)

lemma pads_inv_step:
  assumes "pads_inv base st" "pads ph" "l_phases st' = (l_phases st)[p := ph]" "set (l_remaining st') \<subseteq> set (l_remaining st)"
    "length (l_remaining st') \<le> length (l_remaining st)" "length (l_used_phys st') = length (l_used_phys st)"
    "\<forall>u \<in> set (l_used_phys st'). u < 2 ^ 64"
  shows "pads_inv base st'"
proof -
  have "\<forall>ph \<in> set (l_phases st'). pads ph"
    using assms(1,2,3) set_update_subset_insert [of "l_phases st" p ph] by (auto simp: pads_inv_def)
  then show ?thesis using assms(1,3-7) by (auto simp: pads_inv_def)
qed

lemma phase_loop_pads: "pads_inv base st \<Longrightarrow> pads_inv base (phase_loop base su st)"
proof (induction base su st rule: phase_loop.induct)
  case (1 base su st)
  note inv = "1.prems"
  show ?case
  proof (cases "l_remaining st \<noteq> [] \<and> l_phase_count st < MAX_DISKS")
    case True
    let ?p = "l_phase_count st" and ?rem = "l_remaining st"
    let ?ph = "fill_phase base su st (l_phases st ! ?p)"
    have "?p < length (l_phases st)" using True inv by (simp add: pads_inv_def)
    then have ph: "pads ?ph" using inv by (intro pads_fill) (auto simp: pads_inv_def)
    have used: "\<forall>u \<in> set (l_used_phys st). u < 2 ^ 64" using inv by (simp add: pads_inv_def)
    note step = pads_inv_step [OF inv]
    show ?thesis
    proof (cases "length ?rem = 1")
      case one: True
      let ?d = "fst (hd ?rem)" and ?avail = "l_remaining_phys st ! fst (hd ?rem)"
      let ?size = "?avail - ?avail mod su"
      let ?next = "st\<lparr>l_phases := (l_phases st)[?p := ?ph\<lparr>ph_virtual_size_bytes := ?size\<rparr>],
        l_virt_offset := u64 (l_virt_offset st + ?size), l_used_phys := (l_used_phys st)[?d := u64 (l_used_phys st ! ?d + ?size)],
        l_remaining_phys := (l_remaining_phys st)[?d := 0], l_remaining := [], l_phase_count := Suc ?p\<rparr>"
      have "\<forall>u \<in> set ((l_used_phys st)[?d := u64 (l_used_phys st ! ?d + ?size)]). u < 2 ^ 64"
        using used u64_less by (auto dest: set_update_subset_insert [THEN subsetD])
      then have n: "pads_inv base ?next" by (intro step [of "?ph\<lparr>ph_virtual_size_bytes := ?size\<rparr>" _ ?p]) (use ph in simp_all)
      have 1: "pads_inv base (phase_loop base su ?next)" if "\<not> ?avail < su" "?size \<noteq> 0"
        using "1.IH"(1) [OF True refl refl refl refl one refl refl that(1) refl refl refl that(2)] n by simp
      have 2: "pads_inv base (st\<lparr>l_phases := (l_phases st)[?p := ?ph]\<rparr>)"
        "pads_inv base (st\<lparr>l_phases := (l_phases st)[?p := ?ph\<lparr>ph_virtual_size_bytes := ?size\<rparr>]\<rparr>)"
        by (rule step [of ?ph _ ?p], use ph used in simp_all) (rule step [of "?ph\<lparr>ph_virtual_size_bytes := ?size\<rparr>" _ ?p], use ph used in simp_all)
      have eq: "phase_loop base su st = (if ?avail < su then st\<lparr>l_phases := (l_phases st)[?p := ?ph]\<rparr>
        else if ?size = 0 then st\<lparr>l_phases := (l_phases st)[?p := ?ph\<lparr>ph_virtual_size_bytes := ?size\<rparr>]\<rparr>
        else phase_loop base su ?next)"
        using True one by (subst phase_loop.simps) (simp only: Let_def if_True simp_thms)
      show ?thesis unfolding eq if_split [where P = "pads_inv base"] using 1 2 by blast
    next
      case False
      obtain least k where mv: "min_virtual (ph_total_ratio ?ph) (l_remaining_phys st) 0 ?rem (2 ^ 64 - 1, 2 ^ 32 - 1) = (least, k)"
        by (metis surj_pair)
      let ?c = "least div ph_cycle_size_bytes ?ph"
      let ?size = "u64 (?c * ph_cycle_size_bytes ?ph)"
      obtain kept rp up where ch: "charge su ?c ?rem (l_remaining_phys st) (l_used_phys st) = (kept, rp, up)" by (metis prod_cases3)
      let ?drop = "st\<lparr>l_phases := (l_phases st)[?p := ?ph], l_remaining := remove_at k ?rem\<rparr>"
      let ?next = "st\<lparr>l_phases := (l_phases st)[?p := ?ph\<lparr>ph_virtual_size_bytes := ?size\<rparr>], l_virt_offset := u64 (l_virt_offset st + ?size),
        l_used_phys := up, l_remaining_phys := rp, l_remaining := kept, l_phase_count := Suc ?p\<rparr>"
      have "length (remove_at k ?rem) \<le> length ?rem" using remove_at_shorter [of ?rem k] True by simp
      then have d: "pads_inv base ?drop" by (intro step [of ?ph _ ?p]) (use ph used remove_at_subset in simp_all)
      have "length kept \<le> length ?rem" using charge_length [of su ?c ?rem "l_remaining_phys st" "l_used_phys st"] ch by simp
      then have n: "pads_inv base ?next"
        by (intro step [of "?ph\<lparr>ph_virtual_size_bytes := ?size\<rparr>" _ ?p]) (use ph charge_pads [OF ch used] in simp_all)
      have "phase_loop base su st = (if ?c = 0 then phase_loop base su ?drop else phase_loop base su ?next)"
        using True False mv ch by (subst phase_loop.simps) (simp add: Let_def)
      moreover have "pads_inv base (phase_loop base su ?drop)" if "?c = 0"
        using "1.IH"(2) [OF True refl refl refl refl False refl _ refl that, of k] mv d by simp
      moreover have "pads_inv base (phase_loop base su ?next)" if "?c \<noteq> 0"
        using "1.IH"(3) [OF True refl refl refl refl False refl _ refl that refl refl refl] mv ch n by simp
      ultimately show ?thesis by simp
    qed
  next
    case False
    then show ?thesis using inv by (subst phase_loop.simps) (simp only: if_False)
  qed
qed

lemma wf_phase_totals:
  assumes wf: "wf_layout vol" and p: "p < v_phase_count vol"
  defines "ph \<equiv> v_phases vol ! p"
  shows "ph_active_count ph \<le> 4" "ph_total_ratio ph < 2 ^ 32" "ph_cycle_size_bytes ph < 2 ^ 64"
    "ph_virtual_start_bytes ph < 2 ^ 64" "ph_virtual_size_bytes ph < 2 ^ 64"
proof -
  note W = wf [unfolded wf_layout_def]
  have w: "wf_phase (v_stripe_unit vol) (v_disk_count vol) ph" "ph_virtual_start_bytes ph = vstart vol p"
    using W p by (simp_all add: ph_def)
  show a: "ph_active_count ph \<le> 4" using w(1) by (simp add: wf_phase_def const)
  have c: "ph_total_ratio ph \<le> 128"
    using wf_phase_cum_le [OF w(1), of "ph_active_count ph"] a w(1) by (simp add: wf_phase_def const)
  then show "ph_total_ratio ph < 2 ^ 32" by simp
  have "ph_total_ratio ph * v_stripe_unit vol \<le> 128 * 2 ^ 32" using c W by (intro mult_le_mono) simp_all
  then show "ph_cycle_size_bytes ph < 2 ^ 64" using w(1) by (simp add: wf_phase_def)
  have "vstart vol (Suc p) \<le> vstart vol (v_phase_count vol)" using p by (intro vstart_mono) simp
  then have "vstart vol p + ph_virtual_size_bytes ph \<le> v_virtual_total_bytes vol"
    using W vstart_Suc [OF wf_layout_phase(3) [OF wf p]] by (simp add: ph_def)
  then show "ph_virtual_start_bytes ph < 2 ^ 64" "ph_virtual_size_bytes ph < 2 ^ 64" using W w(2) by auto
qed

lemma pads_phase_ok:
  assumes "pads ph" "ph_active_count ph \<le> 4" "ph_total_ratio ph < 2 ^ 32" "ph_cycle_size_bytes ph < 2 ^ 64"
    "ph_virtual_start_bytes ph < 2 ^ 64" "ph_virtual_size_bytes ph < 2 ^ 64"
  shows "phase_ok ph"
proof -
  have l: "\<exists>a b c d. xs = [a, b, c, d]" if "length xs = 4" for xs :: "nat list"
    using that by (auto simp: length_Suc_conv numeral_eq_Suc)
  have 4: "length (ph_active_disk_indices ph) = 4" "length (ph_ratios ph) = 4" "length (ph_physical_starts_bytes ph) = 4"
    using assms(1) by (simp_all add: pads_def phase_arrays_def const)
  obtain a b c d where i: "ph_active_disk_indices ph = [a, b, c, d]" using l [OF 4(1)] by blast
  obtain e f g h where r: "ph_ratios ph = [e, f, g, h]" using l [OF 4(2)] by blast
  obtain j k m n where q: "ph_physical_starts_bytes ph = [j, k, m, n]" using l [OF 4(3)] by blast
  show ?thesis using assms by (simp add: phase_ok_def fit_fields_def phase_widths_def phase_values_def pads_def i r q)
qed

lemma created_phases_ok:
  assumes create: "stripe_volume_create heap now vol disks su = Inr (True, vol')" and wf: "wf_layout vol'"
    and ok: "disks_ok heap disks" and p: "p < v_phase_count vol'"
  shows "phase_ok (v_phases vol' ! p)"
proof -
  let ?rs = "call_ratios heap disks"
  have n: "MIN_DISKS \<le> length disks" "length disks \<le> MAX_DISKS" "su \<noteq> 0"
    using create by (auto simp: stripe_volume_create_def Let_def split: if_splits)
  have "disks \<noteq> []" using n(1) by (auto simp: const)
  note rs = call_ratios_facts [OF ok this n(2)]
  let ?st = "\<lparr>l_phases = v_phases zero_volume, l_phase_count = 0, l_virt_offset = 0, l_remaining = zip [0 ..< length disks] ?rs,
     l_remaining_phys = map (\<lambda>d. d_pool_bytes (heap d)) disks, l_used_phys = map (\<lambda>_. 0) disks\<rparr>"
  have z: "pads zero_phase" by (simp add: pads_def phase_arrays_def zero_phase_def)
  have "\<forall>(d, r) \<in> set (zip [0 ..< length disks] ?rs). d < length disks \<and> r \<in> set ?rs"
    by (auto dest: set_zip_leftD set_zip_rightD)
  then have "\<forall>(d, r) \<in> set (zip [0 ..< length disks] ?rs). d < 2 ^ 32 \<and> r < 2 ^ 32 \<and> d < length disks"
    using n(2) rs(2) by (fastforce simp: const)
  then have "pads_inv 0 ?st" using n(2) rs(1) z by (simp add: pads_inv_def zero_volume_def)
  then have "pads_inv 0 (phase_loop 0 su ?st)" by (rule phase_loop_pads)
  moreover have "v_phases vol' = l_phases (phase_loop 0 su ?st)"
    using create n by (auto simp: stripe_volume_create_def call_ratios_def Let_def)
  moreover have "p < length (v_phases vol')" using wf p by (simp add: wf_layout_def)
  ultimately have "pads (v_phases vol' ! p)" by (simp add: pads_inv_def)
  then show ?thesis using wf_phase_totals [OF wf p] by (rule pads_phase_ok)
qed

section \<open>A created volume is loaded back\<close>

lemma sb_write_disk_files:
  assumes "q \<noteq> sb_path (drive_char (s_heap s d))" "q \<noteq> sb_tmp_path (drive_char (s_heap s d))"
  shows "w_files (snd (sb_write_disk os bytes d s)) q = w_files s q"
  using assms
  by (auto simp: sb_write_disk_def Let_def create_always_def append_file_def flush_buffers_def rename_file_def
      delete_file_def tick_def split: if_splits option.splits prod.splits bool.splits)

lemma sb_write_disks_files:
  "\<forall>d \<in> set ds. q \<noteq> sb_path (drive_char (s_heap s d)) \<and> q \<noteq> sb_tmp_path (drive_char (s_heap s d)) \<Longrightarrow>
    w_files (snd (sb_write_disks os bytes ds s)) q = w_files s q"
proof (induction ds arbitrary: s)
  case (Cons d ds)
  obtain ok s1 where 1: "sb_write_disk os bytes d s = (ok, s1)" by force
  obtain any s2 where 2: "sb_write_disks os bytes ds s1 = (any, s2)" by force
  have "s_heap s1 = s_heap s" "w_files s1 q = w_files s q"
    using sb_write_disk_keep(1) [of os bytes d s] sb_write_disk_files [of q s d os bytes] Cons.prems 1 by simp_all
  then show ?case using Cons.IH [of s1] Cons.prems 1 2 by simp
qed simp

lemma journal_paths [simp]: "journal_path d \<noteq> sb_path l" "journal_path d \<noteq> sb_tmp_path l"
  by (auto simp: journal_path_def sb_path_def sb_tmp_path_def metadata_path_def sb_name_def sb_tmp_name_def)

text \<open>The metadata after a write on drives that had none.\<close>

definition only_superblocks :: "byte list \<Rightarrow> char set \<Rightarrow> sys \<Rightarrow> bool" where
  "only_superblocks bytes ls s \<longleftrightarrow> (\<forall>l. w_files s (sb_path l) = (if l \<in> ls then Some bytes else None)) \<and>
     (\<forall>l. w_files s (sb_tmp_path l) = None) \<and> (\<forall>d. w_files s (journal_path d) = None)"

lemma metadata_write_fresh:
  assumes good: "all_good os" and vol: "storable vol s" "en_now env < 2 ^ 64" and fresh: "w_files s = Map.empty"
  shows "\<exists>s' bytes sb. metadata_write os env vol s = Inr (True, vol\<lparr>v_generation := v_generation vol + 1\<rparr>, s',
      [(EVENT_METADATA_UPDATED, ''superblock written'')]) \<and>
    only_superblocks bytes (drive_char ` s_heap s ` set (disk_ptrs vol)) s' \<and> sb_decode (take SB_READ_LIMIT bytes) = Some sb \<and>
    sb\<lparr>sb_checksum := 0\<rparr> = sb_of_volume (en_now env) (vol\<lparr>v_generation := v_generation vol + 1\<rparr>) s \<and> s_heap s' = s_heap s"
proof -
  have g: "u64 (v_generation vol + 1) = v_generation vol + 1" using vol(1) by (intro u64_id) (simp add: storable_def)
  let ?v = "vol\<lparr>v_generation := v_generation vol + 1\<rparr>"
  let ?sb = "sb_of_volume (en_now env) ?v s"
  let ?bytes = "seal (sb_body 4 ?sb)"
  note N = new_superblock [OF vol, unfolded g]
  have ne: "disk_ptrs vol \<noteq> []" using vol(1) by (simp add: storable_def disk_ptrs_def)
  have "length ?bytes \<le> 2 ^ 64" unfolding N(1) by simp
  from sb_write_disks_good [OF good this, of "disk_ptrs vol" s] obtain s' where
    W: "sb_write_disks os ?bytes (disk_ptrs vol) s = (disk_ptrs vol \<noteq> [], s')" "s_heap s' = s_heap s"
    "\<forall>d \<in> set (disk_ptrs vol). w_files s' (sb_path (drive_char (s_heap s d))) = Some ?bytes"
    "\<forall>l. w_files s' (sb_tmp_path l) = None" using fresh by auto
  have rest: "w_files s' q = None" if "\<forall>d \<in> set (disk_ptrs vol). q \<noteq> sb_path (drive_char (s_heap s d)) \<and> q \<noteq> sb_tmp_path (drive_char (s_heap s d))" for q
    using sb_write_disks_files [OF that, of os ?bytes] W(1) fresh by simp
  have only: "only_superblocks ?bytes (drive_char ` s_heap s ` set (disk_ptrs vol)) s'"
    unfolding only_superblocks_def
  proof (intro conjI allI)
    show "w_files s' (sb_path l) = (if l \<in> drive_char ` s_heap s ` set (disk_ptrs vol) then Some ?bytes else None)" for l
      using W(3) rest [of "sb_path l"] by auto
    show "w_files s' (sb_tmp_path l) = None" for l using W(4) by blast
    show "w_files s' (journal_path d) = None" for d by (intro rest) simp
  qed
  have "metadata_write os env vol s = Inr (True, ?v, s', [(EVENT_METADATA_UPDATED, ''superblock written'')])"
    using vol(1) W(1) ne g by (simp add: metadata_write_def superblock_write_def storable_def)
  moreover have "take SB_READ_LIMIT ?bytes = ?bytes" using N(1) by (simp add: const)
  moreover have "?sb\<lparr>sb_checksum := k, sb_checksum := 0\<rparr> = ?sb" for k by (simp add: sb_of_volume_def)
  ultimately show ?thesis using only N(2) W(2) by (intro exI [of _ s'] exI [of _ ?bytes] exI conjI) (assumption | simp only:)+
qed

lemma read_raw_keeps: "w_files s (sb_tmp_path l) = None \<Longrightarrow> w_files (snd (superblock_read_raw os l s)) = w_files (s :: sys)"
  by (auto simp: superblock_read_raw_def try_recover_orphan_tmp_def open_existing_def read_file_def Let_def tick_def
      split: option.splits prod.splits bool.splits)

lemma read_raw_absent: "w_files s (sb_tmp_path l) = None \<Longrightarrow> w_files s (sb_path l) = None \<Longrightarrow> fst (superblock_read_raw os l (s :: sys)) = None"
  by (simp add: superblock_read_raw_def try_recover_orphan_tmp_def open_existing_def Let_def tick_def)

lemma read_raw_heap: "w_files s (sb_tmp_path l) = None \<Longrightarrow> s_heap (snd (superblock_read_raw os l s)) = s_heap s"
  by (auto simp: superblock_read_raw_def try_recover_orphan_tmp_def open_existing_def read_file_def Let_def tick_def
      split: option.splits prod.splits bool.splits)

lemma sb_collect_same:
  assumes good: "all_good os" and dec: "sb_decode (take SB_READ_LIMIT bytes) = Some sb"
  shows "only_superblocks bytes ls s \<Longrightarrow> \<exists>n s'. sb_collect os xs cs s = (cs @ replicate n sb, s') \<and> w_files s' = w_files s \<and> s_heap s' = s_heap s \<and>
    (length cs < MAX_DISKS \<and> set xs \<inter> ls \<noteq> {} \<longrightarrow> 0 < n)"
proof (induction xs arbitrary: cs s)
  case Nil
  show ?case by (intro exI [of _ 0] exI [of _ s]) simp
next
  case (Cons l xs)
  note only = Cons.prems [unfolded only_superblocks_def]
  obtain r s1 where R: "superblock_read_raw os l s = (r, s1)" by force
  have f: "w_files s1 = w_files s" using read_raw_keeps [of s l os] only R by simp
  have g: "s_heap s1 = s_heap s" using read_raw_heap [of s l os] only R by simp
  have o1: "only_superblocks bytes ls s1" using f Cons.prems by (simp add: only_superblocks_def)
  show ?case
  proof (cases "MAX_DISKS \<le> length cs")
    case True
    then show ?thesis by (intro exI [of _ 0] exI [of _ s]) simp
  next
    case False
    show ?thesis
    proof (cases "l \<in> ls")
      case True
      then have "r = Some sb" using read_raw_plain [OF good] only R dec by (metis fst_conv)
      moreover obtain n s' where "sb_collect os xs (cs @ [sb]) s1 = ((cs @ [sb]) @ replicate n sb, s')" "w_files s' = w_files s1" "s_heap s' = s_heap s1"
        using Cons.IH [OF o1] by blast
      ultimately show ?thesis using False R f g by (intro exI [of _ "Suc n"] exI [of _ s']) simp
    next
      case out: False
      then have "r = None" using read_raw_absent [of s l os] only R by simp
      moreover obtain n s' where "sb_collect os xs cs s1 = (cs @ replicate n sb, s')" "w_files s' = w_files s1" "s_heap s' = s_heap s1"
        "length cs < MAX_DISKS \<and> set xs \<inter> ls \<noteq> {} \<longrightarrow> 0 < n" using Cons.IH [OF o1] by blast
      ultimately show ?thesis using False R f g out by (intro exI [of _ n] exI [of _ s']) simp
    qed
  qed
qed

lemma sb_best_same: "0 < n \<Longrightarrow> sb_best (replicate n sb) = sb"
proof -
  have "foldl (\<lambda>best c. if sb_better c best then c else best) sb (replicate k sb) = sb" for k by (induction k) simp_all
  moreover assume "0 < n"
  then obtain k where "n = Suc k" by (cases n) auto
  ultimately show ?thesis by (simp add: sb_best_def)
qed

lemma pool_file_open_files: "w_files (snd (pool_file_open os d s)) = w_files s"
  by (simp add: pool_file_open_def Let_def update_disk_def tick_def)

lemma close_pools_files: "w_files (foldl (\<lambda>s d. pool_file_close d s) s ds) = w_files s"
  by (induction ds arbitrary: s) (simp_all add: pool_file_close_def update_disk_def)

lemma restore_disks_files:
  "restore_disks os mirror phys es outs opened s = Inr (ok, opened', s') \<Longrightarrow>
    w_files s' = w_files s \<and> (ok \<longrightarrow> length opened' = length opened + min (length es) (length outs))"
proof (induction os mirror phys es outs opened s arbitrary: ok opened' s' rule: restore_disks.induct)
  case (1 os mirror phys e es out outs opened s)
  let ?s0 = "update_disk out (\<lambda>_. zero_disk) s"
  let ?match = "match_disk_by_serial (c_string (de_serial_number e)) phys ?s0"
  let ?sd = "update_disk out (\<lambda>_. restored_disk e ?match ?s0) ?s0"
  obtain r s1 where P: "pool_file_open os out ?sd = (r, s1)" by force
  have f: "w_files s1 = w_files s" using pool_file_open_files [of os out ?sd] P by (simp add: update_disk_def)
  show ?case
  proof (cases "?match = None \<and> 0 \<notin> set (de_drive_letter e)")
    case True
    then show ?thesis using "1.prems" by (simp add: Let_def)
  next
    case False
    show ?thesis
    proof (cases r)
      case True
      let ?s2 = "if mirror then update_disk out (\<lambda>disk. disk\<lparr>d_healthy := 1\<rparr>) s1 else s1"
      have R: "restore_disks os mirror phys es outs (opened @ [out]) ?s2 = Inr (ok, opened', s')"
        using "1.prems" False P True by (simp add: Let_def split: if_splits)
      have P1: "(True, s1) = pool_file_open os out ?sd" using P True by simp
      have "w_files ?s2 = w_files s" using f by (simp add: update_disk_def)
      then show ?thesis using "1.IH" [OF refl refl False P1 refl R] by (simp only: length_append list.size) simp
    next
      case r: False
      then show ?thesis using "1.prems" False P f by (simp add: Let_def close_pools_files split: if_splits) (metis close_pools_files)
    qed
  qed
qed auto

lemma superblock_restore_shape:
  assumes "superblock_restore os counter sb phys vol outs s = Inr (True, vol', s')" "sb_disk_count sb \<le> length outs"
    "length (sb_disks sb) = MAX_DISKS"
  shows "w_files s' = w_files s" "CHECK_DISKS vol'"
proof -
  obtain opened where R: "restore_disks os (sb_feature_flags sb AND SB_FEATURE_MIRROR \<noteq> 0) phys
      (take (sb_disk_count sb) (sb_disks sb)) outs [] s = Inr (True, opened, s')"
    and v: "vol' = (restored_volume sb opened)\<lparr>v_start_time := counter\<rparr>" and n: "sb_disk_count sb \<le> MAX_DISKS"
    using assms(1) by (auto simp: superblock_restore_def split: sum.splits prod.splits bool.splits if_splits)
  note F = restore_disks_files [OF R]
  show "w_files s' = w_files s" using F by blast
  have l: "length opened = sb_disk_count sb" using F n assms(2,3) by simp
  have "v_disks vol' = map Some opened @ replicate (MAX_DISKS - length opened) None" "v_disk_count vol' = sb_disk_count sb"
    unfolding v by (simp_all add: restored_volume_def Let_def)
  then show "CHECK_DISKS vol'" using l by (simp add: CHECK_DISKS_def list_all_iff nth_append)
qed

lemma recover_disks_clean:
  "\<forall>d. w_files s (journal_path d) = None \<Longrightarrow> \<exists>s'. recover_disks os ds vol s = Inr (True, vol, s') \<and> s_heap s' = s_heap s"
proof (induction ds arbitrary: s)
  case (Cons d ds)
  have "recover_disk os d vol s = Inr (True, vol, tick s)" using Cons.prems by (simp add: recover_disk_def Let_def)
  moreover have "\<forall>d. w_files (tick s) (journal_path d) = None" using Cons.prems by (simp add: tick_def)
  ultimately show ?case using Cons.IH [of "tick s"] by auto
qed simp

lemma created_storable:
  assumes good: "stripe_good cap su vol s" and shape: "wf_layout vol0" "same_volume vol0 vol" "\<forall>p < v_phase_count vol0. phase_ok (v_phases vol0 ! p)"
    and gen: "v_generation vol = 0" and n: "0 < v_disk_count vol" "v_disk_count vol \<le> MAX_DISKS"
    and bench: "\<forall>d \<in> set (disk_ptrs vol). d_bench_write_mbs (s_heap s d) < 2 ^ 32 \<and> d_bench_read_mbs (s_heap s d) < 2 ^ 32 \<and>
      d_pool_bytes (s_heap s d) < 2 ^ 64"
  shows "storable (volume_gen_uuid env vol) s"
proof -
  let ?v = "volume_gen_uuid env vol"
  have l: "same_layout vol0 vol" "same_layout vol ?v" using same_volume_layout [OF shape(2)] by simp_all
  note F = l [unfolded same_layout_def]
  have "uu_high (v_volume_uuid ?v) < 2 ^ 64" "uu_low (v_volume_uuid ?v) < 2 ^ 64" "v_created_time ?v < 2 ^ 64"
    using u64_less by (simp_all add: volume_gen_uuid_def uuid_generate_def Let_def)
  moreover have "disk_ptrs ?v = disk_ptrs vol" "CHECK_DISKS ?v"
    using same_layout_bytes(4,5) [OF l(2)] stripe_good_check [OF good] by simp_all
  ultimately show ?thesis using shape(1,3) gen n bench F by (simp add: storable_def wf_layout_def)
qed

lemma zero_char: "char_of (0 :: nat) = CHR 0x00"
  by code_simp

text \<open>
  The root of the drive on which a disk of the superblock is looked for: of the drive at hand that
  reports the disk's serial number, or else the one the superblock names.
\<close>

definition found_letter :: "ptr option list \<Rightarrow> sys \<Rightarrow> DISK_INFO \<Rightarrow> string" where
  "found_letter phys s disk = (case match_disk_by_serial (c_string (c_array 64 (d_serial_number disk))) phys s of
     Some p \<Rightarrow> d_drive_letter (s_heap s p) | None \<Rightarrow> c_string (c_array 4 [drive_char disk, CHR '':'', CHR 0x5C]))"

lemma found_letter_plain [simp]: "drive_char disk \<noteq> CHR 0x00 \<Longrightarrow> found_letter [] s disk = [drive_char disk, CHR '':'', CHR 0x5C]"
proof -
  assume c: "drive_char disk \<noteq> CHR 0x00"
  have "(of_char (drive_char disk) :: nat) \<noteq> 0"
  proof
    assume "(of_char (drive_char disk) :: nat) = 0"
    then have "char_of (of_char (drive_char disk) :: nat) = (char_of (0 :: nat) :: char)" by (rule arg_cong)
    then show False using c by (simp add: zero_char)
  qed
  moreover have "char_of (58 :: nat) = CHR '':''" "char_of (92 :: nat) = CHR 0x5C" by code_simp+
  ultimately show ?thesis by (simp add: found_letter_def match_disk_by_serial_def c_string_def c_array_def)
qed

lemma reopened_fields:
  "d_drive_letter (reopened mirror phys s (entry_of_disk disk)) = found_letter phys s disk"
  "d_pool_bytes (reopened mirror phys s (entry_of_disk disk)) = d_pool_bytes disk"
  "d_handle (reopened mirror phys s (entry_of_disk disk)) = FILE_HANDLE (pool_path (found_letter phys s disk))"
  "d_healthy (reopened mirror phys s (entry_of_disk disk)) = (if mirror then 1 else 0)"
  "d_faulty (reopened mirror phys s (entry_of_disk disk)) = 0" "d_ram_buffer (reopened mirror phys s (entry_of_disk disk)) = None"
  by (auto simp: reopened_def restored_disk_def found_letter_def entry_of_disk_def zero_disk_def Let_def split: option.split)

lemma create_then_load:
  assumes good: "all_good os" "all_good os'" and blank: "blank vol" and use: "usable disks s" and now: "en_now env < 2 ^ 64"
    and bench: "\<forall>d \<in> set disks. d_bench_write_mbs (s_heap s d) < 2 ^ 32 \<and> d_bench_read_mbs (s_heap s d) < 2 ^ 32"
    and fresh: "w_files s = Map.empty"
    and created: "volume_create os env vol disks s = Inr (True, vol1, s1, evs)"
    and later: "w_files t = w_files s1"
    and drive: "d \<in> set disks" "drive_char (s_heap s d) \<in> set (named_letters named @ fixed_letters fixed named)"
    and outs: "distinct outs" "length disks \<le> length outs"
  shows "\<exists>vol2 t2. volume_load os' env' fixed named phys vol0 outs t = Inr (True, vol2, t2, [(EVENT_VOLUME_LOADED, [])]) \<and>
    v_disk_count vol2 = length disks \<and> v_virtual_total_bytes vol2 = v_virtual_total_bytes vol1 \<and>
    v_volume_uuid vol2 = v_volume_uuid vol1 \<and> v_generation vol2 = v_generation vol1 \<and>
    (\<forall>vo. map_single_byte vol2 vo = map_single_byte vol1 vo) \<and> v_raid_level vol2 \<noteq> RAID_LEVEL_MIRROR \<and>
    disk_ptrs vol2 = take (length disks) outs \<and>
    ((\<forall>p. Some p \<in> set phys \<longrightarrow> p \<notin> set outs) \<longrightarrow> (\<forall>i < length disks. let disk = s_heap s (disks ! i); found = s_heap t2 (outs ! i) in
       d_drive_letter found = found_letter phys t disk \<and> d_pool_bytes found = d_pool_bytes disk \<and>
       d_handle found = FILE_HANDLE (pool_path (found_letter phys t disk))))"
proof -
  obtain vol3 vol4 s5 used where R: "volume_create os env vol disks s =
      and_then (metadata_write os env (volume_gen_uuid env vol4) s5) (\<lambda>(_, vol5, s6, evs).
        Inr (True, vol5, s6, evs @ [(EVENT_VOLUME_CREATED, ''RAID0'')]))"
    "stripe_volume_create (s_heap s5) (en_counter env) vol disks DEFAULT_STRIPE_UNIT = Inr (True, vol3)" "same_volume vol3 vol4"
    "wf_layout vol3" "disk_ptrs vol4 = disks" "v_generation vol4 = 0" "stripe_good (sum_list used) DEFAULT_STRIPE_UNIT vol4 s5"
    "handle_only (set disks) s s5"
    using volume_create_run [OF good(1) blank use, of env] by blast
  note U = use [unfolded usable_def]
  have h: "\<exists>h. s_heap s5 d = (s_heap s d)\<lparr>d_handle := h\<rparr>" for d using R(8) by (simp add: handle_only_def)
  have ok5: "disks_ok (s_heap s5) disks" using handles_ratios(2) [of disks "s_heap s5" "s_heap s"] h U by blast
  have b5: "d_bench_write_mbs (s_heap s5 d) = d_bench_write_mbs (s_heap s d) \<and> d_bench_read_mbs (s_heap s5 d) = d_bench_read_mbs (s_heap s d) \<and>
    drive_char (s_heap s5 d) = drive_char (s_heap s d)" for d
    using h [of d] by (auto simp: drive_char_def)
  have cnt: "v_disk_count vol4 = length disks"
    using R(5) by (metis disk_ptrs_def length_map length_upt minus_nat.diff_0)
  have lim: "0 < v_disk_count vol4" "v_disk_count vol4 \<le> MAX_DISKS" using U by (auto simp: cnt const)
  have "\<forall>p < v_phase_count vol3. phase_ok (v_phases vol3 ! p)" using created_phases_ok [OF R(2,4) ok5] by blast
  moreover have "\<forall>d \<in> set (disk_ptrs vol4). d_bench_write_mbs (s_heap s5 d) < 2 ^ 32 \<and> d_bench_read_mbs (s_heap s5 d) < 2 ^ 32 \<and>
      d_pool_bytes (s_heap s5 d) < 2 ^ 64"
    using bench b5 ok5 by (fastforce simp: R(5) disks_ok_def)
  ultimately have st: "storable (volume_gen_uuid env vol4) s5" by (intro created_storable [OF R(7,4,3) _ R(6) lim])
  let ?v = "volume_gen_uuid env vol4"
  let ?w = "?v\<lparr>v_generation := v_generation ?v + 1\<rparr>"
  have f5: "w_files s5 = Map.empty" using R(8) fresh by (simp add: handle_only_def)
  obtain s6 bytes sb where M: "metadata_write os env ?v s5 = Inr (True, ?w, s6, [(EVENT_METADATA_UPDATED, ''superblock written'')])"
    "only_superblocks bytes (drive_char ` s_heap s5 ` set (disk_ptrs ?v)) s6" "sb_decode (take SB_READ_LIMIT bytes) = Some sb"
    "sb\<lparr>sb_checksum := 0\<rparr> = sb_of_volume (en_now env) ?w s5"
    using metadata_write_fresh [OF good(1) st now f5] by blast
  have v1: "vol1 = ?w" "s1 = s6" using created R(1) M(1) by simp_all
  have lw: "same_layout vol4 ?w" using same_layout_trans [OF named_volume(1) counted_volume] .
  have ptrs: "disk_ptrs ?v = disks" using same_layout_bytes(5) [OF named_volume(1)] R(5) by simp
  let ?ls = "drive_char ` s_heap s5 ` set disks"
  have only: "only_superblocks bytes ?ls t" using M(2) later v1 ptrs by (simp add: only_superblocks_def)
  have "drive_char (s_heap s d) \<in> ?ls" using drive(1) b5 by (metis image_eqI)
  then have hit: "set (named_letters named @ fixed_letters fixed named) \<inter> ?ls \<noteq> {}" using drive(2) by blast
  obtain n t1 where C: "sb_collect os' (named_letters named @ fixed_letters fixed named) [] t = (replicate n sb, t1)"
    "w_files t1 = w_files t" "s_heap t1 = s_heap t" "0 < n"
    using sb_collect_same [OF good(2) M(3) only, of "named_letters named @ fixed_letters fixed named" "[]"] hit by (auto simp: const)
  have wst: "storable ?w s5"
    using st R(6) same_layout_bytes(4,5) [OF counted_volume [where vol = ?v]] by (simp add: storable_def)
  have wn: "v_disk_count ?w = length disks" "v_raid_level ?w \<noteq> RAID_LEVEL_MIRROR"
    using lw cnt R(7) by (simp_all add: same_layout_def stripe_good_def)
  have sbf: "sb_disk_count sb = length disks" "length (sb_disks sb) = MAX_DISKS"
    using arg_cong [OF M(4), of sb_disk_count] arg_cong [OF M(4), of sb_disks] wn(1) by (simp_all add: sb_of_volume_def)
  have read: "superblock_read os' (en_counter env') fixed named vol0 outs phys t =
      superblock_restore os' (en_counter env') sb phys vol0 outs t1"
    using C sb_best_same [OF C(4), of sb] by (simp add: superblock_read_def)
  have "MIN_DISKS \<le> v_disk_count ?w" "v_disk_count ?w \<le> length outs" using U wn(1) outs(2) by simp_all
  from superblock_restore_run [OF good(2) wst this(1) M(4) outs(1) this(2), of "en_counter env'" phys vol0 t1]
  obtain vol2 t2 where S: "superblock_restore os' (en_counter env') sb phys vol0 outs t1 = Inr (True, vol2, t2)"
    "v_disk_count vol2 = length disks" "v_virtual_total_bytes vol2 = v_virtual_total_bytes ?w" "v_generation vol2 = v_generation ?w"
    "v_volume_uuid vol2 = v_volume_uuid ?w" "\<forall>vo. map_single_byte vol2 vo = map_single_byte ?w vo" "\<forall>i < length disks. vdisk vol2 i = outs ! i"
    "v_raid_level vol2 \<noteq> RAID_LEVEL_MIRROR"
    "(\<forall>p. Some p \<in> set phys \<longrightarrow> p \<notin> set outs) \<longrightarrow> (\<forall>i < length disks. s_heap t2 (outs ! i) = reopened False phys t1 (entry_of_disk (s_heap s5 (vdisk ?w i))))"
    unfolding wn(1) using wn(2) by auto
  have sh: "w_files t2 = w_files t1" "CHECK_DISKS vol2"
    using superblock_restore_shape [OF S(1) _ sbf(2)] sbf(1) outs(2) by simp_all
  have "\<forall>d. w_files t2 (journal_path d) = None" using only C(2) sh(1) by (simp add: only_superblocks_def)
  then obtain t3 where J: "recover_disks os' (disk_ptrs vol2) vol2 t2 = Inr (True, vol2, t3)" and h3: "s_heap t3 = s_heap t2"
    using recover_disks_clean by blast
  then have load: "volume_load os' env' fixed named phys vol0 outs t = Inr (True, vol2, t3, [(EVENT_VOLUME_LOADED, [])])"
    using S(1) sh(2) by (simp add: volume_load_def metadata_load_volume_def read journal_recover_all_def)
  have ptrs2: "disk_ptrs vol2 = take (length disks) outs"
    using S(2,7) outs(2) by (intro nth_equalityI) (simp_all add: disk_ptrs_def)
  have found: "let disk = s_heap s (disks ! i); found = s_heap t3 (outs ! i) in
       d_drive_letter found = found_letter phys t disk \<and> d_pool_bytes found = d_pool_bytes disk \<and>
       d_handle found = FILE_HANDLE (pool_path (found_letter phys t disk))"
    if ph: "\<forall>p. Some p \<in> set phys \<longrightarrow> p \<notin> set outs" and i: "i < length disks" for i
  proof -
    have "vdisk ?w i = disks ! i"
      using lw i wn(1) ptrs same_layout_bytes(5) [OF counted_volume [where vol = ?v]] by (metis disk_ptrs_nth)
    moreover have "entry_of_disk (s_heap s5 d) = entry_of_disk (s_heap s d)" for d
      using h [of d] by (auto simp: entry_of_disk_def drive_char_def)
    moreover have "reopened False phys t1 e = reopened False phys t e" for e by (rule reopened_cong) (simp add: C(3))
    ultimately have "s_heap t3 (outs ! i) = reopened False phys t (entry_of_disk (s_heap s (disks ! i)))"
      using S(9) ph i h3 by simp
    then show ?thesis by (simp add: reopened_fields)
  qed
  show ?thesis using S(2-6,8) v1(1) load ptrs2 found by (intro exI [of _ vol2] exI [of _ t3]) simp
qed

text \<open>
  A mirrored volume that a load restores, with its members on different drives, is one that the
  recovery of the journals works on (\<open>mirror_loaded\<close>).
\<close>

lemma restored_mirror_loaded:
  assumes good: "all_good os" and vol: "storable vol s" "MIN_DISKS \<le> v_disk_count vol" "v_raid_level vol = RAID_LEVEL_MIRROR"
    and sb: "sb\<lparr>sb_checksum := 0\<rparr> = sb_of_volume now vol s"
    and outs: "distinct outs" "v_disk_count vol \<le> length outs" "\<forall>p. Some p \<in> set phys \<longrightarrow> p \<notin> set outs"
    and run: "superblock_restore os counter sb phys vol0 outs s0 = Inr (True, vol', s')" and own: "own_drives (disk_ptrs vol') s'"
  shows "mirror_loaded vol' s'"
proof -
  have R: "v_disk_count vol' = v_disk_count vol" "v_virtual_total_bytes vol' = v_virtual_total_bytes vol" "v_raid_level vol' = RAID_LEVEL_MIRROR"
    "\<not> v_cache_enabled vol'" "\<forall>i < v_disk_count vol. vdisk vol' i = outs ! i"
    "\<forall>i < v_disk_count vol. s_heap s' (outs ! i) = reopened True phys s0 (entry_of_disk (s_heap s (vdisk vol i)))"
    using superblock_restore_run [OF good vol(1,2) sb outs(1,2), of counter phys vol0 s0] run vol(3) outs(3) by auto
  have p: "disk_ptrs vol' = take (v_disk_count vol) outs"
    using R(1,5) outs(2) by (intro nth_equalityI) (simp_all add: disk_ptrs_def)
  have sbf: "sb_disk_count sb = v_disk_count vol" "length (sb_disks sb) = MAX_DISKS"
    using arg_cong [OF sb, of sb_disk_count] arg_cong [OF sb, of sb_disks] by (simp_all add: sb_of_volume_def)
  have "CHECK_DISKS vol'" using superblock_restore_shape(2) [OF run] sbf outs(2) by simp
  moreover have disk: "\<exists>i < v_disk_count vol. s_heap s' d = reopened True phys s0 (entry_of_disk (s_heap s (vdisk vol i)))"
    if "d \<in> set (disk_ptrs vol')" for d using that R(6) outs(2) unfolding p by (auto simp: in_set_conv_nth)
  have handle: "d_handle (s_heap s' d) = FILE_HANDLE (pool_path (d_drive_letter (s_heap s' d))) \<and> d_ram_buffer (s_heap s' d) = None \<and>
      d_healthy (s_heap s' d) = 1 \<and> d_faulty (s_heap s' d) = 0" if "d \<in> set (disk_ptrs vol')" for d
    using disk [OF that] by (auto simp: reopened_fields)
  have "d = e" if de: "d \<in> set (disk_ptrs vol')" "e \<in> set (disk_ptrs vol')" "d_handle (s_heap s' d) = d_handle (s_heap s' e)" for d e
  proof -
    have "drive_char (s_heap s' d) = drive_char (s_heap s' e)" using handle de by (simp add: pool_path_def drive_char_def)
    then show ?thesis using own de(1,2) by (auto simp: own_drives_def distinct_map inj_on_def)
  qed
  then have "in_order (disk_ptrs vol') s'" using handle by (auto simp: in_order_def own_files_def)
  moreover have "distinct (disk_ptrs vol')" using outs(1) by (simp add: p)
  ultimately show ?thesis using R vol(1) by (simp add: mirror_loaded_def storable_def)
qed

text \<open>
  C19. A striped volume created on drives without small files, on a working system, is found again
  by any later load, on a working system, that looks at one of its drives while the small files
  are still the same: the load succeeds with the same number of disks, size, identifier,
  generation and address map. Its disks are the caller's records in order and, when those are not
  among the drives at hand, the record at each place has the pool size of the disk it stands for
  and is open on the pool file of the drive that reports that disk's serial number or, when none
  does, of the drive the disk was created on.
\<close>

theorem created_volume_loads:
  assumes good: "all_good os" "all_good os'" and blank: "blank vol" and use: "usable disks s" and now: "en_now env < 2 ^ 64"
    and bench: "\<forall>d \<in> set disks. d_bench_write_mbs (s_heap s d) < 2 ^ 32 \<and> d_bench_read_mbs (s_heap s d) < 2 ^ 32"
    and fresh: "w_files s = Map.empty"
    and created: "volume_create os env vol disks s = Inr (True, vol1, s1, evs)"
    and later: "w_files t = w_files s1"
    and drive: "d \<in> set disks" "drive_char (s_heap s d) \<in> set (named_letters named @ fixed_letters fixed named)"
    and outs: "distinct outs" "length disks \<le> length outs"
  shows "\<exists>vol2 t2. volume_load os' env' fixed named phys vol0 outs t = Inr (True, vol2, t2, [(EVENT_VOLUME_LOADED, [])]) \<and>
    v_disk_count vol2 = length disks \<and> v_virtual_total_bytes vol2 = v_virtual_total_bytes vol1 \<and>
    v_volume_uuid vol2 = v_volume_uuid vol1 \<and> v_generation vol2 = v_generation vol1 \<and>
    (\<forall>vo. map_single_byte vol2 vo = map_single_byte vol1 vo) \<and> v_raid_level vol2 \<noteq> RAID_LEVEL_MIRROR \<and>
    disk_ptrs vol2 = take (length disks) outs \<and>
    ((\<forall>p. Some p \<in> set phys \<longrightarrow> p \<notin> set outs) \<longrightarrow> (\<forall>i < length disks. let disk = s_heap s (disks ! i); found = s_heap t2 (outs ! i) in
       d_drive_letter found = found_letter phys t disk \<and> d_pool_bytes found = d_pool_bytes disk \<and>
       d_handle found = FILE_HANDLE (pool_path (found_letter phys t disk))))"
  by (rule create_then_load [OF assms])

lemma ready_facts:
  "en_now start_env < 2 ^ 64"
  "\<forall>d \<in> set [0, 1]. d_bench_write_mbs (s_heap ready_system d) < 2 ^ 32 \<and> d_bench_read_mbs (s_heap ready_system d) < 2 ^ 32"
  "w_files ready_system = Map.empty" "1 \<in> set [0, 1 :: ptr]"
  "drive_char (s_heap ready_system 1) \<in> set (named_letters (Some CHR ''D'') @ fixed_letters (\<lambda>_. False) (Some CHR ''D''))"
  "distinct [10, 11 :: ptr]" "length [0, 1 :: ptr] \<le> length [10, 11 :: ptr]"
  by (simp_all add: start_env_def ready_system_def zero_disk_def drive_char_def named_letters_def)

lemma ready_created:
  obtains vol1 s1 evs where "volume_create os_good start_env zero_volume [0, 1] ready_system = Inr (True, vol1, s1, evs)"
  using volume_create_good [OF all_good_os_good zero_blank ready_usable, of start_env] by blast

theorem created_volume_loads_witness:
  "\<exists>vol1 s1 evs vol2 t2. volume_create os_good start_env zero_volume [0, 1] ready_system = Inr (True, vol1, s1, evs) \<and>
    volume_load os_good start_env (\<lambda>_. False) (Some CHR ''D'') [] zero_volume [10, 11] s1 = Inr (True, vol2, t2, [(EVENT_VOLUME_LOADED, [])]) \<and>
    (\<forall>vo. map_single_byte vol2 vo = map_single_byte vol1 vo)"
proof -
  obtain vol1 s1 evs where C: "volume_create os_good start_env zero_volume [0, 1] ready_system = Inr (True, vol1, s1, evs)"
    by (rule ready_created)
  from created_volume_loads [OF all_good_os_good all_good_os_good zero_blank ready_usable ready_facts(1-3) C refl ready_facts(4-7), of start_env "[]" zero_volume]
  show ?thesis using C by blast
qed

section \<open>A loaded volume serves nothing\<close>

lemma add_entry_nonempty: "add_entry es d off n \<noteq> []"
  by (simp add: add_entry_def Let_def)

lemma map_lba_loop_nonempty:
  assumes "map_lba_loop vol vo k es = Some r"
  shows "es \<noteq> [] \<longrightarrow> (\<forall>x. r = Inr (True, x) \<longrightarrow> x \<noteq> [])"
proof (rule map_lba_loop.raw_induct [where P = "\<lambda>vol vo k es r. es \<noteq> [] \<longrightarrow> (\<forall>x. r = Inr (True, x) \<longrightarrow> x \<noteq> [])", OF _ assms], intro impI)
  fix f vol vo k es r
  assume IH: "\<And>vol vo k es r. f vol vo k es = Some r \<Longrightarrow> es \<noteq> [] \<longrightarrow> (\<forall>x. r = Inr (True, x) \<longrightarrow> x \<noteq> [])"
    and run: "(if 0 < k \<and> length es < MAX_IO_ENTRIES then
        case map_single_byte vol vo of Inl f \<Rightarrow> Some (Inl f)
        | Inr m \<Rightarrow> (case m of None \<Rightarrow> Some (Inr (False, []))
          | Some a \<Rightarrow> f vol (u64 (vo + chunk_size vol vo (fst a) k)) (sub64 k (u32 (chunk_size vol vo (fst a) k)))
              (add_entry es (fst a) (snd a) (chunk_size vol vo (fst a) k)))
      else Some (Inr (k = 0, es))) = Some r" and es: "es \<noteq> []"
  show "\<forall>x. r = Inr (True, x) \<longrightarrow> x \<noteq> []"
    using run es IH add_entry_nonempty by (fastforce split: if_splits sum.splits option.splits)
qed

lemma map_lba_nonempty:
  assumes "stripe_volume_map_lba vol off n = Some (Inr (True, es))" shows "es \<noteq> []"
proof -
  let ?rem = "if v_virtual_total_bytes vol < u64 (off + n) then v_virtual_total_bytes vol - off else n"
  have n: "n \<noteq> 0" "off < v_virtual_total_bytes vol" "map_lba_loop vol off ?rem [] = Some (Inr (True, es))"
    using assms by (auto simp: stripe_volume_map_lba_def Let_def split: if_splits)
  then have r: "0 < ?rem" by simp
  show ?thesis using n(3) r
    by (subst (asm) map_lba_loop.simps)
      (auto simp: const add_entry_nonempty split: sum.splits option.splits dest: map_lba_loop_nonempty [rule_format])
qed

definition workerless :: "STRIPE_VOLUME \<Rightarrow> bool" where
  "workerless vol \<longleftrightarrow> v_worker_state vol = None \<and> v_raid_level vol \<noteq> RAID_LEVEL_MIRROR \<and> \<not> v_cache_enabled vol"

lemma workerless_direct:
  "workerless vol \<Longrightarrow> direct_io os opn vol buf off n s = Inr (ok, vol', buf', s') \<Longrightarrow> \<not> ok \<and> vol' = vol \<and> s' = s"
  by (auto simp: direct_io_def submit_entries_def workerless_def dest: map_lba_nonempty split: option.splits sum.splits prod.splits if_splits)

lemma workerless_write:
  assumes w: "workerless vol" and run: "stripe_volume_write os vol buf off n s = Inr (ok, vol', buf', s')"
  shows "\<not> ok \<and> vol' = vol \<and> s' = s"
proof -
  have "stripe_volume_write os vol buf off n s = Inr (False, vol, buf, s) \<or>
      stripe_volume_write os vol buf off n s = count_if (add_bytes_written n) (direct_io os IO_OP_WRITE vol buf off n s)"
    using w by (simp add: stripe_volume_write_def workerless_def)
  then show ?thesis using run workerless_direct [OF w, of os IO_OP_WRITE buf off n s]
    by (auto simp: count_if_def split: sum.splits prod.splits)
qed

lemma workerless_read:
  assumes w: "workerless vol" and run: "stripe_volume_read os vol buf off n s = Inr (ok, vol', buf', s')"
  shows "\<not> ok \<and> s' = s"
proof -
  have "stripe_volume_read os vol buf off n s = Inr (False, vol, buf, s) \<or>
      stripe_volume_read os vol buf off n s = count_if (add_bytes_read n) (direct_io os IO_OP_READ vol buf off n s)"
    using w by (simp add: stripe_volume_read_def workerless_def)
  then show ?thesis using run workerless_direct [OF w, of os IO_OP_READ buf off n s]
    by (auto simp: count_if_def split: sum.splits prod.splits)
qed

lemma workerless_replay:
  "workerless vol \<Longrightarrow> replay os raw rs failed vol s = Inr (k, vol', s') \<Longrightarrow> vol' = vol \<and> s' = s"
proof (induction rs arbitrary: failed)
  case (Cons r rs)
  obtain off len at where r: "r = (off, len, at)" by (metis prod_cases3)
  show ?case
  proof (cases "at = 0 \<or> len = 0")
    case True
    then show ?thesis using Cons.prems Cons.IH [of "Suc failed"] by (simp add: r)
  next
    case False
    obtain ok vol1 b s1 where W: "stripe_volume_write os vol (write_bytes zero_mem 0 (take len (drop at raw))) off len s = Inr (ok, vol1, b, s1)"
      using Cons.prems(2) False by (auto simp: r split: sum.splits)
    note w = workerless_write [OF Cons.prems(1) W]
    then show ?thesis using Cons.prems Cons.IH [of "Suc failed"] False W by (simp add: r)
  qed
qed simp

lemma workerless_recover_disk:
  "workerless vol \<Longrightarrow> recover_disk os d vol s = Inr (ok, vol', s') \<Longrightarrow> vol' = vol"
  by (auto simp: recover_disk_def Let_def dest: workerless_replay split: option.splits if_splits sum.splits prod.splits)

lemma workerless_recover:
  "workerless vol \<Longrightarrow> recover_disks os ds vol s = Inr (ok, vol', s') \<Longrightarrow> vol' = vol"
proof (induction ds arbitrary: s ok s')
  case (Cons d ds)
  obtain c vol1 s1 where R: "recover_disk os d vol s = Inr (c, vol1, s1)" using Cons.prems(2) by (auto split: sum.splits)
  have "vol1 = vol" using workerless_recover_disk [OF Cons.prems(1) R] .
  then show ?case using Cons R by (auto split: sum.splits)
qed simp

text \<open>The level of a mirrored volume does not change either.\<close>

lemma drop_mirror_level: "v_raid_level (fst (drop_mirror d st)) = v_raid_level (fst st)"
  by (cases st) (simp add: drop_mirror_def)

lemma mirror_loop_level: "v_raid_level (fst (snd (mirror_write_loop os off bs ds st))) = v_raid_level (fst st)"
proof (induction ds arbitrary: st)
  case (Cons d ds)
  obtain ok s' where "stripe_write_raw os d off bs (snd st) = (ok, s')" by (metis prod.exhaust)
  moreover obtain r st' where "mirror_write_loop os off bs ds (fst st, s') = (r, st')" by (metis prod.exhaust)
  ultimately show ?case
    using Cons.IH [of st] Cons.IH [of "drop_mirror d st"] Cons.IH [of "(fst st, s')"] Cons.IH [of "drop_mirror d (fst st, s')"]
    by (simp add: drop_mirror_level)
qed simp

lemma mirror_write_level: "mirror_volume_write os vol bs off s = (ok, vol', s') \<Longrightarrow> v_raid_level vol' = v_raid_level vol"
proof -
  have all: "v_raid_level (fst (snd (mirror_write_to_all os v bs off s))) = v_raid_level v" for v
    using mirror_loop_level by (simp add: mirror_write_to_all_def Let_def)
  assume run: "mirror_volume_write os vol bs off s = (ok, vol', s')"
  obtain k c where C: "cache_write (v_cache vol) bs off = (k, c)" by force
  obtain r1 v1 t1 where A: "mirror_write_to_all os (vol\<lparr>v_cache := c\<rparr>) bs off s = (r1, v1, t1)" by (metis prod_cases3)
  obtain r2 v2 t2 where B: "mirror_write_to_all os vol bs off s = (r2, v2, t2)" by (metis prod_cases3)
  have "v_raid_level v1 = v_raid_level vol" "v_raid_level v2 = v_raid_level vol"
    using all [of "vol\<lparr>v_cache := c\<rparr>"] all [of vol] A B by simp_all
  then show ?thesis using run
    by (cases r1) (auto simp: mirror_volume_write_def Let_def C A B add_bytes_written_def split: if_splits)
qed

lemma mirror_replay_level:
  "v_raid_level vol = RAID_LEVEL_MIRROR \<Longrightarrow> replay os raw rs failed vol s = Inr (k, vol', s') \<Longrightarrow> v_raid_level vol' = RAID_LEVEL_MIRROR"
proof (induction rs arbitrary: failed vol s)
  case (Cons r rs)
  obtain off len at where r: "r = (off, len, at)" by (metis prod_cases3)
  show ?case
  proof (cases "at = 0 \<or> len = 0")
    case True
    then show ?thesis using Cons.prems Cons.IH [of vol "Suc failed" s] by (simp add: r)
  next
    case False
    obtain ok vol1 b s1 where W: "stripe_volume_write os vol (write_bytes zero_mem 0 (take len (drop at raw))) off len s = Inr (ok, vol1, b, s1)"
      using Cons.prems(2) False by (auto simp: r split: sum.splits)
    then have "v_raid_level vol1 = RAID_LEVEL_MIRROR" using Cons.prems(1)
      by (auto simp: stripe_volume_write_def add_bytes_written_def dest: mirror_write_level split: if_splits prod.splits)
    then show ?thesis using Cons.prems(2) Cons.IH [of vol1] False W by (auto simp: r)
  qed
qed simp

lemma mirror_recover_level:
  "v_raid_level vol = RAID_LEVEL_MIRROR \<Longrightarrow> recover_disks os ds vol s = Inr (ok, vol', s') \<Longrightarrow> v_raid_level vol' = RAID_LEVEL_MIRROR"
proof (induction ds arbitrary: s ok s' vol)
  case (Cons d ds)
  obtain c vol1 s1 where R: "recover_disk os d vol s = Inr (c, vol1, s1)" using Cons.prems(2) by (auto split: sum.splits)
  have "v_raid_level vol1 = RAID_LEVEL_MIRROR" using R Cons.prems(1)
    by (auto simp: recover_disk_def Let_def dest: mirror_replay_level split: option.splits if_splits sum.splits prod.splits)
  then show ?case using Cons R by (auto split: sum.splits)
qed simp

lemma loaded_workerless:
  assumes "volume_load os env fixed named phys vol outs s = Inr (True, vol', s', evs)" "v_raid_level vol' \<noteq> RAID_LEVEL_MIRROR"
  shows "workerless vol'"
proof -
  obtain vol1 s1 clean where L: "metadata_load_volume os env fixed named phys vol outs s = Inr (True, vol1, s1)"
    "journal_recover_all os vol1 s1 = Inr (clean, vol', s')"
    using assms(1) by (auto simp: volume_load_def split: if_splits dest!: and_then_Inr)
  have w: "v_worker_state vol1 = None \<and> \<not> v_cache_enabled vol1"
    using L(1) by (auto simp: metadata_load_volume_def superblock_read_def superblock_restore_def restored_volume_def Let_def zero_volume_def
        split: prod.splits if_splits sum.splits bool.splits)
  show ?thesis
  proof (cases "v_raid_level vol1 = RAID_LEVEL_MIRROR")
    case False
    then have "workerless vol1" using w by (simp add: workerless_def)
    moreover have "vol' = vol1" using workerless_recover calculation L(2) by (auto simp: journal_recover_all_def split: if_splits)
    ultimately show ?thesis by simp
  next
    case True
    then have "v_raid_level vol' = RAID_LEVEL_MIRROR" using L(2) mirror_recover_level by (auto simp: journal_recover_all_def split: if_splits)
    then show ?thesis using assms(2) by simp
  qed
qed

theorem loaded_volume_serves_nothing:
  assumes "volume_load os env fixed named phys vol outs s = Inr (True, vol', s', evs)" "v_raid_level vol' \<noteq> RAID_LEVEL_MIRROR"
  shows "stripe_volume_write os' vol' buf off n t \<noteq> Inr (True, r) \<and> stripe_volume_read os' vol' buf off n t \<noteq> Inr (True, r)"
proof -
  note w = loaded_workerless [OF assms]
  obtain a b c where r: "r = (a, b, c)" by (metis prod_cases3)
  show ?thesis
    using workerless_write [OF w, of os' buf off n t True a b c] workerless_read [OF w, of os' buf off n t True a b c] r by blast
qed

theorem loaded_volume_serves_nothing_witness:
  "\<exists>s vol' s'. volume_load os_good start_env (\<lambda>_. False) (Some CHR ''D'') [] zero_volume [10, 11] s =
      Inr (True, vol', s', [(EVENT_VOLUME_LOADED, [])]) \<and>
    (\<forall>r. stripe_volume_read os_good vol' zero_mem 0 512 s' \<noteq> Inr (True, r))"
proof -
  obtain vol1 s1 evs where C: "volume_create os_good start_env zero_volume [0, 1] ready_system = Inr (True, vol1, s1, evs)"
    by (rule ready_created)
  from create_then_load [OF all_good_os_good all_good_os_good zero_blank ready_usable ready_facts(1-3) C refl ready_facts(4-7), of start_env "[]" zero_volume]
  obtain vol' s' where L: "volume_load os_good start_env (\<lambda>_. False) (Some CHR ''D'') [] zero_volume [10, 11] s1 =
    Inr (True, vol', s', [(EVENT_VOLUME_LOADED, [])])" "v_raid_level vol' \<noteq> RAID_LEVEL_MIRROR" by blast
  show ?thesis using L(1) loaded_volume_serves_nothing [OF L] by blast
qed

section \<open>An expanded volume cannot be stopped\<close>

definition room_for :: "ptr \<times> nat \<Rightarrow> sys \<Rightarrow> bool" where
  "room_for x s \<longleftrightarrow> d_drive_letter (s_heap s (fst x)) \<noteq> [] \<and> d_file_path (s_heap s (fst x)) \<noteq> [] \<and>
     0 < snd x \<and> snd x < 2 ^ 32 \<and> disk_speed (s_heap s (fst x)) < 2 ^ 32"

lemma expand_pools_good:
  assumes "all_good os"
  shows "\<forall>x \<in> set xs. room_for x s \<Longrightarrow> distinct (map fst xs) \<Longrightarrow>
    \<exists>s'. expand_pools os created xs s = (True, created @ map fst xs, s') \<and> disks_ok (s_heap s') (map fst xs) \<and>
      (\<forall>d. d \<notin> set (map fst xs) \<longrightarrow> s_heap s' d = s_heap s d) \<and>
      (\<forall>x \<in> set xs. d_handle (s_heap s' (fst x)) = FILE_HANDLE (d_file_path (s_heap s (fst x))))"
proof (induction xs arbitrary: created s)
  case (Cons x xs)
  obtain d mb where x: "x = (d, mb)" by force
  note R = Cons.prems(1) [THEN bspec, of x, unfolded x room_for_def, simplified]
  let ?n = "u64 (mb * 1024 * 1024)"
  have n: "?n = mb * 1024 * 1024" using R by (intro u64_id) (auto simp: x)
  have ok: "validate_pool_size ?n = RC_OK" unfolding n validate_pool_size_ok using R by (simp add: const x)
  obtain s1 where C: "pool_file_create os d ?n s = (True, s1)"
    "s_heap s1 = (s_heap s)(d := (s_heap s d)\<lparr>d_pool_bytes := sector_round ?n\<rparr>)"
    using assms ok R by (simp add: pool_file_create_def Let_def update_disk_def tick_def x)
  have p1: "d_file_path (s_heap s1 d) \<noteq> []" using R by (simp add: C(2) x)
  obtain s2 where O: "pool_file_open os d s1 = (True, s2)"
    using pool_file_open_good [OF assms p1] by (cases "pool_file_open os d s1") auto
  note o = pool_file_open_cases [OF p1 O]
  have other: "s_heap s2 e = s_heap s e" if "e \<noteq> d" for e using o(3) C(2) that by simp
  have own: "s_heap s2 d = (s_heap s d)\<lparr>d_pool_bytes := sector_round ?n, d_handle := FILE_HANDLE (d_file_path (s_heap s d))\<rparr>"
    using o(4) C(2) by simp
  have "\<forall>y \<in> set xs. room_for y s2"
  proof
    fix y assume y: "y \<in> set xs"
    then have "fst y \<noteq> d" using Cons.prems(2) x by force
    then show "room_for y s2" using Cons.prems(1) y other by (simp add: room_for_def)
  qed
  from Cons.IH [OF this, of "created @ [d]"] Cons.prems(2)
  obtain s' where S: "expand_pools os (created @ [d]) xs s2 = (True, (created @ [d]) @ map fst xs, s')" "disks_ok (s_heap s') (map fst xs)"
    "\<forall>e. e \<notin> set (map fst xs) \<longrightarrow> s_heap s' e = s_heap s2 e"
    "\<forall>y \<in> set xs. d_handle (s_heap s' (fst y)) = FILE_HANDLE (d_file_path (s_heap s2 (fst y)))" by auto
  have d: "s_heap s' d = s_heap s2 d" using S(3) Cons.prems(2) x by simp
  have "sector_round ?n \<le> ?n" using ok by (intro sector_round_facts(2)) (simp add: validate_pool_size_ok)
  moreover have "?n < 2 ^ 32 * (1024 * 1024)" unfolding n using R x by simp
  ultimately have "sector_round ?n < 2 ^ 56" by simp
  then have "disks_ok (s_heap s') (map fst (x # xs))"
    using S(2) R d own by (auto simp: disks_ok_def disk_speed_def x)
  moreover have "\<forall>y \<in> set (x # xs). d_handle (s_heap s' (fst y)) = FILE_HANDLE (d_file_path (s_heap s (fst y)))"
    using S(4) d own other Cons.prems(2) by (auto simp: x) (metis fst_conv image_eqI other)
  moreover have "expand_pools os created (x # xs) s = (True, created @ map fst (x # xs), s')"
    using R ok C(1) O S(1) by (simp add: x Let_def)
  moreover have "\<forall>e. e \<notin> set (map fst (x # xs)) \<longrightarrow> s_heap s' e = s_heap s e" using S(3) other by (auto simp: x)
  ultimately show ?case by blast
qed (auto simp: disks_ok_def)

text \<open>
  C35. Expanding a running striped volume by new disks succeeds on a working system and keeps
  every address, but the array of workers keeps its size, so that unmounting the expanded volume
  reads past it.
\<close>

theorem expanded_volume_cannot_stop:
  assumes good: "all_good os" and vol: "wf_layout vol" "c_arrays vol" "v_virtual_total_bytes vol < 2 ^ 63" "v_raid_level vol = RAID_LEVEL_STRIPE"
      "CHECK_DISKS vol" "length (v_disks vol) = MAX_DISKS" "v_worker_state vol = Some ws" "length ws = v_disk_count vol"
    and args: "expand_args phys s argv [] = news" "news \<noteq> []" "\<forall>x \<in> set news. room_for x s" "distinct (map fst news)"
    and fit: "v_disk_count vol + length news \<le> MAX_DISKS" "v_phase_count vol + length news \<le> MAX_DISKS"
  shows "\<exists>vol' s' evs. volume_expand os env phys argv vol s = Inr (True, vol', s', evs @ [(EVENT_EXPAND, [])]) \<and>
    wf_layout vol' \<and> v_disk_count vol' = v_disk_count vol + length news \<and> v_virtual_total_bytes vol \<le> v_virtual_total_bytes vol' \<and>
    (\<forall>vo < v_virtual_total_bytes vol. map_single_byte vol' vo = map_single_byte vol vo) \<and>
    (\<forall>os' mounted ctx t. volume_unmount os' env False mounted ctx vol' t = Inl OutOfBounds)"
proof -
  obtain s1 where P: "expand_pools os [] news s = (True, map fst news, s1)" "disks_ok (s_heap s1) (map fst news)"
    using expand_pools_good [OF good args(3,4), of "[]"] by auto
  have "map fst news \<noteq> []" "v_disk_count vol + length (map fst news) \<le> MAX_DISKS" "v_phase_count vol + length (map fst news) \<le> MAX_DISKS"
    using args(2) fit by simp_all
  from stripe_volume_expand_layout [OF vol(1-3) this P(2)] obtain vol1 used where
    E: "stripe_volume_expand (s_heap s1) vol (map fst news) = Inr (True, vol1)" "wf_layout vol1" "v_disk_count vol1 = v_disk_count vol + length news"
      "v_virtual_total_bytes vol1 = v_virtual_total_bytes vol + sum_list used"
      "\<forall>vo < v_virtual_total_bytes vol. map_single_byte vol1 vo = map_single_byte vol vo" by auto
  have f: "v_disks vol1 = take (v_disk_count vol) (v_disks vol) @ map Some (map fst news) @ drop (v_disk_count vol + length news) (v_disks vol)"
    "v_worker_state vol1 = v_worker_state vol"
    using E(1) by (auto simp: stripe_volume_expand_def Let_def split: if_splits)
  have "i < length (v_disks vol1) \<and> v_disks vol1 ! i \<noteq> None" if "i < v_disk_count vol1" for i
    using that vol(5,6) fit(1) unfolding f(1) E(3)
    by (cases "i < v_disk_count vol") (auto simp: nth_append CHECK_DISKS_def list_all_iff)
  then have "CHECK_DISKS vol1" by (simp add: CHECK_DISKS_def list_all_iff)
  then obtain ok vol2 s2 evs where M: "metadata_write os env vol1 s1 = Inr (ok, vol2, s2, evs)"
    using metadata_write_returns [of vol1 os env s1] by auto
  note K = metadata_write_keep(1) [OF M]
  have l: "same_layout vol1 vol2" "v_worker_state vol2 = Some ws" using K vol(7) f(2) by (auto simp: same_layout_def)
  note L = l(1) [unfolded same_layout_def]
  have "volume_expand os env phys argv vol s = Inr (True, vol2, s2, evs @ [(EVENT_EXPAND, [])])"
    using vol(4) args(1,2) P(1) E(1) M by (simp add: volume_expand_def)
  moreover have "volume_unmount os' env False mounted ctx vol2 t = Inl OutOfBounds" for os' mounted ctx t
    using l(2) L E(3) vol(8) args(2)
    by (simp add: volume_unmount_def stripe_volume_destroy_def stripe_volume_workers_stop_def)
  moreover have "wf_layout vol2" "v_disk_count vol2 = v_disk_count vol + length news" "v_virtual_total_bytes vol \<le> v_virtual_total_bytes vol2"
    using same_layout_bytes(2) [OF l(1)] E(2-4) L by simp_all
  moreover have "\<forall>vo < v_virtual_total_bytes vol. map_single_byte vol2 vo = map_single_byte vol vo"
    using same_layout_map [OF l(1)] E(5) by simp
  ultimately show ?thesis by blast
qed

definition spare_system :: sys where
  "spare_system = ready_system\<lparr>s_heap := (\<lambda>p. (s_heap ready_system p)\<lparr>d_selected := True\<rparr>)\<rparr>"

theorem expanded_volume_cannot_stop_witness:
  "\<exists>vol' s' evs. volume_expand os_good start_env [7] [''0:4''] two_disk_volume spare_system = Inr (True, vol', s', evs @ [(EVENT_EXPAND, [])]) \<and>
    v_disk_count vol' = 3 \<and> volume_unmount os_good start_env False True zero_ctx vol' s' = Inl OutOfBounds"
proof -
  have a: "expand_args [7] spare_system [''0:4''] [] = [(7, 4)]"
    by (simp add: scan_pair_def scan_unsigned_def dec_value_def is_space_def is_digit_def spare_system_def Let_def
        digit_val_def u32_def)
  have w: "wf_layout two_disk_volume"
    using wf_two_disks same_volume_bytes(2) [of two_disks two_disk_volume] by (simp add: two_disk_volume_def wf_layout_def vstart_def)
  have v: "c_arrays two_disk_volume" "v_virtual_total_bytes two_disk_volume < 2 ^ 63" "v_raid_level two_disk_volume = RAID_LEVEL_STRIPE"
    "length (v_disks two_disk_volume) = MAX_DISKS" "v_disk_count two_disk_volume + length [(7 :: nat, 4 :: nat)] \<le> MAX_DISKS"
    "v_phase_count two_disk_volume + length [(7 :: nat, 4 :: nat)] \<le> MAX_DISKS"
    by (simp_all add: c_arrays_def two_disk_volume_def two_disks_def zero_volume_def zero_phase_def phase_arrays_def const)
  have c: "CHECK_DISKS two_disk_volume" using two_disk_open by (simp add: disks_open_def)
  have r: "\<forall>x \<in> set [(7, 4)]. room_for x spare_system"
    by (simp add: room_for_def spare_system_def ready_system_def pool_path_def disk_speed_def zero_disk_def)
  from expanded_volume_cannot_stop [OF all_good_os_good w v(1-3) c v(4) two_disk_fields(3) _ a _ r _ v(5,6), of start_env]
  show ?thesis by auto
qed

section \<open>A failed creation leaves no pool open\<close>

definition closed :: "ptr \<Rightarrow> sys \<Rightarrow> bool" where
  "closed d s \<longleftrightarrow> d_handle (s_heap s d) = INVALID_HANDLE_VALUE"

lemma close_pools_closed': "d \<in> set xs \<or> closed d s \<Longrightarrow> closed d (close_pools xs s)"
proof -
  have "d_handle (s_heap s d) = INVALID_HANDLE_VALUE \<Longrightarrow> d_handle (s_heap (close_pools xs s) d) = INVALID_HANDLE_VALUE"
    by (induction xs arbitrary: s) (simp_all add: close_pools_def pool_file_close_def update_disk_def)
  then show "d \<in> set xs \<or> closed d s \<Longrightarrow> closed d (close_pools xs s)" using close_pools_closed by (auto simp: closed_def)
qed

lemma close_pools_files': "w_files (close_pools xs s) = w_files s"
  using close_pools_files by (simp add: close_pools_def)

lemma pool_file_open_closed:
  assumes "pool_file_open os d s = (ok, s')"
  shows "e \<noteq> d \<Longrightarrow> closed e s' = closed e s" "\<not> ok \<Longrightarrow> closed d s \<Longrightarrow> closed d s'"
  using assms by (auto simp: pool_file_open_def Let_def closed_def update_disk_def tick_def split: if_splits)

lemma open_pools_closed:
  "open_pools os opened ds s = (False, s') \<Longrightarrow> distinct ds \<Longrightarrow> \<forall>d \<in> set ds. closed d s \<Longrightarrow>
    \<forall>d \<in> set opened \<union> set ds. closed d s'"
proof (induction ds arbitrary: opened s)
  case (Cons d ds)
  obtain ok s1 where O: "pool_file_open os d s = (ok, s1)" by force
  note C = pool_file_open_closed [OF O]
  show ?case
  proof (cases ok)
    case True
    have "\<forall>e \<in> set ds. closed e s1"
    proof
      fix e assume e: "e \<in> set ds"
      then have "e \<noteq> d" using Cons.prems(2) by auto
      then show "closed e s1" using C(1) Cons.prems(3) e by simp
    qed
    then show ?thesis using Cons.IH [of "opened @ [d]" s1] Cons.prems(1,2) O True by auto
  next
    case False
    have "\<forall>e \<in> set (d # ds). closed e s1" using Cons.prems(3) C False by (metis set_ConsD list.set_intros)
    then show ?thesis using Cons.prems(1) O False close_pools_closed' by auto
  qed
qed simp

lemma open_pools_files: "w_files (snd (open_pools os opened ds s)) = w_files s"
proof (induction ds arbitrary: opened s)
  case (Cons d ds)
  obtain ok s1 where O: "pool_file_open os d s = (ok, s1)" by force
  then have "w_files s1 = w_files s" using pool_file_open_files [of os d s] by simp
  then show ?case using Cons.IH [of "opened @ [d]" s1] O by (simp add: close_pools_files' split: bool.split)
qed simp

lemma set_healthy_files: "w_files (foldl (\<lambda>s d. update_disk d (set_healthy 1) s) s ds) = w_files s"
  by (induction ds arbitrary: s) (simp_all add: update_disk_def)

lemma create_with_files: "create_with fn env vol disks s = Inr (ok, vol', s') \<Longrightarrow> w_files s' = w_files s"
  by (cases fn) (auto simp: mirror_volume_create_def Let_def set_healthy_files dest!: and_then_Inr split: if_splits)

theorem failed_creation_closes_pools:
  assumes blank: "blank vol" and disks: "distinct disks" "\<forall>d \<in> set disks. d_handle (s_heap s d) = INVALID_HANDLE_VALUE"
    and run: "volume_create_internal os env fn label vol disks s = Inr (False, vol', s', evs)"
  shows "(\<forall>d \<in> set disks. d_handle (s_heap s' d) = INVALID_HANDLE_VALUE) \<and> w_files s' = w_files s \<and> evs = []"
proof -
  obtain opened s3 where O: "open_pools os [] disks s = (opened, s3)" by force
  have f3: "w_files s3 = w_files s" using open_pools_files [of os "[]" disks s] O by simp
  have all: "\<forall>d \<in> set disks. closed d (close_pools disks t)" for t using close_pools_closed' by blast
  show ?thesis
  proof (cases opened)
    case False
    then have "s' = s3" "evs = []" using run blank_released [OF blank] O by (simp_all add: volume_create_internal_def)
    then show ?thesis using open_pools_closed [of os "[]" disks s s3] O False disks f3 by (simp add: closed_def)
  next
    case True
    then obtain created vol3 s4 where C: "create_with fn env vol disks s3 = Inr (created, vol3, s4)"
      using run blank_released [OF blank] O by (auto simp: volume_create_internal_def dest!: and_then_Inr)
    have f4: "w_files s4 = w_files s" using create_with_files [OF C] f3 by simp
    show ?thesis
    proof (cases created)
      case False
      then have "s' = close_pools disks s4" "evs = []"
        using run blank_released [OF blank] O True C by (simp_all add: volume_create_internal_def)
      then show ?thesis using all f4 close_pools_files' by (simp add: closed_def)
    next
      case made: True
      have "v_raid_level vol3 = RAID_LEVEL_STRIPE" and
        W: "\<exists>vol4 s5. stripe_volume_workers_init os vol3 s4 = Inr (False, vol4, s5) \<and> s' = close_pools disks s5 \<and> evs = []"
        using run blank_released [OF blank] O True C made
        by (auto simp: volume_create_internal_def dest!: and_then_Inr split: if_splits)
      then obtain vol4 s5 where "stripe_volume_workers_init os vol3 s4 = Inr (False, vol4, s5)" "s' = close_pools disks s5" "evs = []"
        by blast
      then show ?thesis using all f4 close_pools_files' workers_init_keeps by (metis closed_def)
    qed
  qed
qed

definition closed_system :: sys where
  "closed_system = ready_system\<lparr>s_heap := (\<lambda>p. (s_heap ready_system p)\<lparr>d_handle := INVALID_HANDLE_VALUE\<rparr>)\<rparr>"

theorem failed_creation_closes_pools_witness:
  "\<exists>vol' s'. volume_create_internal (\<lambda>_. Fail 0) start_env StripeFn ''RAID0'' zero_volume [0, 1] closed_system = Inr (False, vol', s', []) \<and>
    (\<forall>d \<in> set [0, 1]. d_handle (s_heap s' d) = INVALID_HANDLE_VALUE)"
proof -
  have c: "distinct [0, 1 :: ptr]" "\<forall>d \<in> set [0, 1]. d_handle (s_heap closed_system d) = INVALID_HANDLE_VALUE"
    by (simp_all add: closed_system_def)
  have p: "d_file_path (s_heap closed_system 0) \<noteq> []" by (simp add: closed_system_def ready_system_def pool_path_def)
  obtain s3 where O: "open_pools (\<lambda>_. Fail 0) [] [0, 1] closed_system = (False, s3)"
    using p by (simp add: pool_file_open_def Let_def sys_ok_def)
  have run: "volume_create_internal (\<lambda>_. Fail 0) start_env StripeFn ''RAID0'' zero_volume [0, 1] closed_system = Inr (False, zero_volume, s3, [])"
    using blank_released [OF zero_blank] O by (simp add: volume_create_internal_def)
  show ?thesis using failed_creation_closes_pools [OF zero_blank c run] run by blast
qed

section \<open>Destruction keeps the journals\<close>

lemma destroy_disk_files:
  assumes "destroy_disk os d s = s'"
  shows "w_files s' (journal_path e) = w_files s (journal_path e)" "drive_char (s_heap s' p) = drive_char (s_heap s p)"
    "w_files s (sb_path l) = None \<or> all_good os \<and> l = drive_char (s_heap s d) \<Longrightarrow> w_files s' (sb_path l) = None"
proof -
  let ?s1 = "snd (pool_file_delete os d (pool_file_close d s))"
  have k: "w_files ?s1 = w_files s" "drive_char (s_heap ?s1 p) = drive_char (s_heap s p)" for p
    by (simp_all add: pool_file_delete_def pool_file_close_def update_disk_def tick_def Let_def drive_char_def)
  have s': "s' = tick (delete_file os (sb_path (drive_char (s_heap s d))) ?s1)"
    using assms k(2) by (simp add: destroy_disk_def Let_def)
  show "w_files s' (journal_path e) = w_files s (journal_path e)" "drive_char (s_heap s' p) = drive_char (s_heap s p)"
    "w_files s (sb_path l) = None \<or> all_good os \<and> l = drive_char (s_heap s d) \<Longrightarrow> w_files s' (sb_path l) = None"
    using k unfolding s' by (auto simp: delete_file_def tick_def)
qed

lemma destroy_disks_files:
  "w_files (foldl (\<lambda>s d. destroy_disk os d s) s ds) (journal_path e) = w_files s (journal_path e) \<and>
    (all_good os \<longrightarrow> (\<forall>l. w_files s (sb_path l) = None \<or> l \<in> drive_char ` s_heap s ` set ds \<longrightarrow>
      w_files (foldl (\<lambda>s d. destroy_disk os d s) s ds) (sb_path l) = None))"
proof (induction ds arbitrary: s)
  case (Cons d ds)
  note D = destroy_disk_files [OF refl [of "destroy_disk os d s"]]
  show ?case using Cons.IH [of "destroy_disk os d s"] D by (auto simp: image_iff)
qed simp

text \<open>Destroying a running volume stops the workers and closes the pools; nothing is written.\<close>

lemma close_disks_good:
  "\<forall>x \<in> set ds. x \<noteq> None \<Longrightarrow> \<exists>heap'. close_disks ds heap = Inr heap' \<and>
     (\<forall>d. heap' d = (if Some d \<in> set ds then (heap d)\<lparr>d_handle := INVALID_HANDLE_VALUE\<rparr> else heap d))"
proof (induction ds arbitrary: heap)
  case (Cons x ds)
  obtain d where d: "x = Some d" using Cons.prems by auto
  have rest: "\<forall>x \<in> set ds. x \<noteq> None" using Cons.prems by simp
  let ?h = "heap(d := (heap d)\<lparr>d_handle := INVALID_HANDLE_VALUE\<rparr>)"
  obtain heap' where H: "close_disks ds ?h = Inr heap'"
    "\<forall>e. heap' e = (if Some e \<in> set ds then (?h e)\<lparr>d_handle := INVALID_HANDLE_VALUE\<rparr> else ?h e)"
    using Cons.IH [of ?h] rest by blast
  have "heap' e = (if Some e \<in> set (x # ds) then (heap e)\<lparr>d_handle := INVALID_HANDLE_VALUE\<rparr> else heap e)" for e
    using H(2) [rule_format, of e] by (cases "e = d") (simp_all add: d)
  then show ?case using H(1) by (simp add: d)
qed simp

lemma destroy_running:
  assumes "workers_ready vol s"
  shows "\<exists>s'. stripe_volume_destroy vol s = Inr (vol\<lparr>v_worker_state := None\<rparr>, s') \<and> w_media s' = w_media s \<and> w_files s' = w_files s \<and>
    (\<forall>d. s_heap s' d = (if d \<in> set (disk_ptrs vol) then (s_heap s d)\<lparr>d_handle := INVALID_HANDLE_VALUE\<rparr> else s_heap s d))"
proof -
  have c: "CHECK_DISKS vol" using assms by (simp add: workers_ready_def disks_open_def)
  then have len: "v_disk_count vol \<le> length (v_disks vol)"
    by (cases "v_disk_count vol") (auto simp: CHECK_DISKS_def list_all_iff Suc_le_eq)
  have ds: "take (v_disk_count vol) (v_disks vol) = map Some (disk_ptrs vol)"
    using c len by (intro nth_equalityI) (auto simp: disk_ptrs_def vdisk_def CHECK_DISKS_def list_all_iff)
  obtain heap' where H: "close_disks (map Some (disk_ptrs vol)) (s_heap s) = Inr heap'"
    "\<forall>d. heap' d = (if Some d \<in> set (map Some (disk_ptrs vol)) then (s_heap s d)\<lparr>d_handle := INVALID_HANDLE_VALUE\<rparr> else s_heap s d)"
    using close_disks_good [of "map Some (disk_ptrs vol)" "s_heap s"] by auto
  have "stripe_volume_workers_stop vol = Inr (vol\<lparr>v_worker_state := None\<rparr>)"
    using assms by (auto simp: workers_ready_def workers_idle_def stripe_volume_workers_stop_def split: option.splits)
  then have "stripe_volume_destroy vol s = Inr (vol\<lparr>v_worker_state := None\<rparr>, s\<lparr>s_heap := heap'\<rparr>)"
    using len H(1) ds by (simp add: stripe_volume_destroy_def)
  then show ?thesis using H(2) by auto
qed

text \<open>Taking the cache away: everything dirty is flushed first.\<close>

lemma take_cache_away:
  assumes good: "all_good os" and on: "v_cache_enabled vol" and ready: "flush_ready vol s" and idle: "v_cache_flush_in_progress vol = 0"
  shows "\<exists>s'. cleanup_volume_cache os env vol s = Inr (vol\<lparr>v_cache := zero_cache, v_cache_enabled := False\<rparr>, s') \<and> s_heap s' = s_heap s \<and>
    (\<forall>p. (\<forall>d \<in> set (disk_ptrs vol). p \<noteq> journal_path (s_heap s d)) \<longrightarrow> w_files s' p = w_files s p) \<and>
    (\<forall>x < v_virtual_total_bytes vol. volume_byte vol s' x =
        (if x < c_cache_size_bytes (v_cache vol) \<and> dirty_block (v_cache vol) (x div CACHE_BLOCK_SIZE)
         then the (c_buffer (v_cache vol)) x else volume_byte vol s x))"
proof -
  let ?c = "(v_cache vol)\<lparr>c_thread_stop := 1, c_flush_thread := False\<rparr>"
  let ?v = "vol\<lparr>v_cache := ?c\<rparr>"
  have l: "same_layout vol ?v" by simp
  note V = same_layout_bytes [OF l]
  have inv: "cache_inv (v_cache vol)" using ready by (simp add: flush_ready_def)
  then obtain m where m: "c_buffer (v_cache vol) = Some m" by (auto simp: cache_inv_def)
  have "flush_ready ?v s" using ready V by (simp add: flush_ready_def cache_inv_def)
  moreover have "v_cache_flush_in_progress ?v = 0" using idle by simp
  ultimately obtain dm s' rs where F: "cache_flush_all os (en_now env) ?v s = Inr (with_dirty ?v dm, s')"
    "logged ?v ([JBegin (en_now env) (v_generation ?v)] @ data_records (en_now env) ?v rs @
      (if rs = [] then [] else [JCommit (en_now env) (v_generation ?v)])) s s'"
    "\<forall>x < v_virtual_total_bytes ?v. volume_byte ?v s' x =
        (if x < c_cache_size_bytes (v_cache ?v) \<and> dirty_block (v_cache ?v) (x div CACHE_BLOCK_SIZE)
         then the (c_buffer (v_cache ?v)) x else volume_byte ?v s x)"
    using flush_all_good [OF good, of ?v s "en_now env"] by blast
  have "cleanup_volume_cache os env vol s = Inr (vol\<lparr>v_cache := zero_cache, v_cache_enabled := False\<rparr>, s')"
    using on F(1) idle m
    by (simp add: cleanup_volume_cache_def and_then_def cache_flush_wait_def with_dirty_def cache_destroy_def)
  moreover have "s_heap s' = s_heap s" "\<forall>p. (\<forall>d \<in> set (disk_ptrs vol). p \<noteq> journal_path (s_heap s d)) \<longrightarrow> w_files s' p = w_files s p"
    using F(2) V by (simp_all add: logged_def)
  moreover have "\<forall>x < v_virtual_total_bytes vol. volume_byte vol s' x =
        (if x < c_cache_size_bytes (v_cache vol) \<and> dirty_block (v_cache vol) (x div CACHE_BLOCK_SIZE)
         then the (c_buffer (v_cache vol)) x else volume_byte vol s x)"
    using F(3) V by (simp add: dirty_block_def)
  ultimately show ?thesis by blast
qed

lemma close_disks_drive: "close_disks ds heap = Inr heap' \<Longrightarrow> (\<lambda>p. d_drive_letter (heap' p)) = (\<lambda>p. d_drive_letter (heap p))"
  by (induction ds heap arbitrary: heap' rule: close_disks.induct) (auto simp: fun_eq_iff split: if_splits)

lemma volume_destroy_drives:
  "stripe_volume_destroy vol s = Inr (vol1, s1) \<Longrightarrow> w_files s1 = w_files s \<and> (\<forall>p. drive_char (s_heap s1 p) = drive_char (s_heap s p))"
  by (auto simp: stripe_volume_destroy_def drive_char_def fun_eq_iff dest!: close_disks_drive split: sum.splits if_splits)

theorem destroy_keeps_journals:
  assumes "volume_destroy os env False mounted ctx vol disks s = Inr (ctx', vol', s', evs)"
  shows "w_files s' (journal_path e) = w_files s (journal_path e) \<and>
    (all_good os \<longrightarrow> (\<forall>d \<in> set disks. w_files s' (sb_path (drive_char (s_heap s d))) = None))"
proof -
  obtain vol1 s1 where D: "stripe_volume_destroy vol s = Inr (vol1, s1)" "s' = foldl (\<lambda>s d. destroy_disk os d s) s1 disks"
    using assms by (auto simp: volume_destroy_def volume_unmount_def Let_def dest!: and_then_Inr)
  have k: "w_files s1 = w_files s" "\<forall>p. drive_char (s_heap s1 p) = drive_char (s_heap s p)" using volume_destroy_drives [OF D(1)] by simp_all
  then have "drive_char ` s_heap s1 ` set disks = drive_char ` s_heap s ` set disks" by (simp add: image_image)
  then show ?thesis using destroy_disks_files [of os s1 disks e] k(1) D(2) by auto
qed

theorem destroy_keeps_journals_witness:
  "\<exists>ctx' vol' s' evs. volume_destroy os_good start_env False False zero_ctx zero_volume [0]
      (ready_system\<lparr>w_files := [journal_path (s_heap ready_system 0) \<mapsto> [1]]\<rparr>) = Inr (ctx', vol', s', evs) \<and>
    w_files s' (journal_path (s_heap ready_system 0)) = Some [1]"
proof -
  let ?s = "ready_system\<lparr>w_files := [journal_path (s_heap ready_system 0) \<mapsto> [1]]\<rparr>"
  obtain ctx' vol' s' evs where D: "volume_destroy os_good start_env False False zero_ctx zero_volume [0] ?s = Inr (ctx', vol', s', evs)"
    using blank_released [OF zero_blank, of os_good start_env ?s] by (simp add: volume_destroy_def volume_unmount_def)
  show ?thesis using destroy_keeps_journals [OF D, of "s_heap ready_system 0"] D by auto
qed

end
