(* ===== verification/Devices.thy ===== *)
theory Devices
  imports PoolIo EventBus VolumeManager
begin

text \<open>
  The physical disks: \<^verbatim>\<open>src/src/disk_scanner.c\<close>, \<^verbatim>\<open>src/src/device_manager.c\<close> and the measurement of one
  disk in \<^verbatim>\<open>src/src/bench_io.c\<close>. What Windows answers about a drive is a \<open>drive_report\<close>; the addresses
  that \<^verbatim>\<open>malloc\<close> gives are an argument; the list of devices, \<^verbatim>\<open>g_disks\<close> with \<^verbatim>\<open>g_count\<close>, is a list of pointers.
  A bounded copy whose source does not fit ends the process, which is the fault \<open>BufferOverflow\<close>.
\<close>

section \<open>Scanning\<close>

definition contains :: "string \<Rightarrow> string \<Rightarrow> bool" where
  "contains needle hay = list_ex (\<lambda>i. take (length needle) (drop i hay) = needle) [0 ..< Suc (length hay)]"

definition detect_disk_type :: "string \<Rightarrow> DISK_TYPE" where
  "detect_disk_type model =
     (if list_ex (\<lambda>n. contains n model) [''NVMe'', ''nvme'', ''P3P'', ''FA200'', ''PM9A'', ''980'', ''990''] then DISK_TYPE_NVME_SSD
      else if contains ''SSD'' model \<or> contains ''ssd'' model then DISK_TYPE_SATA_SSD
      else if contains ''HDD'' model \<or> contains ''hdd'' model then DISK_TYPE_HDD
      else DISK_TYPE_UNKNOWN)"

text \<open>
  One root of \<^verbatim>\<open>GetLogicalDriveStringsW\<close>: is it a fixed or removable drive, could it be opened, the
  strings of its descriptor, and the answers about its length, its space and its sectors.
\<close>

record drive_report =
  dr_letter :: char
  dr_usable :: bool
  dr_opened :: bool
  dr_desc :: "(string option \<times> string option \<times> string option) option"
  dr_length :: "nat option"
  dr_length2 :: "nat option"
  dr_space :: "nat option"
  dr_sector :: "nat option"

text \<open>\<^verbatim>\<open>strncpy_s\<close> into 63 characters, spaces to underscores, underscores at the end removed.\<close>

definition tidy_id :: "string \<Rightarrow> fault + string" where
  "tidy_id raw =
     (if 63 \<le> length raw then Inl BufferOverflow
      else Inr (rev (dropWhile (\<lambda>c. c = CHR ''_'') (rev (map (\<lambda>c. if c = CHR '' '' then CHR ''_'' else c) raw)))))"

definition scanned_model :: "drive_report \<Rightarrow> fault + string" where
  "scanned_model r = (case dr_desc r of
     Some (Some product_id, vendor, _) \<Rightarrow>
       and_then (tidy_id product_id) (\<lambda>p. case vendor of
         None \<Rightarrow> Inr p
       | Some v \<Rightarrow> and_then (tidy_id v) (\<lambda>v. Inr (v @ '' '' @ p)))
   | _ \<Rightarrow> Inr (''Drive '' @ [dr_letter r] @ '':''))"

definition scanned_serial :: "drive_report \<Rightarrow> string" where
  "scanned_serial r = (case dr_desc r of
     Some (Some _, _, Some serial) \<Rightarrow> take 63 serial
   | _ \<Rightarrow> [])"

definition scanned_length :: "drive_report \<Rightarrow> nat" where
  "scanned_length r =
     (let n = (case dr_length r of Some n \<Rightarrow> n | None \<Rightarrow> (case dr_length2 r of Some n \<Rightarrow> n | None \<Rightarrow> 0))
      in if n \<noteq> 0 then n else case dr_space r of Some n \<Rightarrow> n | None \<Rightarrow> 0)"

definition scanned_disk :: "drive_report \<Rightarrow> fault + DISK_INFO" where
  "scanned_disk r =
     and_then (scanned_model r) (\<lambda>model.
       Inr (zero_disk\<lparr>d_device_path := [CHR 0x5C, CHR 0x5C, CHR ''.'', CHR 0x5C, dr_letter r, CHR '':''],
              d_drive_letter := [dr_letter r, CHR '':'', CHR 0x5C], d_handle := INVALID_HANDLE_VALUE,
              d_model := model, d_serial_number := scanned_serial r, d_type := detect_disk_type model,
              d_total_bytes := scanned_length r,
              d_sector_size := (case dr_sector r of Some n \<Rightarrow> n | None \<Rightarrow> 512)\<rparr>))"

text \<open>The drives taken up; growing the array is a call, and a drive is skipped when it fails.\<close>

fun scan_drives :: "os \<Rightarrow> drive_report list \<Rightarrow> sys \<Rightarrow> fault + DISK_INFO list \<times> sys" where
  "scan_drives os [] s = Inr ([], s)"
| "scan_drives os (r # rs) s =
     (if dr_letter r = CHR ''A'' \<or> dr_letter r = CHR ''B'' then scan_drives os rs s
      else if \<not> dr_usable r \<or> \<not> dr_opened r then scan_drives os rs s
      else if \<not> sys_ok os s then scan_drives os rs (tick s)
      else and_then (scanned_disk r) (\<lambda>d.
        and_then (scan_drives os rs (tick s)) (\<lambda>(ds, s1). Inr (d # ds, s1))))"

text \<open>The records moved to blocks of their own, at the addresses \<open>new\<close>.\<close>

fun place_disks :: "os \<Rightarrow> (nat \<Rightarrow> ptr) \<Rightarrow> nat \<Rightarrow> DISK_INFO list \<Rightarrow> sys \<Rightarrow> ptr list option \<times> sys" where
  "place_disks os new i [] s = (Some [], s)"
| "place_disks os new i (d # ds) s =
     (if \<not> sys_ok os s then (None, tick s)
      else case place_disks os new (Suc i) ds (update_disk (new i) (\<lambda>_. d) (tick s)) of
        (None, s1) \<Rightarrow> (None, s1)
      | (Some ps, s1) \<Rightarrow> (Some (new i # ps), s1))"

definition disk_scan_all :: "os \<Rightarrow> (nat \<Rightarrow> ptr) \<Rightarrow> drive_report list option \<Rightarrow> sys \<Rightarrow> fault + bool \<times> ptr list \<times> sys" where
  "disk_scan_all os new reports s = (case reports of
     None \<Rightarrow> Inr (False, [], s)
   | Some rs \<Rightarrow>
       and_then (scan_drives os rs s) (\<lambda>(ds, s1).
         if \<not> sys_ok os s1 then Inr (False, [], tick s1)
         else case place_disks os new 0 ds (tick s1) of
           (None, s2) \<Rightarrow> Inr (False, [], s2)
         | (Some ps, s2) \<Rightarrow> Inr (ps \<noteq> [], ps, s2)))"

section \<open>Choosing disks and drives\<close>

fun select_each :: "ptr list \<Rightarrow> nat list \<Rightarrow> sys \<Rightarrow> bool \<times> sys" where
  "select_each devs [] s = (True, s)"
| "select_each devs (i # is) s =
     (if length devs \<le> i then (False, s)
      else select_each devs is (update_disk (devs ! i) (\<lambda>d. d\<lparr>d_selected := True\<rparr>) s))"

definition disk_select :: "ptr list \<Rightarrow> nat list \<Rightarrow> nat \<Rightarrow> sys \<Rightarrow> bool \<times> sys" where
  "disk_select devs indices sel_count s =
     (if sel_count < MIN_DISKS \<or> MAX_DISKS < sel_count then (False, s)
      else select_each devs (take sel_count indices)
             (foldl (\<lambda>s p. update_disk p (\<lambda>d. d\<lparr>d_selected := False\<rparr>) s) s devs))"

definition MAX_MODEL_LEN :: nat where [const]: "MAX_MODEL_LEN = 128"

definition pool_root :: "char \<Rightarrow> string" where
  "pool_root c = [c, CHR '':'', CHR 0x5C] @ ''RAIDTEST'' @ [CHR 0x5C]"

definition disk_map_drive :: "string \<Rightarrow> ptr \<Rightarrow> sys \<Rightarrow> fault + bool \<times> sys" where
  "disk_map_drive letter p s = (case letter of
     [] \<Rightarrow> Inr (False, s)
   | c # _ \<Rightarrow>
       if \<not> (65 \<le> (of_char c :: nat) \<and> (of_char c :: nat) \<le> 90) then Inr (False, s)
       else
         let model = take 255 (d_model (s_heap s p) @ '' ('' @ [c] @ '':)'');
             s1 = update_disk p (\<lambda>d. d\<lparr>d_drive_letter := pool_root c, d_file_path := pool_root c @ ''stripe_pool.dat''\<rparr>) (tick s)
         in if MAX_MODEL_LEN \<le> length model then Inl BufferOverflow
            else Inr (True, update_disk p (\<lambda>d. d\<lparr>d_model := model\<rparr>) s1))"

section \<open>Measuring a disk\<close>

text \<open>
  \<open>passes\<close> holds the speeds of the passes, for writing and reading in MB/s, as the clock gives them
  (0 for a pass with a failed request). The calls of the passes are not counted on the oracle's clock.
\<close>

definition BENCH_PASSES :: nat where [const]: "BENCH_PASSES = 10"

definition bench_passes :: "nat \<times> nat \<Rightarrow> nat" where
  "bench_passes first =
     (let combined = u32 (fst first + snd first) div 2
      in if combined < 500 then 5 else if combined < 2000 then 8 else if combined < 5000 then 10 else BENCH_PASSES)"

text \<open>The directory, the file, its size, and the memory; what was made is removed when a step fails.\<close>

definition bench_prepare :: "os \<Rightarrow> 'a world_scheme \<Rightarrow> bool \<times> 'a world_scheme" where
  "bench_prepare os s =
     (let s1 = tick s;
          opened = (sys_ok os s1 \<or> sys_ok os (tick s1));
          s2 = (if sys_ok os s1 then tick s1 else tick (tick s1))
      in if \<not> opened then (False, tick s2)
         else if \<not> sys_ok os s2 then (False, tick (tick (tick s2)))
         else let s3 = tick s2 in
           if \<not> sys_ok os s3 then (False, tick (tick (tick s3)))
           else let s4 = tick s3 in
             if \<not> sys_ok os s4 \<or> \<not> sys_ok os (tick s4) then (False, tick (tick (tick (tick s4))))
             else (True, tick (tick s4)))"

definition bench_single_disk :: "os \<Rightarrow> (nat \<Rightarrow> nat \<times> nat) \<Rightarrow> ptr \<Rightarrow> sys \<Rightarrow> bool \<times> sys" where
  "bench_single_disk os passes p s =
     (case bench_prepare os s of
        (False, s1) \<Rightarrow> (False, s1)
      | (True, s1) \<Rightarrow>
          let n = bench_passes (passes 0);
              wsum = sum_list (map (\<lambda>i. fst (passes i)) [0 ..< n]);
              rsum = sum_list (map (\<lambda>i. snd (passes i)) [0 ..< n])
          in (True, update_disk p (\<lambda>d. d\<lparr>d_bench_write_mbs := u32 (wsum div n), d_bench_read_mbs := u32 (rsum div n),
                 d_benchmarked := True\<rparr>) (tick (tick s1))))"

section \<open>The device list\<close>

definition device_get :: "ptr list \<Rightarrow> nat \<Rightarrow> ptr option" where
  "device_get devs i = (if length devs \<le> i then None else Some (devs ! i))"

definition device_is_selected :: "ptr list \<Rightarrow> sys \<Rightarrow> nat \<Rightarrow> bool" where
  "device_is_selected devs s i = (i < length devs \<and> d_selected (s_heap s (devs ! i)))"

definition device_refresh :: "os \<Rightarrow> (nat \<Rightarrow> ptr) \<Rightarrow> drive_report list option \<Rightarrow> sys \<Rightarrow> fault + bool \<times> ptr list \<times> sys \<times> events" where
  "device_refresh os new reports s =
     and_then (disk_scan_all os new reports s) (\<lambda>(ok, devs, s1).
       Inr (ok, devs, s1, if ok then map (\<lambda>p. (EVENT_DISK_FOUND, take 63 (d_serial_number (s_heap s1 p)))) devs else []))"

definition device_map_drive :: "ptr list \<Rightarrow> nat \<Rightarrow> string \<Rightarrow> sys \<Rightarrow> fault + bool \<times> sys" where
  "device_map_drive devs i letter s =
     (if length devs \<le> i then Inr (False, s) else disk_map_drive letter (devs ! i) s)"

text \<open>\<open>passes\<close> by disk, then by pass.\<close>

definition device_bench_all_selected :: "os \<Rightarrow> (ptr \<Rightarrow> nat \<Rightarrow> nat \<times> nat) \<Rightarrow> ptr list \<Rightarrow> sys \<Rightarrow> sys" where
  "device_bench_all_selected os passes devs s =
     foldl (\<lambda>s p. if \<not> d_selected (s_heap s p) \<or> d_drive_letter (s_heap s p) = [] then s
                  else snd (bench_single_disk os (passes p) p s)) s devs"

section \<open>What they keep\<close>

lemma bench_prepare_clock: "\<exists>n. snd (bench_prepare os s) = s\<lparr>w_clock := n\<rparr>"
  by (auto simp: bench_prepare_def Let_def tick_def)

text \<open>A measurement touches speeds only.\<close>

definition speeds_only :: "sys \<Rightarrow> sys \<Rightarrow> bool" where
  "speeds_only s s' \<longleftrightarrow> w_files s' = w_files s \<and> w_media s' = w_media s \<and>
     (\<forall>q. \<exists>w r b. s_heap s' q = (s_heap s q)\<lparr>d_bench_write_mbs := w, d_bench_read_mbs := r, d_benchmarked := b\<rparr>)"

lemma own_speeds: "\<exists>w r b. d = d\<lparr>d_bench_write_mbs := w, d_bench_read_mbs := r, d_benchmarked := b\<rparr>"
  by (intro exI [of _ "d_bench_write_mbs d"] exI [of _ "d_bench_read_mbs d"] exI [of _ "d_benchmarked d"]) simp

lemma speeds_only_refl: "speeds_only s (s\<lparr>w_clock := n\<rparr>)"
  by (simp add: speeds_only_def own_speeds)

lemma speeds_only_trans:
  assumes "speeds_only s s1" "speeds_only s1 s2" shows "speeds_only s s2"
proof -
  have "\<exists>w r b. s_heap s2 q = (s_heap s q)\<lparr>d_bench_write_mbs := w, d_bench_read_mbs := r, d_benchmarked := b\<rparr>" for q
  proof -
    obtain w r b where 1: "s_heap s1 q = (s_heap s q)\<lparr>d_bench_write_mbs := w, d_bench_read_mbs := r, d_benchmarked := b\<rparr>"
      using assms(1) unfolding speeds_only_def by blast
    obtain w' r' b' where 2: "s_heap s2 q = (s_heap s1 q)\<lparr>d_bench_write_mbs := w', d_bench_read_mbs := r', d_benchmarked := b'\<rparr>"
      using assms(2) unfolding speeds_only_def by blast
    show ?thesis unfolding 2 1 by (intro exI [of _ w'] exI [of _ r'] exI [of _ b']) simp
  qed
  then show ?thesis using assms by (simp add: speeds_only_def)
qed

lemma speeds_only_fields:
  assumes "speeds_only s s'"
  shows "d_drive_letter (s_heap s' q) = d_drive_letter (s_heap s q)" "d_file_path (s_heap s' q) = d_file_path (s_heap s q)"
    "d_selected (s_heap s' q) = d_selected (s_heap s q)" "d_model (s_heap s' q) = d_model (s_heap s q)"
    "d_serial_number (s_heap s' q) = d_serial_number (s_heap s q)"
proof -
  obtain w r b where "s_heap s' q = (s_heap s q)\<lparr>d_bench_write_mbs := w, d_bench_read_mbs := r, d_benchmarked := b\<rparr>"
    using assms unfolding speeds_only_def by blast
  then show "d_drive_letter (s_heap s' q) = d_drive_letter (s_heap s q)" "d_file_path (s_heap s' q) = d_file_path (s_heap s q)"
    "d_selected (s_heap s' q) = d_selected (s_heap s q)" "d_model (s_heap s' q) = d_model (s_heap s q)"
    "d_serial_number (s_heap s' q) = d_serial_number (s_heap s q)" by simp_all
qed

lemma bench_single_disk_keep: "speeds_only s (snd (bench_single_disk os passes p s))"
proof -
  obtain n where n: "snd (bench_prepare os s) = s\<lparr>w_clock := n\<rparr>" using bench_prepare_clock by blast
  show ?thesis
  proof (cases "fst (bench_prepare os s)")
    case True
    then have b: "bench_prepare os s = (True, s\<lparr>w_clock := n\<rparr>)" using n by (cases "bench_prepare os s") simp
    have u: "speeds_only s (update_disk p (\<lambda>d. d\<lparr>d_bench_write_mbs := w, d_bench_read_mbs := r, d_benchmarked := True\<rparr>)
        (tick (tick (s\<lparr>w_clock := n\<rparr>))))" for w r
    proof -
      have "\<exists>w' r' b. s_heap (update_disk p (\<lambda>d. d\<lparr>d_bench_write_mbs := w, d_bench_read_mbs := r, d_benchmarked := True\<rparr>)
          (tick (tick (s\<lparr>w_clock := n\<rparr>)))) q = (s_heap s q)\<lparr>d_bench_write_mbs := w', d_bench_read_mbs := r', d_benchmarked := b\<rparr>" for q
      proof (cases "q = p")
        case True
        then show ?thesis by (intro exI [of _ w] exI [of _ r] exI [of _ True]) (simp add: update_disk_def tick_def)
      next
        case False
        then show ?thesis using own_speeds by (simp add: update_disk_def tick_def)
      qed
      then show ?thesis by (simp add: speeds_only_def update_disk_def tick_def)
    qed
    show ?thesis using u by (simp add: bench_single_disk_def b Let_def)
  next
    case False
    then have "bench_prepare os s = (False, s\<lparr>w_clock := n\<rparr>)" using n by (cases "bench_prepare os s") simp
    then show ?thesis by (simp add: bench_single_disk_def speeds_only_refl)
  qed
qed

end
