(* ===== verification/Config.thy ===== *)
theory Config
  imports Devices "HOL-Library.Sublist"
begin

text \<open>
  The configuration file, \<^verbatim>\<open>src/src/config.c\<close>: the text that is written, and the loop over the lines that
  reads it. The text is a string with newlines; what the translation of line ends and UTF-8 do to it
  on the way to the disk is undone on the way back. \<open>wide\<close> says how the C library reads \<open>%c\<close> and \<open>%[\<close>
  in \<^verbatim>\<open>swscanf\<close>: as wide characters, which is what Microsoft documents, or as bytes, which is ISO C.
\<close>

section \<open>The configuration\<close>

record DISK_CONFIG =
  dc_disk_id :: nat
  dc_drive_letter :: char
  dc_pool_mb :: nat

record APP_CONFIG =
  cf_version :: nat
  cf_disks :: "DISK_CONFIG list"
  cf_cache_mb :: nat
  cf_pool_mb :: nat
  cf_mount_letter :: char
  cf_auto_bench :: bool
  cf_theme :: int
  cf_language :: string
  cf_auto_restore :: bool
  cf_auto_mount :: bool
  cf_first_run :: bool

definition config_defaults :: APP_CONFIG where
  "config_defaults = \<lparr>cf_version = 2, cf_disks = [], cf_cache_mb = CACHE_DEFAULT_MB, cf_pool_mb = 51200,
     cf_mount_letter = CHR ''R'', cf_auto_bench = True, cf_theme = 0, cf_language = ''en'',
     cf_auto_restore = True, cf_auto_mount = True, cf_first_run = True\<rparr>"

section \<open>Writing\<close>

definition quote :: char where "quote = CHR 0x22"
definition newline :: char where "newline = CHR 0x0A"

definition quoted :: "string \<Rightarrow> string" where
  "quoted w = [quote] @ w @ [quote]"

definition int_str :: "int \<Rightarrow> string" where
  "int_str v = (if v < 0 then ''-'' @ dec_str (nat (- v)) else dec_str (nat v))"

definition bool_str :: "bool \<Rightarrow> string" where
  "bool_str b = (if b then ''true'' else ''false'')"

text \<open>A line \<open>"key": value,\<close>.\<close>

definition field_line :: "string \<Rightarrow> string \<Rightarrow> string" where
  "field_line key v = ''  '' @ quoted key @ '': '' @ v @ '',''"

definition disk_line :: "DISK_CONFIG \<Rightarrow> bool \<Rightarrow> string" where
  "disk_line d final = ''    {'' @ quoted ''id'' @ '': '' @ dec_str (dc_disk_id d) @ '', '' @ quoted ''drive'' @ '': '' @
     quoted [dc_drive_letter d] @ '', '' @ quoted ''pool_mb'' @ '': '' @ dec_str (dc_pool_mb d) @ ''}'' @ (if final then [] else '','')"

definition config_lines :: "APP_CONFIG \<Rightarrow> string list" where
  "config_lines cfg =
     [''{'',
      field_line ''version'' (dec_str (cf_version cfg)),
      field_line ''cache_mb'' (dec_str (cf_cache_mb cfg)),
      field_line ''pool_mb'' (dec_str (cf_pool_mb cfg)),
      field_line ''mount_letter'' (quoted [cf_mount_letter cfg]),
      field_line ''auto_bench'' (bool_str (cf_auto_bench cfg)),
      field_line ''theme'' (int_str (cf_theme cfg)),
      field_line ''language'' (quoted (cf_language cfg)),
      field_line ''auto_restore'' (bool_str (cf_auto_restore cfg)),
      field_line ''auto_mount'' (bool_str (cf_auto_mount cfg)),
      field_line ''first_run'' (bool_str (cf_first_run cfg)),
      ''  '' @ quoted ''disks'' @ '': ['']
     @ map (\<lambda>i. disk_line (cf_disks cfg ! i) (i + 1 = length (cf_disks cfg))) [0 ..< length (cf_disks cfg)]
     @ [''  ]'', ''}'']"

text \<open>The file is not opened when \<open>APPDATA\<close> is not set; creating the directory and opening the file are calls.\<close>

definition config_save :: "os \<Rightarrow> bool \<Rightarrow> APP_CONFIG \<Rightarrow> string option \<Rightarrow> sys \<Rightarrow> bool \<times> APP_CONFIG \<times> string option \<times> sys" where
  "config_save os appdata cfg file s =
     (if \<not> appdata then (False, cfg, file, s)
      else if \<not> sys_ok os (tick s) then (False, cfg, file, tick (tick s))
      else let cfg1 = cfg\<lparr>cf_disks := take MAX_DISKS (cf_disks cfg)\<rparr>
           in (True, cfg1, Some (concat (map (\<lambda>l. l @ [newline]) (config_lines cfg1))), tick (tick s)))"

section \<open>Reading\<close>

text \<open>\<^verbatim>\<open>fgetws\<close> with room for 511 characters: up to and with the end of the line.\<close>

function fgets_lines :: "string \<Rightarrow> string list" where
  "fgets_lines body =
     (if body = [] then []
      else let l = takeWhile (\<lambda>c. c \<noteq> newline) (take 511 body);
               n = (if length l < length (take 511 body) then length l + 1 else length l)
           in take n body # fgets_lines (drop n body))"
  by pat_completeness auto
termination
proof (relation "measure length")
  fix body :: string and l n
  assume "body \<noteq> []" and l: "l = takeWhile (\<lambda>c. c \<noteq> newline) (take 511 body)"
    and n: "n = (if length l < length (take 511 body) then length l + 1 else length l)"
  then have "0 < n" by (cases body) auto
  then show "(drop n body, body) \<in> measure length" using \<open>body \<noteq> []\<close> by simp
qed simp

declare fgets_lines.simps [simp del]

text \<open>
  A literal in a format: a blank matches any white space, another character itself. \<open>scan_int\<close> is \<open>%d\<close>,
  with the value as an unsigned number of 32 bits.
\<close>

fun scan_literal :: "string \<Rightarrow> string \<Rightarrow> string option" where
  "scan_literal [] s = Some s"
| "scan_literal (f # fs) s =
     (if f = CHR '' '' then scan_literal fs (dropWhile is_space s)
      else case s of [] \<Rightarrow> None | c # r \<Rightarrow> if c = f then scan_literal fs r else None)"

definition scan_int :: "string \<Rightarrow> string \<Rightarrow> nat option" where
  "scan_int key p = (case scan_literal ('' '' @ quoted key @ '': '') p of
     None \<Rightarrow> None
   | Some r \<Rightarrow> (case scan_unsigned r of None \<Rightarrow> None | Some (v, _) \<Rightarrow> Some v))"

definition signed32 :: "nat \<Rightarrow> int" where
  "signed32 v = (if v < 2 ^ 31 then int v else int v - 2 ^ 32)"

text \<open>\<open>%c\<close>: one character; read as a wide one it overruns the \<^verbatim>\<open>char\<close> it is stored in.\<close>

definition scan_letter :: "bool \<Rightarrow> string \<Rightarrow> fault + char option" where
  "scan_letter wide p = (case scan_literal ('' '' @ quoted ''mount_letter'' @ '': '' @ [quote]) p of
     Some (c # _) \<Rightarrow> if wide then Inl BufferOverflow else Inr (Some c)
   | _ \<Rightarrow> Inr None)"

text \<open>
  \<open>%7[^"]\<close>: one to seven characters into an array of eight bytes. Wide ones take two bytes each and the
  terminator two more; the copy of the array then ends at the first zero byte.
\<close>

definition scan_language :: "bool \<Rightarrow> string \<Rightarrow> fault + string option" where
  "scan_language wide p = (case scan_literal ('' '' @ quoted ''language'' @ '': '' @ [quote]) p of
     None \<Rightarrow> Inr None
   | Some r \<Rightarrow>
       let w = take 7 (takeWhile (\<lambda>c. c \<noteq> quote) r)
       in if w = [] then Inr None
          else if \<not> wide then Inr (Some w)
          else if 4 \<le> length w then Inl BufferOverflow
          else Inr (Some (take 1 w)))"

text \<open>\<open>%llu\<close>, and the entry of a disk.\<close>

definition scan_u64 :: "string \<Rightarrow> nat option" where
  "scan_u64 s =
     (let s1 = dropWhile is_space s;
          neg = (case s1 of c # _ \<Rightarrow> c = CHR ''-'' | [] \<Rightarrow> False);
          s2 = (case s1 of c # r \<Rightarrow> if c = CHR ''-'' \<or> c = CHR ''+'' then r else s1 | [] \<Rightarrow> []);
          ds = takeWhile is_digit s2
      in if ds = [] then None
         else Some (if neg then sub64 0 (u64 (dec_value ds)) else u64 (dec_value ds)))"

definition scan_disk :: "string \<Rightarrow> DISK_CONFIG option" where
  "scan_disk p = (case scan_literal ('' {'' @ quoted ''id'' @ '': '') p of
     None \<Rightarrow> None
   | Some r \<Rightarrow> (case scan_unsigned r of
       None \<Rightarrow> None
     | Some (i, r1) \<Rightarrow> (case scan_literal ('', '' @ quoted ''drive'' @ '': '' @ [quote]) r1 of
         Some (c # r2) \<Rightarrow> (case scan_literal ([quote] @ '', '' @ quoted ''pool_mb'' @ '': '') r2 of
             None \<Rightarrow> None
           | Some r3 \<Rightarrow> (case scan_u64 r3 of
               None \<Rightarrow> None
             | Some mb \<Rightarrow> Some \<lparr>dc_disk_id = i, dc_drive_letter = c, dc_pool_mb = mb\<rparr>))
       | _ \<Rightarrow> None)))"

text \<open>One line, up to a zero character.\<close>

definition config_line :: "bool \<Rightarrow> string \<Rightarrow> APP_CONFIG \<Rightarrow> fault + APP_CONFIG" where
  "config_line wide line cfg =
     (let p = dropWhile (\<lambda>c. (of_char c :: nat) \<le> 32) (takeWhile (\<lambda>c. c \<noteq> CHR 0x00) line);
          has = (\<lambda>key. contains (quoted key @ '':'') p)
      in if p \<noteq> [] \<and> hd p \<in> {CHR ''{'', CHR ''}'', CHR ''['', CHR '']''} then Inr cfg
         else if contains (quoted ''disks'') p then Inr cfg
         else if has ''version'' then
           Inr (case scan_int ''version'' p of Some v \<Rightarrow> cfg\<lparr>cf_version := v\<rparr> | None \<Rightarrow> cfg)
         else if has ''cache_mb'' then
           Inr (case scan_int ''cache_mb'' p of Some v \<Rightarrow> cfg\<lparr>cf_cache_mb := v\<rparr> | None \<Rightarrow> cfg)
         else if has ''pool_mb'' then
           Inr (case scan_int ''pool_mb'' p of Some v \<Rightarrow> cfg\<lparr>cf_pool_mb := v\<rparr> | None \<Rightarrow> cfg)
         else if has ''mount_letter'' then
           (case scan_letter wide p of Inl f \<Rightarrow> Inl f | Inr None \<Rightarrow> Inr cfg | Inr (Some c) \<Rightarrow> Inr (cfg\<lparr>cf_mount_letter := c\<rparr>))
         else if has ''auto_bench'' then Inr (cfg\<lparr>cf_auto_bench := contains ''true'' p\<rparr>)
         else if has ''theme'' then
           Inr (case scan_int ''theme'' p of Some v \<Rightarrow> cfg\<lparr>cf_theme := signed32 v\<rparr> | None \<Rightarrow> cfg)
         else if has ''language'' then
           (case scan_language wide p of Inl f \<Rightarrow> Inl f | Inr None \<Rightarrow> Inr cfg | Inr (Some w) \<Rightarrow> Inr (cfg\<lparr>cf_language := w\<rparr>))
         else if has ''auto_restore'' then Inr (cfg\<lparr>cf_auto_restore := contains ''true'' p\<rparr>)
         else if has ''auto_mount'' then Inr (cfg\<lparr>cf_auto_mount := contains ''true'' p\<rparr>)
         else if has ''first_run'' then Inr (cfg\<lparr>cf_first_run := contains ''true'' p\<rparr>)
         else if has ''id'' \<and> length (cf_disks cfg) < MAX_DISKS then
           Inr (case scan_disk p of Some d \<Rightarrow> cfg\<lparr>cf_disks := cf_disks cfg @ [d]\<rparr> | None \<Rightarrow> cfg)
         else Inr cfg)"

fun config_read :: "bool \<Rightarrow> string list \<Rightarrow> APP_CONFIG \<Rightarrow> fault + APP_CONFIG" where
  "config_read wide [] cfg = Inr cfg"
| "config_read wide (l # ls) cfg = and_then (config_line wide l cfg) (config_read wide ls)"

definition config_load :: "os \<Rightarrow> bool \<Rightarrow> bool \<Rightarrow> string option \<Rightarrow> sys \<Rightarrow> fault + bool \<times> APP_CONFIG \<times> sys" where
  "config_load os wide appdata file s =
     (if \<not> appdata then Inr (False, config_defaults, s)
      else case file of
        None \<Rightarrow> Inr (True, config_defaults, tick s)
      | Some body \<Rightarrow>
          if \<not> sys_ok os s then Inr (True, config_defaults, tick s)
          else and_then (config_read wide (fgets_lines body) config_defaults) (\<lambda>cfg. Inr (True, cfg, tick s)))"

section \<open>Reading what was written\<close>

lemma contains_iff: "contains needle hay \<longleftrightarrow> (\<exists>u w. hay = u @ needle @ w)"
proof
  assume "contains needle hay"
  then obtain i where "take (length needle) (drop i hay) = needle" by (auto simp: contains_def list_ex_iff)
  then have "hay = take i hay @ needle @ drop (length needle) (drop i hay)" by (metis append_take_drop_id)
  then show "\<exists>u w. hay = u @ needle @ w" by blast
next
  assume "\<exists>u w. hay = u @ needle @ w"
  then obtain u w where "hay = u @ needle @ w" by blast
  then show "contains needle hay" by (auto simp: contains_def list_ex_iff intro!: bexI [of _ "length u"])
qed

lemma contains_Nil: "contains (n # ns) [] = False"
  by (simp add: contains_iff)

lemma contains_Cons: "contains (n # ns) (c # h) = (prefix (n # ns) (c # h) \<or> contains (n # ns) h)"
  unfolding contains_iff prefix_def by (metis append_Cons append_Nil list.exhaust list.inject)

lemma contains_skip: "n \<notin> set v \<Longrightarrow> contains (n # ns) (v @ h) = contains (n # ns) h"
  by (induction v) (auto simp: contains_Cons)

lemmas contains_eval = contains_Nil contains_Cons contains_skip

lemma fgets_lines_Nil: "fgets_lines [] = []"
  by (simp add: fgets_lines.simps)

lemma fgets_line:
  assumes "newline \<notin> set l" "length l < 511"
  shows "fgets_lines (l @ newline # rest) = (l @ [newline]) # fgets_lines rest"
proof -
  have t: "take 511 (l @ newline # rest) = l @ newline # take (510 - length l) rest"
  proof -
    have "511 - length l = Suc (510 - length l)" using assms(2) by simp
    then show ?thesis by (simp add: take_append)
  qed
  have w: "takeWhile (\<lambda>c. c \<noteq> newline) (take 511 (l @ newline # rest)) = l"
    using assms(1) unfolding t by (auto simp: takeWhile_append)
  have n: "length l < length (take 511 (l @ newline # rest))" unfolding t by simp
  show ?thesis by (subst fgets_lines.simps, unfold w Let_def if_P [OF n]) simp
qed

lemma fgets_lines_of:
  "\<forall>l \<in> set ls. newline \<notin> set l \<and> length l < 511 \<Longrightarrow>
   fgets_lines (concat (map (\<lambda>l. l @ [newline]) ls)) = map (\<lambda>l. l @ [newline]) ls"
  by (induction ls) (simp_all add: fgets_lines_Nil fgets_line)

lemma config_read_append:
  "config_read wide (xs @ ys) cfg = and_then (config_read wide xs cfg) (config_read wide ys)"
  by (induction xs arbitrary: cfg) (auto simp: and_then_def split: sum.splits)


text \<open>One line of each field.\<close>

lemma dec_str_chars: "c \<in> set (dec_str n) \<Longrightarrow> 48 \<le> (of_char c :: nat) \<and> (of_char c :: nat) \<le> 57"
  using dec_str_digits [of n] by (auto simp: is_digit_def)

lemma dec_str_plain: "quote \<notin> set (dec_str n)" "newline \<notin> set (dec_str n)" "CHR 0x00 \<notin> set (dec_str n)" "CHR '','' \<notin> set (dec_str n)"
  by (auto dest!: dec_str_chars simp: quote_def newline_def)

lemma scan_unsigned_dec:
  assumes "n < 2 ^ 32" "c = CHR '',''"
  shows "scan_unsigned (dec_str n @ c # rest) = Some (n, c # rest)"
proof -
  obtain d ds where d: "dec_str n = d # ds" by (cases "dec_str n") simp_all
  have dd: "is_digit d" "\<forall>x \<in> set ds. is_digit x" using dec_str_digits [of n] d by auto
  have c: "\<not> is_digit c" using assms(2) by (simp add: is_digit_def)
  have sp: "\<not> is_space d" "d \<noteq> CHR ''-''" "d \<noteq> CHR ''+''" using dd(1) by (auto simp: is_digit_def is_space_def)
  have t: "takeWhile is_digit (ds @ c # rest) = ds" "dropWhile is_digit (ds @ c # rest) = c # rest"
    using dd c by (simp_all add: takeWhile_append2 dropWhile_append2)
  have "dec_value (d # ds) = n" using d dec_value_dec_str [of n] by simp
  then show ?thesis using sp t dd(1) assms(1) by (simp add: scan_unsigned_def Let_def u32_def d)
qed


lemma field_trim:
  assumes "CHR 0x00 \<notin> set key" "CHR 0x00 \<notin> set v"
  shows "dropWhile (\<lambda>c. (of_char c :: nat) \<le> 32) (takeWhile (\<lambda>c. c \<noteq> CHR 0x00) (field_line key v @ [newline])) =
    quoted key @ '': '' @ v @ [CHR '','', newline]"
proof -
  have "takeWhile (\<lambda>c. c \<noteq> CHR 0x00) (field_line key v @ [newline]) = field_line key v @ [newline]"
    using assms by (subst takeWhile_eq_all_conv) (auto simp: field_line_def quoted_def quote_def newline_def)
  then show ?thesis by (simp add: field_line_def quoted_def quote_def)
qed

lemmas plain = dec_str_plain [unfolded quote_def newline_def]

lemma scan_literal_same: "CHR '' '' \<notin> set w \<Longrightarrow> scan_literal (w @ f) (w @ r) = scan_literal f r"
  by (induction w) auto

lemma scan_key:
  assumes "CHR '' '' \<notin> set key" "v \<noteq> [] \<Longrightarrow> \<not> is_space (hd v)" "v \<noteq> []"
  shows "scan_literal ('' '' @ quoted key @ '': '' @ f) (quoted key @ '': '' @ v) = scan_literal f v"
proof -
  have q: "\<not> is_space quote" by (simp add: is_space_def quote_def)
  have "CHR '' '' \<notin> set (quoted key @ '':'')" using assms(1) by (auto simp: quoted_def quote_def)
  from scan_literal_same [OF this, of "CHR '' '' # f" "CHR '' '' # v"]
  have 1: "scan_literal (quoted key @ '':'' @ CHR '' '' # f) (quoted key @ '':'' @ CHR '' '' # v) =
    scan_literal (CHR '' '' # f) (CHR '' '' # v)" by simp
  have 2: "dropWhile is_space (CHR '' '' # v) = v" using assms(2,3) by (cases v) (simp_all add: is_space_def)
  have 3: "dropWhile is_space (quoted key @ '': '' @ v) = quoted key @ '': '' @ v" using q by (simp add: quoted_def)
  show ?thesis using 1 2 3 by simp
qed

lemma scan_int_field:
  assumes "CHR '' '' \<notin> set key" "n < 2 ^ 32"
  shows "scan_int key (quoted key @ '': '' @ dec_str n @ CHR '','' # rest) = Some n"
proof -
  have "\<not> is_space (hd (dec_str n @ CHR '','' # rest))"
    using dec_str_chars [of "hd (dec_str n)" n] by (auto simp: is_space_def)
  from scan_key [OF assms(1), of "dec_str n @ CHR '','' # rest" "[]"] this
  have "scan_literal ('' '' @ quoted key @ '': '') (quoted key @ '': '' @ dec_str n @ CHR '','' # rest) =
    Some (dec_str n @ CHR '','' # rest)" by simp
  then show ?thesis using assms(2) by (simp add: scan_int_def scan_unsigned_dec)
qed

lemmas line_eval = plain Let_def quoted_def quote_def newline_def contains_eval

lemma config_line_version:
  assumes "n < 2 ^ 32"
  shows "config_line wide (field_line ''version'' (dec_str n) @ [newline]) cfg = Inr (cfg\<lparr>cf_version := n\<rparr>)"
  using scan_int_field [OF _ assms, of "''version''" "[newline]"] unfolding config_line_def
  by (subst field_trim) (simp_all add: line_eval)

lemma config_line_cache:
  assumes "n < 2 ^ 32"
  shows "config_line wide (field_line ''cache_mb'' (dec_str n) @ [newline]) cfg = Inr (cfg\<lparr>cf_cache_mb := n\<rparr>)"
  using scan_int_field [OF _ assms, of "''cache_mb''" "[newline]"] unfolding config_line_def
  by (subst field_trim) (simp_all add: line_eval)

lemma config_line_pool:
  assumes "n < 2 ^ 32"
  shows "config_line wide (field_line ''pool_mb'' (dec_str n) @ [newline]) cfg = Inr (cfg\<lparr>cf_pool_mb := n\<rparr>)"
  using scan_int_field [OF _ assms, of "''pool_mb''" "[newline]"] unfolding config_line_def
  by (subst field_trim) (simp_all add: line_eval)

lemma config_line_theme:
  assumes "0 \<le> t" "t < 2 ^ 31"
  shows "config_line wide (field_line ''theme'' (int_str t) @ [newline]) cfg = Inr (cfg\<lparr>cf_theme := t\<rparr>)"
proof -
  have n: "nat t < 2 ^ 31" "int_str t = dec_str (nat t)" using assms by (simp_all add: int_str_def)
  then show ?thesis using scan_int_field [of "''theme''" "nat t" "[newline]"] assms unfolding config_line_def n(2)
    by (subst field_trim) (simp_all add: line_eval signed32_def)
qed

lemma config_line_bools:
  "config_line wide (field_line ''auto_bench'' (bool_str b) @ [newline]) cfg = Inr (cfg\<lparr>cf_auto_bench := b\<rparr>)"
  "config_line wide (field_line ''auto_restore'' (bool_str b) @ [newline]) cfg = Inr (cfg\<lparr>cf_auto_restore := b\<rparr>)"
  "config_line wide (field_line ''auto_mount'' (bool_str b) @ [newline]) cfg = Inr (cfg\<lparr>cf_auto_mount := b\<rparr>)"
  "config_line wide (field_line ''first_run'' (bool_str b) @ [newline]) cfg = Inr (cfg\<lparr>cf_first_run := b\<rparr>)"
  unfolding config_line_def
  by (subst field_trim; cases b; simp add: line_eval bool_str_def)+

text \<open>A quoted value: only a key or the value itself can match between its quotes.\<close>

lemma quote_prefix:
  "quote \<notin> set k \<Longrightarrow> quote \<notin> set w \<Longrightarrow> prefix (k @ quote # f) (w @ quote # r) = (k = w \<and> prefix f r)"
proof (induction k arbitrary: w)
  case Nil
  then show ?case by (cases w) auto
next
  case (Cons c k)
  then show ?case by (cases w) auto
qed

lemma no_quote_prefix: "quote \<notin> set r \<Longrightarrow> \<not> prefix (k @ quote # f) r"
  by (auto simp: prefix_def)

lemma contains_value:
  assumes "quote \<notin> set k" "quote \<notin> set key" "quote \<notin> set w" "k \<noteq> '': ''"
  shows "contains (quoted k @ f) (quoted key @ '': '' @ quoted w @ [CHR '','', newline]) =
    (k = key \<and> prefix f ('': '' @ quoted w @ [CHR '','', newline]) \<or> k = w \<and> prefix f [CHR '','', newline])"
proof -
  have s: "contains (quote # ns) (x @ h) = contains (quote # ns) h" if "quote \<notin> set x" for ns x h
    using that by (rule contains_skip)
  have c: "quote \<notin> set '': ''" "quote \<notin> set [CHR '','', newline]" by (simp_all add: quote_def newline_def)
  have e: "\<not> contains (quote # ns) [CHR '','', newline]" for ns
    by (simp add: contains_eval quote_def newline_def)
  have q: "quote \<noteq> CHR '':''" "quote \<noteq> CHR '' ''" "quote \<noteq> CHR '',''" by (simp_all add: quote_def)
  show ?thesis
    using q s [OF assms(2)] s [OF c(1)] s [OF assms(3)] assms e no_quote_prefix [OF c(2)]
      quote_prefix [OF assms(1,2), of f "'': '' @ quoted w @ [CHR '','', newline]"]
      quote_prefix [OF assms(1) c(1), of f "w @ [quote] @ [CHR '','', newline]"]
      quote_prefix [OF assms(1,3), of f "[CHR '','', newline]"]
    by (simp add: quoted_def contains_Cons)
qed

lemma contains_key:
  assumes "quote \<notin> set k" "quote \<notin> set key" "quote \<notin> set w" "k \<noteq> '': ''"
  shows "contains (quoted k @ '':'') (quoted key @ '': '' @ quoted w @ [CHR '','', newline]) = (k = key)"
    "contains (quoted k) (quoted key @ '': '' @ quoted w @ [CHR '','', newline]) = (k = key \<or> k = w)"
  using contains_value [OF assms, of "'':''"] contains_value [OF assms, of "[]"] by simp_all

lemma config_line_language:
  assumes "w \<noteq> []" "length w \<le> 7" "w \<noteq> ''disks''" "quote \<notin> set w" "newline \<notin> set w" "CHR 0x00 \<notin> set w"
  shows "config_line False (field_line ''language'' (quoted w) @ [newline]) cfg = Inr (cfg\<lparr>cf_language := w\<rparr>)"
proof -
  let ?p = "quoted ''language'' @ '': '' @ quoted w @ [CHR '','', newline]"
  have n: "CHR 0x00 \<notin> set ''language''" "CHR 0x00 \<notin> set (quoted w)" using assms(6) by (simp_all add: quoted_def quote_def)
  have "\<not> is_space (hd (quoted w @ [CHR '','', newline]))" by (simp add: quoted_def quote_def is_space_def)
  from scan_key [of "''language''" "quoted w @ [CHR '','', newline]" "[quote]"] this
  have sc: "scan_literal ('' '' @ quoted ''language'' @ '': '' @ [quote]) ?p = Some (w @ [quote, CHR '','', newline])"
    by (simp add: quoted_def quote_def)
  have t: "takeWhile (\<lambda>c. c \<noteq> quote) (w @ [quote, CHR '','', newline]) = w"
    using assms(4) by (subst takeWhile_append2) auto
  have l: "scan_language False ?p = Inr (Some w)"
    unfolding scan_language_def sc option.case t Let_def using assms(1,2) by simp
  have q: "quote \<notin> set ''language''" "quote \<notin> set ''disks''" "quote \<notin> set ''version''" "quote \<notin> set ''cache_mb''"
    "quote \<notin> set ''pool_mb''" "quote \<notin> set ''mount_letter''" "quote \<notin> set ''auto_bench''" "quote \<notin> set ''theme''"
    by (simp_all add: quote_def)
  have b: "\<not> (?p \<noteq> [] \<and> hd ?p \<in> {CHR ''{'', CHR ''}'', CHR ''['', CHR '']''})" by (simp add: quoted_def quote_def)
  note k = contains_key [OF _ q(1) assms(4)]
  have no: "\<not> contains (quoted ''disks'') ?p" "\<not> contains (quoted ''version'' @ '':'') ?p" "\<not> contains (quoted ''cache_mb'' @ '':'') ?p"
    "\<not> contains (quoted ''pool_mb'' @ '':'') ?p" "\<not> contains (quoted ''mount_letter'' @ '':'') ?p"
    "\<not> contains (quoted ''auto_bench'' @ '':'') ?p" "\<not> contains (quoted ''theme'' @ '':'') ?p"
    "contains (quoted ''language'' @ '':'') ?p"
    using k(2) [OF q(2)] k(1) [OF q(3)] k(1) [OF q(4)] k(1) [OF q(5)] k(1) [OF q(6)] k(1) [OF q(7)] k(1) [OF q(8)] k(1) [OF q(1)]
      assms(3) by auto
  show ?thesis
    unfolding config_line_def field_trim [OF n] Let_def if_not_P [OF b] l
    by (simp only: no if_False if_True sum.case option.case)
qed

lemma config_line_letter:
  assumes "c \<noteq> newline" "c \<noteq> CHR 0x00"
  shows "config_line wide (field_line ''mount_letter'' (quoted [c]) @ [newline]) cfg =
    (if wide then Inl BufferOverflow else Inr (cfg\<lparr>cf_mount_letter := c\<rparr>))"
proof -
  have n: "CHR 0x00 \<notin> set ''mount_letter''" "CHR 0x00 \<notin> set (quoted [c])" using assms(2) by (simp_all add: quoted_def quote_def)
  have "\<not> is_space (hd (quoted [c] @ [CHR '','', newline]))" by (simp add: quoted_def quote_def is_space_def)
  from scan_key [of "''mount_letter''" "quoted [c] @ [CHR '','', newline]" "[quote]"] this
  have sc: "scan_literal ('' '' @ quoted ''mount_letter'' @ '': '' @ [quote]) (quoted ''mount_letter'' @ '': '' @ quoted [c] @ [CHR '','', newline]) =
    Some (c # [quote, CHR '','', newline])" by (simp add: quoted_def quote_def)
  have l: "scan_letter wide (quoted ''mount_letter'' @ '': '' @ quoted [c] @ [CHR '','', newline]) =
    (if wide then Inl BufferOverflow else Inr (Some c))" unfolding scan_letter_def sc by simp
  show ?thesis
    unfolding config_line_def field_trim [OF n] Let_def l by (simp add: line_eval)
qed

lemma config_line_others:
  "config_line wide (''{'' @ [newline]) cfg = Inr cfg" "config_line wide (''}'' @ [newline]) cfg = Inr cfg"
  "config_line wide (''  ]'' @ [newline]) cfg = Inr cfg"
  "config_line wide (''  '' @ quoted ''disks'' @ '': ['' @ [newline]) cfg = Inr cfg"
  "config_line wide (disk_line d final @ [newline]) cfg = Inr cfg"
  by (simp_all add: config_line_def disk_line_def line_eval)

lemma length_dec_str: "n < 10 ^ Suc k \<Longrightarrow> length (dec_str n) \<le> Suc k"
proof (induction k arbitrary: n)
  case 0
  then show ?case by (subst dec_str.simps) simp
next
  case (Suc k)
  then have "n div 10 < 10 ^ Suc k" by (simp add: div_less_iff_less_mult mult.commute)
  from Suc.IH [OF this] show ?case by (subst dec_str.simps) simp
qed

text \<open>
  The entry of a disk wants a brace at the start of its line, and a line that starts with a brace is
  passed over: no line adds a disk.
\<close>

lemma scan_disk_brace:
  assumes "p = [] \<or> hd p \<notin> {CHR ''{'', CHR ''}'', CHR ''['', CHR '']''}" "p = [] \<or> \<not> is_space (hd p)"
  shows "scan_disk p = None"
proof -
  have "dropWhile is_space p = p" using assms(2) by (cases p) auto
  then show ?thesis using assms(1) by (cases p) (simp_all add: scan_disk_def)
qed

lemma config_line_disks: "config_line wide l cfg = Inr cfg' \<Longrightarrow> cf_disks cfg' = cf_disks cfg"
proof -
  assume r: "config_line wide l cfg = Inr cfg'"
  let ?p = "dropWhile (\<lambda>c. (of_char c :: nat) \<le> 32) (takeWhile (\<lambda>c. c \<noteq> CHR 0x00) l)"
  have b: "?p \<noteq> [] \<Longrightarrow> \<not> is_space (hd ?p)"
  proof -
    assume "?p \<noteq> []"
    then have "\<not> (of_char (hd ?p) :: nat) \<le> 32" using hd_dropWhile [of "\<lambda>c. (of_char c :: nat) \<le> 32"] by blast
    then show "\<not> is_space (hd ?p)" by (auto simp: is_space_def)
  qed
  show ?thesis
  proof (cases "?p \<noteq> [] \<and> hd ?p \<in> {CHR ''{'', CHR ''}'', CHR ''['', CHR '']''}")
    case True
    then show ?thesis using r by (simp add: config_line_def Let_def)
  next
    case False
    then have n: "scan_disk ?p = None" using b by (intro scan_disk_brace) auto
    show ?thesis using r unfolding config_line_def Let_def if_not_P [OF False] n
      by (auto split: if_splits option.splits sum.splits)
  qed
qed

lemma config_read_no_disks: "config_read wide ls cfg = Inr cfg' \<Longrightarrow> cf_disks cfg' = cf_disks cfg"
proof (induction ls arbitrary: cfg)
  case (Cons l ls)
  from Cons.prems obtain c where c: "config_line wide l cfg = Inr c" "config_read wide ls c = Inr cfg'"
    using and_then_Inr by fastforce
  show ?case using Cons.IH [OF c(2)] config_line_disks [OF c(1)] by simp
qed simp

lemma config_load_no_disks:
  assumes "config_load os wide appdata file s = Inr (ok, cfg, s')"
  shows "cf_disks cfg = []"
proof -
  have d: "cf_disks config_defaults = []" by (simp add: config_defaults_def)
  show ?thesis
  proof (cases "file")
    case None
    then show ?thesis using assms d by (auto simp: config_load_def split: if_splits)
  next
    case (Some body)
    then consider "cfg = config_defaults" | "config_read wide (fgets_lines body) config_defaults = Inr cfg"
      using assms by (auto simp: config_load_def and_then_def split: if_splits sum.splits)
    then show ?thesis using d config_read_no_disks by cases auto
  qed
qed

definition config_ok :: "APP_CONFIG \<Rightarrow> bool" where
  "config_ok cfg \<longleftrightarrow>
     cf_version cfg < 2 ^ 32 \<and> cf_cache_mb cfg < 2 ^ 32 \<and> cf_pool_mb cfg < 2 ^ 32 \<and>
     cf_mount_letter cfg \<noteq> newline \<and> cf_mount_letter cfg \<noteq> CHR 0x00 \<and> 0 \<le> cf_theme cfg \<and> cf_theme cfg < 2 ^ 31 \<and>
     cf_language cfg \<noteq> [] \<and> length (cf_language cfg) \<le> 7 \<and> cf_language cfg \<noteq> ''disks'' \<and>
     quote \<notin> set (cf_language cfg) \<and> newline \<notin> set (cf_language cfg) \<and> CHR 0x00 \<notin> set (cf_language cfg) \<and>
     (\<forall>d \<in> set (cf_disks cfg). dc_disk_id d < 2 ^ 32 \<and> dc_pool_mb d < 2 ^ 64 \<and> dc_drive_letter d \<noteq> newline)"

lemma number_lengths: "n < 2 ^ 32 \<Longrightarrow> length (dec_str n) \<le> 10" "n < 2 ^ 64 \<Longrightarrow> length (dec_str n) \<le> 20"
  using length_dec_str [of n 9] length_dec_str [of n 19] by simp_all

lemma config_lines_ok:
  assumes "config_ok cfg" "l \<in> set (config_lines cfg)"
  shows "newline \<notin> set l \<and> length l < 511"
proof -
  have n: "newline \<notin> set (dec_str k)" for k using dec_str_plain by simp
  have d: "newline \<notin> set (disk_line d f) \<and> length (disk_line d f) < 511"
    if "dc_disk_id d < 2 ^ 32 \<and> dc_pool_mb d < 2 ^ 64 \<and> dc_drive_letter d \<noteq> newline" for d f
    using that number_lengths(1) [of "dc_disk_id d"] number_lengths(2) [of "dc_pool_mb d"] n
    by (simp add: disk_line_def quoted_def) (auto simp: quote_def newline_def)
  have t: "newline \<notin> set (int_str t) \<and> length (int_str t) \<le> 10" if "0 \<le> t" "t < 2 ^ 31" for t
    using that number_lengths(1) [of "nat t"] n by (simp add: int_str_def)
  have b: "newline \<notin> set (bool_str x) \<and> length (bool_str x) \<le> 5" for x by (simp add: bool_str_def newline_def)
  show ?thesis
    using assms n d t [of "cf_theme cfg"] b [of "cf_auto_bench cfg"] b [of "cf_auto_restore cfg"] b [of "cf_auto_mount cfg"]
      b [of "cf_first_run cfg"] number_lengths(1) [of "cf_version cfg"] number_lengths(1) [of "cf_cache_mb cfg"]
      number_lengths(1) [of "cf_pool_mb cfg"]
    unfolding config_ok_def config_lines_def
    by (auto simp: field_line_def quoted_def quote_def newline_def)
qed

lemma config_read_disks: "config_read wide (map (\<lambda>i. disk_line (f i) (g i) @ [newline]) is) cfg = Inr cfg"
  by (induction "is") (simp_all add: config_line_others)

lemma config_read_lines:
  assumes "config_ok cfg"
  shows "config_read wide (map (\<lambda>l. l @ [newline]) (config_lines cfg)) config_defaults =
    (if wide then Inl BufferOverflow else Inr (cfg\<lparr>cf_disks := []\<rparr>))"
proof -
  note L = config_line_others config_line_version config_line_cache config_line_pool config_line_letter config_line_bools
    config_line_theme config_line_language
  show ?thesis
    using assms unfolding config_ok_def config_lines_def
    by (cases wide; cases cfg) (simp_all add: config_read_append config_read_disks L config_defaults_def o_def del: append.simps)
qed

text \<open>
  C24. Loading the configuration that was just saved, on working files, gives back every field of
  it except the disks, which come back as none at all: for a C library that reads the mount letter
  and the language into plain characters, and for a configuration within its limits (numbers of
  their width, a mount letter and a language of 1 to 7 characters without a quote or a line end,
  the language not the word disks). With the reading of wide characters that Microsoft documents,
  the load of the same file writes past its variables.
\<close>

theorem config_save_then_load:
  assumes "sys_ok os (tick s)" "sys_ok os (tick (tick s))" "config_ok cfg"
  shows "\<exists>cfg' body s'. config_save os True cfg file s = (True, cfg', Some body, s') \<and>
    config_load os False True (Some body) s' = Inr (True, cfg\<lparr>cf_disks := []\<rparr>, tick s') \<and>
    config_load os True True (Some body) s' = Inl BufferOverflow"
proof -
  let ?c = "cfg\<lparr>cf_disks := take MAX_DISKS (cf_disks cfg)\<rparr>"
  have ok: "config_ok ?c" using assms(3) by (auto simp: config_ok_def dest!: in_set_takeD)
  have r: "config_read wide (fgets_lines (concat (map (\<lambda>l. l @ [newline]) (config_lines ?c)))) config_defaults =
    (if wide then Inl BufferOverflow else Inr (cfg\<lparr>cf_disks := []\<rparr>))" for wide
    using config_lines_ok [OF ok] config_read_lines [OF ok] by (subst fgets_lines_of) auto
  show ?thesis
    by (intro exI [of _ ?c] exI [of _ "concat (map (\<lambda>l. l @ [newline]) (config_lines ?c))"] exI [of _ "tick (tick s)"])
      (use assms r in \<open>simp_all add: config_save_def config_load_def Let_def\<close>)
qed


text \<open>The configuration of a program with two disks.\<close>

definition sample_config :: APP_CONFIG where
  "sample_config = config_defaults\<lparr>cf_disks := [\<lparr>dc_disk_id = 0, dc_drive_letter = CHR ''D'', dc_pool_mb = 1024\<rparr>,
     \<lparr>dc_disk_id = 1, dc_drive_letter = CHR ''E'', dc_pool_mb = 2048\<rparr>], cf_language := ''de''\<rparr>"

lemma sample_config_ok: "config_ok sample_config"
  by (simp add: config_ok_def sample_config_def config_defaults_def quote_def newline_def const)

definition file_system :: sys where
  "file_system = \<lparr>w_clock = 0, w_media = (\<lambda>_ _. 0), w_files = Map.empty, s_heap = (\<lambda>_. zero_disk)\<rparr>"

theorem config_save_then_load_witness:
  "\<exists>cfg' body s'. config_save os_good True sample_config None file_system = (True, cfg', Some body, s') \<and>
    config_load os_good False True (Some body) s' = Inr (True, sample_config\<lparr>cf_disks := []\<rparr>, tick s') \<and>
    config_load os_good True True (Some body) s' = Inl BufferOverflow"
  by (rule config_save_then_load) (simp_all add: sample_config_ok all_good_os_good)

end
