(* ===== verification/BenchIo.thy ===== *)
theory BenchIo
  imports VolumeManager
begin

text \<open>
  The benchmarks of a volume, \<^verbatim>\<open>bench_volume\<close> and \<^verbatim>\<open>bench_raw_volume\<close> of \<^verbatim>\<open>src/src/bench_io.c\<close>: what they do
  to the volume and its disks. The speeds are printed and kept nowhere, so the clock is left out.
\<close>

section \<open>The loops\<close>

fun bench_writes :: "os \<Rightarrow> nat \<Rightarrow> nat \<Rightarrow> nat \<Rightarrow> STRIPE_VOLUME \<Rightarrow> sys \<Rightarrow> fault + bool \<times> STRIPE_VOLUME \<times> sys" where
  "bench_writes os block_size i 0 vol s = Inr (True, vol, s)"
| "bench_writes os block_size i (Suc n) vol s =
     and_then (stripe_volume_write os vol (\<lambda>_. 0xFF) (u64 (i * block_size)) block_size s) (\<lambda>(ok, vol1, _, s1).
       if \<not> ok then Inr (False, vol1, s1) else bench_writes os block_size (Suc i) n vol1 s1)"

fun bench_reads :: "os \<Rightarrow> nat \<Rightarrow> nat \<Rightarrow> nat \<Rightarrow> STRIPE_VOLUME \<Rightarrow> sys \<Rightarrow> fault + bool \<times> STRIPE_VOLUME \<times> sys" where
  "bench_reads os block_size i 0 vol s = Inr (True, vol, s)"
| "bench_reads os block_size i (Suc n) vol s =
     and_then (stripe_volume_read os vol (\<lambda>_. 0xFF) (u64 (i * block_size)) block_size s) (\<lambda>(ok, vol1, _, s1).
       if \<not> ok then Inr (False, vol1, s1) else bench_reads os block_size (Suc i) n vol1 s1)"

text \<open>The blocks of the size asked for, or of the volume when that is smaller.\<close>

definition bench_blocks :: "STRIPE_VOLUME \<Rightarrow> nat \<Rightarrow> nat \<Rightarrow> nat" where
  "bench_blocks vol size_mb block_size =
     (let size_bytes = u64 (size_mb * 1024 * 1024)
      in u32 ((if v_virtual_total_bytes vol < size_bytes then v_virtual_total_bytes vol else size_bytes) div block_size))"

section \<open>The benchmarks\<close>

definition bench_volume :: "os \<Rightarrow> nat \<Rightarrow> STRIPE_VOLUME \<Rightarrow> nat \<Rightarrow> nat \<Rightarrow> sys \<Rightarrow> fault + bool \<times> STRIPE_VOLUME \<times> sys" where
  "bench_volume os now vol size_mb block_kb s =
     (let block_size = u32 (block_kb * 1024)
      in if block_size = 0 then Inl DivByZero
         else let blocks = bench_blocks vol size_mb block_size
           in if \<not> sys_ok os s then Inr (False, vol, tick s)
              else and_then (bench_writes os block_size 0 blocks vol (tick s)) (\<lambda>(ok, vol1, s1).
                and_then (if ok \<and> v_cache_enabled vol1 \<and> c_write_through (v_cache vol1) = 0
                          then cache_flush_all os now vol1 s1 else Inr (vol1, s1)) (\<lambda>(vol2, s2).
                  bench_reads os block_size 0 blocks vol2 s2)))"

text \<open>The cache is switched off for the writes. A failed write does not stop the reads, but is the result.\<close>

definition bench_raw_volume :: "os \<Rightarrow> nat \<Rightarrow> STRIPE_VOLUME \<Rightarrow> nat \<Rightarrow> nat \<Rightarrow> sys \<Rightarrow> fault + bool \<times> STRIPE_VOLUME \<times> sys" where
  "bench_raw_volume os now vol size_mb block_kb s =
     (let block_size = u32 (block_kb * 1024); flush = (\<lambda>vol s. if v_cache_enabled vol then cache_flush_all os now vol s else Inr (vol, s))
      in if block_size = 0 then Inl DivByZero
         else let blocks = bench_blocks vol size_mb block_size
           in and_then (flush vol s) (\<lambda>(vol1, s1).
                if \<not> sys_ok os s1 then Inr (False, vol1, tick s1)
                else and_then (bench_writes os block_size 0 blocks (vol1\<lparr>v_cache_enabled := False\<rparr>) (tick s1)) (\<lambda>(wrote, vol2, s2).
                  and_then (flush (vol2\<lparr>v_cache_enabled := v_cache_enabled vol1\<rparr>) s2) (\<lambda>(vol3, s3).
                    and_then (bench_reads os block_size 0 blocks vol3 s3) (\<lambda>(read, vol4, s4).
                      Inr (wrote \<and> read, vol4, s4))))))"

end
