(* ===== verification/ServiceState.thy ===== *)
theory ServiceState
  imports Config BenchIo
begin

text \<open>
  The state of the running program, \<^verbatim>\<open>APP_STATE\<close> of \<^verbatim>\<open>src/src/cmd_handler.h\<close> with what other files keep in
  variables of their own, and \<^verbatim>\<open>src/src/cleanup.c\<close>. The service's calls run one at a time under the lock
  of \<^verbatim>\<open>gs_lock\<close>; a call is a function on the state.

  \<open>as_disks\<close> is the used part of the array \<^verbatim>\<open>disk.disks\<close>, so that its length is \<^verbatim>\<open>disk.disk_count\<close>.
  \<open>as_loaded_disks\<close> are the addresses of \<^verbatim>\<open>disk.loaded_disks\<close>, \<open>sv_devices\<close> is the list of
  \<^verbatim>\<open>device_manager.c\<close>. A record that was freed keeps its contents until \<^verbatim>\<open>malloc\<close> gives its address out
  again. Events are collected in the order they are published.
\<close>

section \<open>The state\<close>

record APP_STATE =
  as_disks :: "ptr list"
  as_pool_sizes_mb :: "nat list"
  as_physical_disks :: "ptr list"
  as_loaded_disks :: "ptr list"
  as_volume :: STRIPE_VOLUME
  as_volume_valid :: bool
  as_cache_on :: bool
  as_cache_mb :: nat
  as_flush_thread :: bool
  as_state :: RAID_STATE
  as_mounted :: bool
  as_appdata_path :: string
  as_config :: APP_CONFIG

record service = APP_STATE +
  sv_devices :: "ptr list"
  sv_ctx :: MOUNT_CTX
  sv_events :: events
  sv_config_file :: "string option"
  sv_sys :: sys

text \<open>
  What a call finds outside: the outcomes of its system calls, the clock, the addresses \<^verbatim>\<open>malloc\<close> gives,
  the drives there are and their speeds, the drives that are fixed, random numbers, the variable
  \<open>APPDATA\<close>, how the C library reads \<open>%c\<close>, and the lines the user types.
\<close>

record surroundings =
  in_os :: os
  in_env :: env
  in_new :: "nat \<Rightarrow> ptr"
  in_reports :: "drive_report list option"
  in_passes :: "ptr \<Rightarrow> nat \<Rightarrow> nat \<times> nat"
  in_fixed :: "char \<Rightarrow> bool"
  in_rnd :: "nat \<Rightarrow> nat"
  in_appdata :: string
  in_wide :: bool
  in_lines :: "string list"

type_synonym reply = "fault + RC \<times> service"

text \<open>A call on the volume comes back with the volume, the system and what was published.\<close>

definition put :: "STRIPE_VOLUME \<Rightarrow> sys \<Rightarrow> events \<Rightarrow> service \<Rightarrow> service" where
  "put vol s evs st = st\<lparr>as_volume := vol, sv_sys := s, sv_events := sv_events st @ evs\<rparr>"

section \<open>Cleaning up\<close>

definition cleanup_cache :: "surroundings \<Rightarrow> service \<Rightarrow> fault + service" where
  "cleanup_cache inp st =
     (if \<not> as_cache_on st then Inr st
      else and_then (cleanup_volume_cache (in_os inp) (in_env inp) (as_volume st) (sv_sys st)) (\<lambda>(vol, s).
        Inr (st\<lparr>as_volume := vol, sv_sys := s, as_flush_thread := False, as_cache_on := False\<rparr>)))"

definition cleanup_volume :: "service \<Rightarrow> fault + service" where
  "cleanup_volume st =
     (let st1 = (if as_mounted st then st\<lparr>sv_ctx := snd (fuse_unmount_volume (sv_ctx st)), as_mounted := False\<rparr> else st)
      in if \<not> as_volume_valid st1 then Inr st1
         else and_then (stripe_volume_destroy (as_volume st1) (sv_sys st1)) (\<lambda>(vol, s).
           Inr (st1\<lparr>as_volume := vol, sv_sys := s, as_volume_valid := False\<rparr>)))"

definition cleanup_pool_files :: "surroundings \<Rightarrow> service \<Rightarrow> service" where
  "cleanup_pool_files inp st =
     st\<lparr>sv_sys := foldl (\<lambda>s d. snd (pool_dir_delete (in_os inp) d (snd (pool_file_delete (in_os inp) d (pool_file_close d s)))))
                   (sv_sys st) (as_disks st),
        as_disks := []\<rparr>"

definition cleanup_session :: "surroundings \<Rightarrow> service \<Rightarrow> fault + service" where
  "cleanup_session inp st = and_then (cleanup_cache inp st) cleanup_volume"

text \<open>The superblocks go too, and the directories, which go only when they are empty.\<close>

definition cleanup_pool_session :: "surroundings \<Rightarrow> service \<Rightarrow> service" where
  "cleanup_pool_session inp st =
     (let st1 = cleanup_pool_files inp st
      in st1\<lparr>sv_sys := foldl (\<lambda>s d. tick (delete_file (in_os inp) (sb_path (drive_char (s_heap s d))) s))
                         (sv_sys st1) (as_disks st)\<rparr>)"

definition cleanup_disks :: "service \<Rightarrow> service" where
  "cleanup_disks st = st\<lparr>as_physical_disks := []\<rparr>"

text \<open>The directory of the configuration goes when it is empty; that is a call.\<close>

definition cleanup_all :: "surroundings \<Rightarrow> service \<Rightarrow> fault + service" where
  "cleanup_all inp st =
     and_then (cleanup_session inp st) (\<lambda>st1.
       let st2 = cleanup_pool_session inp st1
       in Inr (cleanup_disks (st2\<lparr>sv_sys := tick (sv_sys st2)\<rparr>)))"

section \<open>The log of events\<close>

text \<open>
  \<open>stamp\<close> is the printed local time. \<open>events.log\<close> is appended to; a file of more than 512 KB is to be
  trimmed. \<^verbatim>\<open>SetFilePointer\<close> with a pointer for the high half takes the distance as one number of 64
  bits, of which the given halves are \<open>-256 * 1024\<close>, unsigned, and 0.
\<close>

definition LOG_LIMIT :: nat where [const]: "LOG_LIMIT = 512 * 1024"
definition TRIM_DISTANCE :: nat where [const]: "TRIM_DISTANCE = 2 ^ 32 - 256 * 1024"

definition event_line :: "string \<Rightarrow> nat \<Rightarrow> string \<Rightarrow> string" where
  "event_line stamp type data = ''['' @ stamp @ ''] '' @ event_type_str type @ (if data = [] then [] else '': '' @ data) @ [newline]"

definition event_log_path :: "string \<Rightarrow> string" where
  "event_log_path appdata = appdata @ [CHR 0x5C] @ ''events.log''"

definition event_log_callback :: "os \<Rightarrow> string \<Rightarrow> string \<Rightarrow> nat \<Rightarrow> string \<Rightarrow> 'a world_scheme \<Rightarrow> fault + 'a world_scheme" where
  "event_log_callback os appdata stamp type data w =
     (if appdata = [] then Inr w
      else
        let p = event_log_path appdata; line = event_line stamp type data; w1 = tick w;
            old = (case w_files w p of None \<Rightarrow> [] | Some b \<Rightarrow> b)
        in if \<not> sys_ok os w then Inr w1
           else if 4096 \<le> length line then Inl OutOfBounds
           else
             let k = moved os w1 (length line);
                 new = old @ take k (map of_char line);
                 w2 = (tick w1)\<lparr>w_files := (w_files w1)(p := Some new)\<rparr>
             in if \<not> sys_ok os w1 \<or> k \<noteq> length line then Inr w2
                else if u32 (length new) \<le> LOG_LIMIT then Inr w2
                else if \<not> sys_ok os w2 then Inr (tick w2)
                else if \<not> sys_ok os (tick w2) \<or> u32 (length new + TRIM_DISTANCE) = 2 ^ 32 - 1 then Inr (tick (tick w2))
                else Inr ((tick (tick w2))\<lparr>w_files := (w_files w2)(p := Some (new @ replicate TRIM_DISTANCE 0))\<rparr>))"

text \<open>The \<open>distance\<close> is never negative: a log that is too long gets zeros behind its end, almost 4 GB of them.\<close>

theorem log_trim_grows_the_file:
  assumes good: "all_good os" and line: "line = event_line stamp type data" "length line < 4096"
    and app: "appdata \<noteq> []" and old: "w_files w (event_log_path appdata) = Some old"
    and big: "LOG_LIMIT < length old + length line" "length old + length line < 2 ^ 32"
  shows "\<exists>w'. event_log_callback os appdata stamp type data w = Inr w' \<and>
    w_files w' (event_log_path appdata) = Some (old @ map of_char line @ replicate TRIM_DISTANCE 0)"
proof -
  let ?p = "event_log_path appdata"
  let ?new = "old @ map of_char line"
  have n: "length ?new = length old + length line" by simp
  have l: "length line \<le> 2 ^ 64" using line(2) by simp
  have u: "u32 (length ?new) = length ?new" using big(2) by (intro u32_id) simp
  have t: "u32 (length ?new + TRIM_DISTANCE) \<noteq> 2 ^ 32 - 1"
  proof -
    have "length ?new + TRIM_DISTANCE = (length ?new - 256 * 1024) + 2 ^ 32" using big(1) n by (simp add: const)
    then have "u32 (length ?new + TRIM_DISTANCE) = (length ?new - 256 * 1024) mod 2 ^ 32" by (simp add: u32_def)
    also have "\<dots> \<le> length ?new - 256 * 1024" by (rule mod_less_eq_dividend)
    also have "\<dots> < 2 ^ 32 - 1" using big n by (simp add: const)
    finally show ?thesis by simp
  qed
  have b: "\<not> u32 (length ?new) \<le> LOG_LIMIT" using big(1) u n by simp
  show ?thesis
    using good app line(2) old l b t unfolding line(1) [symmetric] event_log_callback_def
    by (simp add: Let_def line(1) [symmetric] tick_def)
qed

text \<open>A machine with nothing on it.\<close>

definition empty_machine :: sys where
  "empty_machine = \<lparr>w_clock = 0, w_media = (\<lambda>_ _. 0), w_files = Map.empty, s_heap = (\<lambda>_. zero_disk)\<rparr>"

theorem log_trim_grows_the_file_witness:
  "\<exists>w' old. length old = 2 ^ 19 \<and>
     event_log_callback os_good ''C:'' ''2024'' 13 [] (empty_machine\<lparr>w_files := [event_log_path ''C:'' \<mapsto> old]\<rparr>) = Inr w' \<and>
     w_files w' (event_log_path ''C:'') = Some (old @ map of_char (event_line ''2024'' 13 []) @ replicate TRIM_DISTANCE 0)"
proof -
  define old :: "byte list" where "old = replicate (2 ^ 19) 0"
  have l: "0 < length (event_line ''2024'' 13 [])" "length (event_line ''2024'' 13 []) < 4096"
    by (simp_all add: event_line_def event_type_str_def const)
  have o: "length old = 2 ^ 19" by (simp only: old_def length_replicate)
  let ?w = "empty_machine\<lparr>w_files := [event_log_path ''C:'' \<mapsto> old]\<rparr>"
  have "w_files ?w (event_log_path ''C:'') = Some old" by simp
  from log_trim_grows_the_file [OF all_good_os_good refl l(2) _ this] l o show ?thesis by (auto simp: const)
qed


end
