(* ===== verification/Service.thy ===== *)
theory Service
  imports ServiceState
begin

text \<open>
  The service, \<^verbatim>\<open>src/src/raid_service.c\<close>: one function for each call, with its guards in the order of the
  code. A call returns its code and the new state, also when it is refused. What is only printed is
  left out.
\<close>

section \<open>Guards and scanning\<close>

definition require :: "RAID_STATE \<Rightarrow> service \<Rightarrow> RC" where
  "require s st = (if as_state st \<noteq> s then RC_ERR_INVALID_STATE else RC_OK)"

definition raid_scan_locked :: "surroundings \<Rightarrow> service \<Rightarrow> reply" where
  "raid_scan_locked inp st =
     and_then (device_refresh (in_os inp) (in_new inp) (in_reports inp) (sv_sys st)) (\<lambda>(ok, devs, s, evs).
       let st1 = st\<lparr>as_state := STATE_DISCONNECTED, sv_devices := devs, sv_sys := s, sv_events := sv_events st @ evs\<rparr>
       in if \<not> ok then Inr (RC_ERR_NOT_FOUND, st1)
          else Inr (RC_OK, st1\<lparr>as_state := STATE_DISCOVERED,
            sv_sys := foldl (\<lambda>s p. if d_drive_letter (s_heap s p) = [] then s
                               else snd (bench_single_disk (in_os inp) (in_passes inp p) p s)) s devs\<rparr>))"

text \<open>The first four identifiers; the rest is not looked at.\<close>

fun parse_ids :: "nat \<Rightarrow> string list \<Rightarrow> RC + nat list" where
  "parse_ids n [] = Inr []"
| "parse_ids n (a # as) = (case safe_atou32 a of
     None \<Rightarrow> Inl RC_ERR_INVALID_ARG
   | Some i \<Rightarrow> if n \<le> i then Inl RC_ERR_INVALID_DISK
               else (case parse_ids n as of Inl rc \<Rightarrow> Inl rc | Inr is \<Rightarrow> Inr (i # is)))"

definition raid_select :: "string list \<Rightarrow> service \<Rightarrow> reply" where
  "raid_select argv st =
     (if require STATE_DISCOVERED st \<noteq> RC_OK then Inr (require STATE_DISCOVERED st, st)
      else if argv = [] then Inr (RC_ERR_INVALID_ARG, st)
      else case parse_ids (length (sv_devices st)) (take MAX_DISKS argv) of
        Inl rc \<Rightarrow> Inr (rc, st)
      | Inr ids \<Rightarrow> Inr (RC_OK, st\<lparr>sv_sys := snd (disk_select (sv_devices st) ids (length argv) (sv_sys st))\<rparr>))"

definition raid_mapdrive :: "nat \<Rightarrow> string \<Rightarrow> service \<Rightarrow> reply" where
  "raid_mapdrive disk_id letter st =
     (if require STATE_DISCOVERED st \<noteq> RC_OK then Inr (require STATE_DISCOVERED st, st)
      else if sv_devices st = [] then Inr (RC_ERR_INVALID_STATE, st)
      else and_then (device_map_drive (sv_devices st) disk_id letter (sv_sys st)) (\<lambda>(ok, s).
        Inr (if ok then RC_OK else RC_ERR_INVALID_DISK, st\<lparr>sv_sys := s\<rparr>)))"

definition raid_bench :: "surroundings \<Rightarrow> string list \<Rightarrow> service \<Rightarrow> reply" where
  "raid_bench inp argv st =
     (if require STATE_DISCOVERED st \<noteq> RC_OK then Inr (require STATE_DISCOVERED st, st)
      else if argv \<noteq> [] \<and> safe_atou32 (hd argv) = None then Inr (RC_ERR_INVALID_ARG, st)
      else Inr (RC_OK, st\<lparr>sv_sys := device_bench_all_selected (in_os inp) (in_passes inp) (sv_devices st) (sv_sys st)\<rparr>))"

section \<open>Making pool files\<close>

text \<open>Pairs of a disk's number and the size of its pool in MB, four at most.\<close>

type_synonym POOL_PAIRS = "(nat \<times> nat) list"

definition ensure_drive_mapped :: "ptr list \<Rightarrow> nat \<Rightarrow> sys \<Rightarrow> fault + RC \<times> sys" where
  "ensure_drive_mapped devs di s = (case device_get devs di of
     None \<Rightarrow> Inr (RC_ERR_INVALID_DISK, s)
   | Some d \<Rightarrow>
       if d_file_path (s_heap s d) \<noteq> [] then Inr (RC_OK, s)
       else let c = drive_char (s_heap s d) in
         if 65 \<le> (of_char c :: nat) \<and> (of_char c :: nat) \<le> 90
         then and_then (device_map_drive devs di [c] s) (\<lambda>(_, s1). Inr (RC_OK, s1))
         else Inr (RC_ERR_INVALID_DISK, s))"

fun init_pools_from_pairs :: "ptr list \<Rightarrow> string list \<Rightarrow> POOL_PAIRS \<Rightarrow> sys \<Rightarrow> fault + RC \<times> POOL_PAIRS \<times> sys" where
  "init_pools_from_pairs devs [] pp s = Inr (RC_OK, pp, s)"
| "init_pools_from_pairs devs (a # as) pp s =
     (if MAX_DISKS \<le> length pp then Inr (RC_OK, pp, s)
      else case dropWhile (\<lambda>c. c \<noteq> CHR '':'') a of
        [] \<Rightarrow> Inr (RC_ERR_INVALID_ARG, pp, s)
      | _ # rest \<Rightarrow>
          (case safe_atou32 (takeWhile (\<lambda>c. c \<noteq> CHR '':'') a) of
             None \<Rightarrow> Inr (RC_ERR_INVALID_ARG, pp, s)
           | Some di \<Rightarrow>
               (case safe_atou64 rest of
                  None \<Rightarrow> Inr (RC_ERR_INVALID_ARG, pp, s)
                | Some mb \<Rightarrow>
                    if mb = 0 then Inr (RC_ERR_INVALID_ARG, pp, s)
                    else if length devs \<le> di then Inr (RC_ERR_INVALID_DISK, pp, s)
                    else if mb < 1024 then Inr (RC_ERR_INVALID_ARG, pp, s)
                    else and_then (ensure_drive_mapped devs di s) (\<lambda>(rc, s1).
                      if rc \<noteq> RC_OK then Inr (rc, pp, s1)
                      else init_pools_from_pairs devs as (pp @ [(di, mb)]) s1))))"

text \<open>The numbers of the selected disks go to an array of four that has no check.\<close>

definition selected_indices :: "ptr list \<Rightarrow> sys \<Rightarrow> fault + nat list" where
  "selected_indices devs s =
     (let is = filter (device_is_selected devs s) [0 ..< length devs]
      in if MAX_DISKS < length is then Inl BufferOverflow else Inr is)"

text \<open>The loops that map the drives and fill in the sizes; whether a drive could be mapped is not looked at.\<close>

fun map_and_size :: "ptr list \<Rightarrow> (nat \<Rightarrow> nat) \<Rightarrow> nat \<Rightarrow> nat list \<Rightarrow> POOL_PAIRS \<Rightarrow> sys \<Rightarrow> fault + RC \<times> POOL_PAIRS \<times> sys" where
  "map_and_size devs mb_of i [] pp s = Inr (RC_OK, pp, s)"
| "map_and_size devs mb_of i (di # is) pp s =
     (if MAX_DISKS \<le> length pp then Inr (RC_OK, pp, s)
      else if device_get devs di = None then Inr (RC_ERR_INVALID_DISK, pp, s)
      else and_then (ensure_drive_mapped devs di s) (\<lambda>(_, s1).
        map_and_size devs mb_of (Suc i) is (pp @ [(di, mb_of i)]) s1))"

definition init_pools_all_selected_with_size :: "ptr list \<Rightarrow> nat \<Rightarrow> sys \<Rightarrow> fault + RC \<times> POOL_PAIRS \<times> sys" where
  "init_pools_all_selected_with_size devs size_mb s =
     and_then (selected_indices devs s) (\<lambda>is.
       if length is < MIN_DISKS then Inr (RC_ERR_INVALID_ARG, [], s)
       else map_and_size devs (\<lambda>_. if size_mb < 1024 then 1024 else size_mb) 0 is [] s)"

text \<open>The size used for the \<open>i\<close>-th pool before, or the default.\<close>

definition earlier_size :: "service \<Rightarrow> nat \<Rightarrow> nat" where
  "earlier_size st i =
     (if i < length (as_disks st) \<and> 0 < as_pool_sizes_mb st ! i then as_pool_sizes_mb st ! i else POOL_SIZE_DEFAULT_MB)"

definition init_pools_from_ids :: "string list \<Rightarrow> service \<Rightarrow> fault + RC \<times> POOL_PAIRS \<times> sys" where
  "init_pools_from_ids argv st =
     (case parse_ids (length (sv_devices st)) (take MAX_DISKS argv) of
        Inl rc \<Rightarrow> Inr (rc, [], sv_sys st)
      | Inr ids \<Rightarrow>
          map_and_size (sv_devices st) (\<lambda>i. if earlier_size st i < 1024 then 1024 else earlier_size st i) 0 ids []
            (snd (disk_select (sv_devices st) ids (length argv) (sv_sys st))))"

definition init_pools_from_selected :: "service \<Rightarrow> fault + RC \<times> POOL_PAIRS \<times> sys" where
  "init_pools_from_selected st =
     and_then (selected_indices (sv_devices st) (sv_sys st)) (\<lambda>is.
       if length is < MIN_DISKS then Inr (RC_ERR_INVALID_ARG, [], sv_sys st)
       else map_and_size (sv_devices st) (earlier_size st) 0 is [] (sv_sys st))"

text \<open>A disk without a drive letter is passed over; a pool that cannot be made undoes those made before it.\<close>

fun init_pools_create_files :: "surroundings \<Rightarrow> POOL_PAIRS \<Rightarrow> service \<Rightarrow> RC \<times> service" where
  "init_pools_create_files inp [] st = (RC_OK, st)"
| "init_pools_create_files inp ((di, mb) # pp) st =
     (case device_get (sv_devices st) di of
        None \<Rightarrow> (RC_ERR_INVALID_DISK, st)
      | Some d \<Rightarrow>
          if d_drive_letter (s_heap (sv_sys st) d) = [] then init_pools_create_files inp pp st
          else case volume_create_pool_file (in_os inp) d mb (sv_sys st) of
            (False, s) \<Rightarrow>
              (RC_ERR_ROLLBACK,
               st\<lparr>sv_sys := foldl (\<lambda>s p. volume_delete_pool_file (in_os inp) p (volume_close_pool_file p s)) s (as_disks st),
                  as_disks := []\<rparr>)
          | (True, s) \<Rightarrow>
              init_pools_create_files inp pp
                (st\<lparr>sv_sys := s, as_pool_sizes_mb := (as_pool_sizes_mb st)[length (as_disks st) := mb], as_disks := as_disks st @ [d]\<rparr>))"

definition gather_pools :: "string list \<Rightarrow> service \<Rightarrow> fault + RC \<times> POOL_PAIRS \<times> sys" where
  "gather_pools argv st =
     (if list_ex (\<lambda>a. CHR '':'' \<in> set a) argv then init_pools_from_pairs (sv_devices st) argv [] (sv_sys st)
      else if length argv = 1 then
        (let first_id = (case safe_atou32 (hd argv) of Some i \<Rightarrow> i | None \<Rightarrow> 2 ^ 32 - 1)
         in if length (sv_devices st) \<le> first_id then
              (case safe_atou64 (hd argv) of
                 None \<Rightarrow> Inr (RC_ERR_INVALID_ARG, [], sv_sys st)
               | Some mb \<Rightarrow> init_pools_all_selected_with_size (sv_devices st) mb (sv_sys st))
            else init_pools_from_ids argv st)
      else if 1 < length argv then init_pools_from_ids argv st
      else init_pools_from_selected st)"

definition raid_init_pools_locked :: "surroundings \<Rightarrow> string list \<Rightarrow> service \<Rightarrow> reply" where
  "raid_init_pools_locked inp argv st =
     (if as_state st \<noteq> STATE_DISCOVERED \<and> as_state st \<noteq> STATE_UNMOUNTED then Inr (RC_ERR_INVALID_STATE, st)
      else if sv_devices st = [] then Inr (RC_ERR_INVALID_STATE, st)
      else
        let st1 = (if as_state st = STATE_UNMOUNTED then cleanup_pool_session inp st else st)
        in and_then (gather_pools argv st1) (\<lambda>(rc, pp, s).
          if rc \<noteq> RC_OK then Inr (rc, st1\<lparr>sv_sys := s\<rparr>)
          else if length pp < MIN_DISKS \<or> MAX_DISKS < length pp then Inr (RC_ERR_INVALID_ARG, st1\<lparr>sv_sys := s\<rparr>)
          else case init_pools_create_files inp pp (st1\<lparr>sv_sys := s, as_disks := []\<rparr>) of (rc, st2) \<Rightarrow>
            if rc \<noteq> RC_OK then Inr (rc, st2)
            else if MIN_DISKS \<le> length (as_disks st2) then Inr (RC_OK, st2\<lparr>as_state := STATE_INITIALIZED\<rparr>)
            else Inr (RC_ERR_IO, st2)))"

section \<open>Creating, expanding, rebuilding\<close>

definition raid_create_locked :: "surroundings \<Rightarrow> service \<Rightarrow> reply" where
  "raid_create_locked inp st =
     (if require STATE_INITIALIZED st \<noteq> RC_OK then Inr (require STATE_INITIALIZED st, st)
      else if length (as_disks st) < MIN_DISKS then Inr (RC_ERR_INVALID_STATE, st)
      else and_then (volume_create (in_os inp) (in_env inp) (as_volume st) (as_disks st) (sv_sys st)) (\<lambda>(ok, vol, s, evs).
        if \<not> ok then Inr (RC_ERR_IO, put vol s evs st)
        else Inr (RC_OK, (put vol s evs st)\<lparr>as_volume_valid := True, as_state := STATE_MOUNTED, as_cache_on := False,
               as_flush_thread := False\<rparr>)))"

definition raid_mirror :: "surroundings \<Rightarrow> service \<Rightarrow> reply" where
  "raid_mirror inp st =
     (if require STATE_INITIALIZED st \<noteq> RC_OK then Inr (require STATE_INITIALIZED st, st)
      else if length (as_disks st) < MIN_MIRROR_DISKS then Inr (RC_ERR_INVALID_STATE, st)
      else and_then (volume_mirror (in_os inp) (in_env inp) (as_volume st) (as_disks st) (sv_sys st)) (\<lambda>(ok, vol, s, evs).
        if \<not> ok then Inr (RC_ERR_IO, put vol s evs st)
        else Inr (RC_OK, (put vol s evs st)\<lparr>as_volume_valid := True, as_state := STATE_MOUNTED, as_cache_on := False,
               as_flush_thread := False\<rparr>)))"

definition raid_expand :: "surroundings \<Rightarrow> string list \<Rightarrow> service \<Rightarrow> reply" where
  "raid_expand inp argv st =
     (if require STATE_MOUNTED st \<noteq> RC_OK then Inr (require STATE_MOUNTED st, st)
      else and_then (volume_expand (in_os inp) (in_env inp) (as_physical_disks st) argv (as_volume st) (sv_sys st)) (\<lambda>(ok, vol, s, evs).
        Inr (if ok then RC_OK else RC_ERR_IO, put vol s evs st)))"

definition raid_rebuild :: "surroundings \<Rightarrow> string list \<Rightarrow> service \<Rightarrow> reply" where
  "raid_rebuild inp argv st =
     (if as_state st \<noteq> STATE_MOUNTED \<and> as_state st \<noteq> STATE_DEGRADED then Inr (RC_ERR_INVALID_STATE, st)
      else case argv of
        a # b # extra \<Rightarrow>
          (case (safe_atou32 a, safe_atou32 b, case extra of [] \<Rightarrow> Some 1024 | c # _ \<Rightarrow> safe_atou64 c) of
             (Some replace_idx, Some new_disk_id, Some mb) \<Rightarrow>
               and_then (volume_rebuild (in_os inp) (in_env inp) (as_physical_disks st) replace_idx new_disk_id
                   (if mb < 1024 then 1024 else mb) (as_volume st) (sv_sys st)) (\<lambda>(ok, vol, s, evs).
                 Inr (if ok then RC_OK else RC_ERR_IO, put vol s evs st))
           | _ \<Rightarrow> Inr (RC_ERR_INVALID_ARG, st))
      | _ \<Rightarrow> Inr (RC_ERR_INVALID_ARG, st))"

section \<open>Mounting, loading, destroying\<close>

definition raid_mount_locked :: "surroundings \<Rightarrow> char \<Rightarrow> service \<Rightarrow> reply" where
  "raid_mount_locked inp letter st =
     (if require STATE_MOUNTED st \<noteq> RC_OK then Inr (require STATE_MOUNTED st, st)
      else if \<not> as_volume_valid st then Inr (RC_ERR_INVALID_STATE, st)
      else if as_mounted st then Inr (RC_ERR_ALREADY, st)
      else case volume_mount (in_os inp) letter (sv_ctx st) (as_volume st) (sv_sys st) of (ok, ctx, vol, s, evs) \<Rightarrow>
        if \<not> ok then Inr (RC_ERR_MOUNT, (put vol s evs st)\<lparr>sv_ctx := ctx\<rparr>)
        else Inr (RC_OK, (put vol s evs st)\<lparr>sv_ctx := ctx, as_mounted := True\<rparr>))"

definition raid_unmount :: "surroundings \<Rightarrow> service \<Rightarrow> reply" where
  "raid_unmount inp st =
     (if require STATE_MOUNTED st \<noteq> RC_OK then Inr (require STATE_MOUNTED st, st)
      else and_then (volume_unmount (in_os inp) (in_env inp) (as_flush_thread st) (as_mounted st) (sv_ctx st) (as_volume st) (sv_sys st))
        (\<lambda>(ctx, vol, s, evs).
          Inr (RC_OK, (put vol s evs st)\<lparr>sv_ctx := ctx, as_flush_thread := False, as_mounted := False, as_cache_on := False,
            as_state := STATE_UNMOUNTED, as_volume_valid := False\<rparr>)))"

text \<open>The root is given by its letter, \<open>C\<close> when none is. \<^verbatim>\<open>disk_count\<close> becomes the number of disks loaded.\<close>

definition raid_load :: "surroundings \<Rightarrow> char option \<Rightarrow> service \<Rightarrow> reply" where
  "raid_load inp root st =
     (if as_state st \<noteq> STATE_UNMOUNTED \<and> as_state st \<noteq> STATE_DISCOVERED then Inr (RC_ERR_INVALID_STATE, st)
      else and_then (volume_load (in_os inp) (in_env inp) (in_fixed inp) (Some (case root of None \<Rightarrow> CHR ''C'' | Some c \<Rightarrow> c))
          (map Some (as_physical_disks st)) (as_volume st) (as_loaded_disks st) (sv_sys st)) (\<lambda>(ok, vol, s, evs).
        if \<not> ok then Inr (RC_ERR_METADATA, put vol s evs st)
        else Inr (RC_OK, (put vol s evs st)\<lparr>as_disks := take (v_disk_count vol) (as_loaded_disks st), as_volume_valid := True,
               as_state := STATE_MOUNTED\<rparr>)))"

definition raid_destroy :: "surroundings \<Rightarrow> service \<Rightarrow> reply" where
  "raid_destroy inp st =
     (if as_state st \<noteq> STATE_MOUNTED \<and> as_state st \<noteq> STATE_UNMOUNTED then Inr (RC_ERR_INVALID_STATE, st)
      else and_then (volume_destroy (in_os inp) (in_env inp) (as_flush_thread st) (as_mounted st) (sv_ctx st) (as_volume st) (as_disks st)
          (sv_sys st)) (\<lambda>(ctx, vol, s, evs).
        Inr (RC_OK, (put vol s ((EVENT_VOLUME_DESTROYED, ''destroy'') # evs) st)\<lparr>sv_ctx := ctx, as_flush_thread := False,
          as_mounted := False, as_cache_on := False, as_state := STATE_DISCOVERED, as_volume_valid := False\<rparr>)))"

definition raid_purge :: "surroundings \<Rightarrow> service \<Rightarrow> reply" where
  "raid_purge inp st =
     (if as_state st \<noteq> STATE_INITIALIZED \<and> as_state st \<noteq> STATE_UNMOUNTED then Inr (RC_ERR_INVALID_STATE, st)
      else Inr (RC_OK, (cleanup_pool_session inp st)\<lparr>as_state := STATE_DISCOVERED, as_volume_valid := False,
        as_cache_on := False, as_mounted := False\<rparr>))"

definition raid_cleanup :: "surroundings \<Rightarrow> service \<Rightarrow> fault + service" where
  "raid_cleanup inp st = and_then (cleanup_all inp st) (\<lambda>st1.
     Inr (st1\<lparr>sv_devices := [], as_state := STATE_DISCONNECTED, as_volume_valid := False, as_cache_on := False, as_mounted := False\<rparr>))"

section \<open>The cache\<close>

definition raid_cache_locked :: "surroundings \<Rightarrow> string list \<Rightarrow> service \<Rightarrow> reply" where
  "raid_cache_locked inp argv st =
     (if require STATE_MOUNTED st \<noteq> RC_OK then Inr (require STATE_MOUNTED st, st)
      else if argv \<noteq> [] \<and> hd argv = ''wt'' then
        (if \<not> as_cache_on st then Inr (RC_ERR_INVALID_STATE, st)
         else let c = v_cache (as_volume st)
           in Inr (RC_OK, st\<lparr>as_volume := (as_volume st)\<lparr>v_cache := c\<lparr>c_write_through := (if c_write_through c = 0 then 1 else 0)\<rparr>\<rparr>\<rparr>))
      else if argv \<noteq> [] \<and> hd argv = ''off'' then
        (if \<not> as_cache_on st then Inr (RC_ERR_ALREADY, st)
         else and_then (cleanup_volume_cache (in_os inp) (in_env inp) (as_volume st) (sv_sys st)) (\<lambda>(vol, s).
           Inr (RC_OK, (put vol s [(EVENT_CACHE_CHANGED, ''off'')] st)\<lparr>as_flush_thread := False, as_cache_on := False\<rparr>)))
      else if as_cache_on st then Inr (RC_ERR_ALREADY, st)
      else case (case argv of [] \<Rightarrow> Some CACHE_DEFAULT_MB | a # _ \<Rightarrow> safe_atou32 a) of
        None \<Rightarrow> Inr (RC_ERR_INVALID_ARG, st)
      | Some mb0 \<Rightarrow>
          let size_mb = (if mb0 < 256 then 256 else mb0); vol = as_volume st
          in case cache_init (in_os inp) (v_cache vol) (u64 (size_mb * 1024 * 1024)) (sv_sys st) of
            (False, c, s) \<Rightarrow> Inr (RC_ERR_CACHE, st\<lparr>as_volume := vol\<lparr>v_cache := c\<rparr>, sv_sys := s\<rparr>)
          | (True, c, s) \<Rightarrow>
              let thread = sys_ok (in_os inp) s
              in Inr (RC_OK, (put (vol\<lparr>v_cache := c\<lparr>c_flush_thread := thread\<rparr>, v_cache_enabled := True\<rparr>) (tick s)
                       [(EVENT_CACHE_CHANGED, ''on'')] st)\<lparr>as_cache_on := True, as_cache_mb := size_mb, as_flush_thread := thread\<rparr>))"

section \<open>Tests and benchmarks of the volume\<close>

definition raid_test :: "surroundings \<Rightarrow> service \<Rightarrow> reply" where
  "raid_test inp st =
     (if require STATE_MOUNTED st \<noteq> RC_OK then Inr (require STATE_MOUNTED st, st)
      else and_then (stripe_volume_verify_io (in_os inp) (as_volume st) (sv_sys st)) (\<lambda>(_, vol, s). Inr (RC_OK, put vol s [] st)))"

text \<open>\<^verbatim>\<open>atol\<close>, with the value held to the range of \<^verbatim>\<open>long\<close>, and the cast to \<^verbatim>\<open>uint32_t\<close>.\<close>

definition atol_u32 :: "string \<Rightarrow> nat" where
  "atol_u32 a =
     (let s1 = dropWhile is_space a;
          neg = (case s1 of c # _ \<Rightarrow> c = CHR ''-'' | [] \<Rightarrow> False);
          s2 = (case s1 of c # r \<Rightarrow> if c = CHR ''-'' \<or> c = CHR ''+'' then r else s1 | [] \<Rightarrow> []);
          n = dec_value (takeWhile is_digit s2)
      in if neg then sub32 0 (min n (2 ^ 31)) else min n (2 ^ 31 - 1))"

definition clamp :: "nat \<Rightarrow> nat \<Rightarrow> nat \<Rightarrow> nat" where
  "clamp lo hi n = (let m = (if n < lo then lo else n) in if hi < m then hi else m)"

definition raid_random :: "surroundings \<Rightarrow> string list \<Rightarrow> service \<Rightarrow> reply" where
  "raid_random inp argv st =
     (if require STATE_MOUNTED st \<noteq> RC_OK then Inr (require STATE_MOUNTED st, st)
      else
        let ops0 = (case argv of [] \<Rightarrow> 100 | a # _ \<Rightarrow> atol_u32 a);
            ops = (if ops0 < 1 then 1 else ops0);
            max_kb = clamp 4 1024 (case argv of _ # b # _ \<Rightarrow> atol_u32 b | _ \<Rightarrow> 64)
        in and_then (stripe_volume_random_test (in_os inp) (in_rnd inp) (as_volume st) ops max_kb (sv_sys st)) (\<lambda>(_, vol, s).
             Inr (RC_OK, put vol s [] st)))"

text \<open>The two sizes of a benchmark: in MB, and of a block in KB, which is at most the whole.\<close>

definition bench_sizes :: "string list \<Rightarrow> (nat \<times> nat) option" where
  "bench_sizes argv =
     (case (case argv of [] \<Rightarrow> Some 512 | a # _ \<Rightarrow> safe_atou32 a, case argv of _ # b # _ \<Rightarrow> safe_atou32 b | _ \<Rightarrow> Some 1024) of
        (Some mb0, Some kb0) \<Rightarrow>
          let mb = clamp 64 4096 mb0; kb = clamp 4 8192 kb0
          in Some (mb, if u32 (mb * 1024) < kb then u32 (mb * 1024) else kb)
      | _ \<Rightarrow> None)"

definition raid_benchfs :: "surroundings \<Rightarrow> string list \<Rightarrow> service \<Rightarrow> reply" where
  "raid_benchfs inp argv st =
     (if require STATE_MOUNTED st \<noteq> RC_OK then Inr (require STATE_MOUNTED st, st)
      else case bench_sizes argv of
        None \<Rightarrow> Inr (RC_ERR_INVALID_ARG, st)
      | Some (mb, kb) \<Rightarrow>
          and_then (bench_volume (in_os inp) (en_now (in_env inp)) (as_volume st) mb kb (sv_sys st)) (\<lambda>(_, vol, s).
            Inr (RC_OK, put vol s [] st)))"

definition raid_benchraw :: "surroundings \<Rightarrow> string list \<Rightarrow> service \<Rightarrow> reply" where
  "raid_benchraw inp argv st =
     (if require STATE_MOUNTED st \<noteq> RC_OK then Inr (require STATE_MOUNTED st, st)
      else case bench_sizes argv of
        None \<Rightarrow> Inr (RC_ERR_INVALID_ARG, st)
      | Some (mb, kb) \<Rightarrow>
          and_then (bench_raw_volume (in_os inp) (en_now (in_env inp)) (as_volume st) mb kb (sv_sys st)) (\<lambda>(_, vol, s).
            Inr (RC_OK, put vol s [] st)))"

section \<open>Simulated faults\<close>

text \<open>A healthy disk is dropped: \<^verbatim>\<open>InterlockedExchange\<close> and \<^verbatim>\<open>InterlockedDecrement\<close>.\<close>

definition drop_disk :: "ptr \<Rightarrow> service \<Rightarrow> service" where
  "drop_disk d st =
     (if d_healthy (s_heap (sv_sys st) d) = 1
      then st\<lparr>sv_sys := update_disk d (\<lambda>disk. disk\<lparr>d_healthy := 0, d_faulty := 1\<rparr>) (sv_sys st),
              as_volume := (as_volume st)\<lparr>v_healthy_count := v_healthy_count (as_volume st) - 1\<rparr>\<rparr>
      else st\<lparr>sv_sys := update_disk d (\<lambda>disk. disk\<lparr>d_healthy := 0\<rparr>) (sv_sys st)\<rparr>)"

text \<open>The comparison of \<^verbatim>\<open>healthy_count\<close> with \<^verbatim>\<open>disk_count\<close> is one of unsigned numbers.\<close>

definition raid_simulate :: "string list \<Rightarrow> service \<Rightarrow> reply" where
  "raid_simulate argv st =
     (if as_state st \<noteq> STATE_MOUNTED then Inr (RC_ERR_INVALID_STATE, st)
      else case argv of
        a # b # _ \<Rightarrow>
          (case safe_atou32 a of
             None \<Rightarrow> Inr (RC_ERR_INVALID_ARG, st)
           | Some idx \<Rightarrow>
               let vol = as_volume st; mode = (case b of [] \<Rightarrow> CHR 0x00 | c # _ \<Rightarrow> c)
               in if v_disk_count vol \<le> idx then Inr (RC_ERR_INVALID_ARG, st)
                  else if length (v_disks vol) \<le> idx then Inl OutOfBounds
                  else if mode \<notin> {CHR ''f'', CHR ''h'', CHR ''d''} then Inr (RC_ERR_INVALID_ARG, st)
                  else case v_disks vol ! idx of
                    None \<Rightarrow> Inl NullDeref
                  | Some d \<Rightarrow>
                      if mode = CHR ''f'' then
                        Inr (RC_OK, (drop_disk d st)\<lparr>as_state := STATE_DEGRADED,
                          sv_events := sv_events st @ [(EVENT_ERROR, ''simulate: disk failed'')]\<rparr>)
                      else if mode = CHR ''h'' then
                        let vol1 = vol\<lparr>v_healthy_count := v_healthy_count vol + 1\<rparr>
                        in Inr (RC_OK, st\<lparr>as_volume := vol1,
                             sv_sys := update_disk d (\<lambda>disk. disk\<lparr>d_healthy := 1, d_faulty := 0\<rparr>) (sv_sys st),
                             as_state := (if int (v_disk_count vol) \<le> v_healthy_count vol1 mod 2 ^ 32 then STATE_MOUNTED else as_state st)\<rparr>)
                      else
                        Inr (RC_OK, (drop_disk d (st\<lparr>sv_sys := volume_close_pool_file d (sv_sys st)\<rparr>))\<lparr>as_state := STATE_DEGRADED,
                          sv_events := sv_events st @ [(EVENT_ERROR, ''simulate: disk disconnected'')]\<rparr>))
      | _ \<Rightarrow> Inr (RC_ERR_INVALID_ARG, st))"

section \<open>The configuration\<close>

definition disk_config :: "service \<Rightarrow> nat \<Rightarrow> DISK_CONFIG" where
  "disk_config st i =
     (let d = s_heap (sv_sys st) (sv_devices st ! i)
      in \<lparr>dc_disk_id = i, dc_drive_letter = drive_char d, dc_pool_mb = u64 (d_pool_bytes d + (1024 * 1024 - 1)) div (1024 * 1024)\<rparr>)"

definition raid_config_save_locked :: "surroundings \<Rightarrow> service \<Rightarrow> reply" where
  "raid_config_save_locked inp st =
     (let is = take MAX_DISKS (filter (device_is_selected (sv_devices st) (sv_sys st)) [0 ..< length (sv_devices st)]);
          cfg = (as_config st)\<lparr>cf_disks := map (disk_config st) is, cf_cache_mb := as_cache_mb st,
                  cf_mount_letter := (case v_mount_point (as_volume st) of [] \<Rightarrow> CHR ''G'' | c # _ \<Rightarrow> if c = CHR 0x00 then CHR ''G'' else c),
                  cf_auto_bench := True\<rparr>
      in case config_save (in_os inp) (in_appdata inp \<noteq> []) cfg (sv_config_file st) (sv_sys st) of
           (_, cfg1, file, s) \<Rightarrow> Inr (RC_OK, st\<lparr>as_config := cfg1, sv_config_file := file, sv_sys := s\<rparr>))"

definition raid_config_load :: "surroundings \<Rightarrow> service \<Rightarrow> reply" where
  "raid_config_load inp st =
     and_then (config_load (in_os inp) (in_wide inp) (in_appdata inp \<noteq> []) (sv_config_file st) (sv_sys st)) (\<lambda>(_, cfg, s).
       Inr (RC_OK, st\<lparr>as_config := cfg, sv_sys := s\<rparr>))"

section \<open>Starting\<close>

text \<open>
  \<open>LOG_CB\<close> stands for \<open>event_log_callback\<close>. The bus is made once; \<^verbatim>\<open>cleanup_bench_dirs\<close> makes two calls for
  each fixed drive.
\<close>

definition LOG_CB :: nat where "LOG_CB = 1"

definition subscribe_log :: "event_bus \<Rightarrow> event_bus" where
  "subscribe_log b0 =
     foldl (\<lambda>b t. event_bus_subscribe (event_code t) (Some LOG_CB) 0 b) (event_bus_init b0)
       [EVENT_DISK_FOUND, EVENT_DISK_REMOVED, EVENT_DISK_BENCHED, EVENT_VOLUME_CREATED, EVENT_VOLUME_LOADED, EVENT_VOLUME_DESTROYED,
        EVENT_MOUNT, EVENT_UNMOUNT, EVENT_REBUILD, EVENT_EXPAND, EVENT_METADATA_UPDATED, EVENT_CACHE_CHANGED, EVENT_ERROR]"

definition cleanup_bench_dirs :: "(char \<Rightarrow> bool) \<Rightarrow> sys \<Rightarrow> sys" where
  "cleanup_bench_dirs fixed s =
     foldl (\<lambda>s c. if fixed c then tick (tick s) else s) s (map (\<lambda>i. char_of (65 + i :: nat)) [0 ..< 26])"

definition raid_init :: "surroundings \<Rightarrow> service \<Rightarrow> reply" where
  "raid_init inp st =
     and_then (config_load (in_os inp) (in_wide inp) (in_appdata inp \<noteq> []) (sv_config_file st) (sv_sys st)) (\<lambda>(_, cfg, s).
       Inr (RC_OK, st\<lparr>as_config := cfg, as_cache_mb := cf_cache_mb cfg, as_state := STATE_DISCONNECTED,
         sv_sys := cleanup_bench_dirs (in_fixed inp) s, as_appdata_path := in_appdata inp\<rparr>))"

section \<open>All in one\<close>

text \<open>\<^verbatim>\<open>strtok_s\<close> over blanks, tabs and line ends: the first \<open>n\<close> tokens.\<close>

definition is_blank :: "char \<Rightarrow> bool" where
  "is_blank c \<longleftrightarrow> c \<in> {CHR '' '', CHR 0x09, CHR 0x0D, CHR 0x0A}"

function tokens :: "string \<Rightarrow> string list" where
  "tokens s =
     (let s1 = dropWhile is_blank s
      in if s1 = [] then [] else takeWhile (\<lambda>c. \<not> is_blank c) s1 # tokens (dropWhile (\<lambda>c. \<not> is_blank c) s1))"
  by pat_completeness auto
termination
proof (relation "measure length")
  fix s s1 :: string
  assume s1: "s1 = dropWhile is_blank s" and n: "s1 \<noteq> []"
  then have "\<not> is_blank (hd s1)" using hd_dropWhile [of is_blank s] by simp
  then have "length (dropWhile (\<lambda>c. \<not> is_blank c) s1) < length s1"
    using n by (cases s1) (simp_all add: length_dropWhile_le le_imp_less_Suc)
  also have "length s1 \<le> length s" using s1 by (simp add: length_dropWhile_le)
  finally show "(dropWhile (\<lambda>c. \<not> is_blank c) s1, s) \<in> measure length" by simp
qed simp

declare tokens.simps [simp del]

definition quick_cache_mb :: "service \<Rightarrow> nat" where
  "quick_cache_mb st =
     (let total_pool = u64 (sum_list (take (length (as_disks st)) (as_pool_sizes_mb st)));
          total_gb = (if total_pool div 1024 = 0 then 1 else total_pool div 1024);
          max_cache = u32 (min_u64 (u64 (total_gb * 1024)) 4096)
      in if max_cache < CACHE_DEFAULT_MB then max_cache else CACHE_DEFAULT_MB)"

definition config_letter :: "service \<Rightarrow> char" where
  "config_letter st = (if cf_mount_letter (as_config st) = CHR 0x00 then CHR ''G'' else cf_mount_letter (as_config st))"

text \<open>Once the volume is there, a cache or a mount that fails is not the result.\<close>

definition raid_quick :: "surroundings \<Rightarrow> service \<Rightarrow> reply" where
  "raid_quick inp st =
     and_then (raid_scan_locked inp st) (\<lambda>(rc, st1).
       if rc \<noteq> RC_OK then Inr (rc, st1)
       else if length (sv_devices st1) < MIN_DISKS then Inr (RC_ERR_INVALID_STATE, st1)
       else case in_lines inp of
         [] \<Rightarrow> Inr (RC_ERR_INVALID_ARG, st1)
       | line # _ \<Rightarrow>
           let args = take 16 (tokens (take 255 line))
           in if length args < MIN_DISKS then Inr (RC_ERR_INVALID_ARG, st1)
              else and_then (raid_init_pools_locked inp args st1) (\<lambda>(rc, st2).
                if rc \<noteq> RC_OK then Inr (rc, st2)
                else and_then (raid_create_locked inp st2) (\<lambda>(rc, st3).
                  if rc \<noteq> RC_OK then Inr (rc, st3)
                  else and_then (raid_cache_locked inp [dec_str (quick_cache_mb st3)] st3) (\<lambda>(_, st4).
                    and_then (raid_mount_locked inp (config_letter st4) st4) (\<lambda>(_, st5).
                      and_then (raid_config_save_locked inp st5) (\<lambda>(_, st6). Inr (RC_OK, st6)))))))"

end
