(* ===== verification/Commands.thy ===== *)
theory Commands
  imports Service Planner
begin

text \<open>
  The command line: the queries of \<^verbatim>\<open>src/src/raid_query.c\<close>, the set-up dialogue of \<^verbatim>\<open>src/src/wizard.c\<close> and the
  dispatcher of \<^verbatim>\<open>src/src/cmd_handler.c\<close>. What a query only prints is left out.
\<close>

section \<open>Queries\<close>

fun check_pools :: "os \<Rightarrow> ptr list \<Rightarrow> sys \<Rightarrow> bool \<times> sys" where
  "check_pools os [] s = (True, s)"
| "check_pools os (d # ds) s =
     (let disk_ok = (d_healthy (s_heap s d) \<noteq> 0 \<and> d_faulty (s_heap s d) = 0)
      in case check_pools os ds (tick s) of (ok, s1) \<Rightarrow> (disk_ok \<and> sys_ok os s \<and> ok, s1))"

text \<open>The drive letter of a disk is copied into room for three characters.\<close>

fun check_superblocks :: "os \<Rightarrow> ptr list \<Rightarrow> sys \<Rightarrow> fault + nat \<times> sys" where
  "check_superblocks os [] s = Inr (0, s)"
| "check_superblocks os (d # ds) s =
     (if 4 \<le> length (d_drive_letter (s_heap s d)) then Inl BufferOverflow
      else case metadata_read os (drive_char (s_heap s d)) s of (sb, s1) \<Rightarrow>
        and_then (check_superblocks os ds s1) (\<lambda>(n, s2). Inr (if sb = None then n else Suc n, s2)))"

definition raid_check :: "surroundings \<Rightarrow> service \<Rightarrow> reply" where
  "raid_check inp st =
     (if as_state st \<noteq> STATE_MOUNTED \<and> as_state st \<noteq> STATE_DEGRADED then Inr (RC_ERR_INVALID_STATE, st)
      else if \<not> CHECK_DISKS (as_volume st) then Inl NullDeref
      else let ds = map the (take (v_disk_count (as_volume st)) (v_disks (as_volume st)))
        in case check_pools (in_os inp) ds (sv_sys st) of (all_ok, s1) \<Rightarrow>
          and_then (check_superblocks (in_os inp) ds s1) (\<lambda>(_, s2).
            Inr (if all_ok then RC_OK else RC_ERR_IO, st\<lparr>sv_sys := s2\<rparr>)))"

definition raid_metadata :: "surroundings \<Rightarrow> string list \<Rightarrow> service \<Rightarrow> reply" where
  "raid_metadata inp argv st =
     (let letter = (case argv of (c # _) # _ \<Rightarrow> if 65 \<le> (of_char c :: nat) \<and> (of_char c :: nat) \<le> 90 then c else CHR ''C'' | _ \<Rightarrow> CHR ''C'')
      in case metadata_read (in_os inp) letter (sv_sys st) of (sb, s) \<Rightarrow>
        Inr (if sb = None then RC_ERR_NOT_FOUND else RC_OK, st\<lparr>sv_sys := s\<rparr>))"

definition MAX_CUSTOM_DISKS :: nat where [const]: "MAX_CUSTOM_DISKS = 8"

definition planner_disks :: "service \<Rightarrow> PLANNER_DISK list" where
  "planner_disks st =
     map (\<lambda>i. let d = s_heap (sv_sys st) (sv_devices st ! i)
              in \<lparr>pd_disk_index = i, pd_capacity_bytes = (if 0 < d_pool_bytes d then d_pool_bytes d else d_total_bytes d),
                   pd_speed_mbs = (if d_benchmarked d then d_bench_write_mbs d else d_write_speed_mbs d),
                   pd_serial = take 63 (d_serial_number d), pd_selected = d_selected d\<rparr>)
       [0 ..< min (length (sv_devices st)) MAX_CUSTOM_DISKS]"

definition raid_planner :: "service \<Rightarrow> PLANNER_RESULT option" where
  "raid_planner st = (if sv_devices st = [] then None else Some (planner_calculate (planner_disks st)))"

definition raid_status :: "service \<Rightarrow> RC" where
  "raid_status st = (if as_state st \<noteq> STATE_MOUNTED \<and> as_state st \<noteq> STATE_DEGRADED then RC_ERR_INVALID_STATE else RC_OK)"

text \<open>The table is printed; a dump that does not end is one that waits for ever.\<close>

definition raid_map :: "service \<Rightarrow> fault + RC \<times> (nat \<times> nat \<times> nat) list" where
  "raid_map st =
     (if as_state st \<noteq> STATE_MOUNTED then Inr (RC_ERR_INVALID_STATE, [])
      else case stripe_volume_dump_mapping (as_volume st) 0 (min (64 * 1024 * 1024) (v_virtual_total_bytes (as_volume st))) of
        None \<Rightarrow> Inl Deadlock
      | Some r \<Rightarrow> and_then r (\<lambda>(_, ls). Inr (RC_OK, ls)))"

text \<open>Printing the log: opening it, the memory for it, reading it.\<close>

definition raid_events :: "surroundings \<Rightarrow> service \<Rightarrow> reply" where
  "raid_events inp st =
     (if as_appdata_path st = [] then Inr (RC_OK, st)
      else let s = sv_sys st; s1 = tick s
        in case w_files s (event_log_path (as_appdata_path st)) of
             None \<Rightarrow> Inr (RC_OK, st\<lparr>sv_sys := s1\<rparr>)
           | Some content \<Rightarrow>
               if \<not> sys_ok (in_os inp) s \<or> content = [] then Inr (RC_OK, st\<lparr>sv_sys := s1\<rparr>)
               else if \<not> sys_ok (in_os inp) s1 then Inr (RC_OK, st\<lparr>sv_sys := tick s1\<rparr>)
               else Inr (RC_OK, st\<lparr>sv_sys := tick (tick s1)\<rparr>))"

section \<open>The wizard\<close>

text \<open>The next line typed, if there is one, as \<^verbatim>\<open>fgets\<close> reads it into room for \<open>n\<close> characters.\<close>

definition next_line :: "nat \<Rightarrow> string list \<Rightarrow> string option \<times> string list" where
  "next_line n ls = (case ls of 
     [] \<Rightarrow> (None, [])
   | l # r \<Rightarrow> (Some (take (n - 1) l), if length l < n then r else drop (n - 1) l # r))"

text \<open>The line keeps its line end, which \<^verbatim>\<open>safe_atou32\<close> does not take.\<close>

definition prompt_int :: "string option \<Rightarrow> int \<Rightarrow> int \<Rightarrow> int \<Rightarrow> int" where
  "prompt_int line default_val min_val max_val = (case line of
     None \<Rightarrow> default_val
   | Some l \<Rightarrow>
       let v = (case safe_atou32 l of Some u \<Rightarrow> signed32 u | None \<Rightarrow> default_val);
           v1 = (if v < min_val then min_val else v)
       in if max_val < v1 then max_val else v1)"

definition prompt_char :: "string option \<Rightarrow> char \<Rightarrow> char" where
  "prompt_char line default_char = (case line of
     Some (c # _) \<Rightarrow>
       let n = (of_char c :: nat)
       in if 65 \<le> n \<and> n \<le> 90 then c else if 97 \<le> n \<and> n \<le> 122 then char_of (n - 32) else default_char
   | _ \<Rightarrow> default_char)"

fun wizard_ids :: "nat \<Rightarrow> string list \<Rightarrow> nat list \<Rightarrow> nat list" where
  "wizard_ids n [] acc = acc"
| "wizard_ids n (t # ts) acc =
     (if MAX_DISKS \<le> length acc then acc
      else wizard_ids n ts (case safe_atou32 t of Some i \<Rightarrow> if i < n then acc @ [i] else acc | None \<Rightarrow> acc))"

fun wizard_map :: "ptr list \<Rightarrow> nat \<Rightarrow> nat list \<Rightarrow> string list \<Rightarrow> sys \<Rightarrow> fault + string list \<times> sys" where
  "wizard_map phys i [] ls s = Inr (ls, s)"
| "wizard_map phys i (di # is) ls s =
     (case next_line 64 ls of (ans, ls1) \<Rightarrow>
        let default_letter = ''FGHI'' ! (i mod 4);
            letter = (case ans of
              Some (c # _) \<Rightarrow> if 65 \<le> (of_char c :: nat) \<and> (of_char c :: nat) \<le> 90 then c else default_letter
            | _ \<Rightarrow> default_letter)
        in and_then (disk_map_drive [letter] (phys ! di) s) (\<lambda>(_, s1). wizard_map phys (Suc i) is ls1 s1))"

text \<open>The sizes asked for, from the \<open>i\<close>-th on; the answers are \<^verbatim>\<open>int\<close>s.\<close>

fun wizard_sizes :: "ptr list \<Rightarrow> nat \<Rightarrow> nat list \<Rightarrow> string list \<Rightarrow> sys \<Rightarrow> nat list \<Rightarrow> nat list \<times> string list" where
  "wizard_sizes phys i [] ls s sizes = (sizes, ls)"
| "wizard_sizes phys i (di # is) ls s sizes =
     (case next_line 64 ls of (line, ls1) \<Rightarrow>
        let free_space = d_total_bytes (s_heap s (phys ! di)) div (1024 * 1024);
            mb = prompt_int line (signed32 (u32 (min_u64 51200 (free_space div 2)))) 1024 (signed32 (u32 free_space))
        in wizard_sizes phys (Suc i) is ls1 s (sizes[i := nat (mb mod 2 ^ 64)]))"

fun wizard_pools :: "surroundings \<Rightarrow> nat \<Rightarrow> nat list \<Rightarrow> service \<Rightarrow> service" where
  "wizard_pools inp i [] st = st"
| "wizard_pools inp i (di # is) st =
     (case volume_create_pool_file (in_os inp) (as_physical_disks st ! di) (as_pool_sizes_mb st ! i) (sv_sys st) of
        (False, s) \<Rightarrow> wizard_pools inp (Suc i) is (st\<lparr>sv_sys := s\<rparr>)
      | (True, s) \<Rightarrow> wizard_pools inp (Suc i) is (st\<lparr>sv_sys := s, as_disks := as_disks st @ [as_physical_disks st ! di]\<rparr>))"

text \<open>The last steps: the cache, the mount, the configuration.\<close>

definition wizard_cache :: "surroundings \<Rightarrow> nat \<Rightarrow> string option \<Rightarrow> service \<Rightarrow> service" where
  "wizard_cache inp n line st =
     (let total_pool = u64 (sum_list (take n (as_pool_sizes_mb st)));
          total_gb = (if total_pool div 1024 = 0 then 1 else total_pool div 1024);
          max_cache = u32 (min_u64 (u64 (total_gb * 1024)) 4096);
          cache_mb = prompt_int line (int CACHE_DEFAULT_MB) 256 (signed32 max_cache)
      in case volume_cache_enable (in_os inp) (u64 (nat (cache_mb mod 2 ^ 64) * 1024 * 1024)) (as_volume st) (sv_sys st) of
           (None, vol, s) \<Rightarrow> st\<lparr>as_volume := vol, sv_sys := s\<rparr>
         | (Some (on, mb, thread), vol, s) \<Rightarrow>
             st\<lparr>as_volume := vol, sv_sys := s, as_cache_on := on, as_cache_mb := mb, as_flush_thread := thread\<rparr>)"

definition wizard_mount :: "surroundings \<Rightarrow> char \<Rightarrow> service \<Rightarrow> service" where
  "wizard_mount inp letter st =
     (case fuse_mount_volume (in_os inp) letter (sv_ctx st) (as_volume st) (sv_sys st) of (mounted, ctx, vol, s) \<Rightarrow>
        st\<lparr>sv_ctx := ctx, as_volume := vol, sv_sys := s, as_mounted := (mounted \<or> as_mounted st)\<rparr>)"

definition wizard_save :: "surroundings \<Rightarrow> nat list \<Rightarrow> char \<Rightarrow> service \<Rightarrow> service" where
  "wizard_save inp is letter st =
     (let disks = map (\<lambda>i. \<lparr>dc_disk_id = is ! i,
                           dc_drive_letter = drive_char (s_heap (sv_sys st) (as_physical_disks st ! (is ! i))),
                           dc_pool_mb = as_pool_sizes_mb st ! i\<rparr>) [0 ..< length is];
          cfg = (as_config st)\<lparr>cf_disks := disks, cf_cache_mb := as_cache_mb st, cf_mount_letter := letter, cf_auto_bench := True\<rparr>
      in case config_save (in_os inp) (in_appdata inp \<noteq> []) cfg (sv_config_file st) (sv_sys st) of (_, cfg1, file, s) \<Rightarrow>
           st\<lparr>as_config := cfg1, sv_config_file := file, sv_sys := s\<rparr>)"

definition wizard_finish :: "surroundings \<Rightarrow> nat list \<Rightarrow> string list \<Rightarrow> service \<Rightarrow> service" where
  "wizard_finish inp is ls st =
     (case next_line 64 ls of (line1, ls1) \<Rightarrow> case next_line 64 ls1 of (line2, _) \<Rightarrow>
        let letter = prompt_char line2 (CHR ''G'')
        in wizard_save inp is letter (wizard_mount inp letter (wizard_cache inp (length is) line1 st)))"

text \<open>From the pool files on; the sizes are in the state.\<close>

definition wizard_make :: "surroundings \<Rightarrow> nat list \<Rightarrow> string list \<Rightarrow> service \<Rightarrow> fault + service" where
  "wizard_make inp is ls st =
     (let st1 = wizard_pools inp 0 is (st\<lparr>as_disks := []\<rparr>)
      in if length (as_disks st1) < MIN_DISKS then Inr st1
         else and_then (volume_create (in_os inp) (in_env inp) (as_volume st1) (as_disks st1) (sv_sys st1)) (\<lambda>(ok, vol, s, evs).
           if \<not> ok then Inr (put vol s evs st1)
           else Inr (wizard_finish inp is ls ((put vol s evs st1)\<lparr>as_volume_valid := True\<rparr>))))"

definition wizard_run :: "surroundings \<Rightarrow> service \<Rightarrow> fault + service" where
  "wizard_run inp st =
     and_then (disk_scan_all (in_os inp) (in_new inp) (in_reports inp) (sv_sys st)) (\<lambda>(ok, phys, s).
       let st1 = st\<lparr>as_physical_disks := phys, sv_sys := s\<rparr>
       in if \<not> ok then Inr st1
          else case next_line 128 (in_lines inp) of
            (None, _) \<Rightarrow> Inr st1
          | (Some line, ls) \<Rightarrow>
              let is = wizard_ids (length phys) (tokens line) []
              in if length is < MIN_DISKS then Inr st1
                 else and_then (wizard_map phys 0 is ls (snd (disk_select phys is (length is) s))) (\<lambda>(ls1, s1).
                   let s2 = foldl (\<lambda>s di. if d_drive_letter (s_heap s (phys ! di)) = [] then s
                              else snd (bench_single_disk (in_os inp) (in_passes inp (phys ! di)) (phys ! di) s)) s1 is
                   in case wizard_sizes phys 0 is ls1 s2 (as_pool_sizes_mb st1) of (sizes, ls2) \<Rightarrow>
                     wizard_make inp is ls2 (st1\<lparr>sv_sys := s2, as_pool_sizes_mb := sizes\<rparr>)))"

section \<open>Commands\<close>

text \<open>The letters of the configured disks; whether a drive could be mapped is not looked at.\<close>

fun restore_drives :: "DISK_CONFIG list \<Rightarrow> service \<Rightarrow> fault + bool \<times> service" where
  "restore_drives [] st = Inr (True, st)"
| "restore_drives (dc # dcs) st =
     (if length (sv_devices st) \<le> dc_disk_id dc then Inr (False, st)
      else and_then (raid_mapdrive (dc_disk_id dc) (if dc_drive_letter dc = CHR 0x00 then [] else [dc_drive_letter dc]) st)
             (\<lambda>(_, st1). restore_drives dcs st1))"

text \<open>The buffer of 256 characters holds the arguments of four disks.\<close>

definition restore_args :: "DISK_CONFIG list \<Rightarrow> string list" where
  "restore_args dcs = map (\<lambda>dc. dec_str (dc_disk_id dc) @ '':'' @ dec_str (dc_pool_mb dc)) dcs"

definition do_restore :: "surroundings \<Rightarrow> char \<Rightarrow> service \<Rightarrow> fault + service" where
  "do_restore inp letter st =
     (let dcs = cf_disks (as_config st)
      in if dcs = [] then Inr st
         else and_then (raid_scan_locked inp st) (\<lambda>(rc, st1).
           if rc \<noteq> RC_OK then Inr st1
           else and_then (restore_drives dcs st1) (\<lambda>(ok, st2).
             if \<not> ok \<or> length dcs < MIN_DISKS then Inr st2
             else and_then (raid_init_pools_locked inp (restore_args dcs) st2) (\<lambda>(rc, st3).
               if rc \<noteq> RC_OK then Inr st3
               else and_then (raid_create_locked inp st3) (\<lambda>(rc, st4).
                 if rc \<noteq> RC_OK then Inr st4
                 else and_then (if 0 < cf_cache_mb (as_config st4)
                                then raid_cache_locked inp [dec_str (cf_cache_mb (as_config st4))] st4 else Inr (RC_OK, st4)) (\<lambda>(_, st5).
                   and_then (raid_mount_locked inp letter st5) (\<lambda>(_, st6). Inr st6)))))))"

definition auto_restore_or_quick :: "surroundings \<Rightarrow> service \<Rightarrow> fault + service" where
  "auto_restore_or_quick inp st =
     and_then (raid_config_load inp st) (\<lambda>(_, st1).
       if cf_disks (as_config st1) \<noteq> []
       then and_then (raid_scan_locked inp st1) (\<lambda>(_, st2). do_restore inp (config_letter st2) st2)
       else and_then (raid_quick inp st1) (\<lambda>(_, st2). Inr st2))"

definition upper :: "string list \<Rightarrow> char option" where
  "upper argv = (case argv of (c # _) # _ \<Rightarrow> if 65 \<le> (of_char c :: nat) \<and> (of_char c :: nat) \<le> 90 then Some c else None | _ \<Rightarrow> None)"

definition cmd_mapdrive :: "string list \<Rightarrow> service \<Rightarrow> reply" where
  "cmd_mapdrive argv st = (case argv of
     a # b # _ \<Rightarrow> (case safe_atou32 a of None \<Rightarrow> Inr (RC_ERR_INVALID_ARG, st) | Some i \<Rightarrow> raid_mapdrive i b st)
   | _ \<Rightarrow> Inr (RC_ERR_INVALID_ARG, st))"

definition cmd_mount :: "surroundings \<Rightarrow> string list \<Rightarrow> service \<Rightarrow> reply" where
  "cmd_mount inp argv st =
     raid_mount_locked inp (case upper argv of Some c \<Rightarrow> c | None \<Rightarrow> config_letter st) st"

definition cmd_load :: "surroundings \<Rightarrow> string list \<Rightarrow> service \<Rightarrow> reply" where
  "cmd_load inp argv st = raid_load inp (upper argv) st"

text \<open>The chain of comparisons; a command that is not known does nothing.\<close>

definition dispatch :: "surroundings \<Rightarrow> string \<Rightarrow> string list \<Rightarrow> service \<Rightarrow> reply" where
  "dispatch inp name args st =
     (if name = ''help'' then Inr (RC_OK, st)
      else if name = ''scan'' then raid_scan_locked inp st
      else if name = ''mapdrive'' then cmd_mapdrive args st
      else if name = ''bench'' then raid_bench inp args st
      else if name = ''select'' then raid_select args st
      else if name = ''init'' then raid_init_pools_locked inp args st
      else if name = ''create'' then raid_create_locked inp st
      else if name = ''mirror'' then raid_mirror inp st
      else if name = ''expand'' then raid_expand inp args st
      else if name = ''rebuild'' then raid_rebuild inp args st
      else if name = ''cache'' then raid_cache_locked inp args st
      else if name = ''mount'' then cmd_mount inp args st
      else if name = ''unmount'' then raid_unmount inp st
      else if name = ''load'' then cmd_load inp args st
      else if name = ''purge'' then raid_purge inp st
      else if name = ''destroy'' then raid_destroy inp st
      else if name = ''test'' then raid_test inp st
      else if name = ''random'' then raid_random inp args st
      else if name = ''benchfs'' then raid_benchfs inp args st
      else if name = ''benchraw'' then raid_benchraw inp args st
      else if name = ''check'' then raid_check inp st
      else if name = ''info'' then Inr (RC_OK, st)
      else if name = ''map'' then and_then (raid_map st) (\<lambda>(rc, _). Inr (rc, st))
      else if name = ''status'' then Inr (raid_status st, st)
      else if name = ''metadata'' then raid_metadata inp args st
      else if name = ''simulate'' then raid_simulate args st
      else if name = ''planner'' then Inr (RC_OK, st)
      else if name = ''events'' then raid_events inp st
      else if name = ''config-save'' then raid_config_save_locked inp st
      else if name = ''config-load'' then raid_config_load inp st
      else if name = ''wizard'' then and_then (wizard_run inp st) (\<lambda>st1. Inr (RC_OK, st1))
      else if name = ''quick'' then raid_quick inp st
      else if name = ''cleanup'' then and_then (raid_cleanup inp st) (\<lambda>st1. Inr (RC_OK, st1))
      else Inr (RC_OK, st))"

text \<open>The result says whether the program goes on.\<close>

definition cmd_process :: "surroundings \<Rightarrow> string \<Rightarrow> service \<Rightarrow> fault + bool \<times> service" where
  "cmd_process inp input st = (case take 32 (tokens (take 511 input)) of
     [] \<Rightarrow> Inr (True, st)
   | name # args \<Rightarrow>
       if name = ''exit'' \<or> name = ''quit'' then Inr (False, st)
       else and_then (dispatch inp name args st) (\<lambda>(_, st1). Inr (True, st1)))"

definition cmd_process_auto :: "surroundings \<Rightarrow> string \<Rightarrow> service \<Rightarrow> fault + service" where
  "cmd_process_auto inp input st =
     (if input = [] \<or> hd input = newline then auto_restore_or_quick inp st
      else and_then (cmd_process inp input st) (\<lambda>(_, st1). Inr st1))"

end
