(* ===== verification/Lifecycle.thy ===== *)
theory Lifecycle
  imports Commands
begin

text \<open>
  The states of the program: which moves between them the calls of \<open>Service\<close> and \<open>Commands\<close> make, what
  holds in every state that is reached from the start, and what follows for the user.
\<close>

section \<open>The moves of the state machine\<close>

inductive lifecycle :: "string \<Rightarrow> RAID_STATE \<Rightarrow> RAID_STATE \<Rightarrow> bool" where
  stays: "lifecycle name s s"
| scan_lost: "name \<in> {''scan'', ''quick'', ''cleanup''} \<Longrightarrow> lifecycle name s STATE_DISCONNECTED"
| scan_found: "name \<in> {''scan'', ''quick''} \<Longrightarrow> lifecycle name s STATE_DISCOVERED"
| quick_stops: "lifecycle ''quick'' s STATE_INITIALIZED"
| quick_mounts: "lifecycle ''quick'' s STATE_MOUNTED"
| pools_made: "s \<in> {STATE_DISCOVERED, STATE_UNMOUNTED} \<Longrightarrow> lifecycle ''init'' s STATE_INITIALIZED"
| created: "name \<in> {''create'', ''mirror''} \<Longrightarrow> lifecycle name STATE_INITIALIZED STATE_MOUNTED"
| loaded: "s \<in> {STATE_DISCOVERED, STATE_UNMOUNTED} \<Longrightarrow> lifecycle ''load'' s STATE_MOUNTED"
| unmounted: "lifecycle ''unmount'' STATE_MOUNTED STATE_UNMOUNTED"
| destroyed: "s \<in> {STATE_MOUNTED, STATE_UNMOUNTED} \<Longrightarrow> lifecycle ''destroy'' s STATE_DISCOVERED"
| purged: "s \<in> {STATE_INITIALIZED, STATE_UNMOUNTED} \<Longrightarrow> lifecycle ''purge'' s STATE_DISCOVERED"
| disk_lost: "lifecycle ''simulate'' STATE_MOUNTED STATE_DEGRADED"

inductive_simps lifecycle_from_degraded: "lifecycle name STATE_DEGRADED s"
inductive_simps lifecycle_to_recovering: "lifecycle name s STATE_RECOVERING"

section \<open>What every reached state has\<close>

definition service_inv :: "service \<Rightarrow> bool" where
  "service_inv st \<longleftrightarrow>
     as_state st \<noteq> STATE_RECOVERING \<and>
     (as_state st \<in> {STATE_MOUNTED, STATE_DEGRADED} \<longrightarrow> as_volume_valid st) \<and>
     (as_mounted st \<longrightarrow> as_volume_valid st) \<and> (as_cache_on st \<longrightarrow> as_volume_valid st) \<and>
     length (as_disks st) \<le> MAX_DISKS \<and> length (as_pool_sizes_mb st) = MAX_DISKS \<and> length (as_loaded_disks st) = MAX_DISKS"

text \<open>One call: it keeps the invariant and makes a move of the state machine.\<close>

definition moves :: "string \<Rightarrow> service \<Rightarrow> service \<Rightarrow> bool" where
  "moves name st st' \<longleftrightarrow> (service_inv st \<longrightarrow> service_inv st') \<and> lifecycle name (as_state st) (as_state st')"

lemma moves_refl: "moves name st st"
  by (simp add: moves_def lifecycle.stays)

lemma and_then_eq: "(and_then r f = Inr y) = (\<exists>x. r = Inr x \<and> f x = Inr y)"
  by (cases r) simp_all

text \<open>What the invariant looks at.\<close>

definition same_flags :: "service \<Rightarrow> service \<Rightarrow> bool" where
  "same_flags st st' \<longleftrightarrow> as_state st' = as_state st \<and> as_volume_valid st' = as_volume_valid st \<and> as_mounted st' = as_mounted st \<and>
     as_cache_on st' = as_cache_on st \<and> as_disks st' = as_disks st \<and> as_pool_sizes_mb st' = as_pool_sizes_mb st \<and>
     as_loaded_disks st' = as_loaded_disks st"

lemma same_flags_moves: "same_flags st st' \<Longrightarrow> moves name st st'"
  by (simp add: same_flags_def moves_def service_inv_def lifecycle.stays)

lemma put_flags: "same_flags st (put vol s evs st)"
  by (simp add: same_flags_def put_def)

lemmas call_split = if_splits option.splits list.splits prod.splits sum.splits bool.splits

lemma if_elim: "(if c then a else b) = r \<Longrightarrow> (c \<Longrightarrow> a = r \<Longrightarrow> P) \<Longrightarrow> (\<not> c \<Longrightarrow> b = r \<Longrightarrow> P) \<Longrightarrow> P"
  by (cases c) simp_all

lemma raid_scan_locked_moves:
  assumes "raid_scan_locked inp st = Inr (rc, st')" shows "moves ''scan'' st st'"
  using assms by (auto simp: raid_scan_locked_def and_then_eq moves_def service_inv_def Let_def
      split: if_splits intro: lifecycle.intros)

lemma raid_scan_locked_state:
  "raid_scan_locked inp st = Inr (rc, st') \<Longrightarrow> as_state st' = (if rc = RC_OK then STATE_DISCOVERED else STATE_DISCONNECTED)"
  by (auto simp: raid_scan_locked_def and_then_eq Let_def split: if_splits)

lemma raid_select_moves: "raid_select argv st = Inr (rc, st') \<Longrightarrow> same_flags st st'"
  by (auto simp: raid_select_def same_flags_def split: if_splits sum.splits)

lemma raid_mapdrive_moves: "raid_mapdrive i l st = Inr (rc, st') \<Longrightarrow> same_flags st st'"
  by (auto simp: raid_mapdrive_def same_flags_def and_then_eq split: if_splits)

lemma raid_bench_moves: "raid_bench inp argv st = Inr (rc, st') \<Longrightarrow> same_flags st st'"
  by (auto simp: raid_bench_def same_flags_def split: if_splits)

lemma raid_cache_locked_moves:
  assumes "raid_cache_locked inp argv st = Inr (rc, st')" shows "moves ''cache'' st st'"
proof (cases "as_state st = STATE_MOUNTED")
  case False
  then show ?thesis using assms by (simp add: raid_cache_locked_def require_def moves_refl)
next
  case True
  have "as_state st' = as_state st \<and> as_volume_valid st' = as_volume_valid st \<and> as_mounted st' = as_mounted st \<and> as_disks st' = as_disks st \<and>
      as_pool_sizes_mb st' = as_pool_sizes_mb st \<and> as_loaded_disks st' = as_loaded_disks st"
    using assms True unfolding raid_cache_locked_def require_def Let_def
    by (elim if_elim) (auto simp: and_then_eq put_def split: option.splits prod.splits bool.splits)
  then show ?thesis using True by (simp add: moves_def service_inv_def lifecycle.stays)
qed

lemma cleanup_pool_session_flags:
  "as_state (cleanup_pool_session inp st) = as_state st" "as_volume_valid (cleanup_pool_session inp st) = as_volume_valid st"
  "as_mounted (cleanup_pool_session inp st) = as_mounted st" "as_cache_on (cleanup_pool_session inp st) = as_cache_on st"
  "as_disks (cleanup_pool_session inp st) = []" "as_pool_sizes_mb (cleanup_pool_session inp st) = as_pool_sizes_mb st"
  "as_loaded_disks (cleanup_pool_session inp st) = as_loaded_disks st" "sv_devices (cleanup_pool_session inp st) = sv_devices st"
  by (simp_all add: cleanup_pool_session_def cleanup_pool_files_def Let_def)

lemma cleanup_pool_session_inv: "service_inv st \<Longrightarrow> service_inv (cleanup_pool_session inp st)"
  by (simp add: service_inv_def cleanup_pool_session_flags)

lemma init_pools_create_files_flags:
  assumes "init_pools_create_files inp pp st = (rc, st')"
  shows "as_state st' = as_state st \<and> as_volume_valid st' = as_volume_valid st \<and> as_mounted st' = as_mounted st \<and>
    as_cache_on st' = as_cache_on st \<and> length (as_pool_sizes_mb st') = length (as_pool_sizes_mb st) \<and>
    as_loaded_disks st' = as_loaded_disks st \<and> length (as_disks st') \<le> length (as_disks st) + length pp"
  using assms
proof (induction inp pp st rule: init_pools_create_files.induct)
  case (2 inp di mb pp st)
  show ?case
    using "2.prems" "2.IH" by (fastforce split: option.splits if_splits prod.splits bool.splits)
qed simp

text \<open>The state with the pools of an unmounted volume gone; the rest of \<open>init\<close> runs there.\<close>

definition emptied :: "surroundings \<Rightarrow> service \<Rightarrow> service" where
  "emptied inp st = (if as_state st = STATE_UNMOUNTED then cleanup_pool_session inp st else st)"

lemma raid_init_pools_run:
  assumes "raid_init_pools_locked inp argv st = Inr (rc, st')" "as_state st \<in> {STATE_DISCOVERED, STATE_UNMOUNTED}" "sv_devices st \<noteq> []"
  obtains rc1 pp s where "gather_pools argv (emptied inp st) = Inr (rc1, pp, s)"
    "st' = (emptied inp st)\<lparr>sv_sys := s\<rparr> \<or> length pp \<le> MAX_DISKS \<and>
       (\<exists>rc2 st2. init_pools_create_files inp pp ((emptied inp st)\<lparr>sv_sys := s, as_disks := []\<rparr>) = (rc2, st2) \<and>
         (st' = st2 \<or> st' = st2\<lparr>as_state := STATE_INITIALIZED\<rparr>))"
proof -
  have g: "\<not> (as_state st \<noteq> STATE_DISCOVERED \<and> as_state st \<noteq> STATE_UNMOUNTED)" using assms(2) by auto
  have "and_then (gather_pools argv (emptied inp st)) (\<lambda>(rc1, pp, s).
      if rc1 \<noteq> RC_OK then Inr (rc1, (emptied inp st)\<lparr>sv_sys := s\<rparr>)
      else if length pp < MIN_DISKS \<or> MAX_DISKS < length pp then Inr (RC_ERR_INVALID_ARG, (emptied inp st)\<lparr>sv_sys := s\<rparr>)
      else case init_pools_create_files inp pp ((emptied inp st)\<lparr>sv_sys := s, as_disks := []\<rparr>) of (rc2, st2) \<Rightarrow>
        if rc2 \<noteq> RC_OK then Inr (rc2, st2)
        else if MIN_DISKS \<le> length (as_disks st2) then Inr (RC_OK, st2\<lparr>as_state := STATE_INITIALIZED\<rparr>)
        else Inr (RC_ERR_IO, st2)) = Inr (rc, st')"
    using assms(1) unfolding raid_init_pools_locked_def Let_def if_not_P [OF g] if_not_P [OF assms(3)] emptied_def .
  from and_then_Inr [OF this] obtain x where x: "gather_pools argv (emptied inp st) = Inr x"
    "(case x of (rc1, pp, s) \<Rightarrow>
      if rc1 \<noteq> RC_OK then Inr (rc1, (emptied inp st)\<lparr>sv_sys := s\<rparr>)
      else if length pp < MIN_DISKS \<or> MAX_DISKS < length pp then Inr (RC_ERR_INVALID_ARG, (emptied inp st)\<lparr>sv_sys := s\<rparr>)
      else case init_pools_create_files inp pp ((emptied inp st)\<lparr>sv_sys := s, as_disks := []\<rparr>) of (rc2, st2) \<Rightarrow>
        if rc2 \<noteq> RC_OK then Inr (rc2, st2)
        else if MIN_DISKS \<le> length (as_disks st2) then Inr (RC_OK, st2\<lparr>as_state := STATE_INITIALIZED\<rparr>)
        else Inr (RC_ERR_IO, st2)) = (Inr (rc, st') :: reply)" by blast
  obtain rc1 pp s where p: "x = (rc1, pp, s)" using prod_cases3 by blast
  show thesis
    by (rule that [of rc1 pp s]) (use x p in \<open>auto split: if_splits prod.splits\<close>)
qed

lemma raid_init_pools_locked_moves:
  assumes "raid_init_pools_locked inp argv st = Inr (rc, st')" shows "moves ''init'' st st'"
proof -
  consider "st' = st" | st1 rc1 pp s where "as_state st \<in> {STATE_DISCOVERED, STATE_UNMOUNTED}"
    "st1 = emptied inp st" "gather_pools argv st1 = Inr (rc1, pp, s)"
    "st' = st1\<lparr>sv_sys := s\<rparr> \<or> length pp \<le> MAX_DISKS \<and>
       (\<exists>rc2 st2. init_pools_create_files inp pp (st1\<lparr>sv_sys := s, as_disks := []\<rparr>) = (rc2, st2) \<and>
         (st' = st2 \<or> st' = st2\<lparr>as_state := STATE_INITIALIZED\<rparr>))"
  proof (cases "as_state st \<in> {STATE_DISCOVERED, STATE_UNMOUNTED} \<and> sv_devices st \<noteq> []")
    case True
    then obtain rc1 pp s where "gather_pools argv (emptied inp st) = Inr (rc1, pp, s)"
      "st' = (emptied inp st)\<lparr>sv_sys := s\<rparr> \<or> length pp \<le> MAX_DISKS \<and>
       (\<exists>rc2 st2. init_pools_create_files inp pp ((emptied inp st)\<lparr>sv_sys := s, as_disks := []\<rparr>) = (rc2, st2) \<and>
         (st' = st2 \<or> st' = st2\<lparr>as_state := STATE_INITIALIZED\<rparr>))"
      using raid_init_pools_run [OF assms] by blast
    then show ?thesis using True that(2) [of "emptied inp st"] by blast
  next
    case False
    then have "st' = st" using assms by (auto simp: raid_init_pools_locked_def split: if_splits)
    then show ?thesis using that(1) by blast
  qed
  then show ?thesis
  proof cases
    case 1
    then show ?thesis by (simp add: moves_refl)
  next
    case 2
    have inv: "service_inv st \<Longrightarrow> service_inv st1" and stt: "as_state st1 = as_state st"
      using 2(2) cleanup_pool_session_inv by (simp_all add: emptied_def cleanup_pool_session_flags)
    from 2(4) show ?thesis
    proof
      assume "st' = st1\<lparr>sv_sys := s\<rparr>"
      then show ?thesis using inv stt by (simp add: moves_def service_inv_def lifecycle.stays)
    next
      assume "length pp \<le> MAX_DISKS \<and> (\<exists>rc2 st2. init_pools_create_files inp pp (st1\<lparr>sv_sys := s, as_disks := []\<rparr>) = (rc2, st2) \<and>
         (st' = st2 \<or> st' = st2\<lparr>as_state := STATE_INITIALIZED\<rparr>))"
      then obtain rc2 st2 where l: "length pp \<le> MAX_DISKS" and c: "init_pools_create_files inp pp (st1\<lparr>sv_sys := s, as_disks := []\<rparr>) = (rc2, st2)"
        and e: "st' = st2 \<or> st' = st2\<lparr>as_state := STATE_INITIALIZED\<rparr>" by blast
      note f = init_pools_create_files_flags [OF c]
      have "service_inv st \<Longrightarrow> service_inv st2" using inv f l by (simp add: service_inv_def)
      then have "service_inv st \<Longrightarrow> service_inv st'" using e by (elim disjE) (simp_all add: service_inv_def)
      moreover have "lifecycle ''init'' (as_state st) (as_state st')"
        using e f stt 2(1) by (elim disjE) (simp_all add: lifecycle.stays lifecycle.pools_made)
      ultimately show ?thesis by (simp add: moves_def)
    qed
  qed
qed

lemma raid_create_locked_moves: "raid_create_locked inp st = Inr (rc, st') \<Longrightarrow> moves ''create'' st st'"
  by (auto simp: raid_create_locked_def require_def moves_def service_inv_def put_def and_then_eq
      split: if_splits intro: lifecycle.intros)

lemma raid_mirror_moves: "raid_mirror inp st = Inr (rc, st') \<Longrightarrow> moves ''mirror'' st st'"
  by (auto simp: raid_mirror_def require_def moves_def service_inv_def put_def and_then_eq
      split: if_splits intro: lifecycle.intros)

lemma raid_expand_moves: "raid_expand inp argv st = Inr (rc, st') \<Longrightarrow> same_flags st st'"
  by (auto simp: raid_expand_def require_def same_flags_def put_def and_then_eq split: if_splits)

lemma raid_rebuild_moves: "raid_rebuild inp argv st = Inr (rc, st') \<Longrightarrow> same_flags st st'"
  by (auto simp: raid_rebuild_def same_flags_def put_def and_then_eq split: if_splits list.splits option.splits)

lemma raid_mount_locked_moves: "raid_mount_locked inp l st = Inr (rc, st') \<Longrightarrow> moves name st st'"
  by (auto simp: raid_mount_locked_def require_def moves_def service_inv_def put_def
      split: if_splits prod.splits intro: lifecycle.stays)

lemma raid_unmount_moves: "raid_unmount inp st = Inr (rc, st') \<Longrightarrow> moves ''unmount'' st st'"
  by (auto simp: raid_unmount_def require_def moves_def service_inv_def put_def and_then_eq
      split: if_splits intro: lifecycle.intros)

lemma raid_load_moves:
  assumes "raid_load inp r st = Inr (rc, st')" shows "moves ''load'' st st'"
proof (cases "as_state st \<in> {STATE_UNMOUNTED, STATE_DISCOVERED}")
  case False
  then show ?thesis using assms by (simp add: raid_load_def moves_refl)
next
  case True
  then obtain ok vol s evs where "st' = put vol s evs st \<or> st' = (put vol s evs st)\<lparr>as_disks := take (v_disk_count vol) (as_loaded_disks st),
      as_volume_valid := True, as_state := STATE_MOUNTED\<rparr>"
    using assms by (force simp: raid_load_def and_then_eq split: if_split_asm)
  then show ?thesis
  proof
    assume "st' = put vol s evs st"
    then show ?thesis using put_flags same_flags_moves by simp
  next
    assume e: "st' = (put vol s evs st)\<lparr>as_disks := take (v_disk_count vol) (as_loaded_disks st),
      as_volume_valid := True, as_state := STATE_MOUNTED\<rparr>"
    have "lifecycle ''load'' (as_state st) STATE_MOUNTED" using True by (intro lifecycle.loaded) auto
    then show ?thesis unfolding e by (simp add: moves_def service_inv_def put_def)
  qed
qed

lemma raid_destroy_moves: "raid_destroy inp st = Inr (rc, st') \<Longrightarrow> moves ''destroy'' st st'"
  by (auto simp: raid_destroy_def moves_def service_inv_def put_def and_then_eq
      split: if_splits intro: lifecycle.intros)

lemma raid_purge_moves: "raid_purge inp st = Inr (rc, st') \<Longrightarrow> moves ''purge'' st st'"
  by (auto simp: raid_purge_def moves_def service_inv_def cleanup_pool_session_flags
      split: if_splits intro: lifecycle.intros)

lemma raid_simulate_moves: "raid_simulate argv st = Inr (rc, st') \<Longrightarrow> moves ''simulate'' st st'"
  by (auto simp: raid_simulate_def moves_def service_inv_def drop_disk_def Let_def
      split: if_splits list.splits option.splits intro: lifecycle.intros)

lemma volume_tests_moves:
  "raid_test inp st = Inr (rc, st') \<Longrightarrow> same_flags st st'" "raid_random inp argv st = Inr (rc, st') \<Longrightarrow> same_flags st st'"
  "raid_benchfs inp argv st = Inr (rc, st') \<Longrightarrow> same_flags st st'" "raid_benchraw inp argv st = Inr (rc, st') \<Longrightarrow> same_flags st st'"
  by (auto simp: raid_test_def raid_random_def raid_benchfs_def raid_benchraw_def require_def same_flags_def put_def and_then_eq Let_def
      split: if_splits option.splits)

lemma queries_moves:
  "raid_check inp st = Inr (rc, st') \<Longrightarrow> same_flags st st'" "raid_metadata inp argv st = Inr (rc, st') \<Longrightarrow> same_flags st st'"
  "raid_events inp st = Inr (rc, st') \<Longrightarrow> same_flags st st'"
  by (auto simp: raid_check_def raid_metadata_def raid_events_def same_flags_def and_then_eq Let_def
      split: if_splits option.splits prod.splits)

lemma config_moves:
  "raid_config_save_locked inp st = Inr (rc, st') \<Longrightarrow> same_flags st st'" "raid_config_load inp st = Inr (rc, st') \<Longrightarrow> same_flags st st'"
  by (auto simp: raid_config_save_locked_def raid_config_load_def same_flags_def and_then_eq Let_def split: prod.splits)

section \<open>The commands made of several calls\<close>

inductive_simps init_from_discovered: "lifecycle ''init'' STATE_DISCOVERED s"
inductive_simps create_from: "lifecycle ''create'' s s'"
inductive_simps cache_from: "lifecycle ''cache'' s s'"
inductive_simps mount_from: "lifecycle ''mount'' s s'"

lemma quick_any: "s' \<in> {STATE_DISCONNECTED, STATE_DISCOVERED, STATE_INITIALIZED, STATE_MOUNTED} \<Longrightarrow> lifecycle ''quick'' s s'"
  by (auto intro: lifecycle.intros)

lemma movesD: "moves name st st' \<Longrightarrow> service_inv st \<Longrightarrow> service_inv st'" "moves name st st' \<Longrightarrow> lifecycle name (as_state st) (as_state st')"
  by (simp_all add: moves_def)

lemma raid_quick_moves:
  assumes "raid_quick inp st = Inr (rc, st')" shows "moves ''quick'' st st'"
proof -
  obtain rc1 st1 where 1: "raid_scan_locked inp st = Inr (rc1, st1)" using assms by (auto simp: raid_quick_def and_then_eq)
  note m1 = raid_scan_locked_moves [OF 1] and q1 = raid_scan_locked_state [OF 1]
  show ?thesis
  proof (cases "st' = st1")
    case True
    then show ?thesis using m1 q1 by (auto simp: moves_def quick_any)
  next
    case False
    then have rc1: "rc1 = RC_OK" using assms 1 by (auto simp: raid_quick_def split: if_splits)
    then have s1: "as_state st1 = STATE_DISCOVERED" using q1 by simp
    obtain args rc2 st2 where 2: "raid_init_pools_locked inp args st1 = Inr (rc2, st2)" and
      r: "st' = st2 \<or> (\<exists>rc3 st3. raid_create_locked inp st2 = Inr (rc3, st3) \<and>
        (st' = st3 \<or> (\<exists>rc4 st4 rc5 st5 rc6. raid_cache_locked inp [dec_str (quick_cache_mb st3)] st3 = Inr (rc4, st4) \<and>
           raid_mount_locked inp (config_letter st4) st4 = Inr (rc5, st5) \<and> raid_config_save_locked inp st5 = Inr (rc6, st'))))"
      using assms 1 rc1 False
      by (simp add: raid_quick_def Let_def split: if_splits list.splits) (auto simp: and_then_eq split: if_splits)
    note m2 = raid_init_pools_locked_moves [OF 2]
    have s2: "as_state st2 \<in> {STATE_DISCOVERED, STATE_INITIALIZED}"
      using movesD(2) [OF m2] s1 by (auto simp: init_from_discovered)
    have i2: "service_inv st \<Longrightarrow> service_inv st2" using movesD(1) [OF m1] movesD(1) [OF m2] by blast
    from r show ?thesis
    proof
      assume "st' = st2"
      then show ?thesis using s2 i2 by (auto simp: moves_def quick_any)
    next
      assume "\<exists>rc3 st3. raid_create_locked inp st2 = Inr (rc3, st3) \<and>
        (st' = st3 \<or> (\<exists>rc4 st4 rc5 st5 rc6. raid_cache_locked inp [dec_str (quick_cache_mb st3)] st3 = Inr (rc4, st4) \<and>
           raid_mount_locked inp (config_letter st4) st4 = Inr (rc5, st5) \<and> raid_config_save_locked inp st5 = Inr (rc6, st')))"
      then obtain rc3 st3 where 3: "raid_create_locked inp st2 = Inr (rc3, st3)" and
        r3: "st' = st3 \<or> (\<exists>rc4 st4 rc5 st5 rc6. raid_cache_locked inp [dec_str (quick_cache_mb st3)] st3 = Inr (rc4, st4) \<and>
           raid_mount_locked inp (config_letter st4) st4 = Inr (rc5, st5) \<and> raid_config_save_locked inp st5 = Inr (rc6, st'))" by blast
      note m3 = raid_create_locked_moves [OF 3]
      have s3: "as_state st3 \<in> {STATE_DISCOVERED, STATE_INITIALIZED, STATE_MOUNTED}"
        using movesD(2) [OF m3] s2 by (auto simp: create_from)
      have i3: "service_inv st \<Longrightarrow> service_inv st3" using i2 movesD(1) [OF m3] by blast
      from r3 show ?thesis
      proof
        assume "st' = st3"
        then show ?thesis using s3 i3 by (auto simp: moves_def quick_any)
      next
        assume "\<exists>rc4 st4 rc5 st5 rc6. raid_cache_locked inp [dec_str (quick_cache_mb st3)] st3 = Inr (rc4, st4) \<and>
           raid_mount_locked inp (config_letter st4) st4 = Inr (rc5, st5) \<and> raid_config_save_locked inp st5 = Inr (rc6, st')"
        then obtain rc4 st4 rc5 st5 rc6 where 4: "raid_cache_locked inp [dec_str (quick_cache_mb st3)] st3 = Inr (rc4, st4)"
          "raid_mount_locked inp (config_letter st4) st4 = Inr (rc5, st5)" "raid_config_save_locked inp st5 = Inr (rc6, st')" by blast
        note m4 = raid_cache_locked_moves [OF 4(1)] raid_mount_locked_moves [OF 4(2), of "''mount''"]
          same_flags_moves [OF config_moves(1) [OF 4(3)], of "''help''"]
        have "as_state st4 = as_state st3" "as_state st5 = as_state st4" "as_state st' = as_state st5"
          using movesD(2) [OF m4(1)] movesD(2) [OF m4(2)] config_moves(1) [OF 4(3)]
          by (simp_all add: cache_from mount_from same_flags_def)
        moreover have "service_inv st \<Longrightarrow> service_inv st'"
          using i3 movesD(1) [OF m4(1)] movesD(1) [OF m4(2)] movesD(1) [OF m4(3)] by blast
        ultimately show ?thesis using s3 by (auto simp: moves_def quick_any)
      qed
    qed
  qed
qed

lemma raid_cleanup_moves:
  assumes "raid_cleanup inp st = Inr st'" shows "moves ''cleanup'' st st'"
proof -
  have "as_state st' = STATE_DISCONNECTED" "\<not> as_volume_valid st'" "\<not> as_cache_on st'" "\<not> as_mounted st'" "as_disks st' = []"
    "as_pool_sizes_mb st' = as_pool_sizes_mb st" "as_loaded_disks st' = as_loaded_disks st"
    using assms
    by (auto simp: raid_cleanup_def cleanup_all_def cleanup_session_def cleanup_cache_def cleanup_volume_def cleanup_disks_def and_then_eq
        Let_def cleanup_pool_session_flags split: if_splits)
  then show ?thesis by (simp add: moves_def service_inv_def lifecycle.scan_lost)
qed

lemma wizard_ids_length: "length acc \<le> MAX_DISKS \<Longrightarrow> length (wizard_ids n ts acc) \<le> MAX_DISKS"
  by (induction n ts acc rule: wizard_ids.induct) (auto split: option.splits)

lemma wizard_sizes_length: "wizard_sizes phys i is ls s sizes = (sizes', ls') \<Longrightarrow> length sizes' = length sizes"
  by (induction phys i "is" ls s sizes rule: wizard_sizes.induct) (auto simp: Let_def split: prod.splits)

text \<open>The state is left alone: a volume made by the wizard is not one the other commands work on.\<close>

definition wizard_keeps :: "service \<Rightarrow> service \<Rightarrow> bool" where
  "wizard_keeps st st' \<longleftrightarrow> as_state st' = as_state st \<and> as_volume_valid st' = as_volume_valid st \<and> as_mounted st' = as_mounted st \<and>
     as_cache_on st' = as_cache_on st \<and> as_loaded_disks st' = as_loaded_disks st \<and>
     length (as_pool_sizes_mb st') = length (as_pool_sizes_mb st)"

lemma wizard_keeps_inv: "wizard_keeps st st' \<Longrightarrow> length (as_disks st') \<le> MAX_DISKS \<Longrightarrow> service_inv st \<Longrightarrow> service_inv st'"
  by (simp add: wizard_keeps_def service_inv_def)

lemma wizard_pools_keep:
  "wizard_keeps st (wizard_pools inp i is st) \<and> length (as_disks (wizard_pools inp i is st)) \<le> length (as_disks st) + length is"
proof (induction inp i "is" st rule: wizard_pools.induct)
  case (2 inp i di "is" st)
  show ?case
    using "2.IH" by (fastforce simp: wizard_keeps_def split: prod.splits bool.splits)
qed (simp add: wizard_keeps_def)

text \<open>What the last steps keep.\<close>

definition finish_keeps :: "service \<Rightarrow> service \<Rightarrow> bool" where
  "finish_keeps st st' \<longleftrightarrow> as_state st' = as_state st \<and> as_volume_valid st' = as_volume_valid st \<and>
     as_disks st' = as_disks st \<and> as_pool_sizes_mb st' = as_pool_sizes_mb st \<and> as_loaded_disks st' = as_loaded_disks st"

lemma finish_keeps_trans: "finish_keeps st st1 \<Longrightarrow> finish_keeps st1 st2 \<Longrightarrow> finish_keeps st st2"
  by (simp add: finish_keeps_def)

lemma wizard_steps_keep:
  "finish_keeps st (wizard_cache inp n line st)" "finish_keeps st (wizard_mount inp letter st)" "finish_keeps st (wizard_save inp is letter st)"
  by (simp_all add: wizard_cache_def wizard_mount_def wizard_save_def finish_keeps_def Let_def split: option.split prod.split)

lemma wizard_finish_keeps: "finish_keeps st (wizard_finish inp is ls st)"
proof -
  have "finish_keeps st (wizard_save inp is c (wizard_mount inp c (wizard_cache inp (length is) l st)))" for c l
    by (rule finish_keeps_trans [OF finish_keeps_trans [OF wizard_steps_keep(1) wizard_steps_keep(2)] wizard_steps_keep(3)])
  then show ?thesis by (simp add: wizard_finish_def Let_def split: prod.split)
qed

lemma wizard_finish_inv:
  "service_inv st \<Longrightarrow> as_volume_valid st \<Longrightarrow> service_inv (wizard_finish inp is ls st)"
  using wizard_finish_keeps [of st inp "is" ls] by (simp add: finish_keeps_def service_inv_def)

lemma wizard_make_moves:
  assumes "wizard_make inp is ls st = Inr st'" "length is \<le> MAX_DISKS"
  shows "(service_inv st \<longrightarrow> service_inv st') \<and> as_state st' = as_state st"
proof -
  let ?st1 = "wizard_pools inp 0 is (st\<lparr>as_disks := []\<rparr>)"
  have k: "wizard_keeps st ?st1" "length (as_disks ?st1) \<le> MAX_DISKS"
    using wizard_pools_keep [of "st\<lparr>as_disks := []\<rparr>" inp 0 "is"] assms(2) by (simp_all add: wizard_keeps_def)
  have i1: "service_inv ?st1" if "service_inv st" using wizard_keeps_inv [OF k that] .
  have s1: "as_state ?st1 = as_state st" using k(1) by (simp add: wizard_keeps_def)
  from assms(1) consider "st' = ?st1" | vol s3 evs where "st' = put vol s3 evs ?st1" |
    vol s3 evs where "st' = wizard_finish inp is ls ((put vol s3 evs ?st1)\<lparr>as_volume_valid := True\<rparr>)"
    by (auto simp: wizard_make_def Let_def and_then_eq split: if_splits)
  then show ?thesis
  proof cases
    case 1
    then show ?thesis using i1 s1 by simp
  next
    case 2
    then show ?thesis using i1 s1 by (simp add: put_def service_inv_def)
  next
    case 3
    let ?st3 = "(put vol s3 evs ?st1)\<lparr>as_volume_valid := True\<rparr>"
    have "service_inv ?st3" if "service_inv st" using i1 [OF that] by (simp add: put_def service_inv_def)
    moreover have "as_state ?st3 = as_state st" "as_volume_valid ?st3" using s1 by (simp_all add: put_def)
    moreover have "as_state (wizard_finish inp is ls ?st3) = as_state ?st3"
      using wizard_finish_keeps by (simp add: finish_keeps_def)
    ultimately show ?thesis using 3 wizard_finish_inv [of ?st3 inp "is" ls] by simp
  qed
qed

lemma wizard_run_moves:
  assumes "wizard_run inp st = Inr st'" shows "moves ''wizard'' st st'"
proof -
  obtain ok phys s where 1: "disk_scan_all (in_os inp) (in_new inp) (in_reports inp) (sv_sys st) = Inr (ok, phys, s)"
    using assms by (auto simp: wizard_run_def and_then_eq)
  let ?st1 = "st\<lparr>as_physical_disks := phys, sv_sys := s\<rparr>"
  consider "st' = ?st1" |
    "is" ls1 s2 sizes ls2 where "length is \<le> MAX_DISKS" "wizard_sizes phys 0 is ls1 s2 (as_pool_sizes_mb st) = (sizes, ls2)"
      "wizard_make inp is ls2 (?st1\<lparr>sv_sys := s2, as_pool_sizes_mb := sizes\<rparr>) = Inr st'"
  proof (cases "ok \<and> fst (next_line 128 (in_lines inp)) \<noteq> None \<and>
      MIN_DISKS \<le> length (wizard_ids (length phys) (tokens (the (fst (next_line 128 (in_lines inp))))) [])")
    case False
    then have "st' = ?st1"
      using assms 1 by (auto simp: wizard_run_def Let_def split: if_splits option.splits prod.splits)
    then show ?thesis using that(1) by blast
  next
    case True
    then obtain line ls where n: "next_line 128 (in_lines inp) = (Some line, ls)" by (cases "next_line 128 (in_lines inp)") auto
    let ?is = "wizard_ids (length phys) (tokens line) []"
    have g: "ok" "\<not> length ?is < MIN_DISKS" using True n by simp_all
    have "\<exists>x. wizard_map phys 0 ?is ls (snd (disk_select phys ?is (length ?is) s)) = Inr x \<and>
      (case x of (ls1, s1) \<Rightarrow>
        let s2 = foldl (\<lambda>s di. if d_drive_letter (s_heap s (phys ! di)) = [] then s
               else snd (bench_single_disk (in_os inp) (in_passes inp (phys ! di)) (phys ! di) s)) s1 ?is
        in case wizard_sizes phys 0 ?is ls1 s2 (as_pool_sizes_mb st) of (sizes, ls2) \<Rightarrow>
          wizard_make inp ?is ls2 (?st1\<lparr>sv_sys := s2, as_pool_sizes_mb := sizes\<rparr>)) = Inr st'"
      using assms 1 n g by (intro and_then_Inr) (simp add: wizard_run_def Let_def)
    then obtain ls1 s1 where r: "(let s2 = foldl (\<lambda>s di. if d_drive_letter (s_heap s (phys ! di)) = [] then s
               else snd (bench_single_disk (in_os inp) (in_passes inp (phys ! di)) (phys ! di) s)) s1 ?is
        in case wizard_sizes phys 0 ?is ls1 s2 (as_pool_sizes_mb st) of (sizes, ls2) \<Rightarrow>
          wizard_make inp ?is ls2 (?st1\<lparr>sv_sys := s2, as_pool_sizes_mb := sizes\<rparr>)) = Inr st'" by auto
    let ?s2 = "foldl (\<lambda>s di. if d_drive_letter (s_heap s (phys ! di)) = [] then s
               else snd (bench_single_disk (in_os inp) (in_passes inp (phys ! di)) (phys ! di) s)) s1 ?is"
    obtain sizes ls2 where z: "wizard_sizes phys 0 ?is ls1 ?s2 (as_pool_sizes_mb st) = (sizes, ls2)" by force
    have l: "length ?is \<le> MAX_DISKS" by (rule wizard_ids_length) simp
    show ?thesis by (rule that(2) [OF l z]) (use r z in \<open>simp add: Let_def\<close>)
  qed
  then show ?thesis
  proof cases
    case 1
    then show ?thesis by (simp add: moves_def service_inv_def lifecycle.stays)
  next
    case 2
    have z: "length sizes = length (as_pool_sizes_mb st)" using wizard_sizes_length [OF 2(2)] .
    have "service_inv (?st1\<lparr>sv_sys := s2, as_pool_sizes_mb := sizes\<rparr>)" if "service_inv st" using that z by (simp add: service_inv_def)
    then show ?thesis using wizard_make_moves [OF 2(3,1)] by (simp add: moves_def lifecycle.stays)
  qed
qed

section \<open>One command\<close>

lemmas keeps_flags = raid_select_moves raid_mapdrive_moves raid_bench_moves raid_expand_moves raid_rebuild_moves volume_tests_moves
  queries_moves config_moves

lemma cmd_moves:
  "cmd_mapdrive args st = Inr (rc, st') \<Longrightarrow> same_flags st st'" "cmd_mount inp args st = Inr (rc, st') \<Longrightarrow> moves name st st'"
  "cmd_load inp args st = Inr (rc, st') \<Longrightarrow> moves ''load'' st st'"
proof -
  have r: "same_flags st st" by (simp add: same_flags_def)
  show "cmd_mapdrive args st = Inr (rc, st') \<Longrightarrow> same_flags st st'"
    using r by (auto simp: cmd_mapdrive_def raid_mapdrive_moves split: list.splits option.splits)
  show "cmd_mount inp args st = Inr (rc, st') \<Longrightarrow> moves name st st'" by (simp add: cmd_mount_def raid_mount_locked_moves)
  show "cmd_load inp args st = Inr (rc, st') \<Longrightarrow> moves ''load'' st st'" by (simp add: cmd_load_def raid_load_moves)
qed

lemma dispatch_moves:
  assumes "dispatch inp name args st = Inr (rc, st')" shows "moves name st st'"
proof -
  note f = same_flags_moves [OF raid_select_moves] same_flags_moves [OF cmd_moves(1)] same_flags_moves [OF raid_bench_moves]
    same_flags_moves [OF raid_expand_moves] same_flags_moves [OF raid_rebuild_moves] same_flags_moves [OF volume_tests_moves(1)]
    same_flags_moves [OF volume_tests_moves(2)] same_flags_moves [OF volume_tests_moves(3)] same_flags_moves [OF volume_tests_moves(4)]
    same_flags_moves [OF queries_moves(1)] same_flags_moves [OF queries_moves(2)] same_flags_moves [OF queries_moves(3)]
    same_flags_moves [OF config_moves(1)] same_flags_moves [OF config_moves(2)]
    raid_scan_locked_moves raid_init_pools_locked_moves raid_create_locked_moves raid_mirror_moves raid_cache_locked_moves cmd_moves(2)
    raid_unmount_moves cmd_moves(3) raid_purge_moves raid_destroy_moves raid_simulate_moves raid_quick_moves wizard_run_moves raid_cleanup_moves
  show ?thesis
    using assms unfolding dispatch_def by (elim if_elim) (auto simp: and_then_eq intro: moves_refl f)
qed

end
