(* ===== verification/Sessions.thy ===== *)
theory Sessions
  imports Lifecycle
begin

text \<open>
  Sequences of commands from the start of the program: the invariant of \<open>Lifecycle\<close> in every state that is
  reached, what a refused command leaves alone, and where no command leads out.
\<close>

section \<open>Sessions\<close>

text \<open>The state the program starts in, and what \<^verbatim>\<open>raid_init\<close> makes of it.\<close>

definition blank_service :: "ptr list \<Rightarrow> string option \<Rightarrow> sys \<Rightarrow> service" where
  "blank_service loaded file s = \<lparr>as_disks = [], as_pool_sizes_mb = replicate MAX_DISKS 0, as_physical_disks = [], as_loaded_disks = loaded,
     as_volume = zero_volume, as_volume_valid = False, as_cache_on = False, as_cache_mb = 0, as_flush_thread = False,
     as_state = STATE_DISCONNECTED, as_mounted = False, as_appdata_path = [],
     as_config = \<lparr>cf_version = 0, cf_disks = [], cf_cache_mb = 0, cf_pool_mb = 0, cf_mount_letter = CHR 0x00, cf_auto_bench = False,
       cf_theme = 0, cf_language = [], cf_auto_restore = False, cf_auto_mount = False, cf_first_run = False\<rparr>,
     sv_devices = [], sv_ctx = zero_ctx, sv_events = [], sv_config_file = file, sv_sys = s\<rparr>"

text \<open>Each command finds surroundings of its own.\<close>

inductive session :: "service \<Rightarrow> service \<Rightarrow> bool" where
  start: "session st st"
| command: "session st st1 \<Longrightarrow> cmd_process inp input st1 = Inr (goes_on, st2) \<Longrightarrow> session st st2"
| automatic: "session st st1 \<Longrightarrow> cmd_process_auto inp input st1 = Inr st2 \<Longrightarrow> session st st2"

lemma cmd_process_dispatch:
  assumes "cmd_process inp input st = Inr (goes_on, st')"
  shows "st' = st \<or> (\<exists>name args rc. dispatch inp name args st = Inr (rc, st'))"
  using assms by (auto simp: cmd_process_def and_then_eq split: list.splits if_splits)

lemma cmd_process_inv: "cmd_process inp input st = Inr (goes_on, st') \<Longrightarrow> service_inv st \<Longrightarrow> service_inv st'"
  using cmd_process_dispatch movesD(1) [OF dispatch_moves] by blast

text \<open>
  Restoring a configuration: since reading one never yields disks, starting without a command is always
  the dialogue of \<^verbatim>\<open>quick\<close>.
\<close>

lemma auto_is_quick:
  "auto_restore_or_quick inp st =
     and_then (raid_config_load inp st) (\<lambda>(_, st1). and_then (raid_quick inp st1) (\<lambda>(_, st2). Inr st2))"
proof (cases "raid_config_load inp st")
  case (Inl f)
  then show ?thesis by (simp add: auto_restore_or_quick_def)
next
  case (Inr r)
  obtain rc st1 where r: "r = (rc, st1)" by force
  then have "cf_disks (as_config st1) = []"
    using Inr config_load_no_disks by (auto simp: raid_config_load_def and_then_eq)
  then show ?thesis using Inr r by (simp add: auto_restore_or_quick_def)
qed

lemma auto_restore_inv:
  assumes "auto_restore_or_quick inp st = Inr st'" "service_inv st" shows "service_inv st'"
proof -
  obtain rc st1 rc2 where 1: "raid_config_load inp st = Inr (rc, st1)" and 2: "raid_quick inp st1 = Inr (rc2, st')"
    using assms(1) by (auto simp: auto_is_quick and_then_eq)
  show ?thesis
    using assms(2) movesD(1) [OF same_flags_moves [OF config_moves(2) [OF 1]]] movesD(1) [OF raid_quick_moves [OF 2]] by blast
qed

lemma session_inv: "session st st' \<Longrightarrow> service_inv st \<Longrightarrow> service_inv st'"
proof (induction rule: session.induct)
  case (command st st1 inp input goes_on st2)
  then show ?case using cmd_process_inv by blast
next
  case (automatic st st1 inp input st2)
  then show ?case
    using auto_restore_inv cmd_process_inv by (auto simp: cmd_process_auto_def and_then_eq split: if_splits)
qed

lemma raid_init_inv:
  assumes "raid_init inp (blank_service loaded file s) = Inr (rc, st)" "length loaded = MAX_DISKS"
  shows "service_inv st \<and> as_state st = STATE_DISCONNECTED"
  using assms by (auto simp: raid_init_def and_then_eq service_inv_def blank_service_def)

text \<open>
  C7. In every state that a session of any commands reaches from the start of the program, the
  state is never RECOVERING, at most four disks are in use, and a mounted or degraded state, a
  mounted file system and a cache that is on all come with a valid volume.
\<close>

theorem service_invariant:
  assumes "raid_init inp (blank_service loaded file s) = Inr (rc, st0)" "length loaded = MAX_DISKS" "session st0 st"
  shows "as_state st \<noteq> STATE_RECOVERING \<and> length (as_disks st) \<le> MAX_DISKS \<and>
    (as_state st \<in> {STATE_MOUNTED, STATE_DEGRADED} \<longrightarrow> as_volume_valid st) \<and>
    (as_mounted st \<longrightarrow> as_volume_valid st) \<and> (as_cache_on st \<longrightarrow> as_volume_valid st)"
  using session_inv [OF assms(3)] raid_init_inv [OF assms(1,2)] by (simp add: service_inv_def)

text \<open>The program on a machine without drives.\<close>

definition calm :: surroundings where
  "calm = \<lparr>in_os = os_good, in_env = \<lparr>en_now = 7, en_counter = 3, en_pid = 5, en_ticks = 9\<rparr>, in_new = (\<lambda>i. i), in_reports = None,
     in_passes = (\<lambda>_ _. (0, 0)), in_fixed = (\<lambda>_. False), in_rnd = (\<lambda>_. 0), in_appdata = [], in_wide = False, in_lines = []\<rparr>"

abbreviation first_service :: service where
  "first_service \<equiv> blank_service [10, 11, 12, 13] None empty_machine"

lemma foldl_same: "foldl (\<lambda>s _. s) s xs = s"
  by (induction xs) simp_all

lemma first_init: "raid_init calm first_service = Inr (RC_OK, first_service\<lparr>as_config := config_defaults, as_cache_mb := cf_cache_mb config_defaults\<rparr>)"
  by (simp add: raid_init_def config_load_def calm_def blank_service_def cleanup_bench_dirs_def foldl_same)

lemma scan_finds_nothing:
  "cmd_process calm ''scan'' st = Inr (True, st\<lparr>as_state := STATE_DISCONNECTED, sv_devices := []\<rparr>)"
proof -
  have "tokens ''scan'' = [''scan'']" by (subst tokens.simps, subst tokens.simps) (simp add: is_blank_def)
  then show ?thesis
    by (simp add: cmd_process_def dispatch_def raid_scan_locked_def device_refresh_def disk_scan_all_def calm_def Let_def)
qed

theorem service_invariant_witness:
  "\<exists>st0 st. raid_init calm first_service = Inr (RC_OK, st0) \<and> session st0 st \<and> as_state st \<noteq> STATE_RECOVERING \<and>
     length (as_disks st) \<le> MAX_DISKS"
proof -
  obtain st0 where I: "raid_init calm first_service = Inr (RC_OK, st0)" using first_init by blast
  have S: "session st0 (st0\<lparr>as_state := STATE_DISCONNECTED, sv_devices := []\<rparr>)"
    by (rule session.command [OF session.start scan_finds_nothing])
  have "length [10, 11, 12, 13 :: ptr] = MAX_DISKS" by (simp add: const)
  from service_invariant [OF I this S] I S show ?thesis by blast
qed

section \<open>Refused commands\<close>

lemma parse_ids_codes: "parse_ids n as = Inl rc \<Longrightarrow> rc \<in> {RC_ERR_INVALID_ARG, RC_ERR_INVALID_DISK}"
  by (induction n "as" rule: parse_ids.induct) (auto split: option.splits if_splits sum.splits)

lemma ensure_drive_mapped_codes: "ensure_drive_mapped devs di s = Inr (rc, s') \<Longrightarrow> rc \<in> {RC_OK, RC_ERR_INVALID_DISK}"
  by (auto simp: ensure_drive_mapped_def Let_def and_then_eq split: option.splits if_splits)

lemma init_pools_from_pairs_codes:
  "init_pools_from_pairs devs as pp s = Inr (rc, pp', s') \<Longrightarrow> rc \<in> {RC_OK, RC_ERR_INVALID_ARG, RC_ERR_INVALID_DISK}"
proof (induction devs "as" pp s rule: init_pools_from_pairs.induct)
  case (2 devs a "as" pp s)
  show ?case
    using "2.prems" "2.IH"
    by (auto simp: and_then_eq split: if_splits list.splits option.splits dest: ensure_drive_mapped_codes)
qed simp

lemma map_and_size_codes:
  "map_and_size devs f i is pp s = Inr (rc, pp', s') \<Longrightarrow> rc \<in> {RC_OK, RC_ERR_INVALID_DISK}"
proof (induction devs f i "is" pp s rule: map_and_size.induct)
  case (2 devs f i di "is" pp s)
  show ?case using "2.prems" "2.IH" by (auto simp: and_then_eq split: if_splits)
qed simp

lemma gather_pools_codes:
  "gather_pools argv st = Inr (rc, pp, s) \<Longrightarrow> rc \<in> {RC_OK, RC_ERR_INVALID_ARG, RC_ERR_INVALID_DISK}"
  using init_pools_from_pairs_codes map_and_size_codes parse_ids_codes
  by (fastforce simp: gather_pools_def init_pools_all_selected_with_size_def init_pools_from_ids_def init_pools_from_selected_def
      and_then_eq Let_def split: if_splits option.splits sum.splits)

lemma init_pools_create_files_codes:
  "init_pools_create_files inp pp st = (rc, st') \<Longrightarrow> rc \<in> {RC_OK, RC_ERR_INVALID_DISK, RC_ERR_ROLLBACK}"
  by (induction inp pp st rule: init_pools_create_files.induct) (auto split: option.splits if_splits prod.splits bool.splits)

text \<open>No call but \<open>quick\<close> has done anything when it answers that the state is wrong.\<close>

lemma raid_init_pools_refused:
  assumes "raid_init_pools_locked inp argv st = Inr (RC_ERR_INVALID_STATE, st')" shows "st' = st"
proof (cases "as_state st \<in> {STATE_DISCOVERED, STATE_UNMOUNTED} \<and> sv_devices st \<noteq> []")
  case False
  then show ?thesis using assms by (auto simp: raid_init_pools_locked_def split: if_splits)
next
  case True
  then have g: "\<not> (as_state st \<noteq> STATE_DISCOVERED \<and> as_state st \<noteq> STATE_UNMOUNTED)" "sv_devices st \<noteq> []" by auto
  from assms obtain rc pp s where G: "gather_pools argv (emptied inp st) = Inr (rc, pp, s)"
    and r: "(if rc \<noteq> RC_OK then Inr (rc, (emptied inp st)\<lparr>sv_sys := s\<rparr>)
      else if length pp < MIN_DISKS \<or> MAX_DISKS < length pp then Inr (RC_ERR_INVALID_ARG, (emptied inp st)\<lparr>sv_sys := s\<rparr>)
      else case init_pools_create_files inp pp ((emptied inp st)\<lparr>sv_sys := s, as_disks := []\<rparr>) of (rc2, st2) \<Rightarrow>
        if rc2 \<noteq> RC_OK then Inr (rc2, st2)
        else if MIN_DISKS \<le> length (as_disks st2) then Inr (RC_OK, st2\<lparr>as_state := STATE_INITIALIZED\<rparr>)
        else Inr (RC_ERR_IO, st2)) = (Inr (RC_ERR_INVALID_STATE, st') :: reply)"
    unfolding raid_init_pools_locked_def Let_def if_not_P [OF g(1)] if_not_P [OF g(2)] emptied_def [symmetric] and_then_eq by auto
  show ?thesis
    using r gather_pools_codes [OF G] init_pools_create_files_codes
    by (auto split: if_splits prod.splits) fastforce
qed

lemma refused_calls:
  "raid_scan_locked inp st = Inr (RC_ERR_INVALID_STATE, st') \<Longrightarrow> st' = st"
  "raid_select argv st = Inr (RC_ERR_INVALID_STATE, st') \<Longrightarrow> st' = st"
  "raid_mapdrive i l st = Inr (RC_ERR_INVALID_STATE, st') \<Longrightarrow> st' = st"
  "raid_bench inp argv st = Inr (RC_ERR_INVALID_STATE, st') \<Longrightarrow> st' = st"
  "raid_create_locked inp st = Inr (RC_ERR_INVALID_STATE, st') \<Longrightarrow> st' = st"
  "raid_mirror inp st = Inr (RC_ERR_INVALID_STATE, st') \<Longrightarrow> st' = st"
  "raid_expand inp argv st = Inr (RC_ERR_INVALID_STATE, st') \<Longrightarrow> st' = st"
  "raid_mount_locked inp c st = Inr (RC_ERR_INVALID_STATE, st') \<Longrightarrow> st' = st"
  "raid_unmount inp st = Inr (RC_ERR_INVALID_STATE, st') \<Longrightarrow> st' = st"
  "raid_load inp r st = Inr (RC_ERR_INVALID_STATE, st') \<Longrightarrow> st' = st"
  "raid_destroy inp st = Inr (RC_ERR_INVALID_STATE, st') \<Longrightarrow> st' = st"
  "raid_purge inp st = Inr (RC_ERR_INVALID_STATE, st') \<Longrightarrow> st' = st"
  by (auto simp: raid_scan_locked_def raid_select_def raid_mapdrive_def raid_bench_def raid_create_locked_def raid_mirror_def raid_expand_def
      raid_mount_locked_def raid_unmount_def raid_load_def raid_destroy_def raid_purge_def and_then_eq require_def Let_def
      dest!: parse_ids_codes split: if_splits sum.splits prod.splits)

lemma refused_calls_more:
  "raid_rebuild inp argv st = Inr (RC_ERR_INVALID_STATE, st') \<Longrightarrow> st' = st"
  "raid_test inp st = Inr (RC_ERR_INVALID_STATE, st') \<Longrightarrow> st' = st"
  "raid_random inp argv st = Inr (RC_ERR_INVALID_STATE, st') \<Longrightarrow> st' = st"
  "raid_benchfs inp argv st = Inr (RC_ERR_INVALID_STATE, st') \<Longrightarrow> st' = st"
  "raid_benchraw inp argv st = Inr (RC_ERR_INVALID_STATE, st') \<Longrightarrow> st' = st"
  "raid_check inp st = Inr (RC_ERR_INVALID_STATE, st') \<Longrightarrow> st' = st"
  "raid_metadata inp argv st = Inr (RC_ERR_INVALID_STATE, st') \<Longrightarrow> st' = st"
  "raid_events inp st = Inr (RC_ERR_INVALID_STATE, st') \<Longrightarrow> st' = st"
  "raid_simulate argv st = Inr (RC_ERR_INVALID_STATE, st') \<Longrightarrow> st' = st"
  "raid_config_save_locked inp st = Inr (RC_ERR_INVALID_STATE, st') \<Longrightarrow> st' = st"
  "raid_config_load inp st = Inr (RC_ERR_INVALID_STATE, st') \<Longrightarrow> st' = st"
  by (auto simp: raid_rebuild_def raid_test_def raid_random_def raid_benchfs_def raid_benchraw_def raid_check_def raid_metadata_def
      raid_events_def raid_simulate_def raid_config_save_locked_def raid_config_load_def and_then_eq require_def Let_def
      split: if_splits list.splits option.splits prod.splits)

lemma raid_cache_refused: "raid_cache_locked inp argv st = Inr (RC_ERR_INVALID_STATE, st') \<Longrightarrow> st' = st"
  unfolding raid_cache_locked_def require_def Let_def
  by (elim if_elim) (auto simp: and_then_eq split: option.splits prod.splits bool.splits)

lemma cmd_refused:
  "cmd_mapdrive args st = Inr (RC_ERR_INVALID_STATE, st') \<Longrightarrow> st' = st"
  "cmd_mount inp args st = Inr (RC_ERR_INVALID_STATE, st') \<Longrightarrow> st' = st"
  "cmd_load inp args st = Inr (RC_ERR_INVALID_STATE, st') \<Longrightarrow> st' = st"
  using refused_calls(3) by (auto simp: cmd_mapdrive_def cmd_mount_def cmd_load_def refused_calls split: list.splits option.splits)

text \<open>
  C23. A command other than quick that answers that the state is wrong has changed nothing: not a
  disk, a file, an event, the configuration nor the number of system calls made.
\<close>

theorem refused_commands_change_nothing:
  assumes "dispatch inp name args st = Inr (RC_ERR_INVALID_STATE, st')" "name \<noteq> ''quick''"
  shows "st' = st"
  using assms unfolding dispatch_def
  by (elim if_elim) (auto simp: and_then_eq dest: refused_calls refused_calls_more raid_init_pools_refused raid_cache_refused cmd_refused)

theorem refused_commands_change_nothing_witness:
  "\<exists>st'. dispatch calm ''unmount'' [] first_service = Inr (RC_ERR_INVALID_STATE, st') \<and> st' = first_service"
proof -
  have "dispatch calm ''unmount'' [] first_service = Inr (RC_ERR_INVALID_STATE, first_service)"
    by (simp add: dispatch_def raid_unmount_def require_def blank_service_def)
  from refused_commands_change_nothing [OF this] this show ?thesis by blast
qed

section \<open>The moves of a command\<close>

text \<open>
  C6. Whatever a command finds (its arguments, what the system calls answer, what the user types,
  the drives there are), it makes at most a move of the program's state machine: the states before
  and after are related by the step relation of that command. The relation is the one the guards
  and assignments of raid_service.c make; where the table of states in
  docs/architecture/SYSTEM_MAP.md says otherwise (purge, destroy, mount, unmount, create, rebuild)
  the divergence is recorded as a finding.
\<close>

theorem commands_follow_the_state_machine:
  "dispatch inp name args st = Inr (rc, st') \<Longrightarrow> lifecycle name (as_state st) (as_state st')"
  using movesD(2) [OF dispatch_moves] .

theorem commands_follow_the_state_machine_witness:
  "\<exists>st'. dispatch calm ''init'' [] first_service = Inr (RC_ERR_INVALID_STATE, st') \<and> lifecycle ''init'' (as_state first_service) (as_state st')"
proof -
  have "dispatch calm ''init'' [] first_service = Inr (RC_ERR_INVALID_STATE, first_service)"
    by (simp add: dispatch_def raid_init_pools_locked_def blank_service_def)
  from commands_follow_the_state_machine [OF this] this show ?thesis by blast
qed

theorem degraded_is_a_trap:
  assumes "dispatch inp name args st = Inr (rc, st')" "as_state st = STATE_DEGRADED" "name \<notin> {''scan'', ''quick'', ''cleanup''}"
  shows "as_state st' = STATE_DEGRADED"
  using movesD(2) [OF dispatch_moves [OF assms(1)]] assms(2,3) by (auto simp: lifecycle_from_degraded)

theorem degraded_is_a_trap_witness:
  "\<exists>st'. dispatch calm ''unmount'' [] (first_service\<lparr>as_state := STATE_DEGRADED\<rparr>) = Inr (RC_ERR_INVALID_STATE, st') \<and>
     as_state st' = STATE_DEGRADED"
proof -
  have d: "dispatch calm ''unmount'' [] (first_service\<lparr>as_state := STATE_DEGRADED\<rparr>) =
      Inr (RC_ERR_INVALID_STATE, first_service\<lparr>as_state := STATE_DEGRADED\<rparr>)"
    by (simp add: dispatch_def raid_unmount_def require_def)
  from degraded_is_a_trap [OF d] d show ?thesis by simp
qed

end
