(* ===== verification/FirstVolume.thy ===== *)
theory FirstVolume
  imports Sessions VolumeLife
begin

text \<open>
  The way from a scan to a first volume: \<^verbatim>\<open>init\<close> with pairs of a disk and a size, then \<^verbatim>\<open>create\<close>, through the
  parser, the drive map, the pool files, the layout, the workers and the superblock; and what
  \<^verbatim>\<open>check\<close> does next.
\<close>

section \<open>Arguments\<close>

definition pair_arg :: "nat \<times> nat \<Rightarrow> string" where
  "pair_arg p = dec_str (fst p) @ '':'' @ dec_str (snd p)"

lemma dec_str_colon: "c \<in> set (dec_str n) \<Longrightarrow> c \<noteq> CHR '':''"
  using dec_str_digits [of n] by (auto simp: is_digit_def)

lemma split_pair:
  "dropWhile (\<lambda>c. c \<noteq> CHR '':'') (pair_arg p) = CHR '':'' # dec_str (snd p)"
  "takeWhile (\<lambda>c. c \<noteq> CHR '':'') (pair_arg p) = dec_str (fst p)"
  using dec_str_colon [of _ "fst p"] by (simp_all add: pair_arg_def dropWhile_append3 takeWhile_append2)

lemma parsed_number:
  "n < 2 ^ 32 \<Longrightarrow> safe_atou32 (dec_str n) = Some n" "n < 2 ^ 64 \<Longrightarrow> safe_atou64 (dec_str n) = Some n"
  using strtoul10_digits [OF dec_str_digits dec_str_not_Nil, of n 32 "[]"] strtoul10_digits [OF dec_str_digits dec_str_not_Nil, of n 64 "[]"]
  by (simp_all add: safe_atou32_def safe_atou64_def u32_id)

section \<open>Mapping the drives\<close>

text \<open>A drive as the scan leaves it, with room for the note that mapping adds to its model.\<close>

definition fresh_drive :: "DISK_INFO \<Rightarrow> bool" where
  "fresh_drive d \<longleftrightarrow> d_file_path d = [] \<and> 65 \<le> (of_char (drive_char d) :: nat) \<and> (of_char (drive_char d) :: nat) \<le> 90 \<and>
     length (d_model d) + 5 < MAX_MODEL_LEN \<and> disk_speed d < 2 ^ 32"

definition mapped :: "DISK_INFO \<Rightarrow> DISK_INFO" where
  "mapped d = d\<lparr>d_drive_letter := pool_root (drive_char d), d_file_path := pool_root (drive_char d) @ ''stripe_pool.dat'',
     d_model := take 255 (d_model d @ '' ('' @ [drive_char d] @ '':)'')\<rparr>"

lemma mapped_fits: "fresh_drive d \<Longrightarrow> \<not> MAX_MODEL_LEN \<le> length (take 255 (d_model d @ '' ('' @ [drive_char d] @ '':)''))"
  by (auto simp: fresh_drive_def const min_def)

lemma ensure_fresh_drive:
  assumes "i < length devs" "fresh_drive (s_heap s (devs ! i))"
  shows "ensure_drive_mapped devs i s = Inr (RC_OK, update_disk (devs ! i) mapped (tick s))"
  using assms mapped_fits [of "s_heap s (devs ! i)"]
  by (simp add: ensure_drive_mapped_def device_get_def device_map_drive_def disk_map_drive_def fresh_drive_def Let_def
      update_disk_def tick_def mapped_def)

lemma mapped_fields [simp]:
  "disk_speed (mapped d) = disk_speed d" "drive_char (mapped d) = drive_char d"
  "d_file_path (mapped d) = pool_root (drive_char d) @ ''stripe_pool.dat''" "d_drive_letter (mapped d) = pool_root (drive_char d)"
  by (simp_all add: mapped_def disk_speed_def drive_char_def pool_root_def)

text \<open>The pairs that are accepted: different disks, with sizes of a gigabyte at least.\<close>

definition good_pair :: "ptr list \<Rightarrow> sys \<Rightarrow> nat \<times> nat \<Rightarrow> bool" where
  "good_pair devs s p \<longleftrightarrow> fst p < length devs \<and> fst p < 2 ^ 32 \<and> 1024 \<le> snd p \<and> snd p < 2 ^ 32 \<and> fresh_drive (s_heap s (devs ! fst p))"

abbreviation pair_disks :: "ptr list \<Rightarrow> (nat \<times> nat) list \<Rightarrow> ptr list" where
  "pair_disks devs ps \<equiv> map (\<lambda>p. devs ! fst p) ps"

lemma init_pools_from_good_pairs:
  "\<forall>p \<in> set ps. good_pair devs s p \<Longrightarrow> distinct (pair_disks devs ps) \<Longrightarrow> length pp + length ps \<le> MAX_DISKS \<Longrightarrow>
    \<exists>s'. init_pools_from_pairs devs (map pair_arg ps) pp s = Inr (RC_OK, pp @ ps, s') \<and>
      s_heap s' = (\<lambda>d. if d \<in> set (pair_disks devs ps) then mapped (s_heap s d) else s_heap s d)"
proof (induction ps arbitrary: pp s)
  case (Cons p ps)
  have g: "good_pair devs s p" using Cons.prems by simp
  note G = g [unfolded good_pair_def]
  let ?d = "devs ! fst p" and ?s1 = "update_disk (devs ! fst p) mapped (tick s)"
  have h: "s_heap ?s1 = (s_heap s)(?d := mapped (s_heap s ?d))" by (simp add: update_disk_def tick_def)
  have "good_pair devs ?s1 q" if "q \<in> set ps" for q
  proof -
    have "devs ! fst q \<noteq> ?d" using Cons.prems(2) that by (simp add: image_iff) metis
    then show ?thesis using Cons.prems(1) that h by (simp add: good_pair_def)
  qed
  with Cons.IH [of ?s1 "pp @ [p]"] Cons.prems
  obtain s' where S: "init_pools_from_pairs devs (map pair_arg ps) (pp @ [p]) ?s1 = Inr (RC_OK, (pp @ [p]) @ ps, s')"
    "s_heap s' = (\<lambda>d. if d \<in> set (pair_disks devs ps) then mapped (s_heap ?s1 d) else s_heap ?s1 d)" by auto
  have "init_pools_from_pairs devs (map pair_arg (p # ps)) pp s = init_pools_from_pairs devs (map pair_arg ps) (pp @ [p]) ?s1"
    using G Cons.prems(3) ensure_fresh_drive [of "fst p" devs s] parsed_number [of "fst p"] parsed_number [of "snd p"]
    by (simp add: split_pair)
  moreover have "s_heap s' = (\<lambda>d. if d \<in> set (pair_disks devs (p # ps)) then mapped (s_heap s d) else s_heap s d)"
    using Cons.prems(2) unfolding S(2) h by (auto simp: fun_eq_iff)
  ultimately show ?case using S(1) by simp
qed simp

section \<open>Making the pools\<close>

definition with_pool :: "nat \<Rightarrow> DISK_INFO \<Rightarrow> DISK_INFO" where
  "with_pool mb d = d\<lparr>d_pool_bytes := mb * 1024 * 1024\<rparr>"

lemma with_pool_fields [simp]:
  "disk_speed (with_pool mb d) = disk_speed d" "drive_char (with_pool mb d) = drive_char d"
  "d_file_path (with_pool mb d) = d_file_path d" "d_drive_letter (with_pool mb d) = d_drive_letter d"
  "d_pool_bytes (with_pool mb d) = mb * 1024 * 1024"
  by (simp_all add: with_pool_def disk_speed_def drive_char_def)

lemma create_pool_good:
  assumes "all_good os" "d_file_path (s_heap s d) \<noteq> []" "0 < mb" "mb < 2 ^ 32"
  shows "\<exists>s'. volume_create_pool_file os d mb s = (True, s') \<and> s_heap s' = (s_heap s)(d := with_pool mb (s_heap s d)) \<and>
    w_media s' = (w_media s)(d_file_path (s_heap s d) := (\<lambda>_. 0))"
proof -
  have n: "u64 (u64 (mb * 1024) * 1024) = mb * 1024 * 1024" using assms by (simp add: u64_def)
  have ok: "validate_pool_size (mb * 1024 * 1024) = RC_OK" unfolding validate_pool_size_ok using assms by (simp add: const)
  have r: "sector_round (mb * 1024 * 1024) = mb * 1024 * 1024" by (simp add: sector_round_def is_sector_aligned_def const)
  show ?thesis
    using assms n ok r
    by (simp add: volume_create_pool_file_def pool_file_create_def Let_def update_disk_def tick_def with_pool_def)
qed

lemma init_pools_create_files_good:
  assumes "all_good (in_os inp)"
  shows "\<forall>p \<in> set ps. fst p < length (sv_devices st) \<and> 0 < snd p \<and> snd p < 2 ^ 32 \<and>
      d_file_path (s_heap (sv_sys st) (sv_devices st ! fst p)) \<noteq> [] \<and> d_drive_letter (s_heap (sv_sys st) (sv_devices st ! fst p)) \<noteq> [] \<Longrightarrow>
    distinct (pair_disks (sv_devices st) ps) \<Longrightarrow>
    \<exists>s' sizes. init_pools_create_files inp ps st =
        (RC_OK, st\<lparr>sv_sys := s', as_pool_sizes_mb := sizes, as_disks := as_disks st @ pair_disks (sv_devices st) ps\<rparr>) \<and>
      (\<forall>d. d \<notin> set (pair_disks (sv_devices st) ps) \<longrightarrow> s_heap s' d = s_heap (sv_sys st) d) \<and>
      (\<forall>p \<in> set ps. s_heap s' (sv_devices st ! fst p) = with_pool (snd p) (s_heap (sv_sys st) (sv_devices st ! fst p))) \<and>
      (\<forall>path. (w_media (sv_sys st) path = (\<lambda>_. 0) \<longrightarrow> w_media s' path = (\<lambda>_. 0))) \<and>
      (\<forall>p \<in> set ps. w_media s' (d_file_path (s_heap (sv_sys st) (sv_devices st ! fst p))) = (\<lambda>_. 0))"
proof (induction ps arbitrary: st)
  case Nil
  then show ?case by (intro exI [of _ "sv_sys st"] exI [of _ "as_pool_sizes_mb st"]) simp
next
  case (Cons p ps)
  obtain di mb where p: "p = (di, mb)" by force
  let ?d = "sv_devices st ! di"
  have P: "di < length (sv_devices st)" "0 < mb" "mb < 2 ^ 32" "d_file_path (s_heap (sv_sys st) ?d) \<noteq> []"
    "d_drive_letter (s_heap (sv_sys st) ?d) \<noteq> []"
    using Cons.prems(1) p by auto
  obtain s1 where C: "volume_create_pool_file (in_os inp) ?d mb (sv_sys st) = (True, s1)"
    "s_heap s1 = (s_heap (sv_sys st))(?d := with_pool mb (s_heap (sv_sys st) ?d))"
    "w_media s1 = (w_media (sv_sys st))(d_file_path (s_heap (sv_sys st) ?d) := (\<lambda>_. 0))"
    using create_pool_good [OF assms P(4,2,3)] by blast
  let ?st1 = "st\<lparr>sv_sys := s1, as_pool_sizes_mb := (as_pool_sizes_mb st)[length (as_disks st) := mb], as_disks := as_disks st @ [?d]\<rparr>"
  have other: "sv_devices st ! fst q \<noteq> ?d" if "q \<in> set ps" for q
    using Cons.prems(2) that p by (simp add: image_iff) metis
  have "\<forall>q \<in> set ps. fst q < length (sv_devices ?st1) \<and> 0 < snd q \<and> snd q < 2 ^ 32 \<and>
      d_file_path (s_heap (sv_sys ?st1) (sv_devices ?st1 ! fst q)) \<noteq> [] \<and> d_drive_letter (s_heap (sv_sys ?st1) (sv_devices ?st1 ! fst q)) \<noteq> []"
    using Cons.prems(1) other C(2) by simp
  from Cons.IH [OF this] Cons.prems(2)
  obtain s' sizes where S: "init_pools_create_files inp ps ?st1 =
      (RC_OK, ?st1\<lparr>sv_sys := s', as_pool_sizes_mb := sizes, as_disks := as_disks ?st1 @ pair_disks (sv_devices ?st1) ps\<rparr>)"
    "\<forall>d. d \<notin> set (pair_disks (sv_devices st) ps) \<longrightarrow> s_heap s' d = s_heap s1 d"
    "\<forall>q \<in> set ps. s_heap s' (sv_devices st ! fst q) = with_pool (snd q) (s_heap s1 (sv_devices st ! fst q))"
    "\<forall>path. w_media s1 path = (\<lambda>_. 0) \<longrightarrow> w_media s' path = (\<lambda>_. 0)"
    "\<forall>q \<in> set ps. w_media s' (d_file_path (s_heap s1 (sv_devices st ! fst q))) = (\<lambda>_. 0)" by auto
  have run: "init_pools_create_files inp (p # ps) st =
      (RC_OK, st\<lparr>sv_sys := s', as_pool_sizes_mb := sizes, as_disks := as_disks st @ pair_disks (sv_devices st) (p # ps)\<rparr>)"
    using P C(1) S(1) by (simp add: p device_get_def)
  have own: "s_heap s' ?d = with_pool mb (s_heap (sv_sys st) ?d)"
    using S(2) C(2) Cons.prems(2) p by simp
  have "\<forall>q \<in> set (p # ps). s_heap s' (sv_devices st ! fst q) = with_pool (snd q) (s_heap (sv_sys st) (sv_devices st ! fst q))"
    using own S(3) C(2) other p by simp
  moreover have "\<forall>d. d \<notin> set (pair_disks (sv_devices st) (p # ps)) \<longrightarrow> s_heap s' d = s_heap (sv_sys st) d"
    using S(2) C(2) p by simp
  moreover have "\<forall>path. w_media (sv_sys st) path = (\<lambda>_. 0) \<longrightarrow> w_media s' path = (\<lambda>_. 0)"
    using S(4) C(3) by simp
  moreover have "\<forall>q \<in> set (p # ps). w_media s' (d_file_path (s_heap (sv_sys st) (sv_devices st ! fst q))) = (\<lambda>_. 0)"
    using S(4,5) C(2,3) other p by simp
  ultimately show ?case using run by (intro exI [of _ s'] exI [of _ sizes]) simp
qed

section \<open>From init to a mounted volume\<close>

text \<open>Pairs that make a volume: two to four good ones, on different drives.\<close>

definition good_pairs :: "(nat \<times> nat) list \<Rightarrow> service \<Rightarrow> bool" where
  "good_pairs ps st \<longleftrightarrow> MIN_DISKS \<le> length ps \<and> length ps \<le> MAX_DISKS \<and> (\<forall>p \<in> set ps. good_pair (sv_devices st) (sv_sys st) p) \<and>
     distinct (map (\<lambda>p. drive_char (s_heap (sv_sys st) (sv_devices st ! fst p))) ps)"

lemma good_pairs_distinct: "good_pairs ps st \<Longrightarrow> distinct (pair_disks (sv_devices st) ps)"
  using distinct_map [of "\<lambda>d. drive_char (s_heap (sv_sys st) d)" "pair_disks (sv_devices st) ps"]
  by (simp add: good_pairs_def comp_def)

lemma init_good_pairs:
  assumes good: "all_good (in_os inp)" and state: "as_state st = STATE_DISCOVERED" and ps: "good_pairs ps st"
  shows "\<exists>s' sizes. raid_init_pools_locked inp (map pair_arg ps) st =
      Inr (RC_OK, st\<lparr>sv_sys := s', as_pool_sizes_mb := sizes, as_disks := pair_disks (sv_devices st) ps, as_state := STATE_INITIALIZED\<rparr>) \<and>
    usable (pair_disks (sv_devices st) ps) s' \<and>
    (\<forall>p \<in> set ps. s_heap s' (sv_devices st ! fst p) = with_pool (snd p) (mapped (s_heap (sv_sys st) (sv_devices st ! fst p)))) \<and>
    (\<forall>d \<in> set (pair_disks (sv_devices st) ps). w_media s' (d_file_path (s_heap s' d)) = (\<lambda>_. 0))"
proof -
  let ?devs = "sv_devices st" and ?s = "sv_sys st"
  note G = ps [unfolded good_pairs_def]
  note D = good_pairs_distinct [OF ps]
  have len: "length [] + length ps \<le> MAX_DISKS" using G by simp
  obtain s1 where M: "init_pools_from_pairs ?devs (map pair_arg ps) [] ?s = Inr (RC_OK, ps, s1)"
    "s_heap s1 = (\<lambda>d. if d \<in> set (pair_disks ?devs ps) then mapped (s_heap ?s d) else s_heap ?s d)"
    using init_pools_from_good_pairs [OF _ D len] G by auto
  have h1: "s_heap s1 (?devs ! fst p) = mapped (s_heap ?s (?devs ! fst p))" if "p \<in> set ps" for p
    using that by (simp add: M(2))
  have ne: "ps \<noteq> []" using G by (auto simp: const)
  then obtain p0 where p0: "p0 \<in> set ps" by (cases ps) auto
  then have dev: "?devs \<noteq> []" using G by (auto simp: good_pair_def)
  have colon: "list_ex (\<lambda>a. CHR '':'' \<in> set a) (map pair_arg ps)"
    using p0 unfolding list_ex_iff by (intro bexI [of _ "pair_arg p0"]) (simp_all add: pair_arg_def)
  have gather: "gather_pools (map pair_arg ps) st = Inr (RC_OK, ps, s1)"
    using colon M(1) by (simp add: gather_pools_def)
  let ?st1 = "st\<lparr>sv_sys := s1, as_disks := []\<rparr>"
  have "\<forall>p \<in> set ps. fst p < length (sv_devices ?st1) \<and> 0 < snd p \<and> snd p < 2 ^ 32 \<and>
      d_file_path (s_heap (sv_sys ?st1) (sv_devices ?st1 ! fst p)) \<noteq> [] \<and> d_drive_letter (s_heap (sv_sys ?st1) (sv_devices ?st1 ! fst p)) \<noteq> []"
    using G h1 by (auto simp: good_pair_def pool_root_def)
  from init_pools_create_files_good [OF good this] D
  obtain s' sizes where F: "init_pools_create_files inp ps ?st1 =
      (RC_OK, ?st1\<lparr>sv_sys := s', as_pool_sizes_mb := sizes, as_disks := pair_disks ?devs ps\<rparr>)"
    "\<forall>p \<in> set ps. s_heap s' (?devs ! fst p) = with_pool (snd p) (s_heap s1 (?devs ! fst p))"
    "\<forall>p \<in> set ps. w_media s' (d_file_path (s_heap s1 (?devs ! fst p))) = (\<lambda>_. 0)" by auto
  have h: "s_heap s' (?devs ! fst p) = with_pool (snd p) (mapped (s_heap ?s (?devs ! fst p)))" if "p \<in> set ps" for p
    using F(2) h1 that by simp
  have run: "raid_init_pools_locked inp (map pair_arg ps) st =
      Inr (RC_OK, st\<lparr>sv_sys := s', as_pool_sizes_mb := sizes, as_disks := pair_disks ?devs ps, as_state := STATE_INITIALIZED\<rparr>)"
    using state dev gather F(1) G by (simp add: raid_init_pools_locked_def Let_def)
  have paths: "map (\<lambda>d. d_file_path (s_heap s' d)) (pair_disks ?devs ps) =
      map (\<lambda>c. pool_root c @ ''stripe_pool.dat'') (map (\<lambda>p. drive_char (s_heap ?s (?devs ! fst p))) ps)"
    using h by simp
  have "inj (\<lambda>c. pool_root c @ ''stripe_pool.dat'')" by (rule injI) (simp add: pool_root_def)
  from inj_on_subset [OF this subset_UNIV]
  have dp: "distinct (map (\<lambda>d. d_file_path (s_heap s' d)) (pair_disks ?devs ps))"
    using G unfolding paths distinct_map [of "\<lambda>c. pool_root c @ ''stripe_pool.dat''"] by simp
  have np: "\<forall>d \<in> set (pair_disks ?devs ps). d_file_path (s_heap s' d) \<noteq> []" using h by (simp add: pool_root_def)
  have ok: "disks_ok (s_heap s') (pair_disks ?devs ps)"
    using G h by (auto simp: disks_ok_def good_pair_def fresh_drive_def)
  have use: "usable (pair_disks ?devs ps) s'"
    using G D dp np ok by (simp add: usable_def)
  have zero: "\<forall>d \<in> set (pair_disks ?devs ps). w_media s' (d_file_path (s_heap s' d)) = (\<lambda>_. 0)"
    using F(2,3) h h1 by simp
  show ?thesis using run use h zero by blast
qed

text \<open>A volume on open files of zeros reads as zeros.\<close>

lemma volume_of_zeros:
  assumes g: "stripe_good cap su vol s" and z: "\<forall>d \<in> set (disk_ptrs vol). \<exists>p. d_handle (s_heap s d) = FILE_HANDLE p \<and> w_media s p = (\<lambda>_. 0)"
    and x: "x < cap"
  shows "volume_byte vol s x = 0"
proof -
  have wf: "wf_layout vol" and c: "x < v_virtual_total_bytes vol" using g x by (simp_all add: stripe_good_def)
  let ?i = "fst (byte_addr vol x)"
  have "?i < v_disk_count vol" using byte_addr_disk [OF wf c] .
  then have "vdisk vol ?i \<in> set (disk_ptrs vol)" by (simp add: disk_ptrs_def)
  then obtain p where "d_handle (s_heap s (vdisk vol ?i)) = FILE_HANDLE p" "w_media s p = (\<lambda>_. 0)" using z by blast
  then show ?thesis by (simp add: volume_byte_def disk_byte_def disk_path_def)
qed

lemma first_volume_run:
  assumes good: "all_good (in_os inp)" "all_good (in_os inp2)" and state: "as_state st = STATE_DISCOVERED"
    and blank: "blank (as_volume st)" and ps: "good_pairs ps st"
  shows "\<exists>st1 st2 used. dispatch inp ''init'' (map pair_arg ps) st = Inr (RC_OK, st1) \<and> as_state st1 = STATE_INITIALIZED \<and>
    dispatch inp2 ''create'' [] st1 = Inr (RC_OK, st2) \<and> as_state st2 = STATE_MOUNTED \<and>
    disk_ptrs (as_volume st2) = pair_disks (sv_devices st) ps \<and>
    stripe_good (sum_list used) DEFAULT_STRIPE_UNIT (as_volume st2) (sv_sys st2) \<and> length used = length ps \<and> cells (as_volume st2) = used_cells 0 used \<and>
    (\<forall>k < length ps. used ! k \<le> snd (ps ! k) * 1024 * 1024 \<and> snd (ps ! k) * 1024 * 1024 <
       used ! k + call_ratios (s_heap (sv_sys st)) (pair_disks (sv_devices st) ps) ! k * DEFAULT_STRIPE_UNIT) \<and>
    (\<forall>x < sum_list used. volume_byte (as_volume st2) (sv_sys st2) x = 0) \<and>
    (\<forall>d \<in> set (disk_ptrs (as_volume st2)). 4 \<le> length (d_drive_letter (s_heap (sv_sys st2) d)))"
proof -
  let ?ds = "pair_disks (sv_devices st) ps"
  obtain s' sizes where I: "raid_init_pools_locked inp (map pair_arg ps) st =
      Inr (RC_OK, st\<lparr>sv_sys := s', as_pool_sizes_mb := sizes, as_disks := ?ds, as_state := STATE_INITIALIZED\<rparr>)"
    "usable ?ds s'" "\<forall>p \<in> set ps. s_heap s' (sv_devices st ! fst p) = with_pool (snd p) (mapped (s_heap (sv_sys st) (sv_devices st ! fst p)))"
    "\<forall>d \<in> set ?ds. w_media s' (d_file_path (s_heap s' d)) = (\<lambda>_. 0)"
    using init_good_pairs [OF good(1) state ps] by blast
  define st1 where "st1 = st\<lparr>sv_sys := s', as_pool_sizes_mb := sizes, as_disks := ?ds, as_state := STATE_INITIALIZED\<rparr>"
  obtain vol' s2 evs used where C: "volume_create (in_os inp2) (in_env inp2) (as_volume st) ?ds s' = Inr (True, vol', s2, evs)"
    "disk_ptrs vol' = ?ds" "stripe_good (sum_list used) DEFAULT_STRIPE_UNIT vol' s2" "length used = length ?ds"
    "\<forall>d < length ?ds. used ! d \<le> d_pool_bytes (s_heap s' (?ds ! d)) \<and>
       d_pool_bytes (s_heap s' (?ds ! d)) < used ! d + call_ratios (s_heap s') ?ds ! d * DEFAULT_STRIPE_UNIT" "w_media s2 = w_media s'"
    "cells vol' = used_cells 0 used"
    using volume_create_good [OF good(2) blank I(2), of "in_env inp2"] by blast
  note K = volume_create_keeps [OF good(2) blank I(2) C(1)]
  define st2 where "st2 = (put vol' s2 evs st1)\<lparr>as_volume_valid := True, as_state := STATE_MOUNTED, as_cache_on := False, as_flush_thread := False\<rparr>"
  have n: "\<not> length ?ds < MIN_DISKS" using ps by (simp add: good_pairs_def)
  have "dispatch inp ''init'' (map pair_arg ps) st = Inr (RC_OK, st1)" using I(1) by (simp add: dispatch_def st1_def)
  moreover have "raid_create_locked inp2 st1 = Inr (RC_OK, st2)"
    using C(1) n by (simp add: raid_create_locked_def require_def st1_def st2_def)
  then have "dispatch inp2 ''create'' [] st1 = Inr (RC_OK, st2)" by (simp add: dispatch_def)
  moreover have "as_state st1 = STATE_INITIALIZED" "as_state st2 = STATE_MOUNTED" "as_volume st2 = vol'" "sv_sys st2 = s2"
    by (simp_all add: st1_def st2_def put_def)
  moreover have "\<forall>k < length ps. used ! k \<le> snd (ps ! k) * 1024 * 1024 \<and> snd (ps ! k) * 1024 * 1024 <
      used ! k + call_ratios (s_heap (sv_sys st)) ?ds ! k * DEFAULT_STRIPE_UNIT"
  proof -
    have "map (\<lambda>d. disk_speed (s_heap s' d)) ?ds = map (\<lambda>d. disk_speed (s_heap (sv_sys st) d)) ?ds" using I(3) by simp
    then have "call_ratios (s_heap s') ?ds = call_ratios (s_heap (sv_sys st)) ?ds" unfolding call_ratios_def by (rule arg_cong)
    then show ?thesis using C(5) I(3) by simp
  qed
  moreover have "\<forall>x < sum_list used. volume_byte vol' s2 x = 0"
    using volume_of_zeros [OF C(3)] K C(2,6) I(4) by metis
  moreover have "\<forall>d \<in> set ?ds. 4 \<le> length (d_drive_letter (s_heap s2 d))" using K I(3) by (simp add: pool_root_def)
  ultimately show ?thesis using C(2-4,7) by (intro exI [of _ st1] exI [of _ st2] exI [of _ used]) simp
qed

text \<open>
  C5. On a working system, from the state after a scan, the commands init, with two to four pairs
  of a disk's number and a size of at least a gigabyte, on different drives, and then create both
  succeed and end in the mounted state, with a volume of exactly these disks in this order, whose
  workers run and to which the read and write theorems apply, whose layout is a prefix of each
  pool of the size given, less than one segment short of it, and whose every byte reads as zero.
\<close>

theorem first_volume_is_mounted:
  assumes "all_good (in_os inp)" "all_good (in_os inp2)" and "as_state st = STATE_DISCOVERED"
    and "blank (as_volume st)" and "good_pairs ps st"
  shows "\<exists>st1 st2 used. dispatch inp ''init'' (map pair_arg ps) st = Inr (RC_OK, st1) \<and> as_state st1 = STATE_INITIALIZED \<and>
    dispatch inp2 ''create'' [] st1 = Inr (RC_OK, st2) \<and> as_state st2 = STATE_MOUNTED \<and>
    disk_ptrs (as_volume st2) = pair_disks (sv_devices st) ps \<and>
    stripe_good (sum_list used) DEFAULT_STRIPE_UNIT (as_volume st2) (sv_sys st2) \<and> length used = length ps \<and> cells (as_volume st2) = used_cells 0 used \<and>
    (\<forall>k < length ps. used ! k \<le> snd (ps ! k) * 1024 * 1024 \<and> snd (ps ! k) * 1024 * 1024 <
       used ! k + call_ratios (s_heap (sv_sys st)) (pair_disks (sv_devices st) ps) ! k * DEFAULT_STRIPE_UNIT) \<and>
    (\<forall>x < sum_list used. volume_byte (as_volume st2) (sv_sys st2) x = 0)"
  using first_volume_run [OF assms] by blast

text \<open>Two drives after a scan.\<close>

definition two_drives :: sys where
  "two_drives = empty_machine\<lparr>s_heap := (\<lambda>p. zero_disk\<lparr>d_drive_letter := (if p = 0 then CHR ''D'' else CHR ''E'') # '':'' @ [CHR 0x5C]\<rparr>)\<rparr>"

definition scanned_service :: service where
  "scanned_service = (blank_service [10, 11, 12, 13] None two_drives)\<lparr>as_state := STATE_DISCOVERED, sv_devices := [0, 1]\<rparr>"

lemma two_good_pairs: "good_pairs [(0, 1024), (1, 2048)] scanned_service"
  by (simp add: good_pairs_def good_pair_def fresh_drive_def scanned_service_def blank_service_def two_drives_def empty_machine_def zero_disk_def
      drive_char_def disk_speed_def const)

lemma two_pair_args: "map pair_arg [(0, 1024), (1, 2048)] = [''0:1024'', ''1:2048'']"
  by code_simp

lemma scanned_blank: "as_state scanned_service = STATE_DISCOVERED" "blank (as_volume scanned_service)" "all_good (in_os calm)"
  by (simp_all add: scanned_service_def blank_service_def zero_blank calm_def all_good_os_good)

theorem first_volume_is_mounted_witness:
  "\<exists>st1 st2. dispatch calm ''init'' [''0:1024'', ''1:2048''] scanned_service = Inr (RC_OK, st1) \<and>
     dispatch calm ''create'' [] st1 = Inr (RC_OK, st2) \<and> as_state st2 = STATE_MOUNTED \<and> disk_ptrs (as_volume st2) = [0, 1]"
proof -
  have d: "pair_disks (sv_devices scanned_service) [(0, 1024), (1, 2048)] = [0, 1]" by (simp add: scanned_service_def)
  from first_volume_is_mounted [OF scanned_blank(3,3,1,2) two_good_pairs, unfolded two_pair_args d] show ?thesis by blast
qed

text \<open>Looking at a volume that was just made ends the program: the root of a mapped drive has twelve characters.\<close>

lemma check_superblocks_overflows:
  "ds \<noteq> [] \<Longrightarrow> \<forall>d \<in> set ds. 4 \<le> length (d_drive_letter (s_heap s d)) \<Longrightarrow> check_superblocks os ds s = Inl BufferOverflow"
  by (cases ds) simp_all

lemma check_pools_heap: "check_pools os ds s = (ok, s') \<Longrightarrow> s_heap s' = s_heap s"
proof (induction ds arbitrary: s ok)
  case (Cons d ds)
  obtain ok1 s1 where C: "check_pools os ds (tick s) = (ok1, s1)" by force
  then have "s1 = s'" using Cons.prems by simp
  then show ?case using Cons.IH [of "tick s" ok1] C by (simp add: tick_def)
qed simp

text \<open>
  C37. On a volume that init and create have just made, the command check ends the program: it
  copies the root directory that mapping the drive stored, twelve characters long, into room for
  four.
\<close>

theorem check_overflows:
  assumes "all_good (in_os inp)" "all_good (in_os inp2)" and "as_state st = STATE_DISCOVERED"
    and "blank (as_volume st)" and "good_pairs ps st"
  shows "\<exists>st1 st2. dispatch inp ''init'' (map pair_arg ps) st = Inr (RC_OK, st1) \<and>
    dispatch inp2 ''create'' [] st1 = Inr (RC_OK, st2) \<and> dispatch inp3 ''check'' args st2 = Inl BufferOverflow"
proof -
  from first_volume_run [OF assms] obtain st1 st2 used where R: "dispatch inp ''init'' (map pair_arg ps) st = Inr (RC_OK, st1)"
    "dispatch inp2 ''create'' [] st1 = Inr (RC_OK, st2)" "as_state st2 = STATE_MOUNTED"
    "disk_ptrs (as_volume st2) = pair_disks (sv_devices st) ps" "stripe_good (sum_list used) DEFAULT_STRIPE_UNIT (as_volume st2) (sv_sys st2)"
    "\<forall>d \<in> set (disk_ptrs (as_volume st2)). 4 \<le> length (d_drive_letter (s_heap (sv_sys st2) d))" by blast
  let ?vol = "as_volume st2" and ?s = "sv_sys st2"
  have c: "CHECK_DISKS ?vol" using stripe_good_check [OF R(5)] .
  have ds: "map the (take (v_disk_count ?vol) (v_disks ?vol)) = disk_ptrs ?vol"
    using c by (intro nth_equalityI) (auto simp: disk_ptrs_def vdisk_def CHECK_DISKS_def list_all_iff)
  have ne: "disk_ptrs ?vol \<noteq> []" using assms(5) unfolding R(4) by (auto simp: good_pairs_def const)
  obtain ok s1 where P: "check_pools (in_os inp3) (disk_ptrs ?vol) ?s = (ok, s1)" by force
  then have "s_heap s1 = s_heap ?s" by (rule check_pools_heap)
  then have "check_superblocks (in_os inp3) (disk_ptrs ?vol) s1 = Inl BufferOverflow"
    using R(6) by (intro check_superblocks_overflows [OF ne]) simp
  then have "raid_check inp3 st2 = Inl BufferOverflow" using R(3) c P by (simp add: raid_check_def ds)
  then show ?thesis using R(1,2) by (intro exI [of _ st1] exI [of _ st2]) (simp add: dispatch_def)
qed

theorem check_overflows_witness:
  "\<exists>st1 st2. dispatch calm ''init'' [''0:1024'', ''1:2048''] scanned_service = Inr (RC_OK, st1) \<and>
     dispatch calm ''create'' [] st1 = Inr (RC_OK, st2) \<and> dispatch calm ''check'' [] st2 = Inl BufferOverflow"
  by (rule check_overflows [OF scanned_blank(3,3,1,2) two_good_pairs, unfolded two_pair_args])

end
