(* ===== verification/Physical.thy ===== *)
theory Physical
  imports Sessions
begin

text \<open>
  The list of physical disks that \<^verbatim>\<open>expand\<close>, \<^verbatim>\<open>rebuild\<close> and \<^verbatim>\<open>load\<close> work on: which commands touch it, and what
  follows for those who never ran the wizard. \<^verbatim>\<open>scan\<close> fills the list of \<^verbatim>\<open>device_manager.c\<close> instead.
\<close>

section \<open>The list only the wizard fills\<close>

lemma cleanup_pool_session_physical: "as_physical_disks (cleanup_pool_session inp st) = as_physical_disks st"
  by (simp add: cleanup_pool_session_def cleanup_pool_files_def Let_def)

lemma init_pools_create_files_physical:
  "init_pools_create_files inp pp st = (rc, st') \<Longrightarrow> as_physical_disks st' = as_physical_disks st"
proof (induction inp pp st rule: init_pools_create_files.induct)
  case (2 inp di mb pp st)
  show ?case using "2.prems" "2.IH" by (fastforce split: option.splits if_splits prod.splits bool.splits)
qed simp

lemma raid_init_pools_physical:
  assumes "raid_init_pools_locked inp argv st = Inr (rc, st')" shows "as_physical_disks st' = as_physical_disks st"
proof (cases "as_state st \<in> {STATE_DISCOVERED, STATE_UNMOUNTED} \<and> sv_devices st \<noteq> []")
  case False
  then show ?thesis using assms by (auto simp: raid_init_pools_locked_def split: if_splits)
next
  case True
  then have a: "as_state st \<in> {STATE_DISCOVERED, STATE_UNMOUNTED}" "sv_devices st \<noteq> []" by simp_all
  have e: "as_physical_disks (emptied inp st) = as_physical_disks st" by (simp add: emptied_def cleanup_pool_session_physical)
  from raid_init_pools_run [OF assms a] obtain pp s where
    "st' = (emptied inp st)\<lparr>sv_sys := s\<rparr> \<or>
       (\<exists>rc2 st2. init_pools_create_files inp pp ((emptied inp st)\<lparr>sv_sys := s, as_disks := []\<rparr>) = (rc2, st2) \<and>
         (st' = st2 \<or> st' = st2\<lparr>as_state := STATE_INITIALIZED\<rparr>))" by metis
  then show ?thesis using e by (auto dest!: init_pools_create_files_physical)
qed

lemma calls_physical:
  "raid_scan_locked inp st = Inr (rc, st') \<Longrightarrow> as_physical_disks st' = as_physical_disks st"
  "raid_select argv st = Inr (rc, st') \<Longrightarrow> as_physical_disks st' = as_physical_disks st"
  "raid_mapdrive i l st = Inr (rc, st') \<Longrightarrow> as_physical_disks st' = as_physical_disks st"
  "raid_bench inp argv st = Inr (rc, st') \<Longrightarrow> as_physical_disks st' = as_physical_disks st"
  "raid_create_locked inp st = Inr (rc, st') \<Longrightarrow> as_physical_disks st' = as_physical_disks st"
  "raid_mirror inp st = Inr (rc, st') \<Longrightarrow> as_physical_disks st' = as_physical_disks st"
  "raid_expand inp argv st = Inr (rc, st') \<Longrightarrow> as_physical_disks st' = as_physical_disks st"
  "raid_mount_locked inp c st = Inr (rc, st') \<Longrightarrow> as_physical_disks st' = as_physical_disks st"
  "raid_unmount inp st = Inr (rc, st') \<Longrightarrow> as_physical_disks st' = as_physical_disks st"
  "raid_load inp r st = Inr (rc, st') \<Longrightarrow> as_physical_disks st' = as_physical_disks st"
  "raid_destroy inp st = Inr (rc, st') \<Longrightarrow> as_physical_disks st' = as_physical_disks st"
  "raid_purge inp st = Inr (rc, st') \<Longrightarrow> as_physical_disks st' = as_physical_disks st"
  by (auto simp: raid_scan_locked_def raid_select_def raid_mapdrive_def raid_bench_def raid_create_locked_def raid_mirror_def raid_expand_def
      raid_mount_locked_def raid_unmount_def raid_load_def raid_destroy_def raid_purge_def and_then_eq Let_def put_def
      cleanup_pool_session_physical split: if_splits sum.splits prod.splits)

lemma calls_physical_more:
  "raid_rebuild inp argv st = Inr (rc, st') \<Longrightarrow> as_physical_disks st' = as_physical_disks st"
  "raid_test inp st = Inr (rc, st') \<Longrightarrow> as_physical_disks st' = as_physical_disks st"
  "raid_random inp argv st = Inr (rc, st') \<Longrightarrow> as_physical_disks st' = as_physical_disks st"
  "raid_benchfs inp argv st = Inr (rc, st') \<Longrightarrow> as_physical_disks st' = as_physical_disks st"
  "raid_benchraw inp argv st = Inr (rc, st') \<Longrightarrow> as_physical_disks st' = as_physical_disks st"
  "raid_check inp st = Inr (rc, st') \<Longrightarrow> as_physical_disks st' = as_physical_disks st"
  "raid_metadata inp argv st = Inr (rc, st') \<Longrightarrow> as_physical_disks st' = as_physical_disks st"
  "raid_events inp st = Inr (rc, st') \<Longrightarrow> as_physical_disks st' = as_physical_disks st"
  "raid_config_save_locked inp st = Inr (rc, st') \<Longrightarrow> as_physical_disks st' = as_physical_disks st"
  "raid_config_load inp st = Inr (rc, st') \<Longrightarrow> as_physical_disks st' = as_physical_disks st"
  by (auto simp: raid_rebuild_def raid_test_def raid_random_def raid_benchfs_def raid_benchraw_def raid_check_def raid_metadata_def
      raid_events_def raid_config_save_locked_def raid_config_load_def and_then_eq Let_def put_def
      split: if_splits list.splits option.splits prod.splits)

lemma raid_simulate_physical: "raid_simulate argv st = Inr (rc, st') \<Longrightarrow> as_physical_disks st' = as_physical_disks st"
  unfolding raid_simulate_def drop_disk_def Let_def
  by (elim if_elim) (auto split: list.splits option.splits if_splits)

lemma raid_cache_physical: "raid_cache_locked inp argv st = Inr (rc, st') \<Longrightarrow> as_physical_disks st' = as_physical_disks st"
  unfolding raid_cache_locked_def Let_def
  by (elim if_elim) (auto simp: and_then_eq put_def split: option.splits prod.splits bool.splits)

lemma raid_quick_physical:
  assumes "raid_quick inp st = Inr (rc, st')" shows "as_physical_disks st' = as_physical_disks st"
proof -
  obtain rc1 st1 where 1: "raid_scan_locked inp st = Inr (rc1, st1)" using assms by (auto simp: raid_quick_def and_then_eq)
  show ?thesis
  proof (cases "st' = st1")
    case True
    then show ?thesis using calls_physical(1) [OF 1] by simp
  next
    case False
    then have rc1: "rc1 = RC_OK" using assms 1 by (auto simp: raid_quick_def split: if_splits)
    obtain args rc2 st2 where 2: "raid_init_pools_locked inp args st1 = Inr (rc2, st2)" and
      r: "st' = st2 \<or> (\<exists>rc3 st3. raid_create_locked inp st2 = Inr (rc3, st3) \<and>
        (st' = st3 \<or> (\<exists>rc4 st4 rc5 st5 rc6. raid_cache_locked inp [dec_str (quick_cache_mb st3)] st3 = Inr (rc4, st4) \<and>
           raid_mount_locked inp (config_letter st4) st4 = Inr (rc5, st5) \<and> raid_config_save_locked inp st5 = Inr (rc6, st'))))"
      using assms 1 rc1 False
      by (simp add: raid_quick_def Let_def split: if_splits list.splits) (auto simp: and_then_eq split: if_splits)
    have "as_physical_disks st2 = as_physical_disks st" using calls_physical(1) [OF 1] raid_init_pools_physical [OF 2] by simp
    with r show ?thesis
      by (auto dest!: calls_physical(5,8) raid_cache_physical calls_physical_more(9))
  qed
qed

lemma raid_cleanup_physical: "raid_cleanup inp st = Inr st' \<Longrightarrow> as_physical_disks st' = []"
  by (auto simp: raid_cleanup_def cleanup_all_def cleanup_disks_def and_then_eq Let_def)

lemma dispatch_physical:
  assumes "dispatch inp name args st = Inr (rc, st')" "name \<noteq> ''wizard''"
  shows "as_physical_disks st' = as_physical_disks st \<or> as_physical_disks st' = []"
  using assms unfolding dispatch_def
  by (elim if_elim) (auto simp: and_then_eq cmd_mapdrive_def cmd_mount_def cmd_load_def
      dest: calls_physical calls_physical_more raid_init_pools_physical raid_simulate_physical raid_cache_physical raid_quick_physical
        raid_cleanup_physical split: list.splits option.splits)

lemma expand_args_none: "expand_args [] s argv acc = acc"
  by (induction argv arbitrary: acc) (auto split: option.splits)

text \<open>
  C38. No command but the wizard fills the list of physical disks, and while it is empty, expand
  and rebuild fail for all arguments and leave the disks and files as they are; scan does not fill
  it.
\<close>

theorem expansion_needs_the_wizard:
  assumes "dispatch inp name args st = Inr (rc, st')" "name \<noteq> ''wizard''" "as_physical_disks st = []"
  shows "as_physical_disks st' = [] \<and> (name = ''expand'' \<or> name = ''rebuild'' \<longrightarrow> rc \<noteq> RC_OK \<and> sv_sys st' = sv_sys st)"
proof -
  have "as_physical_disks st' = []" using dispatch_physical [OF assms(1,2)] assms(3) by auto
  moreover have "name = ''expand'' \<or> name = ''rebuild'' \<longrightarrow> rc \<noteq> RC_OK \<and> sv_sys st' = sv_sys st"
    using assms(1,3)
    by (auto simp: dispatch_def raid_expand_def raid_rebuild_def volume_expand_def volume_rebuild_def expand_args_none require_def put_def and_then_eq
        split: if_splits list.splits option.splits)
  ultimately show ?thesis by blast
qed

theorem expansion_needs_the_wizard_witness:
  "\<exists>st'. dispatch calm ''expand'' [''0:1024''] (first_service\<lparr>as_state := STATE_MOUNTED\<rparr>) = Inr (RC_ERR_IO, st') \<and>
     as_physical_disks st' = []"
proof -
  let ?st = "first_service\<lparr>as_state := STATE_MOUNTED\<rparr>"
  have p: "as_physical_disks ?st = []" by (simp add: blank_service_def)
  obtain st' where d: "dispatch calm ''expand'' [''0:1024''] ?st = Inr (RC_ERR_IO, st')"
    by (simp add: dispatch_def raid_expand_def volume_expand_def expand_args_none require_def blank_service_def zero_volume_def const
        del: expand_args.simps)
  from expansion_needs_the_wizard [OF d _ p] d show ?thesis by simp
qed

end
