(* ===== verification/Startup.thy ===== *)
theory Startup
  imports Sessions VolumeLife
begin

text \<open>
  The ways the program is started: the daemon of \<^verbatim>\<open>src/src/daemon.c\<close> and \<^verbatim>\<open>cli_main\<close> of \<^verbatim>\<open>src/src/main.c\<close>. Waiting
  for a signal, the calls to the service manager and what is only printed are left out; so is \<^verbatim>\<open>main\<close>, which
  prints the help or the version, or hands over to \<^verbatim>\<open>cli_main\<close>, to the service or to the window.
\<close>

section \<open>A volume for the daemon\<close>

text \<open>The search for a superblock on all drives, and the disks it gives.\<close>

definition load_any :: "surroundings \<Rightarrow> service \<Rightarrow> fault + bool \<times> service" where
  "load_any inp st =
     and_then (volume_load (in_os inp) (in_env inp) (in_fixed inp) None (map Some (as_physical_disks st)) (as_volume st)
         (as_loaded_disks st) (sv_sys st)) (\<lambda>(ok, vol, s, evs).
       if \<not> ok then Inr (False, put vol s evs st)
       else Inr (True, (put vol s evs st)\<lparr>as_disks := take (v_disk_count vol) (as_loaded_disks st), as_volume_valid := True\<rparr>))"

definition enable_cache :: "surroundings \<Rightarrow> nat \<Rightarrow> service \<Rightarrow> service" where
  "enable_cache inp size_mb st =
     (case volume_cache_enable (in_os inp) (u64 (u64 (size_mb * 1024) * 1024)) (as_volume st) (sv_sys st) of
        (None, vol, s) \<Rightarrow> st\<lparr>as_volume := vol, sv_sys := s\<rparr>
      | (Some (on, mb, thread), vol, s) \<Rightarrow>
          st\<lparr>as_volume := vol, sv_sys := s, as_cache_on := on, as_cache_mb := mb, as_flush_thread := thread\<rparr>)"

text \<open>The configuration as read now; the one of the program is kept.\<close>

definition read_config :: "surroundings \<Rightarrow> service \<Rightarrow> fault + APP_CONFIG \<times> service" where
  "read_config inp st =
     and_then (config_load (in_os inp) (in_wide inp) (in_appdata inp \<noteq> []) (sv_config_file st) (sv_sys st)) (\<lambda>(_, cfg, s).
       Inr (cfg, st\<lparr>sv_sys := s\<rparr>))"

text \<open>
  The older way: the disks of the configuration. One drive is compared with each of them; a pool file that
  cannot be made sends the comparison on to the next one.
\<close>

fun daemon_match :: "surroundings \<Rightarrow> ptr \<Rightarrow> DISK_CONFIG list \<Rightarrow> service \<Rightarrow> fault + service" where
  "daemon_match inp p [] st = Inr st"
| "daemon_match inp p (dc # dcs) st =
     (if drive_char (s_heap (sv_sys st) p) \<noteq> dc_drive_letter dc then daemon_match inp p dcs st
      else if MAX_DISKS \<le> length (as_disks st) then Inr st
      else and_then (disk_map_drive [dc_drive_letter dc] p (sv_sys st)) (\<lambda>(_, s).
        let st1 = st\<lparr>sv_sys := s, as_pool_sizes_mb := (as_pool_sizes_mb st)[length (as_disks st) := dc_pool_mb dc]\<rparr>
        in case volume_create_pool_file (in_os inp) p (dc_pool_mb dc) s of
             (False, s1) \<Rightarrow> daemon_match inp p dcs (st1\<lparr>sv_sys := s1\<rparr>)
           | (True, s1) \<Rightarrow> Inr (st1\<lparr>sv_sys := s1, as_disks := as_disks st @ [p]\<rparr>)))"

fun daemon_pools :: "surroundings \<Rightarrow> DISK_CONFIG list \<Rightarrow> ptr list \<Rightarrow> service \<Rightarrow> fault + service" where
  "daemon_pools inp dcs [] st = Inr st"
| "daemon_pools inp dcs (p # ps) st = and_then (daemon_match inp p dcs st) (daemon_pools inp dcs ps)"

definition daemon_create :: "surroundings \<Rightarrow> APP_CONFIG \<Rightarrow> service \<Rightarrow> fault + bool \<times> service" where
  "daemon_create inp cfg st =
     (if length (as_disks st) < MIN_DISKS then Inr (False, st)
      else and_then (volume_create (in_os inp) (in_env inp) (as_volume st) (as_disks st) (sv_sys st)) (\<lambda>(ok, vol, s, evs).
        if \<not> ok then Inr (False, put vol s evs st)
        else let st1 = (put vol s evs st)\<lparr>as_volume_valid := True\<rparr>
          in Inr (True, if 0 < cf_cache_mb cfg then enable_cache inp (cf_cache_mb cfg) st1 else st1)))"

definition daemon_from_config :: "surroundings \<Rightarrow> service \<Rightarrow> fault + bool \<times> service" where
  "daemon_from_config inp st =
     and_then (read_config inp st) (\<lambda>(cfg, st1).
       if cf_disks cfg = [] then Inr (False, st1)
       else and_then (disk_scan_all (in_os inp) (in_new inp) (in_reports inp) (sv_sys st1)) (\<lambda>(ok, phys, s).
         let st2 = st1\<lparr>as_physical_disks := phys, sv_sys := s\<rparr>
         in if \<not> ok then Inr (False, st2)
            else and_then (daemon_pools inp (cf_disks cfg) phys st2) (daemon_create inp cfg)))"

definition daemon_load_volume :: "surroundings \<Rightarrow> service \<Rightarrow> fault + bool \<times> service" where
  "daemon_load_volume inp st =
     and_then (load_any inp st) (\<lambda>(ok, st1).
       if \<not> ok then daemon_from_config inp st1
       else if v_generation (as_volume st1) = 0 then Inr (True, st1)
       else and_then (read_config inp st1) (\<lambda>(cfg, st2).
         Inr (True, enable_cache inp (if 0 < cf_cache_mb cfg then cf_cache_mb cfg else CACHE_DEFAULT_MB) st2)))"

section \<open>The daemon\<close>

definition mount_letter :: "STRIPE_VOLUME \<Rightarrow> char" where
  "mount_letter vol = (case v_mount_point vol of [] \<Rightarrow> CHR 0x00 | c # _ \<Rightarrow> c)"

text \<open>From the start to the message that it runs.\<close>

definition daemon_begin :: "surroundings \<Rightarrow> service \<Rightarrow> fault + bool \<times> service" where
  "daemon_begin inp st =
     and_then (daemon_load_volume inp st) (\<lambda>(ok, st1).
       if \<not> ok then Inr (False, st1)
       else and_then (read_config inp st1) (\<lambda>(cfg, st2).
         let letter = (if cf_mount_letter cfg \<noteq> CHR 0x00 then cf_mount_letter cfg else mount_letter (as_volume st2))
         in Inr (True, if letter \<noteq> CHR 0x00 \<and> as_volume_valid st2 then wizard_mount inp letter st2 else st2)))"

text \<open>One reading of the standard input, up to the line's end; the answer of \<^verbatim>\<open>cmd_process\<close> is not looked at.\<close>

definition stdin_line :: "string \<Rightarrow> string" where
  "stdin_line chunk = takeWhile (\<lambda>c. c \<noteq> CHR 0x00 \<and> c \<noteq> newline \<and> c \<noteq> CHR 0x0D) (take 1023 chunk)"

definition daemon_process_stdin :: "surroundings \<Rightarrow> string \<Rightarrow> service \<Rightarrow> fault + service" where
  "daemon_process_stdin inp chunk st =
     (if stdin_line chunk = [] then Inr st
      else and_then (cmd_process inp (stdin_line chunk) st) (\<lambda>(_, st1). Inr st1))"

fun daemon_commands :: "(surroundings \<times> string) list \<Rightarrow> service \<Rightarrow> fault + service" where
  "daemon_commands [] st = Inr st"
| "daemon_commands ((inp, chunk) # cs) st = and_then (daemon_process_stdin inp chunk st) (daemon_commands cs)"

text \<open>The whole thread: the start, what is read until the signal, and the clearing up.\<close>

definition finish_session :: "surroundings \<Rightarrow> service \<Rightarrow> fault + service" where
  "finish_session inp st = and_then (cleanup_session inp st) (\<lambda>st1. Inr (cleanup_disks st1))"

definition daemon_main :: "surroundings \<Rightarrow> (surroundings \<times> string) list \<Rightarrow> surroundings \<Rightarrow> service \<Rightarrow> fault + nat \<times> service" where
  "daemon_main inp cs fin st =
     and_then (daemon_begin inp st) (\<lambda>(ok, st1).
       if \<not> ok then Inr (1, st1)
       else and_then (daemon_commands cs st1) (\<lambda>st2. and_then (finish_session fin st2) (\<lambda>st3. Inr (0, st3))))"

text \<open>The Windows service mounts where the volume was mounted before, and reads nothing.\<close>

definition daemon_run :: "surroundings \<Rightarrow> surroundings \<Rightarrow> service \<Rightarrow> fault + nat \<times> service" where
  "daemon_run inp fin st =
     and_then (daemon_load_volume inp st) (\<lambda>(ok, st1).
       if \<not> ok then Inr (1, st1)
       else let letter = mount_letter (as_volume st1);
              st2 = (if as_volume_valid st1 \<and> letter \<noteq> CHR 0x00 then wizard_mount inp letter st1 else st1)
         in and_then (finish_session fin st2) (\<lambda>st3. Inr (0, st3)))"

section \<open>The command line\<close>

definition is_upper :: "char \<Rightarrow> bool" where
  "is_upper c \<longleftrightarrow> 65 \<le> (of_char c :: nat) \<and> (of_char c :: nat) \<le> 90"

definition toupper :: "char \<Rightarrow> char" where
  "toupper c = (if 97 \<le> (of_char c :: nat) \<and> (of_char c :: nat) \<le> 122 then char_of ((of_char c :: nat) - 32) else c)"

text \<open>\<^verbatim>\<open>--mount\<close>: the volume is loaded and its workers are started, but only after the journal was recovered.\<close>

definition cli_mount :: "surroundings \<Rightarrow> string list \<Rightarrow> service \<Rightarrow> fault + service" where
  "cli_mount inp args st =
     (let letter = (case args of (c # _) # _ \<Rightarrow> if is_upper (toupper c) then toupper c else CHR ''R'' | _ \<Rightarrow> CHR ''R'')
      in and_then (device_refresh (in_os inp) (in_new inp) (in_reports inp) (sv_sys st)) (\<lambda>(_, devs, s, evs).
        and_then (load_any inp (st\<lparr>sv_devices := devs, sv_sys := s, sv_events := sv_events st @ evs\<rparr>)) (\<lambda>(ok, st1).
          if \<not> ok then Inr st1
          else
            let st2 = (if 0 < v_generation (as_volume st1) then enable_cache inp CACHE_DEFAULT_MB st1 else st1)
            in and_then (if v_raid_level (as_volume st2) = RAID_LEVEL_STRIPE
                         then and_then (stripe_volume_workers_init (in_os inp) (as_volume st2) (sv_sys st2)) (\<lambda>(_, vol, s).
                                Inr (st2\<lparr>as_volume := vol, sv_sys := s\<rparr>))
                         else Inr st2) (\<lambda>st3.
              and_then (raid_mount_locked inp letter (st3\<lparr>as_state := STATE_MOUNTED\<rparr>)) (\<lambda>(_, st4). Inr st4)))))"

definition cli_quick :: "surroundings \<Rightarrow> service \<Rightarrow> fault + service" where
  "cli_quick inp st = and_then (cmd_process inp ''quick'' st) (\<lambda>(_, st1). Inr st1)"

definition restore_or_quick :: "surroundings \<Rightarrow> service \<Rightarrow> fault + service" where
  "restore_or_quick inp st = (if cf_disks (as_config st) \<noteq> [] then do_restore inp (config_letter st) st else cli_quick inp st)"

text \<open>Other arguments are one command; they are put together in room for 1023 characters.\<close>

definition full_command :: "string list \<Rightarrow> string" where
  "full_command argv = concat (map (\<lambda>a. a @ '' '') argv)"

text \<open>
  The result says whether the program ends at once, without clearing up. With \<^verbatim>\<open>--daemon\<close> it only starts a thread and
  returns from \<^verbatim>\<open>main\<close>, which ends the process with the thread; what a daemon does that gets to run is \<open>daemon_main\<close>.
\<close>

definition cli_choose :: "surroundings \<Rightarrow> string list \<Rightarrow> service \<Rightarrow> fault + bool \<times> service" where
  "cli_choose inp argv st =
     (let stay = (\<lambda>r. and_then r (\<lambda>st1. Inr (False, st1)))
      in case argv of
        [] \<Rightarrow> stay (restore_or_quick inp st)
      | a # args \<Rightarrow>
          if a = ''--auto'' then
            stay (case args of
                    [] \<Rightarrow> do_restore inp (config_letter st) st
                  | b # _ \<Rightarrow> (case b of
                      [c] \<Rightarrow> if is_upper c then do_restore inp c st else cmd_process_auto inp b st
                    | _ \<Rightarrow> cmd_process_auto inp b st))
          else if a = ''--wizard'' then stay (wizard_run inp st)
          else if a = ''--daemon'' then Inr (True, st\<lparr>sv_sys := tick (sv_sys st)\<rparr>)
          else if a = ''--cleanup'' then and_then (raid_cleanup inp st) (\<lambda>st1. Inr (True, st1))
          else if a = ''--quick'' then stay (cli_quick inp st)
          else if a = ''--cli'' then stay (restore_or_quick inp st)
          else if a = ''--mount'' then stay (cli_mount inp args st)
          else if 1023 \<le> length (full_command argv) then Inl BufferOverflow
          else stay (cmd_process_auto inp (full_command argv) st))"

definition cli_main :: "surroundings \<Rightarrow> string list \<Rightarrow> service \<Rightarrow> fault + service" where
  "cli_main inp argv st =
     and_then (raid_init inp st) (\<lambda>(_, st0).
       and_then (cli_choose inp argv st0) (\<lambda>(leaves, st1). if leaves then Inr st1 else finish_session inp st1))"

section \<open>What is left\<close>

definition cleared :: "service \<Rightarrow> bool" where
  "cleared st \<longleftrightarrow> \<not> as_mounted st \<and> \<not> as_volume_valid st \<and> \<not> as_cache_on st \<and> as_physical_disks st = []"

lemma cleanup_cache_off: "cleanup_cache inp st = Inr st' \<Longrightarrow> \<not> as_cache_on st'"
  by (auto simp: cleanup_cache_def and_then_eq split: if_splits)

lemma cleanup_volume_off:
  assumes "cleanup_volume st = Inr st'"
  shows "\<not> as_mounted st' \<and> \<not> as_volume_valid st' \<and> as_cache_on st' = as_cache_on st"
proof -
  define st1 where "st1 = (if as_mounted st then st\<lparr>sv_ctx := snd (fuse_unmount_volume (sv_ctx st)), as_mounted := False\<rparr> else st)"
  have m: "\<not> as_mounted st1" "as_cache_on st1 = as_cache_on st" by (simp_all add: st1_def)
  have "(if \<not> as_volume_valid st1 then Inr st1
         else and_then (stripe_volume_destroy (as_volume st1) (sv_sys st1)) (\<lambda>(vol, s).
           Inr (st1\<lparr>as_volume := vol, sv_sys := s, as_volume_valid := False\<rparr>))) = Inr st'"
    using assms unfolding cleanup_volume_def Let_def st1_def .
  then show ?thesis using m by (auto simp: and_then_eq split: if_splits)
qed

lemma finish_session_cleared: "finish_session inp st = Inr st' \<Longrightarrow> cleared st'"
  using cleanup_cache_off cleanup_volume_off
  by (fastforce simp: finish_session_def cleanup_session_def cleanup_disks_def cleared_def and_then_eq)

lemma raid_cleanup_cleared: "raid_cleanup inp st = Inr st' \<Longrightarrow> cleared st'"
  by (auto simp: raid_cleanup_def cleanup_all_def cleanup_disks_def cleared_def and_then_eq Let_def)

lemma cli_leaves:
  assumes "cli_choose inp argv st = Inr (True, st')" "cleared st" shows "cleared st'"
  using assms raid_cleanup_cleared
  by (auto simp: cli_choose_def and_then_eq Let_def cleared_def split: list.splits if_splits)

lemma cli_ends_cleared:
  assumes "cli_main inp argv (blank_service loaded file s) = Inr st"
  shows "cleared st"
proof -
  obtain rc st0 leaves st1 where 0: "raid_init inp (blank_service loaded file s) = Inr (rc, st0)" and
    1: "cli_choose inp argv st0 = Inr (leaves, st1)" and 2: "(if leaves then Inr st1 else finish_session inp st1) = Inr st"
    using assms by (auto simp: cli_main_def and_then_eq)
  have "cleared st0" using 0 by (auto simp: raid_init_def blank_service_def cleared_def and_then_eq)
  then show ?thesis using 1 2 cli_leaves finish_session_cleared by (cases leaves) auto
qed

text \<open>
  C39. The end of a session, with which the daemon, the Windows service and the command line
  finish, when a striped volume with a cache is mounted, its workers run, no flush is in progress
  and the system works: every byte of the volume holds afterwards what the cache had for it, if
  its block was dirty, and what it held before otherwise; no small file but the members' journals
  has changed, so that the volume can be loaded again; the cache is destroyed, the workers are
  stopped, the pools of the volume's disks are closed and the file system is unmounted; and the
  state says so.
\<close>

theorem session_end_saves_the_cache:
  assumes good: "all_good (in_os inp)" and state: "as_cache_on st" "as_mounted st" "as_volume_valid st"
    and vol: "v_cache_enabled (as_volume st)" "flush_ready (as_volume st) (sv_sys st)" "v_cache_flush_in_progress (as_volume st) = 0"
      "workers_ready (as_volume st) (sv_sys st)"
  shows "\<exists>st'. finish_session inp st = Inr st' \<and>
    (\<forall>x < v_virtual_total_bytes (as_volume st). volume_byte (as_volume st) ((sv_sys st)\<lparr>w_media := w_media (sv_sys st')\<rparr>) x =
        (if x < c_cache_size_bytes (v_cache (as_volume st)) \<and> dirty_block (v_cache (as_volume st)) (x div CACHE_BLOCK_SIZE)
         then the (c_buffer (v_cache (as_volume st))) x else volume_byte (as_volume st) (sv_sys st) x)) \<and>
    (\<forall>p. (\<forall>d \<in> set (disk_ptrs (as_volume st)). p \<noteq> journal_path (s_heap (sv_sys st) d)) \<longrightarrow> w_files (sv_sys st') p = w_files (sv_sys st) p) \<and>
    as_volume st' = (as_volume st)\<lparr>v_cache := zero_cache, v_cache_enabled := False, v_worker_state := None\<rparr> \<and>
    (\<forall>d \<in> set (disk_ptrs (as_volume st)). d_handle (s_heap (sv_sys st') d) = INVALID_HANDLE_VALUE) \<and>
    \<not> mc_thread (sv_ctx st') \<and> \<not> as_mounted st' \<and> \<not> as_volume_valid st' \<and> \<not> as_cache_on st' \<and>
    as_physical_disks st' = [] \<and> as_disks st' = as_disks st"
proof -
  let ?vol = "as_volume st" and ?s = "sv_sys st"
  let ?v1 = "?vol\<lparr>v_cache := zero_cache, v_cache_enabled := False\<rparr>"
  obtain s1 where C: "cleanup_volume_cache (in_os inp) (in_env inp) ?vol ?s = Inr (?v1, s1)" "s_heap s1 = s_heap ?s"
    "\<forall>p. (\<forall>d \<in> set (disk_ptrs ?vol). p \<noteq> journal_path (s_heap ?s d)) \<longrightarrow> w_files s1 p = w_files ?s p"
    "\<forall>x < v_virtual_total_bytes ?vol. volume_byte ?vol s1 x =
        (if x < c_cache_size_bytes (v_cache ?vol) \<and> dirty_block (v_cache ?vol) (x div CACHE_BLOCK_SIZE)
         then the (c_buffer (v_cache ?vol)) x else volume_byte ?vol ?s x)"
    using take_cache_away [OF good vol(1-3)] by blast
  have p1: "disk_ptrs ?v1 = disk_ptrs ?vol" by (simp add: disk_ptrs_def vdisk_def)
  have "workers_ready ?v1 s1"
    using vol(4) C(2) by (simp add: workers_ready_def workers_idle_def disks_open_def disk_path_def vdisk_def CHECK_DISKS_def split: option.splits)
  then obtain s2 where D: "stripe_volume_destroy ?v1 s1 = Inr (?v1\<lparr>v_worker_state := None\<rparr>, s2)" "w_media s2 = w_media s1" "w_files s2 = w_files s1"
    "\<forall>d. s_heap s2 d = (if d \<in> set (disk_ptrs ?vol) then (s_heap s1 d)\<lparr>d_handle := INVALID_HANDLE_VALUE\<rparr> else s_heap s1 d)"
    using destroy_running [of ?v1 s1] unfolding p1 by blast
  define st1 where "st1 = st\<lparr>as_volume := ?v1, sv_sys := s1, as_flush_thread := False, as_cache_on := False\<rparr>"
  define st2 where "st2 = st1\<lparr>sv_ctx := snd (fuse_unmount_volume (sv_ctx st)), as_mounted := False,
    as_volume := ?v1\<lparr>v_worker_state := None\<rparr>, sv_sys := s2, as_volume_valid := False\<rparr>"
  have "cleanup_cache inp st = Inr st1" using state C(1) by (simp add: cleanup_cache_def and_then_def st1_def)
  moreover have "cleanup_volume st1 = Inr st2"
    using state D(1) by (simp add: cleanup_volume_def and_then_def Let_def st1_def st2_def)
  ultimately have "finish_session inp st = Inr (st2\<lparr>as_physical_disks := []\<rparr>)"
    by (simp add: finish_session_def cleanup_session_def and_then_def cleanup_disks_def)
  moreover have "volume_byte ?vol (?s\<lparr>w_media := w_media s2\<rparr>) = volume_byte ?vol s1"
    using C(2) D(2) by (simp add: volume_byte_def disk_byte_def disk_path_def fun_eq_iff)
  ultimately show ?thesis using C(3,4) D(3,4)
    by (intro exI [of _ "st2\<lparr>as_physical_disks := []\<rparr>"]) (simp add: st2_def st1_def fuse_unmount_volume_def)
qed

text \<open>A mounted pair with two bytes in its cache that are not on the disks yet.\<close>

definition running_pair :: STRIPE_VOLUME where
  "running_pair = (cached_pair written_cache)\<lparr>v_worker_state := v_worker_state two_disk_volume\<rparr>"

definition mounted_service :: service where
  "mounted_service = (blank_service [10, 11, 12, 13] None two_drive_system)\<lparr>as_disks := [0, 1], as_volume := running_pair,
     as_volume_valid := True, as_cache_on := True, as_mounted := True, as_state := STATE_MOUNTED, sv_ctx := zero_ctx\<lparr>mc_thread := True\<rparr>\<rparr>"

lemma running_pair_ok: "flush_ready running_pair two_drive_system" "workers_ready running_pair two_drive_system"
  "v_cache_flush_in_progress running_pair = 0" "v_cache_enabled running_pair"
  "v_cache running_pair = written_cache\<lparr>c_flush_buffer_size := MAX_FLUSH_SIZE\<rparr>" "v_virtual_total_bytes running_pair = 524288"
  "disk_ptrs running_pair = [0, 1]"
proof -
  have size: "c_cache_size_bytes written_cache \<le> 524288" by (simp add: written_cache_facts const)
  note R = cached_pair_ready [OF written_cache_facts(1) size]
  have l: "same_layout (cached_pair written_cache) running_pair" by (simp add: same_layout_def running_pair_def)
  show F: "flush_ready running_pair two_drive_system"
    using R(1) same_layout_bytes [OF l] by (simp add: flush_ready_def running_pair_def)
  show "workers_ready running_pair two_drive_system"
    using two_drive_ok(1) F
    by (auto simp: stripe_good_def workers_ready_def flush_ready_def workers_idle_def running_pair_def cached_pair_def pair_volume_def split: option.splits)
  show "v_cache_flush_in_progress running_pair = 0" using R(2) by (simp add: running_pair_def)
  have "disk_ptrs running_pair = disk_ptrs two_disk_volume"
    by (simp add: disk_ptrs_def vdisk_def pair_volume_def running_pair_def cached_pair_def)
  then show "disk_ptrs running_pair = [0, 1]" using two_drive_ok(2) by simp
qed (simp_all add: running_pair_def cached_pair_def)

theorem session_end_saves_the_cache_witness:
  "\<exists>st'. finish_session calm mounted_service = Inr st' \<and> \<not> as_mounted st' \<and> \<not> mc_thread (sv_ctx st') \<and>
     d_handle (s_heap (sv_sys st') 1) = INVALID_HANDLE_VALUE \<and>
     volume_byte running_pair (two_drive_system\<lparr>w_media := w_media (sv_sys st')\<rparr>) 8 = 2"
proof -
  have f: "as_cache_on mounted_service" "as_mounted mounted_service" "as_volume_valid mounted_service"
    "as_volume mounted_service = running_pair" "sv_sys mounted_service = two_drive_system"
    by (simp_all add: mounted_service_def blank_service_def)
  have good: "all_good (in_os calm)" by (simp add: calm_def all_good_os_good)
  have b: "8 div CACHE_BLOCK_SIZE = 0" "8 < CACHE_BLOCK_SIZE" by (simp_all add: const)
  note R = session_end_saves_the_cache [OF good f(1-3), unfolded f(4,5), OF running_pair_ok(4,1,3,2), unfolded running_pair_ok(5-7)]
  from R obtain st' where S: "finish_session calm mounted_service = Inr st'"
    "\<forall>x < 524288. volume_byte running_pair (two_drive_system\<lparr>w_media := w_media (sv_sys st')\<rparr>) x =
      (if x < c_cache_size_bytes (written_cache\<lparr>c_flush_buffer_size := MAX_FLUSH_SIZE\<rparr>) \<and>
          dirty_block (written_cache\<lparr>c_flush_buffer_size := MAX_FLUSH_SIZE\<rparr>) (x div CACHE_BLOCK_SIZE)
       then the (c_buffer (written_cache\<lparr>c_flush_buffer_size := MAX_FLUSH_SIZE\<rparr>)) x else volume_byte running_pair two_drive_system x)"
    "\<forall>d \<in> set [0, 1]. d_handle (s_heap (sv_sys st') d) = INVALID_HANDLE_VALUE" "\<not> mc_thread (sv_ctx st')" "\<not> as_mounted st'" by blast
  have "volume_byte running_pair (two_drive_system\<lparr>w_media := w_media (sv_sys st')\<rparr>) 8 = the (c_buffer written_cache) 8"
    using S(2) [rule_format, of 8] written_cache_facts(3,4) b by (simp add: dirty_block_def)
  also have "\<dots> = 2" by (simp add: written_cache_facts(2) write_bytes_def)
  finally show ?thesis using S by auto
qed

text \<open>The older way never gets to a disk, since reading a configuration yields none.\<close>

lemma daemon_legacy_dead:
  assumes "daemon_from_config inp st1 = Inr (ok, st2)"
  shows "\<not> ok \<and> as_volume_valid st2 = as_volume_valid st1"
proof -
  from assms obtain cfg st3 where R: "read_config inp st1 = Inr (cfg, st3)" and
    r: "(if cf_disks cfg = [] then Inr (False, st3)
         else and_then (disk_scan_all (in_os inp) (in_new inp) (in_reports inp) (sv_sys st3)) (\<lambda>(ok, phys, s).
           let st2 = st3\<lparr>as_physical_disks := phys, sv_sys := s\<rparr>
           in if \<not> ok then Inr (False, st2)
              else and_then (daemon_pools inp (cf_disks cfg) phys st2) (daemon_create inp cfg))) = Inr (ok, st2)"
    by (auto simp: daemon_from_config_def and_then_eq)
  have "cf_disks cfg = []" using R config_load_no_disks by (auto simp: read_config_def and_then_eq)
  then have "\<not> ok \<and> st2 = st3" using r by simp
  moreover have "as_volume_valid st3 = as_volume_valid st1" using R by (auto simp: read_config_def and_then_eq)
  ultimately show ?thesis by simp
qed

theorem daemon_needs_a_superblock:
  assumes "load_any inp st = Inr (False, st1)" "daemon_load_volume inp st = Inr (ok, st2)"
  shows "\<not> ok \<and> as_volume_valid st2 = as_volume_valid st"
proof -
  have v: "as_volume_valid st1 = as_volume_valid st"
    using assms(1) by (auto simp: load_any_def and_then_eq put_def split: if_splits)
  have "daemon_from_config inp st1 = Inr (ok, st2)" using assms by (simp add: daemon_load_volume_def)
  from daemon_legacy_dead [OF this] v show ?thesis by simp
qed

theorem daemon_needs_a_superblock_witness:
  "\<exists>st1 st2. load_any calm first_service = Inr (False, st1) \<and> daemon_load_volume calm first_service = Inr (False, st2) \<and>
     as_volume_valid st2 = as_volume_valid first_service"
proof -
  obtain st1 where l: "load_any calm first_service = Inr (False, st1)"
    by (simp add: load_any_def volume_load_def metadata_load_volume_def superblock_read_def named_letters_def fixed_letters_def calm_def blank_service_def)
  obtain st2 where d: "daemon_load_volume calm first_service = Inr (False, st2)"
    using l by (simp add: daemon_load_volume_def daemon_from_config_def read_config_def config_load_def calm_def config_defaults_def)
  from daemon_needs_a_superblock [OF l d] l d show ?thesis by auto
qed

lemma daemon_ends_cleared:
  "daemon_main inp cs fin st = Inr (0, st') \<Longrightarrow> \<not> as_mounted st' \<and> \<not> as_volume_valid st' \<and> \<not> as_cache_on st'"
  using finish_session_cleared by (auto simp: daemon_main_def and_then_eq cleared_def split: if_splits)

section \<open>A volume without workers\<close>

text \<open>A new cache has nothing to give, and the disks are not reached.\<close>

lemma new_cache_misses:
  assumes "cache_init os c bytes s = (True, c', s')" "0 < n" "n < 2 ^ 64"
  shows "\<not> fst (cache_read c' off n)"
proof (cases "u64 (off + n) < off \<or> c_cache_size_bytes c' < u64 (off + n)")
  case True
  then show ?thesis by (simp add: cache_read_def Let_def split: option.split)
next
  case False
  let ?stop = "u64 (off + n)" and ?k = "c_block_count c'"
  have I: "c_block_size c' = CACHE_BLOCK_SIZE" "c_cache_size_bytes c' = u64 (?k * CACHE_BLOCK_SIZE)"
    "c_valid_map c' = replicate ((?k + 7) div 8) 0" "?k < 2 ^ 32"
    using assms(1) by (auto simp: cache_init_def Let_def u32_def split: if_splits)
  have lt: "off < ?stop"
  proof (rule ccontr)
    assume "\<not> off < ?stop"
    then have e: "?stop = off" using False by simp
    then have "off < 2 ^ 64" using u64_less [of "off + n"] by metis
    then show False using e assms(2,3) by (simp add: u64_def mod_if split: if_splits)
  qed
  have "?stop \<le> ?k * CACHE_BLOCK_SIZE" using False I(2) u64_le [of "?k * CACHE_BLOCK_SIZE"] by simp
  then have "off < ?k * CACHE_BLOCK_SIZE" using lt by simp
  then have b: "off div CACHE_BLOCK_SIZE < ?k" by (simp add: less_mult_imp_div_less)
  then have "\<not> bit_test (c_valid_map c') (off div CACHE_BLOCK_SIZE)"
    by (simp add: bit_test_def I(3) less_mult_imp_div_less)
  moreover have "off div CACHE_BLOCK_SIZE \<in> set (blocks_of c' off ?stop)"
  proof -
    have "?stop \<le> 2 ^ 32 * 65536" using \<open>?stop \<le> ?k * CACHE_BLOCK_SIZE\<close> I(4) by (simp add: const)
    then have u: "u64 (?stop + CACHE_BLOCK_SIZE - 1) = ?stop + CACHE_BLOCK_SIZE - 1" by (intro u64_id) (simp add: const)
    have "Suc (off div 65536) = (off + 65536) div 65536" by simp
    also have "\<dots> \<le> (?stop + 65535) div 65536" using lt by (intro div_le_mono) simp
    finally have "off div CACHE_BLOCK_SIZE < (?stop + CACHE_BLOCK_SIZE - 1) div CACHE_BLOCK_SIZE" by (simp add: const)
    then show ?thesis unfolding blocks_of_def I(1) u using b by simp
  qed
  ultimately have "\<not> list_all (bit_test (c_valid_map c')) (blocks_of c' off ?stop)" by (auto simp: list_all_iff)
  then show ?thesis by (simp add: cache_read_def Let_def split: option.split)
qed

lemma cache_read_flag [simp]: "fst (cache_read (c\<lparr>c_flush_thread := t\<rparr>) off n) = fst (cache_read c off n)"
  by (simp add: cache_read_def Let_def blocks_of_def split: option.split)

text \<open>No workers, and a cache that misses: what a daemon's volume is like.\<close>

definition reads_nothing :: "STRIPE_VOLUME \<Rightarrow> bool" where
  "reads_nothing vol \<longleftrightarrow> v_worker_state vol = None \<and> v_raid_level vol \<noteq> RAID_LEVEL_MIRROR \<and>
     (v_cache_enabled vol \<longrightarrow> (\<forall>off n. 0 < n \<longrightarrow> n < 2 ^ 64 \<longrightarrow> \<not> fst (cache_read (v_cache vol) off n)))"

lemma reads_nothing_fails:
  assumes w: "reads_nothing vol" and n: "n < 2 ^ 64"
  shows "stripe_volume_read os vol buf off n s \<noteq> Inr (True, r)"
proof
  assume R: "stripe_volume_read os vol buf off n s = Inr (True, r)"
  have d: "v_worker_state v = None \<Longrightarrow> direct_io os IO_OP_READ v buf off n s = Inr (ok, r') \<Longrightarrow> \<not> ok" for v ok r'
    by (auto simp: direct_io_def submit_entries_def dest: map_lba_nonempty split: option.splits sum.splits prod.splits if_splits)
  have n0: "0 < n" using R by (auto simp: stripe_volume_read_def split: if_splits)
  obtain hit bs c where C: "(if v_cache_enabled vol \<and> u64 (off + n) \<le> c_cache_size_bytes (v_cache vol)
      then cache_read (v_cache vol) off n else (False, [], v_cache vol)) = (hit, bs, c)" by (metis prod_cases3)
  have h: "\<not> hit" using C w n n0 by (auto simp: reads_nothing_def split: if_splits) (metis fst_conv)
  have "count_if (add_bytes_read n) (direct_io os IO_OP_READ (vol\<lparr>v_cache := c\<rparr>) buf off n s) = Inr (True, r)"
    using R w h by (simp add: stripe_volume_read_def C reads_nothing_def split: if_splits)
  then show False using d [of "vol\<lparr>v_cache := c\<rparr>"] w by (auto simp: count_if_def reads_nothing_def split: sum.splits prod.splits)
qed

lemma load_any_workerless:
  assumes "load_any inp st = Inr (True, st')" "v_raid_level (as_volume st') \<noteq> RAID_LEVEL_MIRROR"
  shows "workerless (as_volume st')"
  using assms loaded_workerless by (fastforce simp: load_any_def and_then_eq put_def split: if_splits)

lemma enable_cache_reads_nothing:
  assumes "workerless (as_volume st)" shows "reads_nothing (as_volume (enable_cache inp mb st))"
proof -
  obtain ok c s1 where C: "cache_init (in_os inp) (v_cache (as_volume st)) (u64 (u64 (mb * 1024) * 1024)) (sv_sys st) = (ok, c, s1)"
    using prod_cases3 by blast
  show ?thesis
  proof (cases ok)
    case True
    then show ?thesis
      using assms C new_cache_misses [of _ _ _ _ c s1]
      by (simp add: enable_cache_def volume_cache_enable_def workerless_def reads_nothing_def Let_def)
  next
    case False
    then show ?thesis using assms C by (simp add: enable_cache_def volume_cache_enable_def workerless_def reads_nothing_def)
  qed
qed

text \<open>How a volume came to be loaded.\<close>

lemma daemon_load_from:
  assumes "daemon_load_volume inp st = Inr (True, st1)"
  shows "\<exists>st0. load_any inp st = Inr (True, st0) \<and>
    (st1 = st0 \<or> (\<exists>cfg st3 mb. read_config inp st0 = Inr (cfg, st3) \<and> st1 = enable_cache inp mb st3))"
proof -
  obtain ok st0 where L: "load_any inp st = Inr (ok, st0)" and
    r: "(if \<not> ok then daemon_from_config inp st0
       else if v_generation (as_volume st0) = 0 then Inr (True, st0)
       else and_then (read_config inp st0) (\<lambda>(cfg, st2).
         Inr (True, enable_cache inp (if 0 < cf_cache_mb cfg then cf_cache_mb cfg else CACHE_DEFAULT_MB) st2))) = Inr (True, st1)"
    using assms by (auto simp: daemon_load_volume_def and_then_eq)
  have ok: ok using r daemon_legacy_dead [of inp st0 True st1] by (cases ok) simp_all
  with r have "st1 = st0 \<or> (\<exists>cfg st3 mb. read_config inp st0 = Inr (cfg, st3) \<and> st1 = enable_cache inp mb st3)"
    by (cases "v_generation (as_volume st0) = 0") (simp, simp add: and_then_eq, metis)
  then show ?thesis using L ok by (intro exI [of _ st0]) simp
qed

text \<open>What a mount and a cache keep.\<close>

lemma mount_keeps:
  "v_raid_level (as_volume (wizard_mount inp l st)) = v_raid_level (as_volume st)"
  "reads_nothing (as_volume (wizard_mount inp l st)) = reads_nothing (as_volume st)"
  by (simp_all add: wizard_mount_def fuse_mount_volume_def Let_def reads_nothing_def)

lemma enable_cache_level: "v_raid_level (as_volume (enable_cache inp mb st)) = v_raid_level (as_volume st)"
  by (simp add: enable_cache_def volume_cache_enable_def Let_def split: prod.split option.split bool.split)

lemma read_config_volume: "read_config inp st = Inr (cfg, st') \<Longrightarrow> as_volume st' = as_volume st"
  by (auto simp: read_config_def and_then_eq)

text \<open>
  C36. When the daemon has come up with a striped volume, whatever the system calls answered,
  every read of the volume fails: its workers were never started, and the cache it enabled is
  empty.
\<close>

theorem daemon_volume_reads_nothing:
  assumes begun: "daemon_begin inp st = Inr (True, st')" and level: "v_raid_level (as_volume st') \<noteq> RAID_LEVEL_MIRROR" and n: "n < 2 ^ 64"
  shows "stripe_volume_read os (as_volume st') buf off n s \<noteq> Inr (True, r)"
proof (rule reads_nothing_fails [OF _ n])
  obtain st1 cfg st2 where D: "daemon_load_volume inp st = Inr (True, st1)" "read_config inp st1 = Inr (cfg, st2)"
    "st' = st2 \<or> (\<exists>l. st' = wizard_mount inp l st2)"
    using begun by (auto simp: daemon_begin_def and_then_eq Let_def split: if_splits)
  have same: "as_volume st2 = as_volume st1" by (rule read_config_volume [OF D(2)])
  have l1: "v_raid_level (as_volume st1) \<noteq> RAID_LEVEL_MIRROR" using D(3) level same mount_keeps(1) by auto
  obtain st0 where L: "load_any inp st = Inr (True, st0)" and
    c: "st1 = st0 \<or> (\<exists>cfg st3 mb. read_config inp st0 = Inr (cfg, st3) \<and> st1 = enable_cache inp mb st3)"
    using daemon_load_from [OF D(1)] by blast
  have "v_raid_level (as_volume st0) \<noteq> RAID_LEVEL_MIRROR" using l1 c enable_cache_level read_config_volume by auto
  note w = load_any_workerless [OF L this]
  have "reads_nothing (as_volume st1)"
    using c w read_config_volume enable_cache_reads_nothing by (auto simp: workerless_def reads_nothing_def)
  then show "reads_nothing (as_volume st')" using D(3) same mount_keeps(2) by auto
qed

text \<open>A daemon on the machine that made the volume.\<close>

definition with_drive_d :: surroundings where
  "with_drive_d = calm\<lparr>in_fixed := (\<lambda>c. c = CHR ''D'')\<rparr>"

lemma drive_d_looked_at: "CHR ''D'' \<in> set (named_letters None @ fixed_letters (\<lambda>c. c = CHR ''D'') None)"
  by code_simp

theorem daemon_volume_reads_nothing_witness:
  "\<exists>s st'. daemon_begin with_drive_d (blank_service [10, 11, 12, 13] None s) = Inr (True, st') \<and>
     (\<forall>r. stripe_volume_read os_good (as_volume st') zero_mem 0 512 (sv_sys st') \<noteq> Inr (True, r))"
proof -
  obtain vol1 s1 evs where C: "volume_create os_good start_env zero_volume [0, 1] ready_system = Inr (True, vol1, s1, evs)"
    by (rule ready_created)
  have d: "drive_char (s_heap ready_system 1) \<in> set (named_letters None @ fixed_letters (\<lambda>c. c = CHR ''D'') None)"
    using drive_d_looked_at by (simp add: ready_system_def drive_char_def)
  have o: "distinct [10, 11, 12, 13 :: ptr]" "length [0, 1 :: ptr] \<le> length [10, 11, 12, 13 :: ptr]" by simp_all
  let ?st = "blank_service [10, 11, 12, 13] None s1"
  obtain vol2 t2 where L: "volume_load os_good (in_env with_drive_d) (\<lambda>c. c = CHR ''D'') None [] zero_volume [10, 11, 12, 13] s1 =
      Inr (True, vol2, t2, [(EVENT_VOLUME_LOADED, [])])" "v_raid_level vol2 \<noteq> RAID_LEVEL_MIRROR"
    using create_then_load [OF all_good_os_good all_good_os_good zero_blank ready_usable ready_facts(1-3) C refl ready_facts(4) d o,
        of "in_env with_drive_d" "[]" zero_volume] by blast
  obtain st1 where A: "load_any with_drive_d ?st = Inr (True, st1)" "as_volume st1 = vol2"
    using L(1) by (simp add: load_any_def with_drive_d_def calm_def blank_service_def put_def)
  have cfg: "\<exists>cfg. read_config with_drive_d st = Inr (cfg, st)" for st
    by (simp add: read_config_def config_load_def with_drive_d_def calm_def)
  obtain st2 where B: "daemon_load_volume with_drive_d ?st = Inr (True, st2)" "v_raid_level (as_volume st2) = v_raid_level vol2"
    using A cfg [of st1] by (cases "v_generation (as_volume st1) = 0") (auto simp: daemon_load_volume_def enable_cache_level)
  obtain st3 where D: "daemon_begin with_drive_d ?st = Inr (True, st3)" "v_raid_level (as_volume st3) = v_raid_level vol2"
    using B cfg [of st2] mount_keeps(1) by (auto simp: daemon_begin_def Let_def)
  have "(512 :: nat) < 2 ^ 64" by simp
  from daemon_volume_reads_nothing [OF D(1) _ this] D L(2) show ?thesis by metis
qed

end
