(* ===== verification/Monitor.thy ===== *)
theory Monitor
  imports FirstVolume
begin

text \<open>
  What the window shows: the counters of \<^verbatim>\<open>src/src/profiler.c\<close> and the summaries of \<^verbatim>\<open>src/src/ui_model.c\<close>. The
  fields of type \<^verbatim>\<open>double\<close> (times, latencies, rates, percentages) are left out; no other field depends on them.
\<close>

section \<open>The profiler\<close>

record IO_PROFILER =
  pr_read_ops :: nat
  pr_write_ops :: nat
  pr_read_bytes :: nat
  pr_write_bytes :: nat
  pr_read_latency_count :: nat
  pr_write_latency_count :: nat
  pr_pending_ios :: int
  pr_max_queue_depth :: nat
  pr_current_queue_depth :: nat
  pr_active :: "bool list"
  pr_avg_queue_depth :: nat
  pr_last_read_bytes :: nat
  pr_last_write_bytes :: nat
  pr_last_read_ops :: nat
  pr_last_write_ops :: nat

definition SLOTS :: nat where [const]: "SLOTS = 8"
definition NO_SLOT :: nat where [const]: "NO_SLOT = 255"

definition profiler_init :: IO_PROFILER where
  "profiler_init = \<lparr>pr_read_ops = 0, pr_write_ops = 0, pr_read_bytes = 0, pr_write_bytes = 0, pr_read_latency_count = 0,
     pr_write_latency_count = 0, pr_pending_ios = 0, pr_max_queue_depth = 0, pr_current_queue_depth = 0,
     pr_active = replicate SLOTS False, pr_avg_queue_depth = 0, pr_last_read_bytes = 0, pr_last_write_bytes = 0,
     pr_last_read_ops = 0, pr_last_write_ops = 0\<rparr>"

text \<open>The first slot that is free, taken.\<close>

definition find_free_slot :: "IO_PROFILER \<Rightarrow> nat option" where
  "find_free_slot p = (case filter (\<lambda>i. \<not> pr_active p ! i) [0 ..< SLOTS] of [] \<Rightarrow> None | i # _ \<Rightarrow> Some i)"

definition take_slot :: "IO_PROFILER \<Rightarrow> nat \<times> IO_PROFILER" where
  "take_slot p = (case find_free_slot p of None \<Rightarrow> (NO_SLOT, p) | Some i \<Rightarrow> (i, p\<lparr>pr_active := (pr_active p)[i := True]\<rparr>))"

definition profiler_read_begin :: "IO_PROFILER \<Rightarrow> nat \<times> IO_PROFILER" where
  "profiler_read_begin p = take_slot (p\<lparr>pr_pending_ios := pr_pending_ios p + 1\<rparr>)"

definition profiler_write_begin :: "IO_PROFILER \<Rightarrow> nat \<times> IO_PROFILER" where
  "profiler_write_begin p =
     (let qd = nat ((pr_pending_ios p + 1) mod 2 ^ 32)
      in take_slot (p\<lparr>pr_pending_ios := pr_pending_ios p + 1,
           pr_max_queue_depth := (if pr_max_queue_depth p < qd then qd else pr_max_queue_depth p), pr_current_queue_depth := qd\<rparr>))"

text \<open>The number of latencies is halved, with their sum, past a million.\<close>

definition counted :: "nat \<Rightarrow> nat" where
  "counted n = (let m = u32 (n + 1) in if 1000000 < m then m div 2 else m)"

definition profiler_read_end :: "nat \<Rightarrow> nat \<Rightarrow> IO_PROFILER \<Rightarrow> IO_PROFILER" where
  "profiler_read_end slot bytes p =
     (if SLOTS \<le> slot \<or> \<not> pr_active p ! slot then p
      else p\<lparr>pr_active := (pr_active p)[slot := False], pr_pending_ios := pr_pending_ios p - 1, pr_read_ops := u64 (pr_read_ops p + 1),
             pr_read_bytes := u64 (pr_read_bytes p + bytes), pr_read_latency_count := counted (pr_read_latency_count p)\<rparr>)"

definition profiler_write_end :: "nat \<Rightarrow> nat \<Rightarrow> IO_PROFILER \<Rightarrow> IO_PROFILER" where
  "profiler_write_end slot bytes p =
     (if SLOTS \<le> slot \<or> \<not> pr_active p ! slot then p
      else p\<lparr>pr_active := (pr_active p)[slot := False], pr_pending_ios := pr_pending_ios p - 1, pr_write_ops := u64 (pr_write_ops p + 1),
             pr_write_bytes := u64 (pr_write_bytes p + bytes), pr_write_latency_count := counted (pr_write_latency_count p)\<rparr>)"

text \<open>\<open>soon\<close>: less than half a second has passed since the last time.\<close>

definition profiler_update_rates :: "bool \<Rightarrow> nat \<Rightarrow> nat \<Rightarrow> IO_PROFILER \<Rightarrow> IO_PROFILER" where
  "profiler_update_rates soon total_read_bytes total_write_bytes p =
     (if soon then p
      else p\<lparr>pr_avg_queue_depth := pr_current_queue_depth p, pr_last_read_bytes := total_read_bytes,
             pr_last_write_bytes := total_write_bytes, pr_last_read_ops := pr_read_ops p, pr_last_write_ops := pr_write_ops p\<rparr>)"

text \<open>Any sequence of calls, with the number of beginnings that found no slot.\<close>

datatype PROFILER_CALL = Read_begin | Read_end nat nat | Write_begin | Write_end nat nat | Update bool nat nat

definition count_lost :: "nat \<times> IO_PROFILER \<Rightarrow> nat \<Rightarrow> IO_PROFILER \<times> nat" where
  "count_lost r lost = (snd r, if fst r = NO_SLOT then Suc lost else lost)"

fun profiler_step :: "PROFILER_CALL \<Rightarrow> IO_PROFILER \<times> nat \<Rightarrow> IO_PROFILER \<times> nat" where
  "profiler_step Read_begin (p, lost) = count_lost (profiler_read_begin p) lost"
| "profiler_step (Read_end slot bytes) (p, lost) = (profiler_read_end slot bytes p, lost)"
| "profiler_step Write_begin (p, lost) = count_lost (profiler_write_begin p) lost"
| "profiler_step (Write_end slot bytes) (p, lost) = (profiler_write_end slot bytes p, lost)"
| "profiler_step (Update soon r w) (p, lost) = (profiler_update_rates soon r w p, lost)"

definition profiler_run :: "PROFILER_CALL list \<Rightarrow> IO_PROFILER \<times> nat" where
  "profiler_run cs = fold profiler_step cs (profiler_init, 0)"

definition active_count :: "bool list \<Rightarrow> nat" where
  "active_count bs = length (filter id bs)"

lemma active_count_update:
  "i < length bs \<Longrightarrow> \<not> bs ! i \<Longrightarrow> active_count (bs[i := True]) = Suc (active_count bs)"
  "i < length bs \<Longrightarrow> bs ! i \<Longrightarrow> Suc (active_count (bs[i := False])) = active_count bs"
  by (induction bs arbitrary: i) (auto simp: active_count_def nth_Cons split: nat.splits)

definition profiler_inv :: "IO_PROFILER \<times> nat \<Rightarrow> bool" where
  "profiler_inv x \<longleftrightarrow> length (pr_active (fst x)) = SLOTS \<and>
     pr_pending_ios (fst x) = int (active_count (pr_active (fst x))) + int (snd x)"

lemma find_free_slot_free: "find_free_slot p = Some i \<Longrightarrow> i < SLOTS \<and> \<not> pr_active p ! i"
proof -
  assume "find_free_slot p = Some i"
  then obtain others where "filter (\<lambda>i. \<not> pr_active p ! i) [0 ..< SLOTS] = i # others"
    by (auto simp: find_free_slot_def split: list.splits)
  then have "i \<in> set (filter (\<lambda>i. \<not> pr_active p ! i) [0 ..< SLOTS])" by (metis list.set_intros(1))
  then show ?thesis by simp
qed

lemma take_slot_inv:
  assumes "length (pr_active p) = SLOTS" "pr_pending_ios p = int (active_count (pr_active p)) + 1 + int lost"
  shows "profiler_inv (count_lost (take_slot p) lost)"
proof (cases "find_free_slot p")
  case None
  then show ?thesis using assms by (simp add: take_slot_def count_lost_def profiler_inv_def)
next
  case (Some i)
  note f = find_free_slot_free [OF this]
  then have "i \<noteq> NO_SLOT" by (simp add: const)
  then show ?thesis using assms Some f by (simp add: take_slot_def count_lost_def profiler_inv_def active_count_update(1))
qed

lemma profiler_step_inv:
  assumes "profiler_inv x" shows "profiler_inv (profiler_step c x)"
proof -
  obtain p lost where x: "x = (p, lost)" by force
  have I: "length (pr_active p) = SLOTS" "pr_pending_ios p = int (active_count (pr_active p)) + int lost"
    using assms by (simp_all add: profiler_inv_def x)
  have e: "pr_pending_ios p - 1 = int (active_count ((pr_active p)[slot := False])) + int lost"
    if "slot < SLOTS" "pr_active p ! slot" for slot
    using active_count_update(2) [of slot "pr_active p"] that I by simp
  show ?thesis
  proof (cases c)
    case Read_begin
    then show ?thesis using I by (auto simp: x profiler_read_begin_def intro!: take_slot_inv)
  next
    case Write_begin
    then show ?thesis using I by (auto simp: x profiler_write_begin_def Let_def intro!: take_slot_inv)
  next
    case (Read_end slot bytes)
    then show ?thesis using I e [of slot] by (simp add: x profiler_read_end_def profiler_inv_def)
  next
    case (Write_end slot bytes)
    then show ?thesis using I e [of slot] by (simp add: x profiler_write_end_def profiler_inv_def)
  next
    case (Update soon r w)
    then show ?thesis using I by (simp add: x profiler_update_rates_def profiler_inv_def)
  qed
qed

theorem profiler_counts_lost_requests_for_ever:
  "length (pr_active (fst (profiler_run cs))) = SLOTS \<and>
   pr_pending_ios (fst (profiler_run cs)) =
     int (active_count (pr_active (fst (profiler_run cs)))) + int (snd (profiler_run cs))"
proof -
  have "profiler_inv (profiler_init, 0)" by (simp add: profiler_inv_def profiler_init_def active_count_def)
  then have "profiler_inv (fold profiler_step cs (profiler_init, 0))"
    by (induction cs rule: rev_induct) (simp_all add: profiler_step_inv)
  then show ?thesis by (simp add: profiler_run_def profiler_inv_def)
qed

section \<open>The summaries\<close>

record UI_DISK_SUMMARY =
  us_count :: nat
  us_selected_count :: nat
  us_total_capacity_mb :: nat
  us_write_speed_avg_mbs :: nat

definition ui_get_disk_summary :: "service \<Rightarrow> UI_DISK_SUMMARY" where
  "ui_get_disk_summary st =
     (let ds = map (s_heap (sv_sys st)) (as_physical_disks st);
          speeds = filter (\<lambda>n. 0 < n) (map (\<lambda>d. if d_benchmarked d then d_bench_write_mbs d else d_write_speed_mbs d) ds)
      in \<lparr>us_count = length ds, us_selected_count = length (filter d_selected ds),
          us_total_capacity_mb = foldl (\<lambda>n d. u64 (n + (if 0 < d_pool_bytes d then d_pool_bytes d else d_total_bytes d) div (1024 * 1024))) 0 ds,
          us_write_speed_avg_mbs = (if speeds = [] then 0 else foldl (\<lambda>n k. u32 (n + k)) 0 speeds div length speeds)\<rparr>)"

record UI_VOLUME_INFO =
  ui_exists :: bool
  ui_raid_level :: nat
  ui_disk_count :: nat
  ui_virtual_capacity_bytes :: nat
  ui_generation :: nat
  ui_uuid_str :: string
  ui_mounted :: bool
  ui_cache_enabled :: bool
  ui_cache_mb :: nat
  ui_bytes_written :: nat
  ui_bytes_read :: nat
  ui_mount_point :: string

definition ui_get_volume_info :: "service \<Rightarrow> UI_VOLUME_INFO" where
  "ui_get_volume_info st =
     (let vol = as_volume st
      in if \<not> as_volume_valid st
         then \<lparr>ui_exists = False, ui_raid_level = 0, ui_disk_count = 0, ui_virtual_capacity_bytes = 0, ui_generation = 0, ui_uuid_str = [],
               ui_mounted = False, ui_cache_enabled = False, ui_cache_mb = 0, ui_bytes_written = 0, ui_bytes_read = 0, ui_mount_point = []\<rparr>
         else \<lparr>ui_exists = True, ui_raid_level = v_raid_level vol, ui_disk_count = v_disk_count vol,
               ui_virtual_capacity_bytes = v_virtual_total_bytes vol, ui_generation = v_generation vol,
               ui_uuid_str = uuid_to_str (v_volume_uuid vol), ui_mounted = as_mounted st, ui_cache_enabled = v_cache_enabled vol,
               ui_cache_mb = as_cache_mb st, ui_bytes_written = v_bytes_written vol, ui_bytes_read = v_bytes_read vol,
               ui_mount_point = v_mount_point vol\<rparr>)"

record UI_HEALTH_SUMMARY =
  uh_healthy_count :: nat
  uh_total_count :: nat
  uh_degraded :: bool

definition ui_get_health_summary :: "service \<Rightarrow> UI_HEALTH_SUMMARY" where
  "ui_get_health_summary st =
     (if \<not> as_volume_valid st then \<lparr>uh_healthy_count = 0, uh_total_count = 0, uh_degraded = False\<rparr>
      else let healthy = nat (v_healthy_count (as_volume st) mod 2 ^ 32)
        in \<lparr>uh_healthy_count = healthy, uh_total_count = v_disk_count (as_volume st), uh_degraded = healthy < v_disk_count (as_volume st)\<rparr>)"

definition ui_get_state_str :: "service \<Rightarrow> string" where
  "ui_get_state_str st = raid_state_str (as_state st)"

text \<open>Only the mirror counts healthy disks, but the summary compares the count for every volume.\<close>

lemma workers_init_healthy:
  "stripe_volume_workers_init os vol s = Inr (r, vol', s') \<Longrightarrow>
     v_healthy_count vol' = v_healthy_count vol \<and> v_disk_count vol' = v_disk_count vol"
  by (auto simp: stripe_volume_workers_init_def split: if_splits prod.splits option.splits)

lemma stripe_create_healthy:
  assumes "stripe_volume_create heap now vol disks su = Inr (True, vol')"
  shows "v_healthy_count vol' = 0 \<and> v_disk_count vol' = length disks \<and> 0 < length disks"
  using assms by (auto simp: stripe_volume_create_def Let_def zero_volume_def const split: if_splits)

lemma volume_create_healthy:
  assumes "volume_create os env vol disks s = Inr (True, vol', s', evs)"
  shows "v_healthy_count vol' = 0 \<and> v_disk_count vol' = length disks \<and> 0 < length disks"
proof -
  note R = assms [unfolded volume_create_def volume_create_internal_def]
  obtain vol1 s1 where 1: "cleanup_volume_cache os env vol s = Inr (vol1, s1)" using R by (auto simp: and_then_eq)
  obtain vol2 s2 where 2: "stripe_volume_destroy vol1 s1 = Inr (vol2, s2)" using R 1 by (auto simp: and_then_eq)
  obtain opened s3 where 3: "open_pools os [] disks s2 = (opened, s3)" by force
  have opened using R 1 2 3 by (cases opened) simp_all
  with R 1 2 3 have R2: "and_then (create_with StripeFn env vol2 disks s3) (\<lambda>(created, vol3, s4).
      if \<not> created then Inr (False, vol3, close_pools disks s4, [])
      else and_then (if v_raid_level vol3 = RAID_LEVEL_STRIPE then stripe_volume_workers_init os vol3 s4
                     else Inr (True, vol3, s4)) (\<lambda>(started, vol4, s5).
        if \<not> started then Inr (False, vol4, close_pools disks s5, [])
        else and_then (metadata_write os env (volume_gen_uuid env vol4) s5) (\<lambda>(_, vol5, s6, evs).
          Inr (True, vol5, s6, evs @ [(EVENT_VOLUME_CREATED, ''RAID0'')])))) = Inr (True, vol', s', evs)" by simp
  then obtain created vol3 where C0: "stripe_volume_create (s_heap s3) (en_counter env) vol2 disks DEFAULT_STRIPE_UNIT = Inr (created, vol3)"
    by (auto simp: and_then_eq)
  have C: "stripe_volume_create (s_heap s3) (en_counter env) vol2 disks DEFAULT_STRIPE_UNIT = Inr (True, vol3)"
    using R2 C0 by (cases created) simp_all
  note S = stripe_volume_create_shape(1) [OF C]
  obtain started vol4 s5 where W: "stripe_volume_workers_init os vol3 s3 = Inr (started, vol4, s5)"
    using R2 C S by (auto simp: and_then_eq)
  have st: started using R2 C S W by (cases started) simp_all
  obtain ok s6 evs6 where M: "metadata_write os env (volume_gen_uuid env vol4) s5 = Inr (ok, vol', s6, evs6)"
    using R2 C S W st by (auto simp: and_then_eq)
  have "v_healthy_count vol4 = v_healthy_count vol3 \<and> v_disk_count vol4 = v_disk_count vol3"
    using workers_init_healthy [OF W] .
  moreover have "v_healthy_count vol' = v_healthy_count vol4 \<and> v_disk_count vol' = v_disk_count vol4"
    using metadata_write_keep(1) [OF M] by (auto simp: volume_gen_uuid_def)
  ultimately show ?thesis using stripe_create_healthy [OF C] by simp
qed

theorem new_stripe_is_shown_degraded:
  assumes "raid_create_locked inp st = Inr (RC_OK, st')"
  shows "as_state st' = STATE_MOUNTED \<and> uh_degraded (ui_get_health_summary st') \<and> uh_healthy_count (ui_get_health_summary st') = 0"
proof -
  obtain vol s evs where C: "volume_create (in_os inp) (in_env inp) (as_volume st) (as_disks st) (sv_sys st) = Inr (True, vol, s, evs)" and
    e: "st' = (put vol s evs st)\<lparr>as_volume_valid := True, as_state := STATE_MOUNTED, as_cache_on := False, as_flush_thread := False\<rparr>"
    using assms by (auto simp: raid_create_locked_def require_def and_then_eq split: if_splits)
  show ?thesis using volume_create_healthy [OF C] e by (simp add: ui_get_health_summary_def put_def Let_def)
qed

theorem new_stripe_is_shown_degraded_witness:
  "\<exists>st1 st2. dispatch calm ''init'' [''0:1024'', ''1:2048''] scanned_service = Inr (RC_OK, st1) \<and>
     raid_create_locked calm st1 = Inr (RC_OK, st2) \<and> as_state st2 = STATE_MOUNTED \<and> uh_degraded (ui_get_health_summary st2)"
proof -
  obtain st1 st2 where R: "dispatch calm ''init'' [''0:1024'', ''1:2048''] scanned_service = Inr (RC_OK, st1)"
    "dispatch calm ''create'' [] st1 = Inr (RC_OK, st2)"
    using first_volume_run [OF scanned_blank(3,3,1,2) two_good_pairs, unfolded two_pair_args] by blast
  have "raid_create_locked calm st1 = Inr (RC_OK, st2)" using R(2) by (simp add: dispatch_def)
  from new_stripe_is_shown_degraded [OF this] this R(1) show ?thesis by blast
qed

end
