(* ===== verification/Spec2Isabelle.thy ===== *)
theory Spec2Isabelle
  imports LayoutLoop IoRing Workers RawIo RamCache Mirror Crc Codec StripeIo Journal CacheFlush CachedIo PoolIo Superblock FuseBridge EventBus Planner VolumeLife Sessions FirstVolume Physical Startup Monitor
begin

text \<open>
  A model of RAIDTEST, a program for Windows that joins the pool files of two to four drives of different
  speeds into one striped or mirrored volume, caches and journals its writes, keeps a superblock on every
  drive, and mounts the volume through WinFsp. The C sources are under \<^verbatim>\<open>src/src\<close>; this development
  follows them file by file.

  \<^bold>\<open>How the program works.\<close> A command line, a daemon or a window calls the service (\<^verbatim>\<open>raid_service.c\<close>), which
  guards every call by a state machine. The service makes pool files on the drives of the device list and
  hands them to the volume manager, which lays the volume out (\<^verbatim>\<open>stripe_engine.c\<close>, \<^verbatim>\<open>mirror_engine.c\<close>), starts
  one worker thread for each disk and writes the superblock. Reads and writes come from the file system
  (\<^verbatim>\<open>fuse_bridge.c\<close>) as byte ranges of the volume; they go to the RAM cache, or are mapped to ranges of the disks and
  passed through rings to the workers. A flush writes the dirty blocks of the cache to the disks, with a
  journal around it that is replayed when the volume is loaded after a crash. An event bus tells a log
  about changes.

  \<^bold>\<open>The state.\<close> A \<open>sys\<close> (\<open>StorageTypes\<close>) is a heap of \<^verbatim>\<open>DISK_INFO\<close> records by address, the bytes of the pool files
  by path, the small files (superblocks, journals, the event log) by path, and the number of system calls made. The
  \<open>n\<close>-th system call takes its outcome from an oracle \<open>os\<close>, so that a theorem over all \<open>os\<close> covers every
  pattern of failures, of partial transfers and every point of a crash; \<open>all_good\<close> is the oracle of a working system.
  A \<open>STRIPE_VOLUME\<close> holds its disks as pointers, its phases, its cache, its workers. A call that leaves the
  language or waits for ever is \<open>Inl\<close> of a \<open>fault\<close>: a buffer overrun, an index out of bounds, a null pointer,
  a deadlock, a division by zero. Unsigned numbers are \<open>nat\<close> with the wrap-around of their width written out
  (\<open>u32\<close>, \<open>u64\<close>, \<open>sub32\<close>, \<open>sub64\<close>); bytes, bitmaps, checksums and the sequence numbers of the rings are words.
  \<^verbatim>\<open>LONG\<close> counters are \<open>int\<close>.

  \<^bold>\<open>The theories, with what they model and show.\<close>

  \<^item> \<open>Prelude\<close>: wrap-around arithmetic, faults, byte memories, and the collections \<open>wrap\<close>, \<open>mem\<close> and \<open>const\<close>.
  \<^item> \<open>Common\<close>, \<open>StorageTypes\<close>: \<^verbatim>\<open>common.h\<close>, its constants, enumerations, number parsers and structures.
  \<^item> \<open>StripeMap\<close>, \<open>AddressMap\<close>, \<open>LayoutLoop\<close>: \<^verbatim>\<open>stripe_engine.c\<close>, ratios, phases, the map from virtual to physical bytes. The
    map is a bijection from the volume's bytes to the cells of its extents (\<open>wf_layout\<close>, \<open>cells\<close>); requests map to
    exactly their bytes; creating and expanding build well-formed layouts that use a known prefix of each pool.
  \<^item> \<open>IoRing\<close>, \<open>Workers\<close>, \<open>RawIo\<close>: the request ring, the workers and their start and stop, submission and completion, and
    \<^verbatim>\<open>storage_common.c\<close>. A ring is a bounded queue, across the wrap of its sequence numbers; submitted
    entries write and read exactly their cells.
  \<^item> \<open>Mirror\<close>: \<^verbatim>\<open>mirror_engine.c\<close>. Reads, writes and the rebuild refine those of one disk for all outcomes of the calls.
  \<^item> \<open>RamCache\<close>, \<open>CacheFlush\<close>, \<open>CachedIo\<close>: \<^verbatim>\<open>ram_cache.c\<close>, its invariant, the flush against the disks and the journal, and the
    volume with a cache.
  \<^item> \<open>Crc\<close>, \<open>Codec\<close>: \<^verbatim>\<open>crc32.c\<close> against division by the polynomial, bit by bit, with the bursts it detects, and the fields and seals
    of on-disk records.
  \<^item> \<open>StripeIo\<close>: reads and writes of a volume and the self tests.
  \<^item> \<open>Journal\<close>: \<^verbatim>\<open>journal.c\<close>. The scan inverts what the calls append, torn tail included; recovery replays what was
    journalled, to the members of a mirror and over nothing else (\<open>mirror_loaded\<close>).
  \<^item> \<open>PoolIo\<close>, \<open>Superblock\<close>: \<^verbatim>\<open>pool_io.c\<close>, \<^verbatim>\<open>superblock.c\<close>, \<^verbatim>\<open>uuid.c\<close>. The four formats, the write by a temporary file and a
    rename, which is atomic under crashes, and the restoring of a volume.
  \<^item> \<open>FileTable\<close>, \<open>FuseBridge\<close>: \<^verbatim>\<open>fuse_bridge.c\<close>. The table of names as a tree and the calls of the file system.
  \<^item> \<open>EventBus\<close>, \<open>Planner\<close>: \<^verbatim>\<open>event_bus.c\<close>, \<^verbatim>\<open>planner_engine.c\<close>.
  \<^item> \<open>VolumeManager\<close>, \<open>VolumeLife\<close>: \<^verbatim>\<open>volume_manager.c\<close>, \<^verbatim>\<open>metadata_manager.c\<close>, and what follows for a volume from its creation over
    loading and expanding to its end.
  \<^item> \<open>Devices\<close>, \<open>Config\<close>, \<open>BenchIo\<close>: \<^verbatim>\<open>disk_scanner.c\<close>, \<^verbatim>\<open>device_manager.c\<close>, \<^verbatim>\<open>config.c\<close>, \<^verbatim>\<open>bench_io.c\<close>. The text of a
    configuration reads back as what was saved, except its disks.
  \<^item> \<open>ServiceState\<close>, \<open>Service\<close>, \<open>Commands\<close>: \<^verbatim>\<open>cleanup.c\<close>, \<^verbatim>\<open>raid_service.c\<close>, \<^verbatim>\<open>raid_query.c\<close>, \<^verbatim>\<open>wizard.c\<close>, \<^verbatim>\<open>cmd_handler.c\<close>. What a call
    finds outside (outcomes, drives, the addresses of \<^verbatim>\<open>malloc\<close>, the lines typed) is the record \<open>surroundings\<close>.
  \<^item> \<open>Lifecycle\<close>, \<open>Sessions\<close>, \<open>FirstVolume\<close>, \<open>Physical\<close>: the state machine as a step relation, every command as one of its moves, the
    invariant of all sessions, refused commands, the way from a scan to a mounted volume, and the list of
    disks that only the wizard fills.
  \<^item> \<open>Startup\<close>, \<open>Monitor\<close>: \<^verbatim>\<open>daemon.c\<close> and \<^verbatim>\<open>main.c\<close>, with what the end of a session saves and closes; \<^verbatim>\<open>profiler.c\<close> and \<^verbatim>\<open>ui_model.c\<close>.

  \<^bold>\<open>Interfaces.\<close> Contracts that several parts rely on are locales, interpreted on the code's definitions: \<open>byte_store\<close> (a raw disk,
  a striped volume), \<open>sealed_record\<close> (journal records, superblocks of each version), \<open>bounded_queue\<close> (the ring), \<open>bit_array\<close> (the
  bitmaps of the cache), \<open>directory\<close> (the table of names) and \<open>bus\<close> (the events).

  \<^bold>\<open>How theorems combine.\<close> \<open>stripe_good cap su vol s\<close> says that a striped volume of \<open>cap\<close> bytes is laid out well and that
  its workers run; creating a volume, in \<open>VolumeLife\<close> and through the commands in
  \<open>FirstVolume\<close>, produces it, the theorems on reads, writes, self tests,
  recovery and expansion start from it and keep it. \<open>flush_ready\<close> adds the cache, \<open>mirror_inv\<close> is its counterpart for
  mirrors, \<open>mirror_loaded\<close> is how a load leaves a mirror (\<open>restored_mirror_loaded\<close> in \<open>VolumeLife\<close>), \<open>usable\<close> is what creation asks of its disks, and \<open>service_inv\<close> is what every session keeps.

  \<^bold>\<open>Bounds and termination.\<close> Loops are structural recursions or have a measure; three that may not end, the mapping of a
  request, the dump of the mapping and the scan of a journal, are partial functions with \<open>None\<close> for not ending, and the theorems
  state that they return. The theorems on single requests bound them by \<open>unit_bytes\<close> (63 stripe units, below 4 GB),
  where the entries fit the fixed array of submissions; a theorem of \<open>StripeIo\<close> shows that the bound is needed. Pools are below
  \<open>2 ^ 56\<close> bytes and speeds below \<open>2 ^ 32\<close>, so that no sum of the layout wraps.

  \<^bold>\<open>Threads.\<close> A worker serves a request when it is waited for, requests of one call in any order being independent,
  since their cells are disjoint; the flush thread runs between calls. Calls of the service are atomic, since they
  hold one lock.

  \<^bold>\<open>Not modelled.\<close> The window (\<^verbatim>\<open>gui.cpp\<close>) and ImGui under it, the logger, the tests, the headers of WinFsp; in modelled files
  printed tables and log lines, freeing of memory, the service manager's calls, fields of type \<^verbatim>\<open>double\<close>, and the speeds that timed
  passes measure, which are arguments. WinFsp, the C library and Windows enter by the oracle and by what they
  document; the existence of a pool file is decided by the outcome of opening it.
\<close>

end
